(* ===== verification/Prelude.thy ===== *)
theory Prelude
  imports Main "HOL-Library.Word" "HOL-Library.Multiset"
begin

text \<open>
  Shared vocabulary of the development: the machine types of the C sources as words, the
  error monad in which early returns are written, little-endian byte strings (what
  \<open>memcpy\<close> of a fixed-width integer produces on the little-endian hosts the library is
  built for), bounds-checked reads and in-place writes of byte buffers, the interface of a
  fixed-width codec, and the list lemmas the components share.
\<close>

unbundle bit_operations_syntax

section \<open>Machine types\<close>

type_synonym byte = "8 word"
type_synonym u16 = "16 word"
type_synonym u32 = "32 word"
type_synonym u64 = "64 word"
type_synonym bytes = "byte list"

abbreviation (input) UINT32_MAX :: nat where
  "UINT32_MAX \<equiv> 4294967295"

named_theorems bytes_simps \<open>lengths and contents of encoded byte strings\<close>
named_theorems outcome_simps \<open>rewriting of the error monad\<close>

section \<open>The error monad\<close>

text \<open>
  A C function that returns \<open>false\<close> early is a computation in a sum type: \<open>Inl e\<close> is an
  early return, \<open>Inr x\<close> a result. \<open>bindE\<close> runs the rest of the function only after a result.
\<close>

definition bindE :: "'e + 'a \<Rightarrow> ('a \<Rightarrow> 'e + 'b) \<Rightarrow> 'e + 'b" where
  "bindE m f = (case m of Inl e \<Rightarrow> Inl e | Inr x \<Rightarrow> f x)"

lemma bindE_Inl [simp]: "bindE (Inl e) f = Inl e"
  by (simp add: bindE_def)

lemma bindE_Inr [simp]: "bindE (Inr x) f = f x"
  by (simp add: bindE_def)

lemma bindE_eq_Inr [outcome_simps]:
  "bindE m f = Inr y \<longleftrightarrow> (\<exists>x. m = Inr x \<and> f x = Inr y)"
  by (cases m) auto

lemma bindE_eq_Inl [outcome_simps]:
  "bindE m f = Inl e \<longleftrightarrow> m = Inl e \<or> (\<exists>x. m = Inr x \<and> f x = Inl e)"
  by (cases m) auto

lemma bindE_cong [fundef_cong]:
  "m = m' \<Longrightarrow> (\<And>x. m' = Inr x \<Longrightarrow> f x = f' x) \<Longrightarrow> bindE m f = bindE m' f'"
  by (cases m') auto

lemma bindE_assoc: "bindE (bindE m f) g = bindE m (\<lambda>x. bindE (f x) g)"
  by (cases m) auto

lemma bindE_cases:
  assumes "bindE m f = r"
  obtains (Left) e where "m = Inl e" and "r = Inl e"
  | (Right) x where "m = Inr x" and "f x = r"
  using assms by (cases m) auto

definition is_ok :: "'e + 'a \<Rightarrow> bool" where
  "is_ok m = (case m of Inl _ \<Rightarrow> False | Inr _ \<Rightarrow> True)"

lemma is_ok_simps [simp]: "is_ok (Inr x)" "\<not> is_ok (Inl e)"
  by (simp_all add: is_ok_def)

lemma is_ok_iff: "is_ok m \<longleftrightarrow> (\<exists>x. m = Inr x)"
  by (cases m) auto

section \<open>Little-endian integers\<close>

definition le_bytes :: "nat \<Rightarrow> 'a::len word \<Rightarrow> bytes" where
  "le_bytes n w = map (\<lambda>i. ucast (drop_bit (8 * i) w)) [0..<n]"

definition le_word :: "bytes \<Rightarrow> 'a::len word" where
  "le_word bs = foldr (\<lambda>b acc. ucast b OR push_bit 8 acc) bs 0"

lemma le_word_Nil [simp]: "le_word [] = 0"
  by (simp add: le_word_def)

lemma le_word_Cons [simp]: "le_word (b # bs) = ucast b OR push_bit 8 (le_word bs)"
  by (simp add: le_word_def)

lemma length_le_bytes [simp, bytes_simps]: "length (le_bytes n w) = n"
  by (simp add: le_bytes_def)

lemma nth_le_bytes [bytes_simps]: "i < n \<Longrightarrow> le_bytes n w ! i = ucast (drop_bit (8 * i) w)"
  by (simp add: le_bytes_def)

lemma bit_byte_bound: "bit (b :: byte) i \<Longrightarrow> i < 8"
  by (auto dest: bit_imp_le_length)

lemma bit_le_word:
  "bit (le_word bs :: 'a::len word) i \<longleftrightarrow>
     i < LENGTH('a) \<and> i div 8 < length bs \<and> bit (bs ! (i div 8)) (i mod 8)"
proof (induction bs arbitrary: i)
  case Nil
  then show ?case by simp
next
  case (Cons b bs)
  show ?case
  proof (cases "i < 8")
    case True
    then show ?thesis
      by (auto simp: bit_or_iff bit_push_bit_iff bit_ucast_iff)
  next
    case False
    then obtain j where i: "i = 8 + j" by (metis add.commute le_Suc_ex not_less)
    then have "i div 8 = Suc (j div 8)" "i mod 8 = j mod 8" "i - 8 = j" by auto
    with False i show ?thesis
      by (auto simp: bit_or_iff bit_push_bit_iff bit_ucast_iff Cons.IH dest: bit_byte_bound)
  qed
qed

lemma le_word_le_bytes:
  assumes "LENGTH('a) \<le> 8 * n"
  shows "le_word (le_bytes n (w :: 'a::len word)) = w"
proof (rule bit_eqI)
  fix i assume "possible_bit TYPE('a word) i"
  then have "i < LENGTH('a)" by simp
  moreover from this have "i div 8 < n" using assms by auto
  ultimately show "bit (le_word (le_bytes n w) :: 'a word) i \<longleftrightarrow> bit w i"
    by (simp add: bit_le_word nth_le_bytes bit_ucast_iff bit_drop_bit_eq)
qed

lemma le_bytes_le_word:
  assumes "8 * length bs \<le> LENGTH('a)"
  shows "le_bytes (length bs) (le_word bs :: 'a::len word) = bs"
proof (rule nth_equalityI)
  fix i assume "i < length (le_bytes (length bs) (le_word bs :: 'a word))"
  then have i: "i < length bs" by simp
  show "le_bytes (length bs) (le_word bs :: 'a word) ! i = bs ! i"
  proof (rule bit_eqI)
    fix j assume "possible_bit TYPE(byte) j"
    then have j: "j < 8" by simp
    then have "(8 * i + j) div 8 = i" "(8 * i + j) mod 8 = j" by auto
    moreover have "8 * i + j < LENGTH('a)" using assms i j by linarith
    ultimately show "bit (le_bytes (length bs) (le_word bs :: 'a word) ! i) j \<longleftrightarrow> bit (bs ! i) j"
      using i j by (simp add: nth_le_bytes bit_ucast_iff bit_drop_bit_eq bit_le_word)
  qed
qed simp

lemmas le_roundtrip [simp] =
  le_word_le_bytes [where 'a = 64 and n = 8, simplified]
  le_word_le_bytes [where 'a = 32 and n = 4, simplified]
  le_word_le_bytes [where 'a = 16 and n = 2, simplified]

section \<open>Byte buffers\<close>

text \<open>
  A read of \<open>n\<close> bytes at offset \<open>off\<close> is \<open>None\<close> exactly when it leaves the buffer, where
  the C program has undefined behaviour. \<open>patch\<close> overwrites bytes in place; the callers
  check the range.
\<close>

definition read_at :: "bytes \<Rightarrow> nat \<Rightarrow> nat \<Rightarrow> bytes option" where
  "read_at base off n = (if off + n \<le> length base then Some (take n (drop off base)) else None)"

definition patch :: "nat \<Rightarrow> bytes \<Rightarrow> bytes \<Rightarrow> bytes" where
  "patch off bs base = take off base @ bs @ drop (off + length bs) base"

definition zeros :: "nat \<Rightarrow> bytes" where
  "zeros n = replicate n 0"

lemma length_zeros [simp, bytes_simps]: "length (zeros n) = n"
  by (simp add: zeros_def)

lemma zeros_0 [simp]: "zeros 0 = []"
  by (simp add: zeros_def)

lemma read_at_eq_Some [bytes_simps]:
  "read_at base off n = Some bs \<longleftrightarrow> off + n \<le> length base \<and> bs = take n (drop off base)"
  by (auto simp: read_at_def)

lemma read_at_eq_None [bytes_simps]: "read_at base off n = None \<longleftrightarrow> length base < off + n"
  by (auto simp: read_at_def)

lemma read_at_append_left:
  "off + n \<le> length xs \<Longrightarrow> read_at (xs @ ys) off n = read_at xs off n"
  by (simp add: read_at_def)

lemma read_at_append_right: "read_at (xs @ ys) (length xs + off) n = read_at ys off n"
  by (simp add: read_at_def)

lemma read_at_middle: "read_at (xs @ ys @ zs) (length xs) (length ys) = Some ys"
  by (simp add: read_at_def)

lemma length_patch [simp, bytes_simps]:
  "off + length bs \<le> length base \<Longrightarrow> length (patch off bs base) = length base"
  by (simp add: patch_def)

lemma patch_middle:
  "length ys = length bs \<Longrightarrow> patch (length xs) bs (xs @ ys @ zs) = xs @ bs @ zs"
  by (simp add: patch_def)

lemma patch_append_left:
  "off + length bs \<le> length xs \<Longrightarrow> patch off bs (xs @ ys) = patch off bs xs @ ys"
  by (simp add: patch_def)

lemma patch_append_right:
  "patch (length xs + off) bs (xs @ ys) = xs @ patch off bs ys"
  by (simp add: patch_def)

lemma patch_Nil [simp]: "patch off [] base = base"
  by (simp add: patch_def)

section \<open>Fixed-width codecs\<close>

text \<open>
  The format stores arrays of fixed-size structs. A codec writes a valid value in exactly
  \<open>width\<close> bytes and reads it back from any buffer that starts with those bytes; then the
  \<open>i\<close>-th element of an encoded array is found at offset \<open>i * width\<close>.
\<close>

locale byte_codec =
  fixes enc :: "'a \<Rightarrow> bytes"
    and dec :: "bytes \<Rightarrow> 'a"
    and width :: nat
    and valid :: "'a \<Rightarrow> bool"
  assumes length_enc: "valid x \<Longrightarrow> length (enc x) = width"
    and dec_enc: "valid x \<Longrightarrow> dec (enc x) = x"
begin

lemma length_concat_enc:
  "(\<forall>x \<in> set xs. valid x) \<Longrightarrow> length (concat (map enc xs)) = length xs * width"
  by (induction xs) (auto simp: length_enc)

lemma read_at_concat_enc:
  assumes "\<forall>x \<in> set xs. valid x" and "i < length xs"
  shows "read_at (concat (map enc xs)) (i * width) width = Some (enc (xs ! i))"
proof -
  let ?l = "concat (map enc (take i xs))" and ?r = "concat (map enc (drop (Suc i) xs))"
  have split: "concat (map enc xs) = ?l @ enc (xs ! i) @ ?r"
    using assms(2) by (metis concat.simps(2) concat_append id_take_nth_drop list.simps(9) map_append)
  have "length ?l = i * width"
    using assms by (subst length_concat_enc) (auto dest: in_set_takeD)
  moreover have "length (enc (xs ! i)) = width" using assms by (simp add: length_enc)
  ultimately show ?thesis using read_at_middle [of ?l "enc (xs ! i)" ?r] split by simp
qed

lemma dec_nth:
  assumes "\<forall>x \<in> set xs. valid x" and "i < length xs"
  shows "map_option dec (read_at (pre @ concat (map enc xs) @ post) (length pre + i * width) width)
           = Some (xs ! i)"
proof -
  have "i * width + width \<le> length (concat (map enc xs))"
    using assms by (simp add: length_concat_enc) (metis Suc_leI mult_Suc mult_le_mono1 add.commute)
  then show ?thesis
    using read_at_concat_enc [OF assms] assms
    by (simp add: read_at_append_right read_at_append_left dec_enc)
qed

end

section \<open>Words that do not wrap\<close>

lemma of_nat_u32_eq: "n < 2 ^ 32 \<Longrightarrow> m < 2 ^ 32 \<Longrightarrow> (of_nat n :: u32) = of_nat m \<longleftrightarrow> n = m"
  by (simp add: word_unat_eq_iff unat_of_nat)

lemma unat_of_nat_u32 [simp]: "n < 4294967296 \<Longrightarrow> unat (of_nat n :: u32) = n"
  by (simp add: unat_of_nat)

lemma unat_of_nat_u64 [simp]: "n < 18446744073709551616 \<Longrightarrow> unat (of_nat n :: u64) = n"
  by (simp add: unat_of_nat)

lemma unat_ucast_u32 [simp]: "unat (ucast (w :: u32) :: u64) = unat w"
proof -
  have "unat w < 2 ^ 64" using unsigned_less [of w, where ?'a = nat] by simp
  then show ?thesis by (simp only: unsigned_ucast_eq take_bit_nat_eq_self len_of_numeral_defs)
      (simp add: take_bit_nat_eq_self)
qed

lemma unat_u32_less: "unat (w :: u32) < 2 ^ 32"
  using unsigned_less [of w, where ?'a = nat] by simp

lemma unat_u64_less: "unat (w :: u64) < 2 ^ 64"
  using unsigned_less [of w, where ?'a = nat] by simp

lemma unat_sum:
  fixes a b :: u64
  assumes "unat a + unat b < 2 ^ 64"
  shows "unat (a + b) = unat a + unat b"
  using assms by (simp add: unat_word_ariths(1))

lemma unat_add_nat:
  fixes a :: u64
  assumes "unat a + n < 2 ^ 64"
  shows "unat (a + of_nat n) = unat a + n"
  using assms by (simp add: unat_word_ariths(1))

lemma unat_scale:
  fixes i :: u64
  assumes "unat i * n < 2 ^ 64" and "n < 2 ^ 64"
  shows "unat (i * of_nat n) = unat i * n"
  using assms by (simp add: unat_word_ariths(2))

section \<open>Lists\<close>

lemma nth_concat_at:
  "i < length xss \<Longrightarrow> j < length (xss ! i) \<Longrightarrow>
     concat xss ! (length (concat (take i xss)) + j) = xss ! i ! j"
  by (subst (1) id_take_nth_drop [of i xss]) (simp_all add: nth_append)

lemma filter_nth_rank:
  "i < length xs \<Longrightarrow> P (xs ! i) \<Longrightarrow> filter P xs ! length (filter P (take i xs)) = xs ! i"
  by (subst (1) id_take_nth_drop [of i xs]) (simp_all add: nth_append)

lemma filter_rank_less:
  "i < length xs \<Longrightarrow> P (xs ! i) \<Longrightarrow> length (filter P (take i xs)) < length (filter P xs)"
  by (subst (2) id_take_nth_drop [of i xs]) simp_all

lemma filter_rank_strict:
  assumes "i < j" and "j \<le> length xs" and "P (xs ! i)"
  shows "length (filter P (take i xs)) < length (filter P (take j xs))"
  using assms filter_rank_less [of i "take j xs" P] by (simp add: min_def)

text \<open>Pigeonhole: an injection of the indices of a list into themselves reaches every index.\<close>

lemma inj_on_lessThan_surj:
  fixes f :: "nat \<Rightarrow> nat"
  assumes "inj_on f {..<n}" and "f ` {..<n} \<subseteq> {..<n}"
  shows "f ` {..<n} = {..<n}"
  using assms by (simp add: endo_inj_surj)

end
