(* ===== verification/Format.thy ===== *)
theory Format
  imports Prelude
begin

text \<open>
  The on-disk format: \<open>include/public/bc_hrbl_types.h\<close> and
  \<open>include/internal/bc_hrbl_format_internal.h\<close>. Value kinds, the packed structs with the
  byte offsets their static assertions fix, the alignment arithmetic, and the fixed-size
  loads and stores, which are the codecs interpreted at the end.
\<close>

section \<open>Constants\<close>

definition BC_HRBL_MAGIC :: u32 where
  "BC_HRBL_MAGIC = 0x4C425248"

definition BC_HRBL_VERSION_MAJOR :: u16 where
  "BC_HRBL_VERSION_MAJOR = 1"

definition BC_HRBL_VERSION_MINOR :: u16 where
  "BC_HRBL_VERSION_MINOR = 0"

abbreviation (input) HEADER_SIZE :: nat where "HEADER_SIZE \<equiv> 128"
abbreviation (input) FOOTER_SIZE :: nat where "FOOTER_SIZE \<equiv> 32"
abbreviation (input) ROOT_INDEX_OFFSET :: nat where "ROOT_INDEX_OFFSET \<equiv> 128"
abbreviation (input) ENTRY_SIZE :: nat where "ENTRY_SIZE \<equiv> 24"
abbreviation (input) ARRAY_ELEMENT_SIZE :: nat where "ARRAY_ELEMENT_SIZE \<equiv> 8"

definition BC_HRBL_ROOT_COUNT_MAX :: u64 where
  "BC_HRBL_ROOT_COUNT_MAX = 0xFFFFFFFFFFFFFFFF div 24"

definition BC_HRBL_FLAGS_V1_REQUIRED :: u64 where
  "BC_HRBL_FLAGS_V1_REQUIRED = push_bit 0 1 OR push_bit 1 1 OR push_bit 2 1 OR push_bit 3 1"

definition BC_HRBL_FLAGS_V1_RESERVED_MASK :: u64 where
  "BC_HRBL_FLAGS_V1_RESERVED_MASK = NOT BC_HRBL_FLAGS_V1_REQUIRED"

section \<open>Value kinds\<close>

datatype kind = K_NULL | K_FALSE | K_TRUE | K_INT64 | K_UINT64 | K_FLOAT64 | K_STRING
  | K_BLOCK | K_ARRAY

fun kind_code :: "kind \<Rightarrow> byte" where
  "kind_code K_NULL = 0x00"
| "kind_code K_FALSE = 0x01"
| "kind_code K_TRUE = 0x02"
| "kind_code K_INT64 = 0x03"
| "kind_code K_UINT64 = 0x04"
| "kind_code K_FLOAT64 = 0x05"
| "kind_code K_STRING = 0x06"
| "kind_code K_BLOCK = 0x10"
| "kind_code K_ARRAY = 0x11"

text \<open>The \<open>switch\<close> of \<open>bc_hrbl_reader_kind_at\<close>: the bytes that are kinds.\<close>

definition kind_of_byte :: "byte \<Rightarrow> kind option" where
  "kind_of_byte b =
     (if b = 0x00 then Some K_NULL
      else if b = 0x01 then Some K_FALSE
      else if b = 0x02 then Some K_TRUE
      else if b = 0x03 then Some K_INT64
      else if b = 0x04 then Some K_UINT64
      else if b = 0x05 then Some K_FLOAT64
      else if b = 0x06 then Some K_STRING
      else if b = 0x10 then Some K_BLOCK
      else if b = 0x11 then Some K_ARRAY
      else None)"

lemma kind_of_byte_code [simp]: "kind_of_byte (kind_code k) = Some k"
  by (cases k) (simp_all add: kind_of_byte_def)

lemma kind_of_byte_Some: "kind_of_byte b = Some k \<Longrightarrow> b = kind_code k"
  by (auto simp: kind_of_byte_def split: if_splits)

lemma kind_of_byte_iff: "kind_of_byte b = Some k \<longleftrightarrow> b = kind_code k"
  using kind_of_byte_Some kind_of_byte_code by blast

lemma kind_code_eq_iff [simp]: "kind_code k = kind_code k' \<longleftrightarrow> k = k'"
  using kind_of_byte_code by (metis option.inject)

fun kind_body_align :: "kind \<Rightarrow> nat" where
  "kind_body_align K_NULL = 1"
| "kind_body_align K_FALSE = 1"
| "kind_body_align K_TRUE = 1"
| "kind_body_align K_STRING = 4"
| "kind_body_align K_INT64 = 8"
| "kind_body_align K_UINT64 = 8"
| "kind_body_align K_FLOAT64 = 8"
| "kind_body_align K_BLOCK = 8"
| "kind_body_align K_ARRAY = 8"

fun kind_body_size :: "kind \<Rightarrow> nat" where
  "kind_body_size K_NULL = 0"
| "kind_body_size K_FALSE = 0"
| "kind_body_size K_TRUE = 0"
| "kind_body_size K_STRING = 8"
| "kind_body_size K_INT64 = 8"
| "kind_body_size K_UINT64 = 8"
| "kind_body_size K_FLOAT64 = 8"
| "kind_body_size K_BLOCK = 0"
| "kind_body_size K_ARRAY = 0"

lemma kind_body_size_le: "kind_body_size k \<le> 8"
  by (cases k) simp_all

section \<open>Alignment\<close>

text \<open>
  \<open>bc_hrbl_align_up\<close> works on \<open>size_t\<close>, so it wraps near the top of the address space. The
  encoder applies it to the size of a buffer it holds, a natural number in the model;
  \<open>align_up_nat\<close> is the same operation there, as \<open>unat_align_up\<close> states.
\<close>

definition align_up :: "u64 \<Rightarrow> u64 \<Rightarrow> u64" where
  "align_up value alignment = (value + alignment - 1) AND NOT (alignment - 1)"

definition align_up_nat :: "nat \<Rightarrow> nat \<Rightarrow> nat" where
  "align_up_nat value alignment = (value + alignment - 1) div alignment * alignment"

definition body_offset_from_kind :: "u64 \<Rightarrow> kind \<Rightarrow> u64" where
  "body_offset_from_kind kind_offset k = align_up (kind_offset + 1) (of_nat (kind_body_align k))"

lemma and_not_mask_word:
  fixes w :: u64
  shows "unat (w AND NOT (mask n)) = unat w div 2 ^ n * 2 ^ n"
proof -
  have eq: "w AND NOT (mask n) = push_bit n (drop_bit n w)"
    by (rule bit_eqI) (auto simp: bit_and_iff bit_not_iff bit_mask_iff bit_push_bit_iff bit_drop_bit_eq)
  have lt: "unat w div 2 ^ n * 2 ^ n < 2 ^ 64"
    using unsigned_less [of w, where ?'a = nat] div_times_less_eq_dividend [of "unat w" "2 ^ n"]
    by (simp del: div_times_less_eq_dividend)
  have "unat (push_bit n (drop_bit n w)) = take_bit 64 (push_bit n (drop_bit n (unat w)))"
    by (simp add: unsigned_push_bit_eq unat_drop_bit_eq)
  also have "\<dots> = take_bit 64 (unat w div 2 ^ n * 2 ^ n)"
    by (simp only: push_bit_eq_mult drop_bit_eq_div)
  also have "\<dots> = unat w div 2 ^ n * 2 ^ n"
    using lt by (simp only: take_bit_nat_eq_self)
  finally show ?thesis using eq by simp
qed

text \<open>The alignments the format uses are 1, 4 and 8.\<close>

definition format_alignment :: "nat \<Rightarrow> bool" where
  "format_alignment a \<longleftrightarrow> a = 1 \<or> a = 4 \<or> a = 8"

lemma kind_body_align_format [simp]: "format_alignment (kind_body_align k)"
  by (cases k) (simp_all add: format_alignment_def)

lemma unat_align_up:
  assumes "format_alignment a" and "n + 8 \<le> 2 ^ 64"
  shows "unat (align_up (of_nat n) (of_nat a)) = align_up_nat n a"
proof -
  obtain k where k: "k \<le> 3" "a = 2 ^ k"
  proof -
    have "a = 2 ^ 0 \<or> a = 2 ^ 2 \<or> a = 2 ^ 3" using assms(1) by (auto simp: format_alignment_def)
    then show thesis using that [of 0] that [of 2] that [of 3] by auto
  qed
  then have a: "1 \<le> a" "a \<le> 8" using assms(1) by (auto simp: format_alignment_def)
  have "of_nat n + of_nat a - 1 = (of_nat (n + a - 1) :: u64)" using a by (simp add: of_nat_diff)
  moreover have "of_nat a - 1 = (mask k :: u64)" using k by (simp add: mask_eq_exp_minus_1)
  moreover have "unat (of_nat (n + a - 1) :: u64) = n + a - 1"
    using assms a unfolding unat_of_nat by simp
  ultimately show ?thesis
    by (simp add: align_up_def align_up_nat_def and_not_mask_word k)
qed

lemma align_up_nat_ge: "0 < a \<Longrightarrow> n \<le> align_up_nat n a"
  unfolding align_up_nat_def
  using div_mult_mod_eq [of "n + a - 1" a] mod_less_divisor [of a "n + a - 1"] by linarith

lemma align_up_nat_less: "0 < a \<Longrightarrow> align_up_nat n a < n + a"
  unfolding align_up_nat_def
  using div_times_less_eq_dividend [of "n + a - 1" a] by linarith

lemma dvd_align_up_nat: "a dvd align_up_nat n a"
  by (simp add: align_up_nat_def)

lemma align_up_nat_least:
  assumes "0 < a" and "n \<le> m" and "a dvd m"
  shows "align_up_nat n a \<le> m"
proof -
  from assms(3) obtain q where "m = q * a" by (metis dvd_def mult.commute)
  moreover have "(n + a - 1) div a \<le> q"
  proof -
    have "(n + a - 1) div a \<le> (q * a + (a - 1)) div a"
      using assms \<open>m = q * a\<close> by (intro div_le_mono) simp
    also have "\<dots> = q" using assms(1) by (subst div_mult_self3) simp_all
    finally show ?thesis .
  qed
  ultimately show ?thesis by (simp add: align_up_nat_def)
qed

lemma align_up_nat_id: "0 < a \<Longrightarrow> a dvd n \<Longrightarrow> align_up_nat n a = n"
  by (meson align_up_nat_ge align_up_nat_least dual_order.antisym order_refl)

section \<open>Packed structs\<close>

record header =
  hdr_magic :: u32
  hdr_version_major :: u16
  hdr_version_minor :: u16
  hdr_file_size :: u64
  hdr_flags :: u64
  hdr_root_count :: u64
  hdr_root_index_offset :: u64
  hdr_root_index_size :: u64
  hdr_nodes_offset :: u64
  hdr_nodes_size :: u64
  hdr_strings_offset :: u64
  hdr_strings_size :: u64
  hdr_strings_count :: u64
  hdr_footer_offset :: u64
  hdr_checksum :: u64
  hdr_reserved :: bytes

record footer =
  ftr_checksum :: u64
  ftr_file_size :: u64
  ftr_magic_end :: u32
  ftr_reserved :: bytes

record entry =
  ent_key_hash64 :: u64
  ent_key_pool_offset :: u32
  ent_key_length :: u32
  ent_value_offset :: u64

record block_header =
  bh_child_count :: u32
  bh_entries_size_bytes :: u32

record array_header =
  ah_element_count :: u32
  ah_body_size_bytes :: u32

record string_ref =
  sr_pool_offset :: u32
  sr_length :: u32

section \<open>Loads and stores\<close>

text \<open>
  \<open>field off n bs\<close> is the \<open>n\<close>-byte integer at offset \<open>off\<close> of a struct. The loads read a
  struct from the bytes at its address, the stores produce them.
\<close>

definition field :: "nat \<Rightarrow> nat \<Rightarrow> bytes \<Rightarrow> 'a::len word" where
  "field off n bs = le_word (take n (drop off bs))"

definition load_u64 :: "bytes \<Rightarrow> u64" where
  "load_u64 bs = field 0 8 bs"

definition store_u64 :: "u64 \<Rightarrow> bytes" where
  "store_u64 v = le_bytes 8 v"

definition load_u32 :: "bytes \<Rightarrow> u32" where
  "load_u32 bs = field 0 4 bs"

definition store_u32 :: "u32 \<Rightarrow> bytes" where
  "store_u32 v = le_bytes 4 v"

definition load_header :: "bytes \<Rightarrow> header" where
  "load_header bs = \<lparr>
     hdr_magic = field 0 4 bs, hdr_version_major = field 4 2 bs,
     hdr_version_minor = field 6 2 bs, hdr_file_size = field 8 8 bs,
     hdr_flags = field 16 8 bs, hdr_root_count = field 24 8 bs,
     hdr_root_index_offset = field 32 8 bs, hdr_root_index_size = field 40 8 bs,
     hdr_nodes_offset = field 48 8 bs, hdr_nodes_size = field 56 8 bs,
     hdr_strings_offset = field 64 8 bs, hdr_strings_size = field 72 8 bs,
     hdr_strings_count = field 80 8 bs, hdr_footer_offset = field 88 8 bs,
     hdr_checksum = field 96 8 bs, hdr_reserved = take 24 (drop 104 bs)\<rparr>"

definition store_header :: "header \<Rightarrow> bytes" where
  "store_header h =
     le_bytes 4 (hdr_magic h) @ le_bytes 2 (hdr_version_major h) @
     le_bytes 2 (hdr_version_minor h) @ le_bytes 8 (hdr_file_size h) @
     le_bytes 8 (hdr_flags h) @ le_bytes 8 (hdr_root_count h) @
     le_bytes 8 (hdr_root_index_offset h) @ le_bytes 8 (hdr_root_index_size h) @
     le_bytes 8 (hdr_nodes_offset h) @ le_bytes 8 (hdr_nodes_size h) @
     le_bytes 8 (hdr_strings_offset h) @ le_bytes 8 (hdr_strings_size h) @
     le_bytes 8 (hdr_strings_count h) @ le_bytes 8 (hdr_footer_offset h) @
     le_bytes 8 (hdr_checksum h) @ hdr_reserved h"

definition load_footer :: "bytes \<Rightarrow> footer" where
  "load_footer bs = \<lparr>
     ftr_checksum = field 0 8 bs, ftr_file_size = field 8 8 bs,
     ftr_magic_end = field 16 4 bs, ftr_reserved = take 12 (drop 20 bs)\<rparr>"

definition store_footer :: "footer \<Rightarrow> bytes" where
  "store_footer f =
     le_bytes 8 (ftr_checksum f) @ le_bytes 8 (ftr_file_size f) @
     le_bytes 4 (ftr_magic_end f) @ ftr_reserved f"

definition load_entry :: "bytes \<Rightarrow> entry" where
  "load_entry bs = \<lparr>
     ent_key_hash64 = field 0 8 bs, ent_key_pool_offset = field 8 4 bs,
     ent_key_length = field 12 4 bs, ent_value_offset = field 16 8 bs\<rparr>"

definition store_entry :: "entry \<Rightarrow> bytes" where
  "store_entry e =
     le_bytes 8 (ent_key_hash64 e) @ le_bytes 4 (ent_key_pool_offset e) @
     le_bytes 4 (ent_key_length e) @ le_bytes 8 (ent_value_offset e)"

definition load_block_header :: "bytes \<Rightarrow> block_header" where
  "load_block_header bs = \<lparr>bh_child_count = field 0 4 bs, bh_entries_size_bytes = field 4 4 bs\<rparr>"

definition store_block_header :: "block_header \<Rightarrow> bytes" where
  "store_block_header b = le_bytes 4 (bh_child_count b) @ le_bytes 4 (bh_entries_size_bytes b)"

definition load_array_header :: "bytes \<Rightarrow> array_header" where
  "load_array_header bs = \<lparr>ah_element_count = field 0 4 bs, ah_body_size_bytes = field 4 4 bs\<rparr>"

definition store_array_header :: "array_header \<Rightarrow> bytes" where
  "store_array_header a = le_bytes 4 (ah_element_count a) @ le_bytes 4 (ah_body_size_bytes a)"

definition load_string_ref :: "bytes \<Rightarrow> string_ref" where
  "load_string_ref bs = \<lparr>sr_pool_offset = field 0 4 bs, sr_length = field 4 4 bs\<rparr>"

definition store_string_ref :: "string_ref \<Rightarrow> bytes" where
  "store_string_ref r = le_bytes 4 (sr_pool_offset r) @ le_bytes 4 (sr_length r)"

lemmas struct_defs =
  load_u64_def store_u64_def load_u32_def store_u32_def
  load_header_def store_header_def load_footer_def store_footer_def
  load_entry_def store_entry_def load_block_header_def store_block_header_def
  load_array_header_def store_array_header_def load_string_ref_def store_string_ref_def

lemma field_append_skip:
  "length xs \<le> off \<Longrightarrow> field off n (xs @ ys) = field (off - length xs) n ys"
  by (simp add: field_def)

lemma field_append_here: "length xs = n \<Longrightarrow> field 0 n (xs @ ys) = le_word xs"
  by (simp add: field_def)

lemma field_here: "length xs = n \<Longrightarrow> field 0 n xs = le_word xs"
  by (simp add: field_def)

lemmas field_simps' = field_append_skip field_append_here field_here

definition valid_header :: "header \<Rightarrow> bool" where
  "valid_header h \<longleftrightarrow> length (hdr_reserved h) = 24"

definition valid_footer :: "footer \<Rightarrow> bool" where
  "valid_footer f \<longleftrightarrow> length (ftr_reserved f) = 12"

text \<open>The structs of the format are codecs of the sizes their static assertions demand.\<close>

interpretation u64_codec: byte_codec store_u64 load_u64 8 "\<lambda>_. True"
  by unfold_locales (simp_all add: struct_defs field_simps')

interpretation u32_codec: byte_codec store_u32 load_u32 4 "\<lambda>_. True"
  by unfold_locales (simp_all add: struct_defs field_simps')

interpretation entry_codec: byte_codec store_entry load_entry 24 "\<lambda>_. True"
  by unfold_locales (simp_all add: struct_defs field_simps')

interpretation block_header_codec: byte_codec store_block_header load_block_header 8 "\<lambda>_. True"
  by unfold_locales (simp_all add: struct_defs field_simps')

interpretation array_header_codec: byte_codec store_array_header load_array_header 8 "\<lambda>_. True"
  by unfold_locales (simp_all add: struct_defs field_simps')

interpretation string_ref_codec: byte_codec store_string_ref load_string_ref 8 "\<lambda>_. True"
  by unfold_locales (simp_all add: struct_defs field_simps')

interpretation header_codec: byte_codec store_header load_header 128 valid_header
  by unfold_locales (simp_all add: struct_defs field_simps' valid_header_def)

interpretation footer_codec: byte_codec store_footer load_footer 32 valid_footer
  by unfold_locales (simp_all add: struct_defs field_simps' valid_footer_def)

end
