(* ===== verification/Platform.thy ===== *)
theory Platform
  imports Prelude
begin

text \<open>
  What the writer asks of its surroundings, and the outcomes it can have. The memory pool, the
  thread library and the scheduler are not part of the repository: \<open>platform\<close> holds their
  answers, and every theorem is about an arbitrary platform. The error codes are those of
  \<open>include/public/bc_hrbl_writer.h\<close>.
\<close>

record platform =
  pf_grants :: "nat \<Rightarrow> nat \<Rightarrow> bool"
  pf_spawns :: "nat \<Rightarrow> nat \<Rightarrow> bool"
  pf_schedule :: "nat \<Rightarrow> nat \<Rightarrow> nat list"

text \<open>
  \<open>pf_grants k n\<close>: does the memory context grant the \<open>k\<close>-th request of the running operation,
  which asks for \<open>n\<close> bytes? A threaded sort is known by the number of requests made before it:
  \<open>pf_spawns k j\<close>: does the \<open>j\<close>-th \<open>pthread_create\<close> of the sort \<open>k\<close> succeed? \<open>pf_schedule k p\<close>: in which
  order do the worker threads of its pass \<open>p\<close> take their steps?
\<close>

datatype writer_error = W_OK | W_OOM | W_UNCLOSED_SCOPE | W_CONSTRUCTION
  | W_STRING_LENGTH_OVERFLOW_4GB | W_STRING_POOL_OVERFLOW_4GB | W_FILE_SIZE_OVERFLOW_4GB
  | W_INVALID_ARGUMENT | W_INTERNAL

fun error_string :: "writer_error \<Rightarrow> string" where
  "error_string W_OK = ''ok''"
| "error_string W_OOM = ''out of memory''"
| "error_string W_UNCLOSED_SCOPE = ''unclosed block scope at finalize''"
| "error_string W_CONSTRUCTION = ''writer error flag set during construction''"
| "error_string W_STRING_LENGTH_OVERFLOW_4GB = ''string length exceeds 4 GiB''"
| "error_string W_STRING_POOL_OVERFLOW_4GB = ''string pool buffer exceeds 4 GiB''"
| "error_string W_FILE_SIZE_OVERFLOW_4GB = ''file size exceeds 4 GiB''"
| "error_string W_INVALID_ARGUMENT = ''invalid argument''"
| "error_string W_INTERNAL = ''internal error''"

text \<open>
  The outcomes of the encoder that are not results: it reports an error code, it loops for
  ever, or it leaves an array it allocated.
\<close>

datatype fault = Fails writer_error | Loops_forever | Out_of_bounds

text \<open>
  One request to the memory context. The request counter is threaded through the encoder in
  the order of the calls; a refused request is the error the caller reports.
\<close>

definition request :: "platform \<Rightarrow> nat \<Rightarrow> nat \<Rightarrow> fault + nat" where
  "request pf k n = (if pf_grants pf k n then Inr (Suc k) else Inl (Fails W_OOM))"

lemma request_eq_Inr [outcome_simps]:
  "request pf k n = Inr k' \<longleftrightarrow> pf_grants pf k n \<and> k' = Suc k"
  by (auto simp: request_def)

lemma request_eq_Inl [outcome_simps]:
  "request pf k n = Inl e \<longleftrightarrow> \<not> pf_grants pf k n \<and> e = Fails W_OOM"
  by (auto simp: request_def)

definition generous :: "platform \<Rightarrow> bool" where
  "generous pf \<longleftrightarrow> pf_grants pf = (\<lambda>_ _. True) \<and> pf_spawns pf = (\<lambda>_ _. True)"

lemma request_generous [simp]: "generous pf \<Longrightarrow> request pf k n = Inr (Suc k)"
  by (simp add: generous_def request_def)

lemma generous_spawns [simp]: "generous pf \<Longrightarrow> pf_spawns pf k j"
  by (simp add: generous_def)

section \<open>The outcomes of a computation\<close>

text \<open>
  \<open>fails_only pf F m\<close>: \<open>m\<close> has a result, or one of the faults \<open>F\<close>, or runs out of memory on a
  platform that does refuse something. With \<open>F = {}\<close> and a generous platform there is a result.
\<close>

definition fails_only :: "platform \<Rightarrow> fault set \<Rightarrow> fault + 'a \<Rightarrow> bool" where
  "fails_only pf F m = (case m of Inr _ \<Rightarrow> True | Inl e \<Rightarrow> e \<in> F \<or> e = Fails W_OOM \<and> \<not> generous pf)"

lemma fails_only_simps [simp]:
  "fails_only pf F (Inr x)"
  "fails_only pf F (Inl e) \<longleftrightarrow> e \<in> F \<or> e = Fails W_OOM \<and> \<not> generous pf"
  by (simp_all add: fails_only_def)

lemma fails_only_bindE:
  "fails_only pf F m \<Longrightarrow> (\<And>x. m = Inr x \<Longrightarrow> fails_only pf F (f x)) \<Longrightarrow> fails_only pf F (bindE m f)"
  by (cases m) auto

lemma fails_only_request: "fails_only pf F (request pf k n)"
  by (auto simp: request_def generous_def)

lemma fails_only_mono: "fails_only pf F m \<Longrightarrow> F \<subseteq> G \<Longrightarrow> fails_only pf G m"
  by (cases m) auto

lemma fails_only_if:
  "(b \<Longrightarrow> fails_only pf F m) \<Longrightarrow> (\<not> b \<Longrightarrow> fails_only pf F n) \<Longrightarrow> fails_only pf F (if b then m else n)"
  by simp

lemma fails_only_split:
  "(\<And>x y. p = (x, y) \<Longrightarrow> fails_only pf F (f x y)) \<Longrightarrow> fails_only pf F (case p of (x, y) \<Rightarrow> f x y)"
  by (cases p) simp

lemmas fails_only_rules = fails_only_bindE fails_only_request fails_only_if fails_only_split

lemma fails_only_cases:
  assumes "fails_only pf F m"
  obtains (Result) x where "m = Inr x"
  | (Fault) e where "m = Inl e" and "e \<in> F"
  | (Out_of_memory) "m = Inl (Fails W_OOM)" and "\<not> generous pf"
  using assms by (cases m) auto

lemma fails_only_generous: "fails_only pf {} m \<Longrightarrow> generous pf \<Longrightarrow> \<exists>x. m = Inr x"
  by (cases m) auto

end
