(* ===== verification/Reader.thy ===== *)
theory Reader
  imports Format Platform
begin

text \<open>
  The reader (\<open>src/reader/bc_hrbl_reader.c\<close>): opening a buffer, the bounds-checked accessors,
  the binary search over an entry table with its linear probe among equal hashes, path
  resolution and the iterators. All offsets are 64-bit words and their sums wrap as in the code,
  so whether a check can be passed by a sum that wrapped is a question the model answers.

  An operation that returns \<open>false\<close> is \<open>Inl Rejected\<close>. A read outside the buffer, which the C
  code would perform, is \<open>Inl Bad_read\<close>. Output pointers are taken to be non-null where the
  code does not test them.
\<close>

section \<open>Reads\<close>

datatype stop = Rejected | Bad_read

definition fetch :: "bytes \<Rightarrow> u64 \<Rightarrow> nat \<Rightarrow> stop + bytes" where
  "fetch base off n = (case read_at base (unat off) n of None \<Rightarrow> Inl Bad_read | Some bs \<Rightarrow> Inr bs)"

record reader =
  rd_base :: bytes
  rd_size :: u64
  rd_header :: header

section \<open>Opening\<close>

definition reader_header_layout_valid :: "header \<Rightarrow> u64 \<Rightarrow> bool" where
  "reader_header_layout_valid header buffer_size =
     (if hdr_magic header \<noteq> BC_HRBL_MAGIC then False
      else if hdr_version_major header \<noteq> BC_HRBL_VERSION_MAJOR then False
      else if hdr_version_minor header > BC_HRBL_VERSION_MINOR then False
      else if hdr_flags header AND BC_HRBL_FLAGS_V1_REQUIRED \<noteq> BC_HRBL_FLAGS_V1_REQUIRED then False
      else if hdr_flags header AND BC_HRBL_FLAGS_V1_RESERVED_MASK \<noteq> 0 then False
      else if hdr_file_size header \<noteq> buffer_size then False
      else if hdr_root_index_offset header \<noteq> of_nat ROOT_INDEX_OFFSET then False
      else if hdr_root_count header > BC_HRBL_ROOT_COUNT_MAX then False
      else if hdr_root_index_size header \<noteq> hdr_root_count header * of_nat ENTRY_SIZE then False
      else if hdr_nodes_offset header \<noteq> hdr_root_index_offset header + hdr_root_index_size header then False
      else if hdr_strings_offset header \<noteq> hdr_nodes_offset header + hdr_nodes_size header then False
      else if hdr_footer_offset header \<noteq> hdr_strings_offset header + hdr_strings_size header then False
      else if hdr_footer_offset header + of_nat FOOTER_SIZE \<noteq> hdr_file_size header then False
      else list_all (\<lambda>b. b = 0) (hdr_reserved header))"

definition reader_footer_matches :: "bytes \<Rightarrow> header \<Rightarrow> stop + bool" where
  "reader_footer_matches base header =
     bindE (fetch base (hdr_footer_offset header) FOOTER_SIZE) (\<lambda>bs.
     let footer = load_footer bs
     in Inr (if ftr_magic_end footer \<noteq> BC_HRBL_MAGIC then False
             else if ftr_file_size footer \<noteq> hdr_file_size header then False
             else ftr_checksum footer = hdr_checksum header))"

text \<open>\<open>size\<close> is the length of the buffer the caller passes; 40 is \<open>sizeof(bc_hrbl_reader_t)\<close>.\<close>

definition reader_attach_buffer :: "platform \<Rightarrow> bytes \<Rightarrow> stop + reader" where
  "reader_attach_buffer pf data =
     (let data_size = of_nat (length data)
      in if data_size < of_nat (HEADER_SIZE + FOOTER_SIZE) then Inl Rejected
         else bindE (fetch data 0 HEADER_SIZE) (\<lambda>bs.
              let header = load_header bs
              in if \<not> reader_header_layout_valid header data_size then Inl Rejected
                 else bindE (reader_footer_matches data header) (\<lambda>matches.
                      if \<not> matches then Inl Rejected
                      else if \<not> pf_grants pf 0 40 then Inl Rejected
                      else Inr \<lparr>rd_base = data, rd_size = data_size, rd_header = header\<rparr>)))"

definition reader_open_buffer :: "platform \<Rightarrow> bytes \<Rightarrow> stop + reader" where
  "reader_open_buffer pf data = reader_attach_buffer pf data"

definition reader_root_count :: "reader \<Rightarrow> u64" where
  "reader_root_count reader = hdr_root_count (rd_header reader)"

section \<open>Entry tables\<close>

definition reader_read_entry :: "reader \<Rightarrow> u64 \<Rightarrow> stop + entry" where
  "reader_read_entry reader entry_offset =
     (if entry_offset + of_nat ENTRY_SIZE > rd_size reader then Inl Rejected
      else bindE (fetch (rd_base reader) entry_offset ENTRY_SIZE) (\<lambda>bs. Inr (load_entry bs)))"

definition reader_key_equals :: "reader \<Rightarrow> entry \<Rightarrow> bytes \<Rightarrow> stop + bool" where
  "reader_key_equals reader entry key =
     (if unat (ent_key_length entry) \<noteq> length key then Inr False
      else if length key = 0 then Inr True
      else let pool_offset = ucast (ent_key_pool_offset entry) + 4 :: u64
           in if pool_offset + of_nat (length key) > rd_size reader then Inr False
              else bindE (fetch (rd_base reader) pool_offset (length key)) (\<lambda>bs. Inr (bs = key)))"

text \<open>
  The linear probe: to the left of the hit first, on the \<open>int64_t\<close> index \<open>left\<close>, then to the
  right. \<open>Inr None\<close> is the \<open>break\<close> of either loop.
\<close>

function probe_left ::
    "reader \<Rightarrow> u64 \<Rightarrow> u64 \<Rightarrow> bytes \<Rightarrow> int \<Rightarrow> stop + entry option" where
  "probe_left reader entries_start target_hash key left =
     (if 0 \<le> left then
        bindE (reader_read_entry reader (entries_start + of_int left * of_nat ENTRY_SIZE)) (\<lambda>candidate.
        if ent_key_hash64 candidate \<noteq> target_hash then Inr None
        else bindE (reader_key_equals reader candidate key) (\<lambda>equal.
             if equal then Inr (Some candidate)
             else probe_left reader entries_start target_hash key (left - 1)))
      else Inr None)"
  by pat_completeness auto
termination by (relation "measure (\<lambda>(_, _, _, _, left). nat (left + 1))") auto

declare probe_left.simps [simp del]

lemma unat_Suc: "w < (v :: u64) \<Longrightarrow> unat (w + 1) = unat w + 1"
proof -
  assume "w < v"
  then have "unat w < unat v" by (simp add: word_less_nat_alt)
  then have "unat w + 1 < 2 ^ 64" using unsigned_less [of v, where ?'a = nat] by simp
  then show ?thesis by (simp add: unat_word_ariths(1))
qed

function probe_right ::
    "reader \<Rightarrow> u64 \<Rightarrow> u64 \<Rightarrow> u64 \<Rightarrow> bytes \<Rightarrow> u64 \<Rightarrow> stop + entry option" where
  "probe_right reader entries_start entry_count target_hash key right =
     (if right < entry_count then
        bindE (reader_read_entry reader (entries_start + right * of_nat ENTRY_SIZE)) (\<lambda>candidate.
        if ent_key_hash64 candidate \<noteq> target_hash then Inr None
        else bindE (reader_key_equals reader candidate key) (\<lambda>equal.
             if equal then Inr (Some candidate)
             else probe_right reader entries_start entry_count target_hash key (right + 1)))
      else Inr None)"
  by pat_completeness auto
termination
  by (relation "measure (\<lambda>(_, _, count, _, _, right). unat count - unat right)")
    (auto simp: unat_Suc word_less_nat_alt)

declare probe_right.simps [simp del]

definition reader_linear_probe_range ::
    "reader \<Rightarrow> u64 \<Rightarrow> u64 \<Rightarrow> u64 \<Rightarrow> u64 \<Rightarrow> bytes \<Rightarrow> stop + entry" where
  "reader_linear_probe_range reader entries_start entry_count index target_hash key =
     bindE (probe_left reader entries_start target_hash key (sint index)) (\<lambda>found.
     case found of
       Some candidate \<Rightarrow> Inr candidate
     | None \<Rightarrow>
         bindE (probe_right reader entries_start entry_count target_hash key (index + 1)) (\<lambda>found.
         case found of Some candidate \<Rightarrow> Inr candidate | None \<Rightarrow> Inl Rejected))"

lemma unat_midpoint:
  fixes low high :: u64
  assumes "low < high"
  shows "unat (low + (high - low) div 2) = unat low + (unat high - unat low) div 2"
proof -
  have lt: "unat low < unat high" using assms by (simp add: word_less_nat_alt)
  have diff: "unat (high - low) = unat high - unat low" using assms by (simp add: unat_sub less_imp_le)
  have half: "unat ((high - low) div 2) = (unat high - unat low) div 2" by (simp add: unat_div_distrib diff)
  have "unat low + unat ((high - low) div 2) < 2 ^ 64"
    unfolding half using lt unsigned_less [of high, where ?'a = nat] by simp
  then show ?thesis by (simp add: unat_word_ariths(1) half)
qed

function binary_search_loop ::
    "reader \<Rightarrow> u64 \<Rightarrow> u64 \<Rightarrow> u64 \<Rightarrow> bytes \<Rightarrow> u64 \<Rightarrow> u64 \<Rightarrow> stop + entry" where
  "binary_search_loop reader entries_start entry_count target_hash key low high =
     (if low < high then
        let mid = low + (high - low) div 2
        in bindE (reader_read_entry reader (entries_start + mid * of_nat ENTRY_SIZE)) (\<lambda>candidate.
           if ent_key_hash64 candidate < target_hash then
             binary_search_loop reader entries_start entry_count target_hash key (mid + 1) high
           else if ent_key_hash64 candidate > target_hash then
             binary_search_loop reader entries_start entry_count target_hash key low mid
           else bindE (reader_key_equals reader candidate key) (\<lambda>equal.
                if equal then Inr candidate
                else reader_linear_probe_range reader entries_start entry_count mid target_hash key))
      else Inl Rejected)"
  by pat_completeness auto
termination
proof (relation "measure (\<lambda>(_, _, _, _, _, low, high). unat high - unat low)", goal_cases)
  case (2 reader start count hash key low high mid candidate)
  then have "unat mid = unat low + (unat high - unat low) div 2" "unat low < unat high"
    by (simp_all add: unat_midpoint word_less_nat_alt)
  moreover from this have "mid < high" by (auto simp: word_less_nat_alt)
  then have "unat (mid + 1) = unat mid + 1" by (rule unat_Suc)
  ultimately show ?case by simp
next
  case (3 reader start count hash key low high mid candidate)
  then have "unat mid = unat low + (unat high - unat low) div 2" "unat low < unat high"
    by (simp_all add: unat_midpoint word_less_nat_alt)
  then show ?case by simp
qed simp

declare binary_search_loop.simps [simp del]

definition reader_binary_search_entries ::
    "reader \<Rightarrow> u64 \<Rightarrow> u64 \<Rightarrow> u64 \<Rightarrow> bytes \<Rightarrow> stop + entry" where
  "reader_binary_search_entries reader entries_start entry_count target_hash key =
     (if entry_count = 0 then Inl Rejected
      else binary_search_loop reader entries_start entry_count target_hash key 0 entry_count)"

text \<open>
  A key handed out is a pointer into the buffer, here its offset. \<open>entry_key\<close> is the bounds
  check the accessors make when the caller asks for it.
\<close>

definition entry_key :: "reader \<Rightarrow> entry \<Rightarrow> stop + u64" where
  "entry_key reader entry =
     (if ucast (ent_key_pool_offset entry) + 4 + ucast (ent_key_length entry) > rd_size reader then Inl Rejected
      else Inr (ucast (ent_key_pool_offset entry) + 4))"

definition reader_root_at_offset :: "reader \<Rightarrow> u64 \<Rightarrow> bool \<Rightarrow> stop + u64 option \<times> u32 \<times> u64" where
  "reader_root_at_offset reader index want_key =
     (if index \<ge> hdr_root_count (rd_header reader) then Inl Rejected
      else bindE (reader_read_entry reader
                   (hdr_root_index_offset (rd_header reader) + index * of_nat ENTRY_SIZE)) (\<lambda>entry.
           bindE (if want_key then bindE (entry_key reader entry) (\<lambda>k. Inr (Some k)) else Inr None) (\<lambda>out_key.
           Inr (out_key, ent_key_length entry, ent_value_offset entry))))"

definition reader_find_root_offset :: "(bytes \<Rightarrow> u64) \<Rightarrow> reader \<Rightarrow> bytes \<Rightarrow> stop + u64" where
  "reader_find_root_offset hash reader key =
     bindE (reader_binary_search_entries reader (hdr_root_index_offset (rd_header reader))
             (hdr_root_count (rd_header reader)) (hash key) key) (\<lambda>entry.
     Inr (ent_value_offset entry))"

section \<open>Nodes\<close>

definition reader_kind_at :: "reader \<Rightarrow> u64 \<Rightarrow> stop + kind" where
  "reader_kind_at reader value_offset =
     (let h = rd_header reader
      in if value_offset < hdr_nodes_offset h \<or> value_offset \<ge> hdr_nodes_offset h + hdr_nodes_size h
         then Inl Rejected
         else bindE (fetch (rd_base reader) value_offset 1) (\<lambda>bs.
              case kind_of_byte (hd bs) of None \<Rightarrow> Inl Rejected | Some k \<Rightarrow> Inr k))"

text \<open>\<open>base[offset]\<close> against a kind, as the container accessors test it.\<close>

definition has_kind_byte :: "reader \<Rightarrow> u64 \<Rightarrow> kind \<Rightarrow> stop + unit" where
  "has_kind_byte reader off k =
     (if off \<ge> rd_size reader then Inl Rejected
      else bindE (fetch (rd_base reader) off 1) (\<lambda>bs.
           if hd bs \<noteq> kind_code k then Inl Rejected else Inr ()))"

definition reader_block_body_offsets :: "reader \<Rightarrow> u64 \<Rightarrow> stop + block_header \<times> u64" where
  "reader_block_body_offsets reader block_offset =
     bindE (has_kind_byte reader block_offset K_BLOCK) (\<lambda>_.
     let body_offset = align_up (block_offset + 1) 8
     in if body_offset + 8 > rd_size reader then Inl Rejected
        else bindE (fetch (rd_base reader) body_offset 8) (\<lambda>bs.
             let header = load_block_header bs; entries_offset = body_offset + 8
             in if entries_offset + ucast (bh_child_count header) * of_nat ENTRY_SIZE > rd_size reader
                then Inl Rejected
                else Inr (header, entries_offset)))"

definition reader_block_child_count_at :: "reader \<Rightarrow> u64 \<Rightarrow> stop + u32" where
  "reader_block_child_count_at reader block_offset =
     bindE (reader_block_body_offsets reader block_offset) (\<lambda>(header, _). Inr (bh_child_count header))"

definition reader_block_entry_at_offset ::
    "reader \<Rightarrow> u64 \<Rightarrow> u32 \<Rightarrow> bool \<Rightarrow> stop + u64 option \<times> u32 \<times> u64" where
  "reader_block_entry_at_offset reader block_offset index want_key =
     bindE (reader_block_body_offsets reader block_offset) (\<lambda>(header, entries_offset).
     if index \<ge> bh_child_count header then Inl Rejected
     else bindE (reader_read_entry reader (entries_offset + ucast index * of_nat ENTRY_SIZE)) (\<lambda>entry.
          bindE (if want_key then bindE (entry_key reader entry) (\<lambda>k. Inr (Some k)) else Inr None) (\<lambda>out_key.
          Inr (out_key, ent_key_length entry, ent_value_offset entry))))"

definition reader_block_find_offset :: "(bytes \<Rightarrow> u64) \<Rightarrow> reader \<Rightarrow> u64 \<Rightarrow> bytes \<Rightarrow> stop + u64" where
  "reader_block_find_offset hash reader block_offset key =
     bindE (reader_block_body_offsets reader block_offset) (\<lambda>(header, entries_offset).
     bindE (reader_binary_search_entries reader entries_offset (ucast (bh_child_count header)) (hash key) key) (\<lambda>entry.
     Inr (ent_value_offset entry)))"

definition reader_array_body_offsets :: "reader \<Rightarrow> u64 \<Rightarrow> stop + array_header \<times> u64" where
  "reader_array_body_offsets reader array_offset =
     bindE (has_kind_byte reader array_offset K_ARRAY) (\<lambda>_.
     let body_offset = align_up (array_offset + 1) 8
     in if body_offset + 8 > rd_size reader then Inl Rejected
        else bindE (fetch (rd_base reader) body_offset 8) (\<lambda>bs.
             let header = load_array_header bs; elements_offset = body_offset + 8
             in if elements_offset + ucast (ah_element_count header) * of_nat ARRAY_ELEMENT_SIZE > rd_size reader
                then Inl Rejected
                else Inr (header, elements_offset)))"

definition reader_array_length_at :: "reader \<Rightarrow> u64 \<Rightarrow> stop + u32" where
  "reader_array_length_at reader array_offset =
     bindE (reader_array_body_offsets reader array_offset) (\<lambda>(header, _). Inr (ah_element_count header))"

definition reader_array_at_offset :: "reader \<Rightarrow> u64 \<Rightarrow> u32 \<Rightarrow> stop + u64" where
  "reader_array_at_offset reader array_offset index =
     bindE (reader_array_body_offsets reader array_offset) (\<lambda>(header, elements_offset).
     if index \<ge> ah_element_count header then Inl Rejected
     else bindE (fetch (rd_base reader) (elements_offset + ucast index * of_nat ARRAY_ELEMENT_SIZE) 8) (\<lambda>bs.
          Inr (load_u64 bs)))"

definition reader_scalar_body :: "reader \<Rightarrow> u64 \<Rightarrow> kind \<Rightarrow> stop + u64" where
  "reader_scalar_body reader value_offset expected_kind =
     bindE (reader_kind_at reader value_offset) (\<lambda>k.
     if k \<noteq> expected_kind then Inl Rejected
     else let body_offset = body_offset_from_kind value_offset expected_kind
          in if body_offset + of_nat (kind_body_size expected_kind) > rd_size reader then Inl Rejected
             else Inr body_offset)"

text \<open>The three 64-bit scalars differ in the kind they expect; a \<open>double\<close> is its bit pattern.\<close>

definition reader_scalar_word_at :: "kind \<Rightarrow> reader \<Rightarrow> u64 \<Rightarrow> stop + u64" where
  "reader_scalar_word_at k reader value_offset =
     bindE (reader_scalar_body reader value_offset k) (\<lambda>body_offset.
     bindE (fetch (rd_base reader) body_offset 8) (\<lambda>bs. Inr (load_u64 bs)))"

definition reader_scalar_int64_at :: "reader \<Rightarrow> u64 \<Rightarrow> stop + int" where
  "reader_scalar_int64_at reader value_offset =
     bindE (reader_scalar_word_at K_INT64 reader value_offset) (\<lambda>w. Inr (sint w))"

definition reader_scalar_uint64_at :: "reader \<Rightarrow> u64 \<Rightarrow> stop + u64" where
  "reader_scalar_uint64_at reader value_offset = reader_scalar_word_at K_UINT64 reader value_offset"

definition reader_scalar_float64_at :: "reader \<Rightarrow> u64 \<Rightarrow> stop + u64" where
  "reader_scalar_float64_at reader value_offset = reader_scalar_word_at K_FLOAT64 reader value_offset"

definition reader_scalar_bool_at :: "reader \<Rightarrow> u64 \<Rightarrow> stop + bool" where
  "reader_scalar_bool_at reader value_offset =
     bindE (reader_kind_at reader value_offset) (\<lambda>k.
     if k = K_TRUE then Inr True
     else if k = K_FALSE then Inr False
     else Inl Rejected)"

text \<open>A string is handed out as the offset and length of its bytes in the buffer.\<close>

definition reader_scalar_string_at :: "reader \<Rightarrow> u64 \<Rightarrow> stop + u64 \<times> u64" where
  "reader_scalar_string_at reader value_offset =
     bindE (reader_scalar_body reader value_offset K_STRING) (\<lambda>body_offset.
     bindE (fetch (rd_base reader) body_offset 8) (\<lambda>bs.
     let ref = load_string_ref bs; absolute = ucast (sr_pool_offset ref) + 4
     in if absolute + ucast (sr_length ref) > rd_size reader then Inl Rejected
        else Inr (absolute, ucast (sr_length ref))))"

section \<open>Computations that stay inside the buffer\<close>

definition in_bounds :: "stop + 'a \<Rightarrow> bool" where
  "in_bounds m \<longleftrightarrow> m \<noteq> Inl Bad_read"

lemma in_bounds_simps [simp]: "in_bounds (Inr x)" "in_bounds (Inl e) \<longleftrightarrow> e = Rejected"
  by (simp add: in_bounds_def) (cases e; simp add: in_bounds_def)

lemma in_bounds_bindE:
  "in_bounds m \<Longrightarrow> (\<And>x. m = Inr x \<Longrightarrow> in_bounds (f x)) \<Longrightarrow> in_bounds (bindE m f)"
  by (cases m) auto

lemma in_bounds_if:
  "(b \<Longrightarrow> in_bounds m) \<Longrightarrow> (\<not> b \<Longrightarrow> in_bounds n) \<Longrightarrow> in_bounds (if b then m else n)"
  by simp

lemma in_bounds_split:
  "(\<And>x y. p = (x, y) \<Longrightarrow> in_bounds (f x y)) \<Longrightarrow> in_bounds (case p of (x, y) \<Rightarrow> f x y)"
  by (cases p) simp

lemma in_bounds_option:
  "in_bounds n \<Longrightarrow> (\<And>x. m = Some x \<Longrightarrow> in_bounds (f x)) \<Longrightarrow> in_bounds (case m of None \<Rightarrow> n | Some x \<Rightarrow> f x)"
  by (cases m) auto

lemmas in_bounds_rules = in_bounds_bindE in_bounds_if in_bounds_split in_bounds_option

lemma in_bounds_cases:
  assumes "in_bounds m"
  obtains (Result) x where "m = Inr x" | (Rejected) "m = Inl Rejected"
  using assms by (cases m) auto

lemma in_bounds_fetch: "unat off + n \<le> length base \<Longrightarrow> in_bounds (fetch base off n)"
  by (simp add: fetch_def read_at_def)

lemma fetch_eq_Inr [outcome_simps]:
  "fetch base off n = Inr bs \<longleftrightarrow> unat off + n \<le> length base \<and> bs = take n (drop (unat off) base)"
  by (auto simp: fetch_def read_at_def)

section \<open>Readers whose regions lie inside the buffer\<close>

text \<open>
  \<open>wf_reader\<close> is what the accessors rely on. No C object reaches \<open>2 ^ 63\<close> bytes, since its
  size has to fit \<open>ptrdiff_t\<close>.
\<close>

definition wf_reader :: "reader \<Rightarrow> bool" where
  "wf_reader r \<longleftrightarrow> length (rd_base r) < 2 ^ 63 \<and> rd_size r = of_nat (length (rd_base r)) \<and>
     unat (hdr_root_index_offset (rd_header r)) + unat (hdr_root_count (rd_header r)) * ENTRY_SIZE \<le> length (rd_base r) \<and>
     unat (hdr_nodes_offset (rd_header r)) + unat (hdr_nodes_size (rd_header r)) \<le> length (rd_base r)"

lemma wf_reader_size:
  assumes "wf_reader r"
  shows "unat (rd_size r) = length (rd_base r)" and "length (rd_base r) < 2 ^ 63"
  using assms by (simp_all add: wf_reader_def unat_of_nat)

lemma sum_within:
  assumes "wf_reader r" and "\<not> a + b > rd_size r" and "unat a + unat b < 2 ^ 64"
  shows "unat a + unat b \<le> length (rd_base r)"
  using assms wf_reader_size [OF assms(1)] unat_sum [OF assms(3)] by (simp add: word_less_nat_alt)

lemma in_bounds_read_entry:
  assumes "wf_reader r" and "unat off < 2 ^ 63 + 2 ^ 37"
  shows "in_bounds (reader_read_entry r off)"
proof -
  have "\<not> off + 24 > rd_size r \<Longrightarrow> unat off + 24 \<le> length (rd_base r)"
    using sum_within [OF assms(1), of off 24] assms(2) by simp
  then show ?thesis unfolding reader_read_entry_def
    by (intro in_bounds_rules in_bounds_fetch) simp_all
qed

lemma unat_key_position: "unat (ucast (off :: u32) + 4 :: u64) = unat off + 4"
  using unat_add_nat [of "ucast off" 4] unat_u32_less [of off] by simp

lemma in_bounds_key_equals:
  assumes "wf_reader r"
  shows "in_bounds (reader_key_equals r e key)"
proof -
  have "unat (ucast (ent_key_pool_offset e) + 4 :: u64) + length key \<le> length (rd_base r)"
    if "unat (ent_key_length e) = length key"
      and "\<not> ucast (ent_key_pool_offset e) + 4 + of_nat (length key) > rd_size r"
    using sum_within [OF assms that(2)] unat_key_position [of "ent_key_pool_offset e"]
      unat_u32_less [of "ent_key_length e"] unat_u32_less [of "ent_key_pool_offset e"] that(1)
    by (simp add: unat_of_nat)
  then show ?thesis unfolding reader_key_equals_def Let_def
    by (intro in_bounds_rules in_bounds_fetch) (auto simp: not_le)
qed

section \<open>Entry tables inside the buffer\<close>

definition table_fits :: "reader \<Rightarrow> u64 \<Rightarrow> u64 \<Rightarrow> bool" where
  "table_fits r start n \<longleftrightarrow> unat start + unat n * ENTRY_SIZE \<le> length (rd_base r)"

lemma entry_address:
  assumes "wf_reader r" and "table_fits r start n" and "i < n"
  shows "unat (start + i * of_nat ENTRY_SIZE) = unat start + unat i * ENTRY_SIZE"
    and "unat start + unat i * ENTRY_SIZE + ENTRY_SIZE \<le> length (rd_base r)"
proof -
  have i: "unat i < unat n" using assms(3) by (simp add: word_less_nat_alt)
  then have "unat i * 24 + 24 \<le> unat n * 24" by simp
  then have le: "unat start + unat i * 24 + 24 \<le> length (rd_base r)"
    using assms(2) by (simp add: table_fits_def)
  then show "unat start + unat i * ENTRY_SIZE + ENTRY_SIZE \<le> length (rd_base r)" .
  have lt: "unat start + unat i * 24 < 2 ^ 64" using le wf_reader_size [OF assms(1)] by simp
  have "unat (i * of_nat ENTRY_SIZE) = unat i * ENTRY_SIZE" by (rule unat_scale) (use lt in simp_all)
  then show "unat (start + i * of_nat ENTRY_SIZE) = unat start + unat i * ENTRY_SIZE"
    using lt unat_sum [of start "i * of_nat ENTRY_SIZE"] by simp
qed

lemma read_entry_table:
  assumes "wf_reader r" and "table_fits r start n" and "i < n"
  shows "reader_read_entry r (start + i * of_nat ENTRY_SIZE)
    = Inr (load_entry (take ENTRY_SIZE (drop (unat start + unat i * ENTRY_SIZE) (rd_base r))))"
proof -
  note a = entry_address [OF assms]
  have "\<not> start + i * of_nat ENTRY_SIZE + of_nat ENTRY_SIZE > rd_size r"
    using a wf_reader_size [OF assms(1)] unat_add_nat [of "start + i * of_nat ENTRY_SIZE" ENTRY_SIZE]
    by (simp add: word_less_nat_alt)
  then show ?thesis using a by (simp add: reader_read_entry_def fetch_def read_at_def)
qed

lemma in_bounds_read_table:
  "wf_reader r \<Longrightarrow> table_fits r start n \<Longrightarrow> i < n \<Longrightarrow> in_bounds (reader_read_entry r (start + i * of_nat ENTRY_SIZE))"
  by (simp add: read_entry_table del: of_nat_numeral)

lemma in_bounds_probe_left:
  "wf_reader r \<Longrightarrow> table_fits r start n \<Longrightarrow> left < int (unat n) \<Longrightarrow>
     in_bounds (probe_left r start h key left)"
proof (induction r start h key left rule: probe_left.induct)
  case (1 r start h key left)
  show ?case
  proof (cases "0 \<le> left")
    case True
    then obtain i where i: "left = int i" by (metis nonneg_int_cases)
    have "i < unat n" using 1(4) unfolding i by (simp only: of_nat_less_iff)
    then have "(of_nat i :: u64) < n" using unat_u64_less [of n] by (simp add: word_less_nat_alt)
    then have "in_bounds (reader_read_entry r (start + of_int left * of_nat ENTRY_SIZE))"
      using in_bounds_read_table [OF 1(2,3)] i by simp
    then show ?thesis
      unfolding probe_left.simps [of r start h key left]
      using in_bounds_key_equals [OF 1(2)] 1 True by (auto intro!: in_bounds_rules)
  qed (simp add: probe_left.simps)
qed

lemma in_bounds_probe_right:
  "wf_reader r \<Longrightarrow> table_fits r start n \<Longrightarrow> in_bounds (probe_right r start n h key right)"
proof (induction r start n h key right rule: probe_right.induct)
  case (1 r start n h key right)
  then show ?case
    unfolding probe_right.simps [of r start n h key right]
    using in_bounds_key_equals [OF 1(2)] in_bounds_read_table [OF 1(2,3)] by (auto intro!: in_bounds_rules)
qed

text \<open>An entry index is below \<open>2 ^ 63\<close>, so the cast to \<open>int64_t\<close> keeps it.\<close>

lemma table_index:
  assumes "wf_reader r" and "table_fits r start n" and "i < n"
  shows "sint i = int (unat i)" and "unat (i + 1) = unat i + 1"
proof -
  have "unat i < 2 ^ 63" using entry_address(2) [OF assms] wf_reader_size [OF assms(1)] by simp
  then have "int (unat i) < int (2 ^ 63)" by (simp only: of_nat_less_iff)
  then have "uint i < 2 ^ 63" by simp
  then show "sint i = int (unat i)"
    using order_trans [of "- 9223372036854775808" 0 "uint i"]
    by (simp add: sint_uint signed_take_bit_int_eq_self_iff)
  show "unat (i + 1) = unat i + 1" by (rule unat_Suc [OF assms(3)])
qed

lemma in_bounds_linear_probe:
  assumes "wf_reader r" and "table_fits r start n" and "i < n"
  shows "in_bounds (reader_linear_probe_range r start n i h key)"
proof -
  have "sint i < int (unat n)" unfolding table_index(1) [OF assms]
    using assms(3) by (simp only: of_nat_less_iff word_less_nat_alt)
  from in_bounds_probe_left [OF assms(1,2) this] show ?thesis
    unfolding reader_linear_probe_range_def
    by (intro in_bounds_rules in_bounds_probe_right [OF assms(1,2)]) simp_all
qed

lemma midpoint_bounds:
  fixes low high :: u64
  assumes "low < high"
  shows "low \<le> low + (high - low) div 2" and "low + (high - low) div 2 < high"
  using unat_midpoint [OF assms] assms by (simp_all add: word_le_nat_alt word_less_nat_alt)

lemma in_bounds_binary_search_loop:
  "wf_reader r \<Longrightarrow> table_fits r start n \<Longrightarrow> high \<le> n \<Longrightarrow>
     in_bounds (binary_search_loop r start n h key low high)"
proof (induction r start n h key low high rule: binary_search_loop.induct)
  case (1 r start n h key low high)
  show ?case
  proof (cases "low < high")
    case True
    let ?mid = "low + (high - low) div 2"
    have mid: "?mid < n" "?mid \<le> n" using midpoint_bounds(2) [OF True] 1(5) by simp_all
    show ?thesis
      unfolding binary_search_loop.simps [of r start n h key low high] Let_def
      using 1 True mid
      by (auto intro!: in_bounds_rules in_bounds_read_table in_bounds_key_equals in_bounds_linear_probe
          simp del: of_nat_numeral)
  qed (simp add: binary_search_loop.simps)
qed

lemma in_bounds_binary_search:
  "wf_reader r \<Longrightarrow> table_fits r start n \<Longrightarrow> in_bounds (reader_binary_search_entries r start n h key)"
  unfolding reader_binary_search_entries_def
  by (intro in_bounds_rules in_bounds_binary_search_loop) simp_all

lemma table_fits_root: "wf_reader r \<Longrightarrow> table_fits r (hdr_root_index_offset (rd_header r)) (hdr_root_count (rd_header r))"
  by (simp add: table_fits_def wf_reader_def)

lemma in_bounds_root_at: "wf_reader r \<Longrightarrow> in_bounds (reader_root_at_offset r i want_key)"
  unfolding reader_root_at_offset_def entry_key_def
  by (intro in_bounds_rules in_bounds_read_table [OF _ table_fits_root]) (auto simp: not_le)

lemma in_bounds_find_root: "wf_reader r \<Longrightarrow> in_bounds (reader_find_root_offset hash r key)"
  unfolding reader_find_root_offset_def
  by (intro in_bounds_rules in_bounds_binary_search table_fits_root) simp_all

section \<open>Nodes inside the buffer\<close>

lemma kind_at_bound:
  assumes "wf_reader r" and "\<not> (off < hdr_nodes_offset (rd_header r) \<or>
    off \<ge> hdr_nodes_offset (rd_header r) + hdr_nodes_size (rd_header r))"
  shows "unat off + 1 \<le> length (rd_base r)"
proof -
  have "unat (hdr_nodes_offset (rd_header r) + hdr_nodes_size (rd_header r)) \<le> length (rd_base r)"
    using assms(1) by (subst unat_sum) (auto simp: wf_reader_def)
  then show ?thesis using assms(2) by (simp add: word_le_nat_alt)
qed

lemma in_bounds_kind_at: "wf_reader r \<Longrightarrow> in_bounds (reader_kind_at r off)"
  unfolding reader_kind_at_def Let_def
  by (intro in_bounds_rules in_bounds_fetch kind_at_bound) simp_all

lemma kind_at_within: "wf_reader r \<Longrightarrow> reader_kind_at r off = Inr k \<Longrightarrow> unat off + 1 \<le> length (rd_base r)"
  using kind_at_bound [of r off] by (auto simp: reader_kind_at_def Let_def split: if_splits)

lemma in_bounds_has_kind_byte:
  assumes "wf_reader r"
  shows "in_bounds (has_kind_byte r off k)"
  using wf_reader_size [OF assms] unfolding has_kind_byte_def
  by (intro in_bounds_rules in_bounds_fetch) (simp_all add: word_less_nat_alt not_le)

lemma has_kind_byte_within:
  "wf_reader r \<Longrightarrow> has_kind_byte r off k = Inr x \<Longrightarrow> unat off < length (rd_base r)"
  using wf_reader_size [of r] by (auto simp: has_kind_byte_def word_le_nat_alt split: if_splits)

lemma body_offset_bound:
  assumes "wf_reader r" and "unat off < length (rd_base r)" and "format_alignment a"
  shows "unat (align_up (off + 1) (of_nat a)) = align_up_nat (unat off + 1) a"
    and "unat (align_up (off + 1) (of_nat a)) < 2 ^ 63 + 8"
proof -
  have lt: "unat off + 1 \<le> 2 ^ 63 - 1" using assms(2) wf_reader_size [OF assms(1)] by simp
  then have "off + 1 = of_nat (unat off + 1)" by simp
  then show eq: "unat (align_up (off + 1) (of_nat a)) = align_up_nat (unat off + 1) a"
    using unat_align_up [OF assms(3), of "unat off + 1"] lt by (simp add: add.commute)
  have "0 < a" "a \<le> 8" using assms(3) by (auto simp: format_alignment_def)
  then show "unat (align_up (off + 1) (of_nat a)) < 2 ^ 63 + 8"
    using eq align_up_nat_less [of a "unat off + 1"] lt by simp
qed

text \<open>
  The body of a container: an 8-byte header and then \<open>n\<close> elements of \<open>width\<close> bytes. What the
  two checks of the code ensure.
\<close>

lemma container_bounds:
  assumes wf: "wf_reader r" and off: "unat off < length (rd_base r)"
    and head: "\<not> align_up (off + 1) 8 + 8 > rd_size r"
  shows "unat (align_up (off + 1) 8) + 8 \<le> length (rd_base r)"
    and "unat (align_up (off + 1) 8 + 8) = unat (align_up (off + 1) 8) + 8"
    and "width \<le> 24 \<Longrightarrow> \<not> align_up (off + 1) 8 + 8 + ucast (n :: u32) * of_nat width > rd_size r \<Longrightarrow>
      unat (align_up (off + 1) 8) + 8 + unat n * width \<le> length (rd_base r)"
proof -
  have bound: "unat (align_up (off + 1) 8) < 2 ^ 63 + 8"
    using body_offset_bound(2) [OF wf off, of 8] by (simp add: format_alignment_def)
  show "unat (align_up (off + 1) 8) + 8 \<le> length (rd_base r)"
    using sum_within [OF wf head] bound by simp
  show eq: "unat (align_up (off + 1) 8 + 8) = unat (align_up (off + 1) 8) + 8"
    using unat_add_nat [of "align_up (off + 1) 8" 8] bound by simp
  assume w: "width \<le> 24" and elems: "\<not> align_up (off + 1) 8 + 8 + ucast n * of_nat width > rd_size r"
  have "unat n * width \<le> 2 ^ 32 * 24" using unat_u32_less [of n] w by (intro mult_mono) simp_all
  then have "unat (ucast n * of_nat width :: u64) = unat n * width" "unat n * width < 2 ^ 37"
    using unat_scale [of "ucast n" width] w by simp_all
  then show "unat (align_up (off + 1) 8) + 8 + unat n * width \<le> length (rd_base r)"
    using sum_within [OF wf elems] eq bound by simp
qed

lemma in_bounds_block_body:
  assumes "wf_reader r"
  shows "in_bounds (reader_block_body_offsets r off)"
  unfolding reader_block_body_offsets_def Let_def
  using container_bounds(1) [OF assms has_kind_byte_within [OF assms]]
  by (intro in_bounds_rules in_bounds_has_kind_byte [OF assms] in_bounds_fetch) simp_all

lemma block_body_fits:
  assumes "wf_reader r" and "reader_block_body_offsets r off = Inr (header, entries)"
  shows "table_fits r entries (ucast (bh_child_count header))"
proof -
  have off: "unat off < length (rd_base r)"
    and guards: "\<not> align_up (off + 1) 8 + 8 > rd_size r" "entries = align_up (off + 1) 8 + 8"
      "\<not> align_up (off + 1) 8 + 8 + ucast (bh_child_count header) * of_nat ENTRY_SIZE > rd_size r"
    using assms(2) has_kind_byte_within [OF assms(1)]
    by (auto simp: reader_block_body_offsets_def Let_def outcome_simps split: if_splits)
  show ?thesis
    using container_bounds(2) [OF assms(1) off guards(1)] container_bounds(3) [OF assms(1) off guards(1) _ guards(3)]
    by (simp add: table_fits_def guards(2))
qed

lemma in_bounds_block_find: "wf_reader r \<Longrightarrow> in_bounds (reader_block_find_offset hash r off key)"
  unfolding reader_block_find_offset_def
  by (intro in_bounds_rules in_bounds_block_body in_bounds_binary_search) (auto dest: block_body_fits)

lemma in_bounds_block_entry_at: "wf_reader r \<Longrightarrow> in_bounds (reader_block_entry_at_offset r off i want_key)"
  unfolding reader_block_entry_at_offset_def entry_key_def
  apply (intro in_bounds_rules in_bounds_block_body)
       apply (simp_all del: of_nat_numeral)
  apply (rule in_bounds_read_table)
    apply (auto dest: block_body_fits simp: word_less_nat_alt not_le)
  done

lemma in_bounds_array_body:
  assumes "wf_reader r"
  shows "in_bounds (reader_array_body_offsets r off)"
  unfolding reader_array_body_offsets_def Let_def
  using container_bounds(1) [OF assms has_kind_byte_within [OF assms]]
  by (intro in_bounds_rules in_bounds_has_kind_byte [OF assms] in_bounds_fetch) simp_all

lemma array_body_fits:
  assumes "wf_reader r" and "reader_array_body_offsets r off = Inr (header, elements)"
  shows "unat elements + unat (ah_element_count header) * ARRAY_ELEMENT_SIZE \<le> length (rd_base r)"
proof -
  have off: "unat off < length (rd_base r)"
    and guards: "\<not> align_up (off + 1) 8 + 8 > rd_size r" "elements = align_up (off + 1) 8 + 8"
      "\<not> align_up (off + 1) 8 + 8 + ucast (ah_element_count header) * of_nat ARRAY_ELEMENT_SIZE > rd_size r"
    using assms(2) has_kind_byte_within [OF assms(1)]
    by (auto simp: reader_array_body_offsets_def Let_def outcome_simps split: if_splits)
  show ?thesis
    using container_bounds(2) [OF assms(1) off guards(1)] container_bounds(3) [OF assms(1) off guards(1) _ guards(3)]
    by (simp add: guards(2))
qed

lemma array_element_address:
  assumes "wf_reader r" and "reader_array_body_offsets r off = Inr (header, elements)"
    and "i < ah_element_count header"
  shows "unat (elements + ucast i * of_nat ARRAY_ELEMENT_SIZE) = unat elements + unat i * ARRAY_ELEMENT_SIZE"
    and "unat elements + unat i * ARRAY_ELEMENT_SIZE + 8 \<le> length (rd_base r)"
proof -
  have i: "unat i < unat (ah_element_count header)" using assms(3) by (simp add: word_less_nat_alt)
  then show le: "unat elements + unat i * ARRAY_ELEMENT_SIZE + 8 \<le> length (rd_base r)"
    using array_body_fits [OF assms(1,2)] by simp
  have "unat (ucast i * of_nat ARRAY_ELEMENT_SIZE :: u64) = unat i * ARRAY_ELEMENT_SIZE"
    using unat_scale [of "ucast i" ARRAY_ELEMENT_SIZE] unat_u32_less [of i] by simp
  then show "unat (elements + ucast i * of_nat ARRAY_ELEMENT_SIZE) = unat elements + unat i * ARRAY_ELEMENT_SIZE"
    using unat_sum [of elements "ucast i * of_nat ARRAY_ELEMENT_SIZE"] le wf_reader_size [OF assms(1)] by simp
qed

lemma in_bounds_array_at:
  assumes "wf_reader r"
  shows "in_bounds (reader_array_at_offset r off i)"
  unfolding reader_array_at_offset_def
  by (intro in_bounds_rules in_bounds_array_body [OF assms] in_bounds_fetch)
    (use array_element_address [OF assms] in \<open>auto simp: not_le\<close>)

lemma scalar_body_within:
  assumes "wf_reader r" and "reader_scalar_body r off k = Inr body"
  shows "unat body + kind_body_size k \<le> length (rd_base r)"
proof -
  have k: "reader_kind_at r off = Inr k" and body: "body = align_up (off + 1) (of_nat (kind_body_align k))"
    and guard: "\<not> body + of_nat (kind_body_size k) > rd_size r"
    using assms(2) by (auto simp: reader_scalar_body_def body_offset_from_kind_def Let_def outcome_simps split: if_splits)
  have "unat body < 2 ^ 63 + 8"
    unfolding body using body_offset_bound(2) [OF assms(1)] kind_at_within [OF assms(1) k] by simp
  then show ?thesis
    using sum_within [OF assms(1) guard] kind_body_size_le [of k] by simp
qed

lemma in_bounds_scalar_body: "wf_reader r \<Longrightarrow> in_bounds (reader_scalar_body r off k)"
  unfolding reader_scalar_body_def Let_def
  by (intro in_bounds_rules in_bounds_kind_at) simp_all

lemma in_bounds_scalar_word:
  assumes "wf_reader r" and "kind_body_size k = 8"
  shows "in_bounds (reader_scalar_word_at k r off)"
  unfolding reader_scalar_word_at_def
  using scalar_body_within [OF assms(1), of off k] assms(2)
  by (intro in_bounds_rules in_bounds_scalar_body [OF assms(1)] in_bounds_fetch) simp_all

lemma in_bounds_scalars:
  assumes "wf_reader r"
  shows "in_bounds (reader_scalar_int64_at r off)" and "in_bounds (reader_scalar_uint64_at r off)"
    and "in_bounds (reader_scalar_float64_at r off)" and "in_bounds (reader_scalar_bool_at r off)"
    and "in_bounds (reader_scalar_string_at r off)"
proof -
  show "in_bounds (reader_scalar_string_at r off)"
    unfolding reader_scalar_string_at_def Let_def
    using scalar_body_within [OF assms, of off K_STRING]
    by (intro in_bounds_rules in_bounds_scalar_body [OF assms] in_bounds_fetch) simp_all
qed (auto simp: reader_scalar_int64_at_def reader_scalar_uint64_at_def reader_scalar_float64_at_def
    reader_scalar_bool_at_def intro!: in_bounds_rules in_bounds_scalar_word in_bounds_kind_at assms)

text \<open>A string that is handed out lies inside the buffer.\<close>

lemma string_within:
  assumes "wf_reader r" and "reader_scalar_string_at r off = Inr (p, n)"
  shows "unat p + unat n \<le> length (rd_base r)"
proof -
  obtain ref :: string_ref where "p = ucast (sr_pool_offset ref) + 4" "n = ucast (sr_length ref)"
    "\<not> ucast (sr_pool_offset ref) + 4 + ucast (sr_length ref) > rd_size r"
    using assms(2) by (auto simp: reader_scalar_string_at_def Let_def outcome_simps split: if_splits)
  then show ?thesis
    using sum_within [OF assms(1), of p n] unat_key_position [of "sr_pool_offset ref"]
      unat_u32_less [of "sr_pool_offset ref"] unat_u32_less [of "sr_length ref"] by simp
qed

section \<open>What opening establishes\<close>

lemma open_buffer_fields:
  assumes "reader_open_buffer pf data = Inr r"
  shows "rd_base r = data" and "rd_size r = of_nat (length data)"
    and "rd_header r = load_header (take HEADER_SIZE data)"
    and "reader_header_layout_valid (rd_header r) (rd_size r)"
  using assms
  by (auto simp: reader_open_buffer_def reader_attach_buffer_def Let_def outcome_simps split: if_splits)

text \<open>
  The layout check adds 64-bit words that an attacker chose. \<open>regions_do_not_wrap\<close> says that the
  three sums it makes stay below \<open>2 ^ 64\<close>.
\<close>

definition regions_do_not_wrap :: "header \<Rightarrow> bool" where
  "regions_do_not_wrap h \<longleftrightarrow>
     ROOT_INDEX_OFFSET + unat (hdr_root_count h) * ENTRY_SIZE + unat (hdr_nodes_size h) + unat (hdr_strings_size h) < 2 ^ 64"

lemma footer_end:
  fixes a :: u64
  assumes "32 \<le> unat (a + 32)"
  shows "unat (a + 32) = unat a + 32"
proof (rule ccontr)
  assume ne: "unat (a + 32) \<noteq> unat a + 32"
  then have ge: "2 ^ 64 \<le> unat a + 32" using unat_add_nat [of a 32] by fastforce
  have "unat (a + 32) = (unat a + 32) mod 2 ^ 64" by (simp add: unat_word_ariths(1))
  also have "\<dots> = (unat a + 32 - 2 ^ 64) mod 2 ^ 64" using ge by (rule le_mod_geq)
  also have "\<dots> < 32" using unat_u64_less [of a] ge by simp
  finally show False using assms by simp
qed

lemma layout_regions:
  assumes "reader_header_layout_valid h n" and "regions_do_not_wrap h"
  shows "unat (hdr_root_index_offset h) = ROOT_INDEX_OFFSET"
    and "unat (hdr_nodes_offset h) = ROOT_INDEX_OFFSET + unat (hdr_root_count h) * ENTRY_SIZE"
    and "unat (hdr_strings_offset h) = unat (hdr_nodes_offset h) + unat (hdr_nodes_size h)"
    and "unat (hdr_footer_offset h) = unat (hdr_strings_offset h) + unat (hdr_strings_size h)"
    and "160 \<le> n \<Longrightarrow> unat (hdr_footer_offset h) + FOOTER_SIZE = unat n"
proof -
  note bound = assms(2) [unfolded regions_do_not_wrap_def]
  have eqs: "hdr_root_index_offset h = 128" "hdr_root_index_size h = hdr_root_count h * of_nat 24"
    "hdr_nodes_offset h = 128 + hdr_root_index_size h"
    "hdr_strings_offset h = hdr_nodes_offset h + hdr_nodes_size h"
    "hdr_footer_offset h = hdr_strings_offset h + hdr_strings_size h" "n = hdr_footer_offset h + 32"
    using assms(1) by (auto simp: reader_header_layout_valid_def split: if_splits)
  show "unat (hdr_root_index_offset h) = ROOT_INDEX_OFFSET" by (simp add: eqs(1))
  have "unat (hdr_root_index_size h) = unat (hdr_root_count h) * 24"
    unfolding eqs(2) by (rule unat_scale) (use bound in simp_all)
  then show nodes: "unat (hdr_nodes_offset h) = ROOT_INDEX_OFFSET + unat (hdr_root_count h) * ENTRY_SIZE"
    unfolding eqs(3) using unat_sum [of 128 "hdr_root_index_size h"] bound by simp
  show strings: "unat (hdr_strings_offset h) = unat (hdr_nodes_offset h) + unat (hdr_nodes_size h)"
    unfolding eqs(4) by (rule unat_sum) (use nodes bound in simp)
  show footer: "unat (hdr_footer_offset h) = unat (hdr_strings_offset h) + unat (hdr_strings_size h)"
    unfolding eqs(5) by (rule unat_sum) (use nodes strings bound in simp)
  assume "160 \<le> n"
  then show "unat (hdr_footer_offset h) + FOOTER_SIZE = unat n"
    unfolding eqs(6) using footer_end [of "hdr_footer_offset h"] by (simp add: word_le_nat_alt)
qed

lemma open_buffer_size:
  assumes "reader_open_buffer pf data = Inr r" and "length data < 2 ^ 63"
  shows "160 \<le> length data"
  using assms
  by (auto simp: reader_open_buffer_def reader_attach_buffer_def Let_def word_less_nat_alt split: if_splits)

lemma open_buffer_wf:
  assumes "reader_open_buffer pf data = Inr r" and "length data < 2 ^ 63"
    and "regions_do_not_wrap (rd_header r)"
  shows "wf_reader r"
proof -
  note fields = open_buffer_fields [OF assms(1)]
  have "160 \<le> rd_size r"
    using open_buffer_size [OF assms(1,2)] assms(2) by (simp add: fields(2) word_le_nat_alt)
  then show ?thesis
    using layout_regions [OF fields(4) assms(3)] assms(2) by (simp add: wf_reader_def fields(1,2))
qed

text \<open>Opening itself stays inside the buffer, whatever the header says.\<close>

lemma open_buffer_in_bounds:
  assumes "length data < 2 ^ 63"
  shows "in_bounds (reader_open_buffer pf data)"
proof (cases "160 \<le> length data")
  case False
  then show ?thesis using assms
    by (simp add: reader_open_buffer_def reader_attach_buffer_def word_less_nat_alt)
next
  case True
  have "unat (hdr_footer_offset h) + 32 \<le> length data" if "reader_header_layout_valid h (of_nat (length data))" for h
  proof -
    have "of_nat (length data) = hdr_footer_offset h + 32"
      using that by (auto simp: reader_header_layout_valid_def split: if_splits)
    then have "unat (hdr_footer_offset h + 32) = length data"
      using unat_of_nat_u64 [of "length data"] assms by simp
    then show ?thesis using footer_end [of "hdr_footer_offset h"] True by simp
  qed
  then show ?thesis using True assms
    unfolding reader_open_buffer_def reader_attach_buffer_def reader_footer_matches_def Let_def
    by (intro in_bounds_rules in_bounds_fetch) simp_all
qed

end
