(* ===== verification/Utf8.thy ===== *)
theory Utf8
  imports Reader
begin

text \<open>
  The statuses of the verifier and its UTF-8 check
  (\<open>src/verify/bc_hrbl_verify.c\<close>, lines 14 to 62), and the proof that it accepts exactly the
  concatenations of encoded Unicode scalar values.
\<close>

section \<open>Statuses\<close>

datatype status = V_OK | V_TOO_SMALL | V_BAD_MAGIC | V_BAD_VERSION | V_BAD_FLAGS | V_BAD_FILE_SIZE
  | V_BAD_FOOTER | V_BAD_CHECKSUM | V_BAD_LAYOUT | V_BAD_ROOT_INDEX | V_BAD_NODE | V_BAD_STRING
  | V_BAD_UTF8 | V_DUPLICATE_KEY | V_IO

fun status_name :: "status \<Rightarrow> string" where
  "status_name V_OK = ''ok''"
| "status_name V_TOO_SMALL = ''too_small''"
| "status_name V_BAD_MAGIC = ''bad_magic''"
| "status_name V_BAD_VERSION = ''bad_version''"
| "status_name V_BAD_FLAGS = ''bad_flags''"
| "status_name V_BAD_FILE_SIZE = ''bad_file_size''"
| "status_name V_BAD_FOOTER = ''bad_footer''"
| "status_name V_BAD_CHECKSUM = ''bad_checksum''"
| "status_name V_BAD_LAYOUT = ''bad_layout''"
| "status_name V_BAD_ROOT_INDEX = ''bad_root_index''"
| "status_name V_BAD_NODE = ''bad_node''"
| "status_name V_BAD_STRING = ''bad_string''"
| "status_name V_BAD_UTF8 = ''bad_utf8''"
| "status_name V_DUPLICATE_KEY = ''duplicate_key''"
| "status_name V_IO = ''io_error''"

text \<open>A check that has to answer \<open>ok\<close> before the next one runs.\<close>

definition and_then :: "stop + status \<Rightarrow> (stop + status) \<Rightarrow> stop + status" where
  "and_then m n = bindE m (\<lambda>status. if status \<noteq> V_OK then Inr status else n)"

definition byte_at :: "bytes \<Rightarrow> u64 \<Rightarrow> stop + byte" where
  "byte_at data off = bindE (fetch data off 1) (\<lambda>bs. Inr (hd bs))"

section \<open>UTF-8\<close>

text \<open>Length of the sequence and the bits of the code point a lead byte carries.\<close>

definition utf8_lead :: "byte \<Rightarrow> (nat \<times> u32) option" where
  "utf8_lead b =
     (if b AND 0xE0 = 0xC0 then
        let codepoint = ucast (b AND 0x1F)
        in if codepoint < 2 then None else Some (2, codepoint)
      else if b AND 0xF0 = 0xE0 then Some (3, ucast (b AND 0x0F))
      else if b AND 0xF8 = 0xF0 then Some (4, ucast (b AND 0x07))
      else None)"

function utf8_continuation :: "bytes \<Rightarrow> u64 \<Rightarrow> nat \<Rightarrow> nat \<Rightarrow> u32 \<Rightarrow> stop + u32 option" where
  "utf8_continuation data start sequence_length k codepoint =
     (if k < sequence_length then
        bindE (byte_at data (start + of_nat k)) (\<lambda>continuation.
        if continuation AND 0xC0 \<noteq> 0x80 then Inr None
        else utf8_continuation data start sequence_length (k + 1)
               (push_bit 6 codepoint OR ucast (continuation AND 0x3F)))
      else Inr (Some codepoint))"
  by pat_completeness auto
termination by (relation "measure (\<lambda>(_, _, n, k, _). n - k)") auto

declare utf8_continuation.simps [simp del]

definition utf8_codepoint_ok :: "nat \<Rightarrow> u32 \<Rightarrow> bool" where
  "utf8_codepoint_ok sequence_length codepoint =
     (if sequence_length = 3 \<and> codepoint < 0x800 then False
      else if sequence_length = 4 \<and> (codepoint < 0x10000 \<or> codepoint > 0x10FFFF) then False
      else if codepoint \<ge> 0xD800 \<and> codepoint \<le> 0xDFFF then False
      else True)"

lemma utf8_lead_length: "utf8_lead b = Some (n, cp) \<Longrightarrow> 0 < n"
  by (auto simp: utf8_lead_def Let_def split: if_splits)

text \<open>\<open>start\<close> is the position of the string in \<open>data\<close>, \<open>n\<close> its length.\<close>

function verify_utf8_loop :: "bytes \<Rightarrow> u64 \<Rightarrow> nat \<Rightarrow> nat \<Rightarrow> stop + status" where
  "verify_utf8_loop data start n index =
     (if index < n then
        bindE (byte_at data (start + of_nat index)) (\<lambda>b.
        if b < 0x80 then verify_utf8_loop data start n (index + 1)
        else case utf8_lead b of
          None \<Rightarrow> Inr V_BAD_UTF8
        | Some (sequence_length, codepoint) \<Rightarrow>
            if index + sequence_length > n then Inr V_BAD_UTF8
            else bindE (utf8_continuation data (start + of_nat index) sequence_length 1 codepoint) (\<lambda>result.
              case result of
                None \<Rightarrow> Inr V_BAD_UTF8
              | Some codepoint \<Rightarrow>
                  if \<not> utf8_codepoint_ok sequence_length codepoint then Inr V_BAD_UTF8
                  else verify_utf8_loop data start n (index + sequence_length)))
      else Inr V_OK)"
  by pat_completeness auto
termination
  by (relation "measure (\<lambda>(_, _, n, index). n - index)") (auto dest: utf8_lead_length)

declare verify_utf8_loop.simps [simp del]

definition verify_utf8_length :: "bytes \<Rightarrow> u64 \<Rightarrow> nat \<Rightarrow> stop + status" where
  "verify_utf8_length data start n = verify_utf8_loop data start n 0"

section \<open>The encoding form\<close>

definition is_scalar :: "nat \<Rightarrow> bool" where
  "is_scalar cp \<longleftrightarrow> cp < 0xD800 \<or> 0xE000 \<le> cp \<and> cp \<le> 0x10FFFF"

definition utf8_encode :: "nat \<Rightarrow> bytes" where
  "utf8_encode cp =
     (if cp < 0x80 then [of_nat cp]
      else if cp < 0x800 then [of_nat (0xC0 + cp div 64), of_nat (0x80 + cp mod 64)]
      else if cp < 0x10000 then
        [of_nat (0xE0 + cp div 4096), of_nat (0x80 + cp div 64 mod 64), of_nat (0x80 + cp mod 64)]
      else
        [of_nat (0xF0 + cp div 262144), of_nat (0x80 + cp div 4096 mod 64), of_nat (0x80 + cp div 64 mod 64),
         of_nat (0x80 + cp mod 64)])"

definition well_formed_utf8 :: "bytes \<Rightarrow> bool" where
  "well_formed_utf8 s \<longleftrightarrow> (\<exists>cps. (\<forall>cp \<in> set cps. is_scalar cp) \<and> s = concat (map utf8_encode cps))"

section \<open>The masks as arithmetic\<close>

lemma byte_high_bits: "unat ((b :: byte) AND NOT (mask n)) = unat b div 2 ^ n * 2 ^ n"
proof -
  have eq: "b AND NOT (mask n) = push_bit n (drop_bit n b)"
    by (rule bit_eqI) (auto simp: bit_and_iff bit_not_iff bit_mask_iff bit_push_bit_iff bit_drop_bit_eq)
  have lt: "unat b div 2 ^ n * 2 ^ n < 2 ^ 8"
    using unsigned_less [of b, where ?'a = nat] div_times_less_eq_dividend [of "unat b" "2 ^ n"]
    by (simp del: div_times_less_eq_dividend)
  have "unat (push_bit n (drop_bit n b)) = take_bit 8 (push_bit n (drop_bit n (unat b)))"
    by (simp add: unsigned_push_bit_eq unat_drop_bit_eq)
  also have "\<dots> = take_bit 8 (unat b div 2 ^ n * 2 ^ n)"
    by (simp only: push_bit_eq_mult drop_bit_eq_div)
  also have "\<dots> = unat b div 2 ^ n * 2 ^ n"
    using lt by (simp only: take_bit_nat_eq_self)
  finally show ?thesis using eq by simp
qed

lemma byte_low_bits: "unat ((b :: byte) AND mask n) = unat b mod 2 ^ n"
  by (simp only: take_bit_eq_mask [symmetric] unsigned_take_bit_eq) (simp only: take_bit_eq_mod)

lemma masks:
  "(0xC0 :: byte) = NOT (mask 6)" "(0xE0 :: byte) = NOT (mask 5)" "(0xF0 :: byte) = NOT (mask 4)"
  "(0xF8 :: byte) = NOT (mask 3)" "(0x3F :: byte) = mask 6" "(0x1F :: byte) = mask 5"
  "(0x0F :: byte) = mask 4" "(0x07 :: byte) = mask 3"
  by (simp_all add: mask_eq_exp_minus_1)

lemma byte_tests:
  fixes b :: byte
  shows "b AND 0xC0 = 0x80 \<longleftrightarrow> unat b div 64 = 2"
    and "b AND 0xE0 = 0xC0 \<longleftrightarrow> unat b div 32 = 6"
    and "b AND 0xF0 = 0xE0 \<longleftrightarrow> unat b div 16 = 14"
    and "b AND 0xF8 = 0xF0 \<longleftrightarrow> unat b div 8 = 30"
proof -
  have "b AND 0xC0 = 0x80 \<longleftrightarrow> unat (b AND NOT (mask 6)) = 128" unfolding masks(1) by (simp add: word_unat_eq_iff)
  then show "b AND 0xC0 = 0x80 \<longleftrightarrow> unat b div 64 = 2" unfolding byte_high_bits by simp
  have "b AND 0xE0 = 0xC0 \<longleftrightarrow> unat (b AND NOT (mask 5)) = 192" unfolding masks(2) by (simp add: word_unat_eq_iff)
  then show "b AND 0xE0 = 0xC0 \<longleftrightarrow> unat b div 32 = 6" unfolding byte_high_bits by simp
  have "b AND 0xF0 = 0xE0 \<longleftrightarrow> unat (b AND NOT (mask 4)) = 224" unfolding masks(3) by (simp add: word_unat_eq_iff)
  then show "b AND 0xF0 = 0xE0 \<longleftrightarrow> unat b div 16 = 14" unfolding byte_high_bits by simp
  have "b AND 0xF8 = 0xF0 \<longleftrightarrow> unat (b AND NOT (mask 3)) = 240" unfolding masks(4) by (simp add: word_unat_eq_iff)
  then show "b AND 0xF8 = 0xF0 \<longleftrightarrow> unat b div 8 = 30" unfolding byte_high_bits by simp
qed

lemma unat_byte_less: "unat (b :: byte) < 256"
  using unsigned_less [of b, where ?'a = nat] by simp

lemma unat_ucast_byte [simp]: "unat (ucast (b :: byte) :: u32) = unat b"
proof -
  have "unat b < 2 ^ 32" using unat_byte_less [of b] by simp
  then show ?thesis by (simp add: unsigned_ucast_eq take_bit_nat_eq_self)
qed

lemma byte_values:
  fixes b :: byte
  shows "unat (b AND 0x3F) = unat b mod 64" and "unat (b AND 0x1F) = unat b mod 32"
    and "unat (b AND 0x0F) = unat b mod 16" and "unat (b AND 0x07) = unat b mod 8"
  unfolding masks(5-8) byte_low_bits by simp_all

lemma shift_in:
  fixes cp x :: u32
  assumes "unat cp < 2 ^ 26" and "unat x < 64"
  shows "unat (push_bit 6 cp OR x) = unat cp * 64 + unat x"
proof -
  have "\<not> bit x n" if "6 \<le> n" for n
  proof -
    have "x = take_bit 6 x" using assms(2) by (simp add: word_unat_eq_iff unsigned_take_bit_eq take_bit_nat_eq_self)
    then show ?thesis using that by (metis bit_take_bit_iff not_less)
  qed
  then have "push_bit 6 cp + x = push_bit 6 cp OR x"
    by (intro disjunctive_add) (auto simp: bit_push_bit_iff not_le)
  moreover have "push_bit 6 cp = cp * 64" by (simp add: push_bit_eq_mult)
  moreover have "unat (cp * 64) = unat cp * 64" using assms(1) by (simp add: unat_word_ariths(2))
  moreover from this have "unat (cp * 64 + x) = unat cp * 64 + unat x"
    using assms by (simp add: unat_word_ariths(1))
  ultimately show ?thesis by simp
qed

section \<open>One sequence\<close>

text \<open>The loop body on a list of bytes: how many bytes the first sequence takes, if it is good.\<close>

fun continuation_bits :: "nat \<Rightarrow> bytes \<Rightarrow> nat \<Rightarrow> nat option" where
  "continuation_bits 0 bs cp = Some cp"
| "continuation_bits (Suc n) [] cp = None"
| "continuation_bits (Suc n) (b # bs) cp =
     (if unat b div 64 \<noteq> 2 then None else continuation_bits n bs (cp * 64 + unat b mod 64))"

definition lead_bits :: "nat \<Rightarrow> (nat \<times> nat) option" where
  "lead_bits b =
     (if b div 32 = 6 then if b mod 32 < 2 then None else Some (2, b mod 32)
      else if b div 16 = 14 then Some (3, b mod 16)
      else if b div 8 = 30 then Some (4, b mod 8)
      else None)"

definition codepoint_ok :: "nat \<Rightarrow> nat \<Rightarrow> bool" where
  "codepoint_ok n cp \<longleftrightarrow> \<not> (n = 3 \<and> cp < 0x800) \<and> \<not> (n = 4 \<and> (cp < 0x10000 \<or> cp > 0x10FFFF))
     \<and> \<not> (0xD800 \<le> cp \<and> cp \<le> 0xDFFF)"

definition sequence_length :: "bytes \<Rightarrow> nat option" where
  "sequence_length s =
     (case s of [] \<Rightarrow> None
      | b # bs \<Rightarrow>
          if unat b < 128 then Some 1
          else case lead_bits (unat b) of None \<Rightarrow> None
          | Some (n, cp) \<Rightarrow> (case continuation_bits (n - 1) bs cp of None \<Rightarrow> None
              | Some cp \<Rightarrow> if codepoint_ok n cp then Some n else None))"

lemma utf8_lead_bits:
  "utf8_lead b = (case lead_bits (unat b) of None \<Rightarrow> None | Some (n, cp) \<Rightarrow> Some (n, of_nat cp))"
proof -
  have eq: "(ucast (b AND m) :: u32) = of_nat (unat (ucast (b AND m) :: u32))" for m :: byte
    by simp
  have small: "ucast (b AND 0x1F) < (2 :: u32) \<longleftrightarrow> unat b mod 32 < 2"
    by (simp add: word_less_nat_alt byte_values)
  show ?thesis
    unfolding utf8_lead_def lead_bits_def byte_tests Let_def small
    by (subst (1 2 3) eq) (simp add: byte_values)
qed

lemma codepoint_ok_word: "cp < 2 ^ 32 \<Longrightarrow> utf8_codepoint_ok n (of_nat cp) \<longleftrightarrow> codepoint_ok n cp"
  by (auto simp: utf8_codepoint_ok_def codepoint_ok_def word_less_nat_alt word_le_nat_alt)

lemma lead_bits_bound: "lead_bits b = Some (n, cp) \<Longrightarrow> n \<in> {2, 3, 4} \<and> cp < 32"
proof -
  assume "lead_bits b = Some (n, cp)"
  moreover have "b mod 16 < 32" "b mod 8 < 32" by (rule less_trans [OF mod_less_divisor]; simp)+
  ultimately show ?thesis by (auto simp: lead_bits_def split: if_splits)
qed

lemma continuation_bits_bound:
  "continuation_bits n bs cp = Some cp' \<Longrightarrow> cp < 32 * 64 ^ m \<Longrightarrow> cp' < 32 * 64 ^ (m + n) \<and> n \<le> length bs"
proof (induction n bs cp arbitrary: m rule: continuation_bits.induct)
  case (3 n b bs cp)
  have "unat b mod 64 < 64" by simp
  then have "cp * 64 + unat b mod 64 < 32 * 64 ^ Suc m" using 3(3) by simp
  then show ?case using 3(1) [of "Suc m"] 3(2) by (auto split: if_splits)
qed simp_all

lemma byte_at_string:
  assumes "unat start + length s \<le> length data" and "length data < 2 ^ 63"
    and "s = take (length s) (drop (unat start) data)" and "i < length s"
  shows "byte_at data (start + of_nat i) = Inr (s ! i)"
proof -
  have i: "unat (start + of_nat i) = unat start + i" using assms by (intro unat_add_nat) simp
  have "s ! i = take (length s) (drop (unat start) data) ! i" by (rule arg_cong [OF assms(3)])
  then have "s ! i = data ! (unat start + i)" using assms(1,4) by simp
  then show ?thesis using assms i
    by (simp add: byte_at_def fetch_def read_at_def take_Suc_conv_app_nth hd_drop_conv_nth)
qed

lemma utf8_continuation_eq:
  assumes place: "unat start + length s \<le> length data" "length data < 2 ^ 63"
    "s = take (length s) (drop (unat start) data)" and j: "j + n \<le> length s" and n: "n \<le> 4"
  shows "cp < 32 * 64 ^ (k - 1) \<Longrightarrow> 1 \<le> k \<Longrightarrow> k \<le> n \<Longrightarrow>
    utf8_continuation data (start + of_nat j) n k (of_nat cp)
     = Inr (map_option of_nat (continuation_bits (n - k) (drop (j + k) s) cp))"
proof (induction "n - k" arbitrary: k cp)
  case 0
  then show ?case by (simp add: utf8_continuation.simps)
next
  case (Suc d)
  have k: "k < n" using Suc.hyps(2) by simp
  let ?b = "s ! (j + k)"
  have byte: "byte_at data (start + of_nat j + of_nat k) = Inr ?b"
    using byte_at_string [OF place, of "j + k"] k j by (simp add: add.assoc)
  have "k - 1 \<le> 2" using k n by simp
  then have "(64 :: nat) ^ (k - 1) \<le> 64 ^ 2" by (intro power_increasing) simp_all
  then have cp: "cp < 2 ^ 26" using Suc.prems(1) by simp
  have shifted: "push_bit 6 (of_nat cp) OR ucast (?b AND 0x3F) = (of_nat (cp * 64 + unat ?b mod 64) :: u32)"
  proof -
    have "cp * 64 + unat ?b mod 64 < 4294967296" using cp mod_less_divisor [of 64 "unat ?b"] by simp
    from unat_of_nat_u32 [OF this] show ?thesis
      using shift_in [of "of_nat cp" "ucast (?b AND 0x3F)"] cp
      unfolding word_unat_eq_iff by (simp add: byte_values del: of_nat_add of_nat_mult)
  qed
  have bound: "cp * 64 + unat ?b mod 64 < 32 * 64 ^ (Suc k - 1)"
    using Suc.prems(1,2) power_Suc [of "64 :: nat" "k - 1"] mod_less_divisor [of 64 "unat ?b"]
    by (simp add: Suc_diff_1 del: power_Suc) 
  have drop: "drop (j + k) s = ?b # drop (j + Suc k) s" using k j by (simp add: Cons_nth_drop_Suc)
  have step: "utf8_continuation data (start + of_nat j) n k (of_nat cp) =
     (if unat ?b div 64 \<noteq> 2 then Inr None
      else utf8_continuation data (start + of_nat j) n (k + 1) (of_nat (cp * 64 + unat ?b mod 64)))"
    using k byte shifted by (subst utf8_continuation.simps) (simp add: byte_tests)
  have "n - k = Suc (n - Suc k)" using k by simp
  then show ?case unfolding step drop
    using Suc.hyps(1) [of "Suc k" "cp * 64 + unat ?b mod 64"] Suc.hyps(2) bound k by simp
qed

section \<open>The loop is the iteration of that step\<close>

lemma sequence_length_bounds: "sequence_length s = Some n \<Longrightarrow> 0 < n \<and> n \<le> length s"
proof -
  assume s: "sequence_length s = Some n"
  then obtain b bs where "s = b # bs" by (auto simp: sequence_length_def split: list.splits)
  then show ?thesis using s
    by (auto simp: sequence_length_def split: if_splits option.splits
        dest!: continuation_bits_bound [where m = 0] lead_bits_bound)
qed

function utf8_ok :: "bytes \<Rightarrow> bool" where
  "utf8_ok s = (if s = [] then True else case sequence_length s of None \<Rightarrow> False | Some n \<Rightarrow> utf8_ok (drop n s))"
  by pat_completeness auto
termination by (relation "measure length") (auto dest: sequence_length_bounds)

declare utf8_ok.simps [simp del]

lemma utf8_loop_eq:
  assumes place: "unat start + length s \<le> length data" "length data < 2 ^ 63"
    "s = take (length s) (drop (unat start) data)"
  shows "verify_utf8_loop data start (length s) j = Inr (if utf8_ok (drop j s) then V_OK else V_BAD_UTF8)"
proof (induction "length s - j" arbitrary: j rule: less_induct)
  case less
  note unfold = verify_utf8_loop.simps [of data start "length s" j] utf8_ok.simps [of "drop j s"]
  show ?case
  proof (cases "j < length s")
    case False
    then have "utf8_ok (drop j s)" by (simp add: utf8_ok.simps)
    then show ?thesis using False by (simp add: unfold(1))
  next
    case True
    let ?b = "s ! j" and ?bs = "drop (Suc j) s"
    have cons: "drop j s = ?b # ?bs" using True by (simp add: Cons_nth_drop_Suc)
    have "utf8_ok (drop j s) = (case sequence_length (drop j s) of None \<Rightarrow> False | Some n \<Rightarrow> utf8_ok (drop n (drop j s)))"
      using True by (subst utf8_ok.simps) simp
    then have ok: "utf8_ok (drop j s) = (case sequence_length (?b # ?bs) of None \<Rightarrow> False | Some n \<Rightarrow> utf8_ok (drop (j + n) s))"
      unfolding cons [symmetric] by (simp add: add.commute cong: option.case_cong)
    have byte: "byte_at data (start + of_nat j) = Inr ?b" by (rule byte_at_string [OF place True])
    have small: "?b < 0x80 \<longleftrightarrow> unat ?b < 128" by (simp add: word_less_nat_alt)
    have IH: "verify_utf8_loop data start (length s) (j + n) = Inr (if utf8_ok (drop (j + n) s) then V_OK else V_BAD_UTF8)"
      if "0 < n" for n
      using less [of "j + n"] True that by simp
    show ?thesis
    proof (cases "unat ?b < 128 \<or> lead_bits (unat ?b) = None")
      case True
      then show ?thesis using \<open>j < length s\<close> IH [of 1] byte small
        unfolding unfold(1) ok
        by (auto simp: sequence_length_def utf8_lead_bits)
    next
      case False
      then obtain n cp where lead: "lead_bits (unat ?b) = Some (n, cp)" by auto
      note n = lead_bits_bound [OF lead]
      have enough: "j + n \<le> length s" if "continuation_bits (n - 1) ?bs cp \<noteq> None"
        using that continuation_bits_bound [of "n - 1" ?bs cp _ 0] n True by auto
      have cont: "utf8_continuation data (start + of_nat j) n 1 (of_nat cp) = Inr (map_option of_nat (continuation_bits (n - 1) ?bs cp))"
        if "j + n \<le> length s"
        using utf8_continuation_eq [OF place that, of cp 1] n by auto
      have word: "utf8_codepoint_ok n (of_nat cp') \<longleftrightarrow> codepoint_ok n cp'"
        if "continuation_bits (n - 1) ?bs cp = Some cp'" for cp'
      proof (rule codepoint_ok_word)
        have "(64 :: nat) ^ (n - 1) \<le> 64 ^ 3" using n by (intro power_increasing) auto
        then show "cp' < 2 ^ 32" using continuation_bits_bound [OF that, of 0] n by simp
      qed
      show ?thesis
        using True False lead byte small enough cont word IH [of n] n
        by (cases "continuation_bits (n - 1) ?bs cp")
          (auto simp: unfold(1) ok sequence_length_def utf8_lead_bits)
    qed
  qed
qed

section \<open>Sequences are encodings of scalar values\<close>

lemma unat_of_nat_byte: "n < 256 \<Longrightarrow> unat (of_nat n :: byte) = n"
  by (simp add: unat_of_nat)

lemma byte_of_nat_eq: "n < 256 \<Longrightarrow> (of_nat n :: byte) = b \<longleftrightarrow> n = unat b"
  by (metis unat_of_nat_byte word_unat_eq_iff)

lemma encode_bytes:
  "cp < 0x80 \<Longrightarrow> utf8_encode cp = [b1] \<longleftrightarrow> unat b1 = cp"
  "0x80 \<le> cp \<Longrightarrow> cp < 0x800 \<Longrightarrow> utf8_encode cp = [b1, b2] \<longleftrightarrow> unat b1 = 192 + cp div 64 \<and> unat b2 = 128 + cp mod 64"
  "0x800 \<le> cp \<Longrightarrow> cp < 0x10000 \<Longrightarrow> utf8_encode cp = [b1, b2, b3] \<longleftrightarrow>
     unat b1 = 224 + cp div 4096 \<and> unat b2 = 128 + cp div 64 mod 64 \<and> unat b3 = 128 + cp mod 64"
  "0x10000 \<le> cp \<Longrightarrow> cp < 0x110000 \<Longrightarrow> utf8_encode cp = [b1, b2, b3, b4] \<longleftrightarrow>
     unat b1 = 240 + cp div 262144 \<and> unat b2 = 128 + cp div 4096 mod 64 \<and> unat b3 = 128 + cp div 64 mod 64
     \<and> unat b4 = 128 + cp mod 64"
proof -
  have r: "128 + n mod 64 < 256" for n :: nat using mod_less_divisor [of 64 n] by linarith
  show "cp < 0x80 \<Longrightarrow> utf8_encode cp = [b1] \<longleftrightarrow> unat b1 = cp"
    using byte_of_nat_eq [of cp b1] by (auto simp: utf8_encode_def)
  note e = byte_of_nat_eq [OF r]
  show "utf8_encode cp = [b1, b2] \<longleftrightarrow> unat b1 = 192 + cp div 64 \<and> unat b2 = 128 + cp mod 64"
    if cp: "0x80 \<le> cp" "cp < 0x800"
  proof -
    have "192 + cp div 64 < 256" using cp by simp
    note e1 = byte_of_nat_eq [OF this]
    have "utf8_encode cp = [of_nat (192 + cp div 64), of_nat (128 + cp mod 64)]"
      unfolding utf8_encode_def by (subst if_not_P, use cp in linarith, subst if_P, use cp in linarith) simp
    then show ?thesis by (simp only: list.inject e e1 simp_thms) metis
  qed
  show "utf8_encode cp = [b1, b2, b3] \<longleftrightarrow>
     unat b1 = 224 + cp div 4096 \<and> unat b2 = 128 + cp div 64 mod 64 \<and> unat b3 = 128 + cp mod 64"
    if cp: "0x800 \<le> cp" "cp < 0x10000"
  proof -
    have "224 + cp div 4096 < 256" using cp by simp
    note e1 = byte_of_nat_eq [OF this]
    have "utf8_encode cp = [of_nat (224 + cp div 4096), of_nat (128 + cp div 64 mod 64), of_nat (128 + cp mod 64)]"
      unfolding utf8_encode_def
      by (subst if_not_P, use cp in linarith, subst if_not_P, use cp in linarith, subst if_P, use cp in linarith) simp
    then show ?thesis by (simp only: list.inject e e1 simp_thms) metis
  qed
  show "utf8_encode cp = [b1, b2, b3, b4] \<longleftrightarrow>
     unat b1 = 240 + cp div 262144 \<and> unat b2 = 128 + cp div 4096 mod 64 \<and> unat b3 = 128 + cp div 64 mod 64
     \<and> unat b4 = 128 + cp mod 64"
    if cp: "0x10000 \<le> cp" "cp < 0x110000"
  proof -
    have "240 + cp div 262144 < 256" using cp by simp
    note e1 = byte_of_nat_eq [OF this]
    have "utf8_encode cp = [of_nat (240 + cp div 262144), of_nat (128 + cp div 4096 mod 64),
        of_nat (128 + cp div 64 mod 64), of_nat (128 + cp mod 64)]"
      unfolding utf8_encode_def
      by (subst if_not_P, use cp in linarith, subst if_not_P, use cp in linarith, subst if_not_P, use cp in linarith) simp
    then show ?thesis by (simp only: list.inject e e1 simp_thms) metis
  qed
qed

text \<open>The first sequence by its lead byte.\<close>

lemma continuation_bits_Suc:
  "continuation_bits (Suc n) (b2 # bs) cp = (if unat b2 div 64 = 2 then continuation_bits n bs (cp * 64 + unat b2 mod 64) else None)"
  by simp

lemma continuation_bits_numeral:
  "continuation_bits 1 (b2 # bs) cp = (if unat b2 div 64 = 2 then Some (cp * 64 + unat b2 mod 64) else None)"
  "continuation_bits 2 (b2 # bs) cp = (if unat b2 div 64 = 2 then continuation_bits 1 bs (cp * 64 + unat b2 mod 64) else None)"
  "continuation_bits 3 (b2 # bs) cp = (if unat b2 div 64 = 2 then continuation_bits 2 bs (cp * 64 + unat b2 mod 64) else None)"
  using continuation_bits_Suc [of 0 b2 bs cp] continuation_bits_Suc [of 1 b2 bs cp] continuation_bits_Suc [of 2 b2 bs cp]
  by (simp_all only: One_nat_def [symmetric] Suc_1 Suc_numeral semiring_norm continuation_bits.simps(1))

lemma div_iff:
  fixes b :: nat
  assumes "0 < m"
  shows "b div m = k \<longleftrightarrow> k * m \<le> b \<and> b < k * m + m"
proof
  assume k: "b div m = k"
  show "k * m \<le> b \<and> b < k * m + m"
    using div_mult_mod_eq [of b m, unfolded k] mod_less_divisor [OF assms, of b] by linarith
qed (auto intro: div_nat_eqI simp: mult.commute)

lemma mod_from_div: "(b :: nat) div m = k \<Longrightarrow> b mod m = b - k * m"
  by (simp add: minus_div_mult_eq_mod [symmetric])

lemma lead_bits_simps:
  "b div 32 = 6 \<Longrightarrow> lead_bits b = (if b mod 32 < 2 then None else Some (2, b mod 32))"
  "b div 16 = 14 \<Longrightarrow> lead_bits b = Some (3, b mod 16)"
  "b div 8 = 30 \<Longrightarrow> lead_bits b = Some (4, b mod 8)"
proof -
  have "b div 16 = 14 \<Longrightarrow> b div 32 \<noteq> 6" "b div 8 = 30 \<Longrightarrow> b div 32 \<noteq> 6" "b div 8 = 30 \<Longrightarrow> b div 16 \<noteq> 14"
    by (simp_all add: div_iff)
  then show "b div 16 = 14 \<Longrightarrow> lead_bits b = Some (3, b mod 16)" and "b div 8 = 30 \<Longrightarrow> lead_bits b = Some (4, b mod 8)"
    unfolding lead_bits_def by metis+
qed (simp only: lead_bits_def if_P)

lemma sequence_length_lead:
  "unat b1 < 128 \<Longrightarrow> sequence_length (b1 # bs) = Some 1"
  "lead_bits (unat b1) = Some (n, cp) \<Longrightarrow> sequence_length (b1 # bs) =
     (case continuation_bits (n - 1) bs cp of None \<Rightarrow> None
      | Some cp \<Rightarrow> if codepoint_ok n cp then Some n else None)"
proof -
  assume l: "lead_bits (unat b1) = Some (n, cp)"
  have "\<not> b < 128" if "b div 32 = 6 \<or> b div 16 = 14 \<or> b div 8 = 30" for b :: nat
    using that by (auto simp: div_iff)
  then have "\<not> unat b1 < 128" using l unfolding lead_bits_def by (metis option.distinct(1))
  then show "sequence_length (b1 # bs) =
     (case continuation_bits (n - 1) bs cp of None \<Rightarrow> None
      | Some cp \<Rightarrow> if codepoint_ok n cp then Some n else None)"
    unfolding sequence_length_def list.case l option.case prod.case by (rule if_not_P)
qed (simp add: sequence_length_def)

text \<open>Splitting a code point into the fields of its encoding and back.\<close>

lemma div_64_64: "(cp :: nat) div 4096 = cp div 64 div 64" "(cp :: nat) div 262144 = cp div 64 div 64 div 64"
  by (simp_all add: div_mult2_eq [symmetric])

lemma split_fields:
  "(cp :: nat) div 64 * 64 + cp mod 64 = cp"
  "(cp div 4096 * 64 + cp div 64 mod 64) * 64 + cp mod 64 = cp"
  "((cp div 262144 * 64 + cp div 4096 mod 64) * 64 + cp div 64 mod 64) * 64 + cp mod 64 = cp"
  by (simp_all only: div_64_64 div_mult_mod_eq)

lemma continuation_byte: "unat b = 128 + m mod 64 \<Longrightarrow> unat b div 64 = 2 \<and> unat b mod 64 = m mod 64"
proof -
  assume b: "unat b = 128 + m mod 64"
  then have "unat b div 64 = 2" using mod_less_divisor [of 64 m] by (simp add: div_iff)
  then show ?thesis using mod_from_div [of "unat b" 64 2] b by simp
qed

lemma lead_byte: "unat b = k * m + q \<Longrightarrow> q < m \<Longrightarrow> unat b div m = k \<and> unat b mod m = q"
  by simp

lemma encode_sequence:
  assumes "is_scalar cp" and "0x80 \<le> cp"
  shows "\<exists>b bs l. utf8_encode cp = b # bs \<and> 128 \<le> unat b \<and> lead_bits (unat b) = Some (Suc (length bs), l) \<and>
    continuation_bits (length bs) (bs @ rest) l = Some cp \<and> codepoint_ok (Suc (length bs)) cp"
proof -
  have scalar: "cp < 0xD800 \<or> 0xE000 \<le> cp" "cp \<le> 0x10FFFF" using assms by (auto simp: is_scalar_def)
  consider "0x80 \<le> cp" "cp < 0x800" | "0x800 \<le> cp" "cp < 0x10000" | "0x10000 \<le> cp" "cp < 0x110000"
    using scalar(2) assms(2) by linarith
  then show ?thesis
  proof cases
    case 1
    then obtain b c where bc: "utf8_encode cp = [b, c]" by (simp add: utf8_encode_def)
    then have u: "unat b = 192 + cp div 64" "unat c = 128 + cp mod 64" using encode_bytes(2) [OF 1] by simp_all
    have "cp div 64 < 32" "\<not> cp div 64 < 2" using 1 by (simp_all add: less_mult_imp_div_less div_less_iff_less_mult)
    then have "unat b div 32 = 6" "unat b mod 32 = cp div 64" using lead_byte [of b 6 32 "cp div 64"] u(1) by simp_all
    then have "lead_bits (unat b) = Some (2, cp div 64)"
      using lead_bits_simps(1) \<open>\<not> cp div 64 < 2\<close> by simp
    moreover have "codepoint_ok 2 cp" using 1 by (simp add: codepoint_ok_def)
    moreover have "continuation_bits 1 (c # rest) (cp div 64) = Some cp"
      using continuation_byte [OF u(2)] split_fields(1) [of cp] by (simp add: continuation_bits_numeral(1) del: One_nat_def)
    ultimately show ?thesis using u(1) by (simp add: bc numeral_2_eq_2)
  next
    case 2
    then obtain b c d where bc: "utf8_encode cp = [b, c, d]" by (simp add: utf8_encode_def)
    then have u: "unat b = 224 + cp div 4096" "unat c = 128 + cp div 64 mod 64" "unat d = 128 + cp mod 64"
      using encode_bytes(3) [OF 2] by simp_all
    have "cp div 4096 < 16" using 2 by (simp add: div_less_iff_less_mult)
    then have "unat b div 16 = 14" "unat b mod 16 = cp div 4096" using lead_byte [of b 14 16 "cp div 4096"] u(1) by simp_all
    then have "lead_bits (unat b) = Some (3, cp div 4096)" using lead_bits_simps(2) by simp
    moreover have "codepoint_ok 3 cp" using 2 scalar by (auto simp: codepoint_ok_def)
    moreover have "continuation_bits 2 (c # d # rest) (cp div 4096) = Some cp"
      using continuation_byte [OF u(2)] continuation_byte [OF u(3)] split_fields(2) [of cp]
      by (simp only: continuation_bits_numeral if_P simp_thms)
    ultimately show ?thesis using u(1) by (simp add: bc numeral_3_eq_3 numeral_2_eq_2)
  next
    case 3
    then obtain b c d e where bc: "utf8_encode cp = [b, c, d, e]" by (simp add: utf8_encode_def)
    then have u: "unat b = 240 + cp div 262144" "unat c = 128 + cp div 4096 mod 64" "unat d = 128 + cp div 64 mod 64"
      "unat e = 128 + cp mod 64" using encode_bytes(4) [OF 3] by simp_all
    have "cp div 262144 < 8" using 3 by (simp add: div_less_iff_less_mult)
    then have "unat b div 8 = 30" "unat b mod 8 = cp div 262144" using lead_byte [of b 30 8 "cp div 262144"] u(1) by simp_all
    then have "lead_bits (unat b) = Some (4, cp div 262144)" using lead_bits_simps(3) by simp
    moreover have "codepoint_ok 4 cp" using 3 scalar by (auto simp: codepoint_ok_def)
    moreover have "continuation_bits 3 (c # d # e # rest) (cp div 262144) = Some cp"
      using continuation_byte [OF u(2)] continuation_byte [OF u(3)] continuation_byte [OF u(4)] split_fields(3) [of cp]
      by (simp only: continuation_bits_numeral if_P simp_thms)
    moreover have "length [c, d, e] = 3" "Suc 3 = 4" "128 \<le> unat b" using u(1) by simp_all
    ultimately show ?thesis unfolding bc
      by (intro exI [of _ b] exI [of _ "[c, d, e]"] exI [of _ "cp div 262144"]) (metis append.simps)
  qed
qed

lemma sequence_length_encode:
  assumes "is_scalar cp"
  shows "sequence_length (utf8_encode cp @ rest) = Some (length (utf8_encode cp))"
proof (cases "cp < 0x80")
  case True
  then obtain b where "utf8_encode cp = [b]" by (simp add: utf8_encode_def)
  then show ?thesis using encode_bytes(1) [OF True, of b] True by (simp add: sequence_length_lead(1))
next
  case False
  then obtain b bs l where seq: "utf8_encode cp = b # bs" "lead_bits (unat b) = Some (Suc (length bs), l)"
    "continuation_bits (length bs) (bs @ rest) l = Some cp" "codepoint_ok (Suc (length bs)) cp"
    using encode_sequence [OF assms, of rest] by auto
  then show ?thesis by (simp add: sequence_length_lead(2) [OF seq(2)])
qed

lemma lead_bits_cases:
  assumes "lead_bits b = Some (n, cp)"
  obtains (Two) "b = 192 + cp" and "cp < 32" and "2 \<le> cp" and "n = 2"
  | (Three) "b = 224 + cp" and "cp < 16" and "n = 3"
  | (Four) "b = 240 + cp" and "cp < 8" and "n = 4"
proof -
  have "b div 32 = 6 \<and> 2 \<le> b mod 32 \<and> n = 2 \<and> cp = b mod 32 \<or> b div 16 = 14 \<and> n = 3 \<and> cp = b mod 16
      \<or> b div 8 = 30 \<and> n = 4 \<and> cp = b mod 8"
    using assms by (auto simp: lead_bits_def split: if_splits)
  then show thesis
    using that mod_from_div [of b 32 6] mod_from_div [of b 16 14] mod_from_div [of b 8 30]
    by (auto simp: div_iff)
qed

lemma continuation_bits_SomeE:
  assumes "continuation_bits (Suc n) bs cp = Some cp'"
  obtains b bs' r where "bs = b # bs'" and "unat b = 128 + r" and "r < 64"
    and "continuation_bits n bs' (cp * 64 + r) = Some cp'"
proof -
  obtain b bs' where b: "bs = b # bs'" "unat b div 64 = 2" "continuation_bits n bs' (cp * 64 + unat b mod 64) = Some cp'"
    using assms by (cases bs) (auto split: if_splits)
  have "unat b = 128 + unat b mod 64" using b(2) mod_from_div [OF b(2)] by (simp add: div_iff)
  then show thesis using that [OF b(1) _ _ b(3)] by simp
qed

text \<open>The fields of a code point given by its fields.\<close>

lemma fields: "r < 64 \<Longrightarrow> (q * 64 + r) div 64 = q" "r < 64 \<Longrightarrow> (q * 64 + r) mod 64 = r" for q r :: nat
  by simp_all

lemma sequence_length_decode:
  assumes "sequence_length s = Some n"
  shows "\<exists>cp. is_scalar cp \<and> n = length (utf8_encode cp) \<and> take n s = utf8_encode cp"
proof -
  obtain b bs where s: "s = b # bs" using assms by (auto simp: sequence_length_def split: list.splits)
  show ?thesis
  proof (cases "unat b < 128")
    case True
    then have "utf8_encode (unat b) = [b]" "is_scalar (unat b)" "n = 1"
      using assms by (simp_all add: encode_bytes(1) is_scalar_def s sequence_length_lead(1))
    then show ?thesis by (intro exI [of _ "unat b"]) (simp add: s)
  next
    case False
    then obtain cp cp' where lead: "lead_bits (unat b) = Some (n, cp)"
      and cont: "continuation_bits (n - 1) bs cp = Some cp'" and ok: "codepoint_ok n cp'"
      using assms by (auto simp: s sequence_length_def split: option.splits if_splits)
    show ?thesis
    proof (cases rule: lead_bits_cases [OF lead])
      case 1
      then have "continuation_bits (Suc 0) bs cp = Some cp'" using cont by simp
      then obtain c bs' r where c: "bs = c # bs'" "unat c = 128 + r" "r < 64" "cp' = cp * 64 + r"
        by (elim continuation_bits_SomeE) simp
      have "0x80 \<le> cp'" "cp' < 0x800" using 1 c by simp_all
      moreover have "cp' div 64 = cp" "cp' mod 64 = r" unfolding c(4) by (simp_all only: fields [OF c(3)])
      ultimately have "utf8_encode cp' = [b, c]" using encode_bytes(2) [of cp' b c] 1 c by simp
      then show ?thesis using 1 c s \<open>cp' < 0x800\<close> by (intro exI [of _ cp']) (simp add: is_scalar_def)
    next
      case 2
      then have "continuation_bits (Suc (Suc 0)) bs cp = Some cp'" using cont by (simp add: numeral_2_eq_2)
      then obtain c d bs' t r where c: "bs = c # d # bs'" "unat c = 128 + t" "t < 64" "unat d = 128 + r" "r < 64"
        "cp' = (cp * 64 + t) * 64 + r"
        by (elim continuation_bits_SomeE) simp
      have range: "0x800 \<le> cp'" "cp' < 0x10000" "is_scalar cp'"
        using ok 2 c by (auto simp: codepoint_ok_def is_scalar_def)
      have "cp' div 4096 = cp" "cp' div 64 mod 64 = t" "cp' mod 64 = r"
        unfolding c(6) div_64_64 by (simp_all only: fields [OF c(3)] fields [OF c(5)])
      then have "utf8_encode cp' = [b, c, d]" using encode_bytes(3) [OF range(1,2), of b c d] 2 c by simp
      then show ?thesis using 2 c s range by (intro exI [of _ cp']) simp
    next
      case 3
      then have "continuation_bits (Suc (Suc (Suc 0))) bs cp = Some cp'" using cont by (simp add: numeral_3_eq_3)
      then obtain c d e bs' u t r where c: "bs = c # d # e # bs'" "unat c = 128 + u" "u < 64" "unat d = 128 + t" "t < 64"
        "unat e = 128 + r" "r < 64" "cp' = ((cp * 64 + u) * 64 + t) * 64 + r"
        by (elim continuation_bits_SomeE) simp
      have range: "0x10000 \<le> cp'" "cp' < 0x110000" "is_scalar cp'"
        using ok 3 by (auto simp: codepoint_ok_def is_scalar_def)
      have "cp' div 262144 = cp" "cp' div 4096 mod 64 = u" "cp' div 64 mod 64 = t" "cp' mod 64 = r"
        unfolding c(8) div_64_64 by (simp_all only: fields [OF c(3)] fields [OF c(5)] fields [OF c(7)])
      then have "utf8_encode cp' = [b, c, d, e]" using encode_bytes(4) [OF range(1,2), of b c d e] 3 c by simp
      then show ?thesis using 3 c s range by (intro exI [of _ cp']) simp
    qed
  qed
qed

lemma utf8_ok_encode: "\<forall>cp \<in> set cps. is_scalar cp \<Longrightarrow> utf8_ok (concat (map utf8_encode cps))"
proof (induction cps)
  case Nil
  then show ?case by (simp add: utf8_ok.simps)
next
  case (Cons cp cps)
  have "utf8_encode cp \<noteq> []" by (simp add: utf8_encode_def)
  then show ?case
    using Cons sequence_length_encode [of cp "concat (map utf8_encode cps)"]
    by (subst utf8_ok.simps) simp
qed

lemma utf8_ok_iff: "utf8_ok s \<longleftrightarrow> well_formed_utf8 s"
proof
  show "utf8_ok s \<Longrightarrow> well_formed_utf8 s"
  proof (induction s rule: utf8_ok.induct)
    case (1 s)
    show ?case
    proof (cases "s = []")
      case True
      then show ?thesis by (simp add: well_formed_utf8_def exI [of _ "[]"])
    next
      case False
      then obtain n where n: "sequence_length s = Some n" "utf8_ok (drop n s)"
        using 1(2) by (subst (asm) utf8_ok.simps) (auto split: option.splits)
      obtain cp where cp: "is_scalar cp" "take n s = utf8_encode cp" using sequence_length_decode [OF n(1)] by blast
      obtain cps where "\<forall>cp \<in> set cps. is_scalar cp" "drop n s = concat (map utf8_encode cps)"
        using 1(1) [OF False n(1) n(2)] by (auto simp: well_formed_utf8_def)
      then show ?thesis unfolding well_formed_utf8_def using cp append_take_drop_id [of n s]
        by (intro exI [of _ "cp # cps"]) simp
    qed
  qed
  show "well_formed_utf8 s \<Longrightarrow> utf8_ok s" by (auto simp: well_formed_utf8_def utf8_ok_encode)
qed

lemma verify_utf8_spec:
  assumes "unat start + n \<le> length data" and "length data < 2 ^ 63"
  shows "verify_utf8_length data start n =
    Inr (if well_formed_utf8 (take n (drop (unat start) data)) then V_OK else V_BAD_UTF8)"
proof -
  let ?s = "take n (drop (unat start) data)"
  have "length ?s = n" using assms(1) by simp
  then show ?thesis
    using utf8_loop_eq [of start ?s data 0] assms by (simp add: verify_utf8_length_def utf8_ok_iff)
qed

end
