(* ===== verification/Key_Index.thy ===== *)
theory Key_Index
  imports Reader
begin

text \<open>
  Lookup in a sorted entry table. The table of \<open>n\<close> entries at \<open>start\<close> is a list of entries;
  if it is sorted by hash, the binary search with its linear probe answers with an entry whose
  hash and key are the ones asked for exactly when there is one, however many keys share a hash.
  The locale \<open>key_index\<close> states that contract; the root index and the entries of a block are
  its two instances.
\<close>

section \<open>The entries of a table\<close>

definition table_entries :: "reader \<Rightarrow> u64 \<Rightarrow> u64 \<Rightarrow> entry list" where
  "table_entries r start n = map (\<lambda>i. load_entry (take ENTRY_SIZE (drop (unat start + i * ENTRY_SIZE) (rd_base r))))
     [0..<unat n]"

definition hit :: "reader \<Rightarrow> u64 \<Rightarrow> bytes \<Rightarrow> entry \<Rightarrow> bool" where
  "hit r h key e \<longleftrightarrow> ent_key_hash64 e = h \<and> reader_key_equals r e key = Inr True"

definition hash_sorted :: "entry list \<Rightarrow> bool" where
  "hash_sorted es \<longleftrightarrow> sorted (map ent_key_hash64 es)"

lemma length_table_entries [simp]: "length (table_entries r start n) = unat n"
  by (simp add: table_entries_def)

lemma read_table_entry:
  assumes "wf_reader r" and "table_fits r start n" and "i < unat n"
  shows "reader_read_entry r (start + of_nat i * 24) = Inr (table_entries r start n ! i)"
proof -
  have i: "unat (of_nat i :: u64) = i" using assms(3) unat_u64_less [of n] by simp
  then have "(of_nat i :: u64) < n" using assms(3) by (simp add: word_less_nat_alt)
  from read_entry_table [OF assms(1,2) this] show ?thesis
    using i assms(3) by (simp add: table_entries_def)
qed

lemma key_equals_cases:
  assumes "wf_reader r" and "ent_key_hash64 e = h"
  obtains (Equal) "reader_key_equals r e key = Inr True" and "hit r h key e"
  | (Different) "reader_key_equals r e key = Inr False" and "\<not> hit r h key e"
  using in_bounds_key_equals [OF assms(1), of e key] assms(2)
  by (cases "reader_key_equals r e key") (auto simp: hit_def in_bounds_def reader_key_equals_def Let_def
      outcome_simps fetch_def split: if_splits option.splits)

section \<open>The linear probe\<close>

lemma probe_left_spec:
  assumes wf: "wf_reader r" and fits: "table_fits r start n"
  shows "m \<le> unat n \<Longrightarrow> (\<exists>e \<in> set (table_entries r start n). hit r h key e \<and>
      probe_left r start h key (int m - 1) = Inr (Some e)) \<or>
    probe_left r start h key (int m - 1) = Inr None \<and>
      (\<forall>j < m. (\<forall>i. j \<le> i \<and> i < m \<longrightarrow> ent_key_hash64 (table_entries r start n ! i) = h) \<longrightarrow>
        \<not> hit r h key (table_entries r start n ! j))"
proof (induction m)
  case 0
  then show ?case by (simp add: probe_left.simps)
next
  case (Suc m)
  let ?e = "table_entries r start n ! m"
  have m: "m < unat n" using Suc.prems by simp
  then have mem: "?e \<in> set (table_entries r start n)" by simp
  have step: "probe_left r start h key (int m) =
    (if ent_key_hash64 ?e \<noteq> h then Inr None
     else bindE (reader_key_equals r ?e key) (\<lambda>equal. if equal then Inr (Some ?e)
       else probe_left r start h key (int m - 1)))"
    by (subst probe_left.simps) (simp add: read_table_entry [OF wf fits m])
  show ?case
  proof (cases "ent_key_hash64 ?e = h")
    case True
    then show ?thesis
    proof (cases rule: key_equals_cases [OF wf True, of key])
      case 1
      then show ?thesis using step True mem by auto
    next
      case 2
      then show ?thesis using step True Suc m by (auto simp: less_Suc_eq)
    qed
  qed (auto simp: step less_Suc_eq)
qed

lemma probe_right_spec:
  assumes wf: "wf_reader r" and fits: "table_fits r start n"
  shows "m \<le> unat n \<Longrightarrow> (\<exists>e \<in> set (table_entries r start n). hit r h key e \<and>
      probe_right r start n h key (of_nat m) = Inr (Some e)) \<or>
    probe_right r start n h key (of_nat m) = Inr None \<and>
      (\<forall>j. m \<le> j \<and> j < unat n \<and> (\<forall>i. m \<le> i \<and> i \<le> j \<longrightarrow> ent_key_hash64 (table_entries r start n ! i) = h) \<longrightarrow>
        \<not> hit r h key (table_entries r start n ! j))"
proof (induction m rule: inc_induct)
  case base
  then show ?case by (auto simp: probe_right.simps)
next
  case (step m)
  let ?e = "table_entries r start n ! m"
  have m: "m < unat n" using step.hyps by simp
  then have mem: "?e \<in> set (table_entries r start n)" by simp
  have "(of_nat m :: u64) < n" using m unat_u64_less [of n] by (simp add: word_less_nat_alt)
  then have unfold: "probe_right r start n h key (of_nat m) =
    (if ent_key_hash64 ?e \<noteq> h then Inr None
     else bindE (reader_key_equals r ?e key) (\<lambda>equal. if equal then Inr (Some ?e)
       else probe_right r start n h key (of_nat m + 1)))"
    by (subst probe_right.simps) (simp add: read_table_entry [OF wf fits m])
  show ?case
  proof (cases "ent_key_hash64 ?e = h")
    case True
    then show ?thesis
    proof (cases rule: key_equals_cases [OF wf True, of key])
      case 1
      then show ?thesis using unfold True mem by auto
    next
      case 2
      then have same: "probe_right r start n h key (of_nat m) = probe_right r start n h key (of_nat (Suc m))"
        using unfold True by (simp add: add.commute)
      show ?thesis unfolding same
        using step.IH 2 by (auto simp: le_eq_less_or_eq [of m] Suc_le_eq)
    qed
  qed (auto simp: unfold intro: exI [of _ m])
qed

text \<open>In a sorted table the entries that share a hash with entry \<open>i\<close> are around it.\<close>

lemma hash_sorted_between:
  assumes "hash_sorted es" and "a \<le> i" and "i \<le> b" and "b < length es"
    and "ent_key_hash64 (es ! a) = h" and "ent_key_hash64 (es ! b) = h"
  shows "ent_key_hash64 (es ! i) = h"
  using assms sorted_nth_mono [of "map ent_key_hash64 es" a i] sorted_nth_mono [of "map ent_key_hash64 es" i b]
  unfolding hash_sorted_def by auto

lemma linear_probe_spec:
  assumes wf: "wf_reader r" and fits: "table_fits r start n" and sorted: "hash_sorted (table_entries r start n)"
    and i: "i < n" and h: "ent_key_hash64 (table_entries r start n ! unat i) = h"
  shows "(\<exists>e \<in> set (table_entries r start n). hit r h key e \<and> reader_linear_probe_range r start n i h key = Inr e) \<or>
    reader_linear_probe_range r start n i h key = Inl Rejected \<and> (\<forall>e \<in> set (table_entries r start n). \<not> hit r h key e)"
proof -
  let ?T = "table_entries r start n"
  have lt: "unat i < unat n" using i by (simp add: word_less_nat_alt)
  have left: "sint i = int (Suc (unat i)) - 1" using table_index(1) [OF wf fits i] by simp
  have right: "i + 1 = of_nat (Suc (unat i))" by simp
  have none: "\<not> hit r h key (?T ! j)" if "j < unat n"
    and l: "\<forall>j < Suc (unat i). (\<forall>k. j \<le> k \<and> k < Suc (unat i) \<longrightarrow> ent_key_hash64 (?T ! k) = h) \<longrightarrow> \<not> hit r h key (?T ! j)"
    and r: "\<forall>j. Suc (unat i) \<le> j \<and> j < unat n \<and> (\<forall>k. Suc (unat i) \<le> k \<and> k \<le> j \<longrightarrow> ent_key_hash64 (?T ! k) = h) \<longrightarrow> \<not> hit r h key (?T ! j)" for j
  proof
    assume a: "hit r h key (?T ! j)"
    then have hj: "ent_key_hash64 (?T ! j) = h" by (simp add: hit_def)
    show False
    proof (cases "j \<le> unat i")
      case True
      then have "\<forall>k. j \<le> k \<and> k < Suc (unat i) \<longrightarrow> ent_key_hash64 (?T ! k) = h"
        using hash_sorted_between [OF sorted, of j _ "unat i" h] hj h lt by auto
      then show False using l a True by auto
    next
      case False
      then have "\<forall>k. Suc (unat i) \<le> k \<and> k \<le> j \<longrightarrow> ent_key_hash64 (?T ! k) = h"
        using hash_sorted_between [OF sorted, of "unat i" _ j h] hj h that(1) by auto
      then show False using r a False that(1) by auto
    qed
  qed
  have search: "reader_linear_probe_range r start n i h key =
    bindE (probe_left r start h key (int (Suc (unat i)) - 1)) (\<lambda>found. case found of Some e \<Rightarrow> Inr e
      | None \<Rightarrow> bindE (probe_right r start n h key (of_nat (Suc (unat i)))) (\<lambda>found.
          case found of Some e \<Rightarrow> Inr e | None \<Rightarrow> Inl Rejected))"
    unfolding reader_linear_probe_range_def left right ..
  have suc: "Suc (unat i) \<le> unat n" using lt by simp
  show ?thesis
  proof (cases "probe_left r start h key (int (Suc (unat i)) - 1) = Inr None")
    case False
    then show ?thesis using probe_left_spec [OF wf fits suc, of h key] unfolding search by force
  next
    case l: True
    show ?thesis
    proof (cases "probe_right r start n h key (of_nat (Suc (unat i))) = Inr None")
      case False
      then show ?thesis using probe_right_spec [OF wf fits suc, of h key] l unfolding search by force
    next
      case True
      have "\<not> hit r h key (?T ! j)" if "j < unat n" for j
        using probe_left_spec [OF wf fits suc, of h key] probe_right_spec [OF wf fits suc, of h key] l True
        by (intro none that) simp_all
      then show ?thesis using l True unfolding search by (auto simp: in_set_conv_nth)
    qed
  qed
qed

section \<open>The binary search\<close>

lemma binary_search_loop_spec:
  "wf_reader r \<Longrightarrow> table_fits r start n \<Longrightarrow> hash_sorted (table_entries r start n) \<Longrightarrow> low \<le> high \<Longrightarrow> high \<le> n \<Longrightarrow>
   (\<forall>i < unat low. ent_key_hash64 (table_entries r start n ! i) < h) \<Longrightarrow>
   (\<forall>i. unat high \<le> i \<and> i < unat n \<longrightarrow> h < ent_key_hash64 (table_entries r start n ! i)) \<Longrightarrow>
   (\<exists>e \<in> set (table_entries r start n). hit r h key e \<and> binary_search_loop r start n h key low high = Inr e) \<or>
   binary_search_loop r start n h key low high = Inl Rejected \<and> (\<forall>e \<in> set (table_entries r start n). \<not> hit r h key e)"
proof (induction r start n h key low high rule: binary_search_loop.induct)
  case (1 r start n h key low high)
  let ?T = "table_entries r start n" and ?mid = "low + (high - low) div 2"
  let ?e = "?T ! unat ?mid"
  note unfold = binary_search_loop.simps [of r start n h key low high]
  show ?case
  proof (cases "low < high")
    case False
    then have "low = high" using 1(6) by simp
    then have "ent_key_hash64 (?T ! i) < h \<or> h < ent_key_hash64 (?T ! i)" if "i < unat n" for i
      using 1(8,9) that by (cases "i < unat low") simp_all
    then have "ent_key_hash64 (?T ! i) \<noteq> h" if "i < unat n" for i
      using that less_irrefl by metis
    then have "\<forall>e \<in> set ?T. \<not> hit r h key e"
      unfolding hit_def by (metis in_set_conv_nth length_table_entries)
    then show ?thesis using False by (simp add: unfold)
  next
    case True
    note mid = midpoint_bounds [OF True]
    have midn: "?mid < n" using mid(2) 1(7) by simp
    have lt: "unat ?mid < unat n" using midn by (simp add: word_less_nat_alt)
    have read: "reader_read_entry r (start + ?mid * of_nat ENTRY_SIZE) = Inr ?e"
      using read_table_entry [OF 1(3,4) lt] by simp
    have suc: "unat (?mid + 1) = unat ?mid + 1" by (rule unat_Suc [OF mid(2)])
    consider (Less) "ent_key_hash64 ?e < h" | (Greater) "h < ent_key_hash64 ?e" | (Equal) "ent_key_hash64 ?e = h"
      by fastforce
    then show ?thesis
    proof cases
      case Less
      have "\<forall>i < unat (?mid + 1). ent_key_hash64 (?T ! i) < h"
      proof (intro allI impI)
        fix i assume "i < unat (?mid + 1)"
        then have "ent_key_hash64 (?T ! i) \<le> ent_key_hash64 ?e"
          using lt sorted_nth_mono [of "map ent_key_hash64 ?T" i "unat ?mid"] 1(5) [unfolded hash_sorted_def]
          unfolding suc by simp
        then show "ent_key_hash64 (?T ! i) < h" using Less by (rule le_less_trans)
      qed
      moreover have "?mid + 1 \<le> high" using mid(2) suc by (simp add: word_le_nat_alt word_less_nat_alt)
      ultimately show ?thesis using 1(1) [OF True refl read Less] 1 by (simp add: unfold read Less True Let_def del: of_nat_numeral)
    next
      case Greater
      have "\<forall>i. unat ?mid \<le> i \<and> i < unat n \<longrightarrow> h < ent_key_hash64 (?T ! i)"
        using Greater sorted_nth_mono [of "map ent_key_hash64 ?T" "unat ?mid"] 1(5) [unfolded hash_sorted_def]
        by (auto intro: less_le_trans)
      moreover have "\<not> ent_key_hash64 ?e < h" using Greater by simp
      ultimately show ?thesis
        using 1(2) [OF True refl read _ Greater] 1 mid midn by (simp add: unfold read Greater True Let_def del: of_nat_numeral)
    next
      case Equal
      have search: "binary_search_loop r start n h key low high = bindE (reader_key_equals r ?e key) (\<lambda>equal.
          if equal then Inr ?e else reader_linear_probe_range r start n ?mid h key)"
        using True read Equal by (simp add: unfold Let_def del: of_nat_numeral)
      show ?thesis
      proof (cases rule: key_equals_cases [OF 1(3) Equal, of key])
        case 1
        then show ?thesis using search lt by auto
      next
        case 2
        then show ?thesis using search linear_probe_spec [OF 1(3-5) midn Equal, of key] by simp
      qed
    qed
  qed
qed

lemma binary_search_spec:
  assumes "wf_reader r" and "table_fits r start n" and "hash_sorted (table_entries r start n)"
  shows "(\<exists>e \<in> set (table_entries r start n). hit r h key e \<and> reader_binary_search_entries r start n h key = Inr e) \<or>
    reader_binary_search_entries r start n h key = Inl Rejected \<and> (\<forall>e \<in> set (table_entries r start n). \<not> hit r h key e)"
proof (cases "n = 0")
  case True
  then have "table_entries r start n = []" by (simp add: table_entries_def)
  then show ?thesis using True by (simp add: reader_binary_search_entries_def)
next
  case False
  have "\<forall>i. unat n \<le> i \<and> i < unat n \<longrightarrow> h < ent_key_hash64 (table_entries r start n ! i)" by auto
  then show ?thesis using False binary_search_loop_spec [OF assms, of 0 n h key]
    by (simp add: reader_binary_search_entries_def)
qed

section \<open>The contract of a key index\<close>

text \<open>
  A table that \<open>holds\<close> a list of entries, a relation that says which key an entry has, and a
  lookup of keys. The value found belongs to an entry with the key, and a key some entry has is
  found.
\<close>

locale key_index =
  fixes holds :: "'t \<Rightarrow> entry list \<Rightarrow> bool"
    and has_key :: "'t \<Rightarrow> entry \<Rightarrow> bytes \<Rightarrow> bool"
    and find :: "'t \<Rightarrow> bytes \<Rightarrow> stop + u64"
  assumes find_found: "holds t es \<Longrightarrow> find t key = Inr v \<Longrightarrow>
      \<exists>e \<in> set es. has_key t e key \<and> ent_value_offset e = v"
    and find_complete: "holds t es \<Longrightarrow> e \<in> set es \<Longrightarrow> has_key t e key \<Longrightarrow> \<exists>v. find t key = Inr v"
    and find_rejected: "holds t es \<Longrightarrow> find t key = Inl err \<Longrightarrow> err = Rejected"
begin

lemma find_unique:
  assumes "holds t es" and "e \<in> set es" and "has_key t e key"
    and "\<And>e'. e' \<in> set es \<Longrightarrow> has_key t e' key \<Longrightarrow> e' = e"
  shows "find t key = Inr (ent_value_offset e)"
  using find_complete [OF assms(1-3)] find_found [OF assms(1)] assms(4) by blast

lemma find_absent:
  assumes "holds t es" and "\<And>e. e \<in> set es \<Longrightarrow> \<not> has_key t e key"
  shows "find t key = Inl Rejected"
proof (cases "find t key")
  case (Inl err)
  then show ?thesis using find_rejected [OF assms(1)] by simp
next
  case (Inr v)
  then show ?thesis using find_found [OF assms(1)] assms(2) by blast
qed

end

text \<open>The root index of a reader.\<close>

definition root_table :: "reader \<Rightarrow> entry list" where
  "root_table r = table_entries r (hdr_root_index_offset (rd_header r)) (hdr_root_count (rd_header r))"

definition root_holds :: "reader \<Rightarrow> entry list \<Rightarrow> bool" where
  "root_holds r es \<longleftrightarrow> wf_reader r \<and> es = root_table r \<and> hash_sorted es"

text \<open>The entries of the block at an offset.\<close>

definition block_holds :: "reader \<times> u64 \<Rightarrow> entry list \<Rightarrow> bool" where
  "block_holds b es \<longleftrightarrow> wf_reader (fst b) \<and> hash_sorted es \<and>
     (\<exists>header entries. reader_block_body_offsets (fst b) (snd b) = Inr (header, entries) \<and>
        es = table_entries (fst b) entries (ucast (bh_child_count header)))"

definition find_value :: "(bytes \<Rightarrow> u64) \<Rightarrow> reader \<Rightarrow> u64 \<Rightarrow> u64 \<Rightarrow> bytes \<Rightarrow> stop + u64" where
  "find_value hash r start n key =
     bindE (reader_binary_search_entries r start n (hash key) key) (\<lambda>e. Inr (ent_value_offset e))"

lemma find_in_table:
  assumes "wf_reader r" and "table_fits r start n" and "hash_sorted (table_entries r start n)"
  shows "find_value hash r start n key = Inr v \<Longrightarrow>
      \<exists>e \<in> set (table_entries r start n). hit r (hash key) key e \<and> ent_value_offset e = v"
    and "e \<in> set (table_entries r start n) \<Longrightarrow> hit r (hash key) key e \<Longrightarrow> \<exists>v. find_value hash r start n key = Inr v"
    and "find_value hash r start n key = Inl err \<Longrightarrow> err = Rejected"
  using binary_search_spec [OF assms, of "hash key" key] unfolding find_value_def by auto

lemma find_offset_value:
  "reader_find_root_offset hash r key =
     find_value hash r (hdr_root_index_offset (rd_header r)) (hdr_root_count (rd_header r)) key"
  "reader_block_body_offsets r off = Inr (header, entries) \<Longrightarrow>
     reader_block_find_offset hash r off key = find_value hash r entries (ucast (bh_child_count header)) key"
  by (simp_all add: reader_find_root_offset_def reader_block_find_offset_def find_value_def)

interpretation root_index: key_index root_holds "\<lambda>r e key. hit r (hash key) key e" "reader_find_root_offset hash"
proof
  fix r es key v e err
  assume holds: "root_holds r es"
  note find = find_in_table [OF _ table_fits_root, of r, folded find_offset_value(1) root_table_def]
  show "reader_find_root_offset hash r key = Inr v \<Longrightarrow> \<exists>e \<in> set es. hit r (hash key) key e \<and> ent_value_offset e = v"
    using find(1) holds by (auto simp: root_holds_def)
  show "e \<in> set es \<Longrightarrow> hit r (hash key) key e \<Longrightarrow> \<exists>v. reader_find_root_offset hash r key = Inr v"
    using find(2) holds by (auto simp: root_holds_def)
  show "reader_find_root_offset hash r key = Inl err \<Longrightarrow> err = Rejected"
    using find(3) holds by (auto simp: root_holds_def)
qed

interpretation block_index: key_index block_holds "\<lambda>b e key. hit (fst b) (hash key) key e"
  "\<lambda>b. reader_block_find_offset hash (fst b) (snd b)"
proof
  fix b es key v e err
  assume "block_holds b es"
  then obtain header entries where b: "wf_reader (fst b)" "hash_sorted es"
    "reader_block_body_offsets (fst b) (snd b) = Inr (header, entries)"
    "es = table_entries (fst b) entries (ucast (bh_child_count header))"
    by (auto simp: block_holds_def)
  note find = find_in_table [OF b(1) block_body_fits [OF b(1,3)], folded b(4), OF b(2), folded find_offset_value(2) [OF b(3)]]
  show "reader_block_find_offset hash (fst b) (snd b) key = Inr v \<Longrightarrow> \<exists>e \<in> set es. hit (fst b) (hash key) key e \<and> ent_value_offset e = v"
    using find(1) by simp
  show "e \<in> set es \<Longrightarrow> hit (fst b) (hash key) key e \<Longrightarrow> \<exists>v. reader_block_find_offset hash (fst b) (snd b) key = Inr v"
    using find(2) by simp
  show "reader_block_find_offset hash (fst b) (snd b) key = Inl err \<Longrightarrow> err = Rejected"
    using find(3) by simp
qed

end
