(* ===== verification/Paths.thy ===== *)
theory Paths
  imports Key_Index
begin

text \<open>
  Path resolution (\<open>bc_hrbl_reader_resolve_path\<close>) and the public accessors built on it: value
  references and iterators (\<open>src/reader/bc_hrbl_reader.c\<close>, from line 527). A path is a string
  of key segments, plain or quoted, and array indices in brackets; \<open>path_steps\<close> is its grammar
  on its own, and resolving a path is following its steps.
\<close>

section \<open>Scanning\<close>

text \<open>The loops that advance a cursor until \<open>stop_at\<close> holds or the path ends.\<close>

function scan :: "(byte \<Rightarrow> bool) \<Rightarrow> bytes \<Rightarrow> nat \<Rightarrow> nat" where
  "scan stop_at path cursor =
     (if cursor < length path \<and> \<not> stop_at (path ! cursor) then scan stop_at path (cursor + 1) else cursor)"
  by pat_completeness auto
termination by (relation "measure (\<lambda>(_, path, cursor). length path - cursor)") auto

declare scan.simps [simp del]

lemma scan_ge: "cursor \<le> scan stop_at path cursor"
proof (induction stop_at path cursor rule: scan.induct)
  case (1 stop_at path cursor)
  then show ?case by (subst scan.simps) auto
qed

lemma scan_progress: "cursor < length path \<Longrightarrow> \<not> stop_at (path ! cursor) \<Longrightarrow> cursor < scan stop_at path cursor"
  using scan_ge [of "cursor + 1" stop_at path] by (subst scan.simps) auto

definition sub :: "bytes \<Rightarrow> nat \<Rightarrow> nat \<Rightarrow> bytes" where
  "sub path start n = take n (drop start path)"

text \<open>The digits of an index; at most ten reach this point, so the value fits 64 bits.\<close>

fun index_digits :: "u64 \<Rightarrow> bytes \<Rightarrow> stop + u64" where
  "index_digits index [] = Inr index"
| "index_digits index (d # ds) =
     (if d < 0x30 \<or> d > 0x39 then Inl Rejected
      else index_digits (index * 10 + ucast (d - 0x30)) ds)"

text \<open>The index between \<open>[\<close> at the cursor and the next \<open>]\<close>, and the cursor behind it.\<close>

definition path_index :: "bytes \<Rightarrow> nat \<Rightarrow> stop + u32 \<times> nat" where
  "path_index path cursor =
     (let close = scan (\<lambda>b. b = 0x5D) path (cursor + 1)
      in if close \<ge> length path then Inl Rejected
         else let number_length = close - (cursor + 1)
              in if number_length = 0 \<or> number_length > 10 then Inl Rejected
                 else bindE (index_digits 0 (sub path (cursor + 1) number_length)) (\<lambda>index.
                      if index > 0xFFFFFFFF then Inl Rejected
                      else Inr (ucast index, close + 1)))"

text \<open>The segment at the cursor, quoted or plain, and the cursor behind it.\<close>

definition path_segment :: "bytes \<Rightarrow> nat \<Rightarrow> stop + bytes \<times> nat" where
  "path_segment path cursor =
     bindE (if path ! cursor = 0x27 \<or> path ! cursor = 0x22 then
              let quote = path ! cursor; segment_start = cursor + 1;
                  close = scan (\<lambda>b. b = quote) path segment_start
              in if close \<ge> length path then Inl Rejected
                 else Inr (segment_start, close - segment_start, close + 1)
            else let stop_at = scan (\<lambda>b. b = 0x2E \<or> b = 0x5B) path cursor
                 in Inr (cursor, stop_at - cursor, stop_at)) (\<lambda>(segment_start, segment_length, cursor).
     if segment_length = 0 then Inl Rejected
     else Inr (sub path segment_start segment_length, cursor))"

lemma path_index_progress: "path_index path cursor = Inr (i, cursor') \<Longrightarrow> cursor < cursor'"
  using scan_ge [of "cursor + 1" "\<lambda>b. b = 0x5D" path]
  by (auto simp: path_index_def Let_def outcome_simps split: if_splits)

lemma path_segment_progress:
  assumes "path_segment path cursor = Inr (s, cursor')"
  shows "cursor < cursor'"
  using assms scan_ge [of "cursor + 1" "\<lambda>b. b = path ! cursor" path]
  by (auto simp: path_segment_def Let_def outcome_simps split: if_splits)

section \<open>Resolving\<close>

function resolve_loop ::
    "(bytes \<Rightarrow> u64) \<Rightarrow> reader \<Rightarrow> bytes \<Rightarrow> nat \<Rightarrow> u64 \<Rightarrow> bool \<Rightarrow> stop + u64" where
  "resolve_loop hash reader path cursor current_offset resolved_root =
     (if cursor < length path then
        if path ! cursor = 0x2E then
          resolve_loop hash reader path (cursor + 1) current_offset resolved_root
        else if path ! cursor = 0x5B then
          if \<not> resolved_root then Inl Rejected
          else bindE (path_index path cursor) (\<lambda>(index, cursor).
               bindE (reader_array_at_offset reader current_offset index) (\<lambda>next_offset.
               resolve_loop hash reader path cursor next_offset resolved_root))
        else
          bindE (path_segment path cursor) (\<lambda>(segment, cursor).
          bindE (if \<not> resolved_root then reader_find_root_offset hash reader segment
                 else reader_block_find_offset hash reader current_offset segment) (\<lambda>next_offset.
          resolve_loop hash reader path cursor next_offset True))
      else if \<not> resolved_root then Inl Rejected
      else Inr current_offset)"
  by pat_completeness auto
termination
  by (relation "measure (\<lambda>(_, _, path, cursor, _, _). length path - cursor)")
    (auto dest: path_index_progress path_segment_progress)

declare resolve_loop.simps [simp del]

definition reader_resolve_path :: "(bytes \<Rightarrow> u64) \<Rightarrow> reader \<Rightarrow> bytes \<Rightarrow> stop + u64" where
  "reader_resolve_path hash reader path =
     (if length path = 0 then Inl Rejected else resolve_loop hash reader path 0 0 False)"

section \<open>Value references\<close>

text \<open>A null pointer is \<open>None\<close>; a zeroed reference has a null reader.\<close>

record value_ref =
  vr_reader :: "reader option"
  vr_node_offset :: u64
  vr_kind :: kind

definition value_ref_fill :: "reader \<Rightarrow> u64 \<Rightarrow> kind \<Rightarrow> value_ref" where
  "value_ref_fill reader value_offset k = \<lparr>vr_reader = Some reader, vr_node_offset = value_offset, vr_kind = k\<rparr>"

definition reader_find :: "(bytes \<Rightarrow> u64) \<Rightarrow> reader option \<Rightarrow> bytes option \<Rightarrow> stop + value_ref" where
  "reader_find hash reader path =
     (case (reader, path) of
        (Some reader, Some path) \<Rightarrow>
          bindE (reader_resolve_path hash reader path) (\<lambda>value_offset.
          bindE (reader_kind_at reader value_offset) (\<lambda>k.
          Inr (value_ref_fill reader value_offset k)))
      | _ \<Rightarrow> Inl Rejected)"

definition with_value :: "value_ref option \<Rightarrow> (reader \<Rightarrow> u64 \<Rightarrow> stop + 'a) \<Rightarrow> stop + 'a" where
  "with_value value accessor =
     (case value of
        None \<Rightarrow> Inl Rejected
      | Some v \<Rightarrow> (case vr_reader v of None \<Rightarrow> Inl Rejected | Some reader \<Rightarrow> accessor reader (vr_node_offset v)))"

definition reader_value_kind :: "value_ref option \<Rightarrow> stop + kind" where
  "reader_value_kind value =
     (case value of
        None \<Rightarrow> Inl Rejected
      | Some v \<Rightarrow> (case vr_reader v of None \<Rightarrow> Inl Rejected | Some _ \<Rightarrow> Inr (vr_kind v)))"

definition reader_get_bool :: "value_ref option \<Rightarrow> stop + bool" where
  "reader_get_bool value = with_value value reader_scalar_bool_at"

definition reader_get_int64 :: "value_ref option \<Rightarrow> stop + int" where
  "reader_get_int64 value = with_value value reader_scalar_int64_at"

definition reader_get_uint64 :: "value_ref option \<Rightarrow> stop + u64" where
  "reader_get_uint64 value = with_value value reader_scalar_uint64_at"

definition reader_get_float64 :: "value_ref option \<Rightarrow> stop + u64" where
  "reader_get_float64 value = with_value value reader_scalar_float64_at"

definition reader_get_string :: "value_ref option \<Rightarrow> stop + u64 \<times> u64" where
  "reader_get_string value = with_value value reader_scalar_string_at"

section \<open>Iterators\<close>

record iter =
  it_reader :: "reader option"
  it_cursor_offset :: u64
  it_end_offset :: u64
  it_remaining :: u32
  it_is_block :: bool

definition reader_iter_block :: "value_ref option \<Rightarrow> stop + iter" where
  "reader_iter_block block =
     (case block of
        None \<Rightarrow> Inl Rejected
      | Some v \<Rightarrow>
          (case vr_reader v of
             None \<Rightarrow> Inl Rejected
           | Some reader \<Rightarrow>
               if vr_kind v \<noteq> K_BLOCK then Inl Rejected
               else bindE (reader_block_body_offsets reader (vr_node_offset v)) (\<lambda>(header, entries_offset).
                    Inr \<lparr>it_reader = Some reader, it_cursor_offset = entries_offset,
                         it_end_offset = entries_offset + ucast (bh_child_count header) * of_nat ENTRY_SIZE,
                         it_remaining = bh_child_count header, it_is_block = True\<rparr>)))"

definition reader_iter_array :: "value_ref option \<Rightarrow> stop + iter" where
  "reader_iter_array array =
     (case array of
        None \<Rightarrow> Inl Rejected
      | Some v \<Rightarrow>
          (case vr_reader v of
             None \<Rightarrow> Inl Rejected
           | Some reader \<Rightarrow>
               if vr_kind v \<noteq> K_ARRAY then Inl Rejected
               else bindE (reader_array_body_offsets reader (vr_node_offset v)) (\<lambda>(header, elements_offset).
                    Inr \<lparr>it_reader = Some reader, it_cursor_offset = elements_offset,
                         it_end_offset = elements_offset + ucast (ah_element_count header) * of_nat ARRAY_ELEMENT_SIZE,
                         it_remaining = ah_element_count header, it_is_block = False\<rparr>)))"

text \<open>
  One step: the value, for a block its key as offset and length, and the iterator behind it. On
  a rejection the iterator stays as it was.
\<close>

definition iter_next :: "iter option \<Rightarrow> stop + value_ref \<times> (u64 \<times> u32) option \<times> iter" where
  "iter_next it =
     (case it of
        None \<Rightarrow> Inl Rejected
      | Some iter \<Rightarrow>
          (case it_reader iter of
             None \<Rightarrow> Inl Rejected
           | Some reader \<Rightarrow>
               if it_remaining iter = 0 then Inl Rejected
               else bindE
                 (if it_is_block iter then
                    bindE (reader_read_entry reader (it_cursor_offset iter)) (\<lambda>entry.
                    bindE (entry_key reader entry) (\<lambda>key_position.
                    bindE (reader_kind_at reader (ent_value_offset entry)) (\<lambda>k.
                    Inr (value_ref_fill reader (ent_value_offset entry) k,
                         Some (key_position, ent_key_length entry),
                         iter\<lparr>it_cursor_offset := it_cursor_offset iter + of_nat ENTRY_SIZE\<rparr>))))
                  else
                    if it_cursor_offset iter + 8 > rd_size reader then Inl Rejected
                    else bindE (fetch (rd_base reader) (it_cursor_offset iter) 8) (\<lambda>bs.
                         bindE (reader_kind_at reader (load_u64 bs)) (\<lambda>k.
                         Inr (value_ref_fill reader (load_u64 bs) k, None,
                              iter\<lparr>it_cursor_offset := it_cursor_offset iter + of_nat ARRAY_ELEMENT_SIZE\<rparr>))))
                 (\<lambda>(value, key, iter). Inr (value, key, iter\<lparr>it_remaining := it_remaining iter - 1\<rparr>))))"

section \<open>The grammar of paths\<close>

datatype step = Key bytes | Index u32

definition is_digit :: "byte \<Rightarrow> bool" where
  "is_digit d \<longleftrightarrow> 0x30 \<le> d \<and> d \<le> 0x39"

definition decimal :: "bytes \<Rightarrow> nat" where
  "decimal ds = foldl (\<lambda>n d. n * 10 + unat (d - 0x30)) 0 ds"

abbreviation ends_plain :: "byte \<Rightarrow> bool" where
  "ends_plain b \<equiv> b = 0x2E \<or> b = 0x5B"

text \<open>
  A dot separates and is otherwise ignored; a bracketed decimal number of one to ten digits that
  fits 32 bits is an index; a quote runs to the next quote of its sort; anything else is a key
  that runs to the next dot or bracket. Keys are not empty.
\<close>

function path_steps :: "bytes \<Rightarrow> step list option" where
  "path_steps [] = Some []"
| "path_steps (c # p) =
     (if c = 0x2E then path_steps p
      else if c = 0x5B then
        let ds = takeWhile (\<lambda>b. b \<noteq> 0x5D) p; rest = dropWhile (\<lambda>b. b \<noteq> 0x5D) p
        in if rest = [] \<or> ds = [] \<or> length ds > 10 \<or> \<not> list_all is_digit ds \<or> decimal ds > UINT32_MAX then None
           else map_option (Cons (Index (of_nat (decimal ds)))) (path_steps (tl rest))
      else if c = 0x27 \<or> c = 0x22 then
        let key = takeWhile (\<lambda>b. b \<noteq> c) p; rest = dropWhile (\<lambda>b. b \<noteq> c) p
        in if rest = [] \<or> key = [] then None
           else map_option (Cons (Key key)) (path_steps (tl rest))
      else
        map_option (Cons (Key (c # takeWhile (\<lambda>b. \<not> ends_plain b) p)))
          (path_steps (dropWhile (\<lambda>b. \<not> ends_plain b) p)))"
  by pat_completeness auto
termination
  by (relation "measure length")
    (auto simp: le_imp_less_Suc length_dropWhile_le less_Suc_eq_le intro: le_trans [OF diff_le_self])

declare path_steps.simps [simp del]

text \<open>Following steps: the first is a root key, then keys of blocks and indices of arrays.\<close>

fun follow :: "(bytes \<Rightarrow> u64) \<Rightarrow> reader \<Rightarrow> u64 \<Rightarrow> step list \<Rightarrow> stop + u64" where
  "follow hash r off [] = Inr off"
| "follow hash r off (Key key # steps) =
     bindE (reader_block_find_offset hash r off key) (\<lambda>off. follow hash r off steps)"
| "follow hash r off (Index i # steps) =
     bindE (reader_array_at_offset r off i) (\<lambda>off. follow hash r off steps)"

fun follow_root :: "(bytes \<Rightarrow> u64) \<Rightarrow> reader \<Rightarrow> step list \<Rightarrow> stop + u64" where
  "follow_root hash r (Key key # steps) = bindE (reader_find_root_offset hash r key) (\<lambda>off. follow hash r off steps)"
| "follow_root hash r _ = Inl Rejected"

lemma scan_eq: "cursor \<le> length path \<Longrightarrow> scan P path cursor = cursor + length (takeWhile (\<lambda>b. \<not> P b) (drop cursor path))"
proof (induction P path cursor rule: scan.induct)
  case (1 P path cursor)
  show ?case
  proof (cases "cursor < length path")
    case True
    then have "drop cursor path = path ! cursor # drop (cursor + 1) path" by (simp add: Cons_nth_drop_Suc)
    then show ?thesis using 1 True by (subst scan.simps) simp
  qed (use 1 in \<open>simp add: scan.simps\<close>)
qed

lemma sub_takeWhile: "sub path cursor (length (takeWhile P (drop cursor path))) = takeWhile P (drop cursor path)"
  by (simp add: sub_def takeWhile_eq_take [symmetric])

lemma drop_takeWhile: "drop (cursor + length (takeWhile P (drop cursor path))) path = dropWhile P (drop cursor path)"
  by (simp add: dropWhile_eq_drop add.commute)

lemma takeWhile_ends: "cursor + length (takeWhile P (drop cursor path)) \<ge> length path \<longleftrightarrow>
    dropWhile P (drop cursor path) = [] \<or> length path < cursor"
proof -
  have "length (takeWhile P (drop cursor path)) + length (dropWhile P (drop cursor path)) = length path - cursor"
    by (metis length_append length_drop takeWhile_dropWhile_id)
  then show ?thesis by (cases "dropWhile P (drop cursor path)") auto
qed

lemma decimal_bound: "list_all is_digit ds \<Longrightarrow> decimal ds < 10 ^ length ds"
  unfolding decimal_def
proof (induction ds rule: rev_induct)
  case (snoc d ds)
  have "unat (d - 0x30) \<le> 9"
    using snoc.prems by (auto simp: is_digit_def word_le_nat_alt unat_sub)
  then show ?case using snoc by simp
qed simp

lemma decimal_snoc: "decimal (ds @ [d]) = decimal ds * 10 + unat (d - 0x30)"
  by (simp add: decimal_def)

lemma index_digits_append:
  "index_digits i (ds @ es) = bindE (index_digits i ds) (\<lambda>i. index_digits i es)"
  by (induction ds arbitrary: i) auto

lemma index_digits_eq:
  assumes "length ds \<le> 10"
  shows "index_digits 0 ds = (if list_all is_digit ds then Inr (of_nat (decimal ds)) else Inl Rejected)"
proof (induction ds rule: rev_induct)
  case Nil
  then show ?case by (simp add: decimal_def)
next
  case (snoc d ds)
  have "(ucast (d - 0x30) :: u64) = of_nat (unat (d - 0x30))"
    by simp
  then show ?case using snoc
    by (auto simp: index_digits_append decimal_snoc is_digit_def not_less not_le)
qed

lemma drop_then_tl: "drop n xs = ys \<Longrightarrow> drop (n + 1) xs = tl ys"
  by (auto simp: drop_Suc tl_drop)

lemma path_index_eq:
  assumes "cursor < length path" and "path ! cursor = 0x5B"
  defines "p \<equiv> drop (cursor + 1) path"
  defines "ds \<equiv> takeWhile (\<lambda>b. b \<noteq> 0x5D) p" and "rest \<equiv> dropWhile (\<lambda>b. b \<noteq> 0x5D) p"
  shows "path_index path cursor =
    (if rest = [] \<or> ds = [] \<or> length ds > 10 \<or> \<not> list_all is_digit ds \<or> decimal ds > UINT32_MAX then Inl Rejected
     else Inr (of_nat (decimal ds), cursor + length ds + 2))"
    and "rest \<noteq> [] \<Longrightarrow> drop (cursor + length ds + 2) path = tl rest"
proof -
  have close: "scan (\<lambda>b. b = 0x5D) path (cursor + 1) = cursor + 1 + length ds"
    using assms(1) unfolding ds_def p_def by (subst scan_eq) auto
  have ends: "cursor + 1 + length ds \<ge> length path \<longleftrightarrow> rest = []"
    using takeWhile_ends [of path "cursor + 1" "\<lambda>b. b \<noteq> 0x5D"] assms(1) unfolding ds_def rest_def p_def by simp
  have digits: "sub path (cursor + 1) (length ds) = ds"
    unfolding ds_def p_def by (rule sub_takeWhile)
  have dec: "decimal ds < 10 ^ 10" if "list_all is_digit ds" "length ds \<le> 10"
    using less_le_trans [OF decimal_bound [OF that(1)] power_increasing [OF that(2)]] by simp
  have gt: "(of_nat (decimal ds) :: u64) > 0xFFFFFFFF \<longleftrightarrow> decimal ds > UINT32_MAX"
    if "list_all is_digit ds" "length ds \<le> 10"
    using dec [OF that] by (simp add: word_less_nat_alt)
  have cast: "(ucast (of_nat (decimal ds) :: u64) :: u32) = of_nat (decimal ds)"
    by (simp add: word_unat_eq_iff unsigned_ucast_eq unsigned_of_nat)
  show "path_index path cursor =
    (if rest = [] \<or> ds = [] \<or> length ds > 10 \<or> \<not> list_all is_digit ds \<or> decimal ds > UINT32_MAX then Inl Rejected
     else Inr (of_nat (decimal ds), cursor + length ds + 2))"
  proof -
    have len: "cursor + 1 + length ds - (cursor + 1) = length ds" by simp
    have "path_index path cursor = (if rest = [] then Inl Rejected
        else if length ds = 0 \<or> length ds > 10 then Inl Rejected
        else bindE (index_digits 0 ds) (\<lambda>index. if index > 0xFFFFFFFF then Inl Rejected
          else Inr (ucast index, cursor + 1 + length ds + 1)))"
      unfolding path_index_def Let_def close ends len digits ..
    then show ?thesis using gt index_digits_eq [of ds] cast by simp
  qed
  show "rest \<noteq> [] \<Longrightarrow> drop (cursor + length ds + 2) path = tl rest"
    using drop_then_tl [OF drop_takeWhile [of "cursor + 1" "\<lambda>b. b \<noteq> 0x5D" path]]
    unfolding ds_def rest_def p_def by simp
qed

lemma path_segment_quoted:
  assumes "cursor < length path" and "path ! cursor = c" and "c = 0x27 \<or> c = 0x22"
  defines "p \<equiv> drop (cursor + 1) path"
  defines "key \<equiv> takeWhile (\<lambda>b. b \<noteq> c) p" and "rest \<equiv> dropWhile (\<lambda>b. b \<noteq> c) p"
  shows "path_segment path cursor = (if rest = [] \<or> key = [] then Inl Rejected else Inr (key, cursor + length key + 2))"
    and "drop (cursor + length key + 2) path = tl rest"
proof -
  have close: "scan (\<lambda>b. b = c) path (cursor + 1) = cursor + 1 + length key"
    using assms(1) unfolding key_def p_def by (subst scan_eq) auto
  have ends: "cursor + 1 + length key \<ge> length path \<longleftrightarrow> rest = []"
    using takeWhile_ends [of path "cursor + 1" "\<lambda>b. b \<noteq> c"] assms(1) unfolding key_def rest_def p_def by simp
  have key: "sub path (cursor + 1) (length key) = key"
    unfolding key_def p_def by (rule sub_takeWhile)
  have len: "cursor + 1 + length key - (cursor + 1) = length key" by simp
  have "path_segment path cursor = bindE (if rest = [] then Inl Rejected
      else Inr (cursor + 1, length key, cursor + 1 + length key + 1)) (\<lambda>(start, n, cursor).
      if n = 0 then Inl Rejected else Inr (sub path start n, cursor))"
    using assms(3) unfolding path_segment_def Let_def assms(2) close ends len by simp
  then show "path_segment path cursor = (if rest = [] \<or> key = [] then Inl Rejected else Inr (key, cursor + length key + 2))"
    using key by simp
  show "drop (cursor + length key + 2) path = tl rest"
    using drop_then_tl [OF drop_takeWhile [of "cursor + 1" "\<lambda>b. b \<noteq> c" path]]
    unfolding key_def rest_def p_def by simp
qed

lemma path_segment_plain:
  assumes "cursor < length path" and "path ! cursor = c" and "c \<noteq> 0x27" and "c \<noteq> 0x22" and "\<not> ends_plain c"
  defines "key \<equiv> c # takeWhile (\<lambda>b. \<not> ends_plain b) (drop (cursor + 1) path)"
  shows "path_segment path cursor = Inr (key, cursor + length key)"
    and "drop (cursor + length key) path = dropWhile (\<lambda>b. \<not> ends_plain b) (drop (cursor + 1) path)"
proof -
  have cons: "drop cursor path = c # drop (cursor + 1) path"
    using Cons_nth_drop_Suc [OF assms(1)] assms(2) by simp
  then have key: "key = takeWhile (\<lambda>b. \<not> ends_plain b) (drop cursor path)"
    using assms(5) by (simp add: key_def)
  have scan: "scan ends_plain path cursor = cursor + length key"
    unfolding key using assms(1) by (subst scan_eq) auto
  have "sub path cursor (length key) = key" unfolding key by (rule sub_takeWhile)
  moreover have "length key \<noteq> 0" by (simp add: key_def)
  ultimately show "path_segment path cursor = Inr (key, cursor + length key)"
    using assms(2-4) by (simp add: path_segment_def Let_def scan)
  show "drop (cursor + length key) path = dropWhile (\<lambda>b. \<not> ends_plain b) (drop (cursor + 1) path)"
    using drop_takeWhile [of cursor "\<lambda>b. \<not> ends_plain b" path] cons assms(5) unfolding key by simp
qed

section \<open>Resolving a path follows its steps\<close>

definition follow_from :: "(bytes \<Rightarrow> u64) \<Rightarrow> reader \<Rightarrow> bool \<Rightarrow> u64 \<Rightarrow> step list \<Rightarrow> stop + u64" where
  "follow_from hash r resolved off steps = (if resolved then follow hash r off steps else follow_root hash r steps)"

definition resolution :: "(bytes \<Rightarrow> u64) \<Rightarrow> reader \<Rightarrow> bool \<Rightarrow> u64 \<Rightarrow> step list option \<Rightarrow> stop + u64" where
  "resolution hash r resolved off steps =
     (case steps of None \<Rightarrow> Inl Rejected | Some steps \<Rightarrow> follow_from hash r resolved off steps)"

lemma resolution_Cons:
  assumes "wf_reader r"
  shows "resolution hash r resolved off (map_option (Cons (Key key)) steps) =
      bindE (if \<not> resolved then reader_find_root_offset hash r key else reader_block_find_offset hash r off key)
        (\<lambda>off. resolution hash r True off steps)"
    and "resolution hash r resolved off (map_option (Cons (Index i)) steps) =
      (if \<not> resolved then Inl Rejected
       else bindE (reader_array_at_offset r off i) (\<lambda>off. resolution hash r resolved off steps))"
  using in_bounds_find_root [OF assms, of hash key] in_bounds_block_find [OF assms, of hash off key]
    in_bounds_array_at [OF assms, of off i]
  by (cases steps; auto simp: resolution_def follow_from_def bindE_def elim!: in_bounds_cases)+

lemma resolve_loop_eq:
  "wf_reader r \<Longrightarrow>
     resolve_loop hash r path cursor off resolved = resolution hash r resolved off (path_steps (drop cursor path))"
proof (induction hash r path cursor off resolved rule: resolve_loop.induct)
  case (1 hash r path cursor off resolved)
  let ?c = "path ! cursor" and ?p = "drop (cursor + 1) path"
  note unfold = resolve_loop.simps [of hash r path cursor off resolved]
  show ?case
  proof (cases "cursor < length path")
    case False
    then show ?thesis by (simp add: unfold path_steps.simps resolution_def follow_from_def)
  next
    case lt: True
    then have cons: "drop cursor path = ?c # ?p" using Cons_nth_drop_Suc [OF lt] by simp
    have segment: "resolve_loop hash r path cursor off resolved =
        bindE (if \<not> resolved then reader_find_root_offset hash r key else reader_block_find_offset hash r off key)
          (\<lambda>off. resolution hash r True off (path_steps (drop cursor' path)))"
      if "?c \<noteq> 0x2E" "?c \<noteq> 0x5B" "path_segment path cursor = Inr (key, cursor')" for key cursor'
      using 1(3) [OF lt that(1,2,3) refl _ 1(4)] lt that by (auto simp: unfold intro!: bindE_cong)
    consider (Dot) "?c = 0x2E" | (Bracket) "?c = 0x5B" | (Quote) "?c = 0x27 \<or> ?c = 0x22"
      | (Plain) "?c \<noteq> 0x27" "?c \<noteq> 0x22" "\<not> ends_plain ?c" by blast
    then show ?thesis
    proof cases
      case Dot
      then show ?thesis using 1(1) [OF lt Dot 1(4)] lt unfolding cons
        by (simp add: unfold path_steps.simps(2))
    next
      case Bracket
      let ?ds = "takeWhile (\<lambda>b. b \<noteq> 0x5D) ?p" and ?rest = "dropWhile (\<lambda>b. b \<noteq> 0x5D) ?p"
      note idx = path_index_eq [OF lt Bracket]
      show ?thesis
      proof (cases "?rest = [] \<or> ?ds = [] \<or> length ?ds > 10 \<or> \<not> list_all is_digit ?ds \<or> decimal ?ds > UINT32_MAX")
        case True
        then have "path_index path cursor = Inl Rejected" unfolding idx(1) by (rule if_P)
        moreover have "path_steps (?c # ?p) = None" using True Bracket by (simp add: path_steps.simps(2) Let_def)
        ultimately show ?thesis unfolding cons using lt Bracket by (simp add: unfold resolution_def)
      next
        case False
        then have i: "path_index path cursor = Inr (of_nat (decimal ?ds), cursor + length ?ds + 2)"
          unfolding idx(1) by (rule if_not_P)
        have rest: "drop (cursor + length ?ds + 2) path = tl ?rest" using idx(2) False by blast
        have steps: "path_steps (?c # ?p) = map_option (Cons (Index (of_nat (decimal ?ds)))) (path_steps (tl ?rest))"
          using False Bracket by (auto simp add: path_steps.simps(2) Let_def)
        have "?c \<noteq> 0x2E" using Bracket by simp
        from 1(2) [OF lt this Bracket _ i refl _ 1(4), unfolded rest]
        show ?thesis unfolding cons steps resolution_Cons(2) [OF 1(4)]
          using lt Bracket i by (auto simp: unfold intro!: bindE_cong)
      qed
    next
      case Quote
      let ?key = "takeWhile (\<lambda>b. b \<noteq> ?c) ?p" and ?rest = "dropWhile (\<lambda>b. b \<noteq> ?c) ?p"
      note seg = path_segment_quoted [OF lt refl Quote]
      have c: "?c \<noteq> 0x2E" "?c \<noteq> 0x5B" using Quote by auto
      show ?thesis
      proof (cases "?rest = [] \<or> ?key = []")
        case True
        then have "path_segment path cursor = Inl Rejected" unfolding seg(1) by (rule if_P)
        moreover have "path_steps (?c # ?p) = None" using True Quote c by (simp only: path_steps.simps(2) Let_def if_P if_not_P simp_thms)
        ultimately show ?thesis unfolding cons using lt c by (simp add: unfold resolution_def)
      next
        case False
        then have i: "path_segment path cursor = Inr (?key, cursor + length ?key + 2)"
          unfolding seg(1) by (rule if_not_P)
        have steps: "path_steps (?c # ?p) = map_option (Cons (Key ?key)) (path_steps (tl ?rest))"
          using False Quote c by (simp only: path_steps.simps(2) Let_def if_P if_not_P simp_thms)
        show ?thesis unfolding segment [OF c i] cons steps resolution_Cons(1) [OF 1(4)] seg(2) ..
      qed
    next
      case Plain
      note seg = path_segment_plain [OF lt refl Plain]
      have c: "?c \<noteq> 0x2E" "?c \<noteq> 0x5B" using Plain by auto
      have steps: "path_steps (?c # ?p) = map_option (Cons (Key (?c # takeWhile (\<lambda>b. \<not> ends_plain b) ?p)))
          (path_steps (dropWhile (\<lambda>b. \<not> ends_plain b) ?p))"
        using Plain c by (simp only: path_steps.simps(2) Let_def if_P if_not_P simp_thms)
      show ?thesis unfolding segment [OF c seg(1)] cons steps resolution_Cons(1) [OF 1(4)] seg(2) ..
    qed
  qed
qed

lemma resolve_path_eq:
  assumes "wf_reader r"
  shows "reader_resolve_path hash r path =
    (case path_steps path of None \<Rightarrow> Inl Rejected | Some steps \<Rightarrow> follow_root hash r steps)"
  using resolve_loop_eq [OF assms, of hash path 0 0 False]
  by (cases path) (auto simp: reader_resolve_path_def resolution_def follow_from_def path_steps.simps(1) split: option.splits)

section \<open>Rendering a path\<close>

text \<open>
  The converse of the grammar: a key is quoted with a quote it does not contain. With \<open>decimal\<close>
  digits for the indices, every sequence of such keys and indices is the parse of its rendering.
\<close>

definition quote_for :: "bytes \<Rightarrow> byte" where
  "quote_for key = (if 0x27 \<in> set key then 0x22 else 0x27)"

fun digits :: "nat \<Rightarrow> nat \<Rightarrow> bytes" where
  "digits 0 n = []"
| "digits (Suc fuel) n = (if n < 10 then [] else digits fuel (n div 10)) @ [of_nat (n mod 10) + 0x30]"

fun render_step :: "step \<Rightarrow> bytes" where
  "render_step (Key key) = [0x2E, quote_for key] @ key @ [quote_for key]"
| "render_step (Index i) = [0x5B] @ digits 10 (unat i) @ [0x5D]"

fun addressable :: "step \<Rightarrow> bool" where
  "addressable (Key key) \<longleftrightarrow> key \<noteq> [] \<and> quote_for key \<notin> set key"
| "addressable (Index i) \<longleftrightarrow> True"

lemma digit_byte: "d < 10 \<Longrightarrow> is_digit (of_nat d + 0x30) \<and> unat (of_nat d + 0x30 - 0x30 :: byte) = d"
proof -
  assume "d < 10"
  then have "unat (of_nat d :: byte) = d" "unat (of_nat d + 0x30 :: byte) = d + 48"
    by (simp_all add: unat_of_nat unat_word_ariths(1))
  then show ?thesis using \<open>d < 10\<close> by (simp add: is_digit_def word_le_nat_alt)
qed

lemma digits_spec:
  "n < 10 ^ fuel \<Longrightarrow> 0 < fuel \<Longrightarrow> list_all is_digit (digits fuel n) \<and> decimal (digits fuel n) = n
    \<and> length (digits fuel n) \<le> fuel \<and> digits fuel n \<noteq> []"
proof (induction fuel n rule: digits.induct)
  case (2 fuel n)
  note d = digit_byte [of "n mod 10"]
  show ?case
  proof (cases "n < 10")
    case True
    then show ?thesis using d by (simp add: decimal_def)
  next
    case False
    then have "0 < fuel" using 2(2) by (cases fuel) auto
    moreover have "n div 10 < 10 ^ fuel" using 2(2) by (simp add: less_mult_imp_div_less mult.commute)
    ultimately show ?thesis using 2(1) [OF False] False d by (simp add: decimal_snoc)
  qed
qed simp

lemma takeWhile_until: "c \<notin> set xs \<Longrightarrow> takeWhile (\<lambda>b. b \<noteq> c) (xs @ c # ys) = xs"
  by (subst takeWhile_append2) auto

lemma dropWhile_until: "c \<notin> set xs \<Longrightarrow> dropWhile (\<lambda>b. b \<noteq> c) (xs @ c # ys) = c # ys"
  by (subst dropWhile_append2) auto

lemma path_steps_key:
  assumes "addressable (Key key)"
  shows "path_steps (render_step (Key key) @ p) = map_option (Cons (Key key)) (path_steps p)"
proof -
  let ?c = "quote_for key"
  have c: "?c \<noteq> 0x2E" "?c \<noteq> 0x5B" "?c = 0x27 \<or> ?c = 0x22" by (auto simp: quote_for_def)
  have key: "key \<noteq> []" "?c \<notin> set key" using assms by simp_all
  have "path_steps (?c # key @ ?c # p) = map_option (Cons (Key key)) (path_steps p)"
    using c key by (simp only: path_steps.simps(2) Let_def if_P if_not_P simp_thms takeWhile_until dropWhile_until
        list.sel list.distinct)
  then show ?thesis by (simp add: path_steps.simps(2) [of "0x2E"])
qed

lemma path_steps_index: "path_steps (render_step (Index i) @ p) = map_option (Cons (Index i)) (path_steps p)"
proof -
  let ?ds = "digits 10 (unat i)"
  have ds: "list_all is_digit ?ds" "decimal ?ds = unat i" "length ?ds \<le> 10" "?ds \<noteq> []"
    using digits_spec [of "unat i" 10] unat_u32_less [of i] by simp_all
  have "0x5D \<notin> set ?ds" using ds(1) by (auto simp: list_all_iff is_digit_def)
  then show ?thesis
    using ds unat_u32_less [of i] takeWhile_until [of "0x5D" ?ds p] dropWhile_until [of "0x5D" ?ds p]
    by (simp add: path_steps.simps(2) Let_def del: digits.simps)
qed

lemma path_steps_render:
  "list_all addressable steps \<Longrightarrow> path_steps (concat (map render_step steps)) = Some steps"
proof (induction steps)
  case (Cons s steps)
  then show ?case by (cases s) (simp_all add: path_steps_key path_steps_index del: render_step.simps)
qed (simp add: path_steps.simps)

section \<open>The public accessors stay inside the buffer\<close>

lemma in_bounds_follow: "wf_reader r \<Longrightarrow> in_bounds (follow hash r off steps)"
  by (induction hash r off steps rule: follow.induct)
    (auto intro!: in_bounds_rules in_bounds_block_find in_bounds_array_at)

lemma in_bounds_follow_root: "wf_reader r \<Longrightarrow> in_bounds (follow_root hash r steps)"
  by (induction hash r steps rule: follow_root.induct)
    (auto intro!: in_bounds_rules in_bounds_find_root in_bounds_follow)

lemma in_bounds_resolve: "wf_reader r \<Longrightarrow> in_bounds (reader_resolve_path hash r path)"
  by (auto simp: resolve_path_eq in_bounds_follow_root split: option.split)

definition wf_ref :: "value_ref option \<Rightarrow> bool" where
  "wf_ref v \<longleftrightarrow> (\<forall>r. Option.bind v vr_reader = Some r \<longrightarrow> wf_reader r)"

lemma in_bounds_find:
  "\<forall>r. reader = Some r \<longrightarrow> wf_reader r \<Longrightarrow> in_bounds (reader_find hash reader path)"
  by (auto simp: reader_find_def intro!: in_bounds_rules in_bounds_resolve in_bounds_kind_at split: option.split)

lemma find_wf_ref:
  "wf_reader r \<Longrightarrow> reader_find hash (Some r) path = Inr v \<Longrightarrow> wf_ref (Some v)"
  by (auto simp: reader_find_def value_ref_fill_def wf_ref_def outcome_simps split: option.splits)

lemma in_bounds_with_value:
  "wf_ref v \<Longrightarrow> (\<And>r off. wf_reader r \<Longrightarrow> in_bounds (f r off)) \<Longrightarrow> in_bounds (with_value v f)"
  by (auto simp: with_value_def wf_ref_def split: option.split)

lemma in_bounds_getters:
  assumes "wf_ref v"
  shows "in_bounds (reader_get_bool v)" and "in_bounds (reader_get_int64 v)" and "in_bounds (reader_get_uint64 v)"
    and "in_bounds (reader_get_float64 v)" and "in_bounds (reader_get_string v)"
  unfolding reader_get_bool_def reader_get_int64_def reader_get_uint64_def reader_get_float64_def reader_get_string_def
  by (auto intro!: in_bounds_with_value assms in_bounds_scalars)

section \<open>Iteration\<close>

definition iter_width :: "iter \<Rightarrow> nat" where
  "iter_width it = (if it_is_block it then ENTRY_SIZE else ARRAY_ELEMENT_SIZE)"

text \<open>The elements an iterator has still to visit lie inside the buffer.\<close>

definition iter_ok :: "iter \<Rightarrow> bool" where
  "iter_ok it \<longleftrightarrow> (\<forall>r. it_reader it = Some r \<longrightarrow> wf_reader r \<and>
     unat (it_cursor_offset it) + unat (it_remaining it) * iter_width it \<le> length (rd_base r))"

lemma iter_block_ok: "wf_ref v \<Longrightarrow> reader_iter_block v = Inr it \<Longrightarrow> iter_ok it"
  using block_body_fits
  by (fastforce simp: reader_iter_block_def wf_ref_def iter_ok_def iter_width_def table_fits_def outcome_simps
      split: option.splits if_splits)

lemma iter_array_ok: "wf_ref v \<Longrightarrow> reader_iter_array v = Inr it \<Longrightarrow> iter_ok it"
  using array_body_fits
  by (fastforce simp: reader_iter_array_def wf_ref_def iter_ok_def iter_width_def outcome_simps
      split: option.splits if_splits)

lemma iter_room:
  assumes "iter_ok it" and "it_reader it = Some r" and "it_remaining it \<noteq> 0"
  shows "unat (it_cursor_offset it) + iter_width it \<le> length (rd_base r)"
    and "unat (it_cursor_offset it) + iter_width it + unat (it_remaining it - 1) * iter_width it \<le> length (rd_base r)"
    and "unat (it_cursor_offset it + of_nat (iter_width it)) = unat (it_cursor_offset it) + iter_width it"
proof -
  have "unat (it_remaining it) \<noteq> 0" using assms(3) by (simp add: unat_eq_0)
  moreover from this have "unat (it_remaining it - 1) = unat (it_remaining it) - 1"
    by (simp add: unat_minus_one assms(3))
  ultimately have n: "unat (it_remaining it) = Suc (unat (it_remaining it - 1))" by simp
  show le: "unat (it_cursor_offset it) + iter_width it + unat (it_remaining it - 1) * iter_width it \<le> length (rd_base r)"
    using assms(1,2) unfolding iter_ok_def n by auto
  then show small: "unat (it_cursor_offset it) + iter_width it \<le> length (rd_base r)" by simp
  have "wf_reader r" using assms(1,2) by (simp add: iter_ok_def)
  then show "unat (it_cursor_offset it + of_nat (iter_width it)) = unat (it_cursor_offset it) + iter_width it"
    using small wf_reader_size [of r] by (intro unat_add_nat) simp
qed

lemma in_bounds_iter_next:
  assumes "\<forall>it. i = Some it \<longrightarrow> iter_ok it"
  shows "in_bounds (iter_next i)"
proof (cases i)
  case (Some it)
  show ?thesis
  proof (cases "it_reader it")
    case reader: (Some r)
    then have wf: "wf_reader r" using assms Some by (simp add: iter_ok_def)
    have "in_bounds (reader_read_entry r (it_cursor_offset it)) \<and> in_bounds (fetch (rd_base r) (it_cursor_offset it) 8)"
      if "it_remaining it \<noteq> 0"
      using iter_room(1) [OF _ reader that] assms Some wf_reader_size [OF wf]
      by (auto simp: iter_width_def split: if_splits intro!: in_bounds_read_entry [OF wf] in_bounds_fetch)
    then show ?thesis unfolding iter_next_def Some option.case reader entry_key_def
      by (auto intro!: in_bounds_rules in_bounds_kind_at wf)
  qed (simp add: Some iter_next_def)
qed (simp add: iter_next_def)

lemma iter_next_ok:
  assumes "iter_ok it" and "iter_next (Some it) = Inr (v, key, it')"
  shows "iter_ok it' \<and> unat (it_remaining it) = Suc (unat (it_remaining it')) \<and> wf_ref (Some v)"
proof -
  obtain r where r: "it_reader it = Some r" "it_remaining it \<noteq> 0"
    using assms(2) by (auto simp: iter_next_def split: option.splits if_splits)
  have it': "it' = it\<lparr>it_cursor_offset := it_cursor_offset it + of_nat (iter_width it), it_remaining := it_remaining it - 1\<rparr>"
    and v: "vr_reader v = Some r"
    using assms(2) r
    by (auto simp: iter_next_def iter_width_def value_ref_fill_def outcome_simps split: if_splits)
  note room = iter_room [OF assms(1) r]
  have "unat (it_remaining it - 1) = unat (it_remaining it) - 1" by (rule unat_minus_one) (rule r(2))
  then have n: "unat (it_remaining it) = Suc (unat (it_remaining it - 1))"
    using r(2) by (cases "unat (it_remaining it)") (auto simp: unat_eq_0)
  show ?thesis using assms(1) r(1) room n
    by (auto simp: it' v iter_ok_def wf_ref_def iter_width_def)
qed

text \<open>A client that drains an iterator; \<open>it_remaining\<close> steps are enough.\<close>

fun drain :: "nat \<Rightarrow> iter \<Rightarrow> stop + (value_ref \<times> (u64 \<times> u32) option) list" where
  "drain 0 it = Inr []"
| "drain (Suc n) it = bindE (iter_next (Some it)) (\<lambda>(v, key, it). bindE (drain n it) (\<lambda>vs. Inr ((v, key) # vs)))"

definition visit_entry :: "reader \<Rightarrow> entry \<Rightarrow> stop + value_ref \<times> (u64 \<times> u32) option" where
  "visit_entry r e = bindE (entry_key r e) (\<lambda>position. bindE (reader_kind_at r (ent_value_offset e)) (\<lambda>k.
     Inr (value_ref_fill r (ent_value_offset e) k, Some (position, ent_key_length e))))"

fun visit_all :: "reader \<Rightarrow> entry list \<Rightarrow> stop + (value_ref \<times> (u64 \<times> u32) option) list" where
  "visit_all r [] = Inr []"
| "visit_all r (e # es) = bindE (visit_entry r e) (\<lambda>v. bindE (visit_all r es) (\<lambda>vs. Inr (v # vs)))"

lemma iter_next_entry:
  assumes ok: "iter_ok it" and it: "it_reader it = Some r" "it_is_block it" "it_remaining it \<noteq> 0"
  shows "iter_next (Some it) = bindE (visit_entry r (load_entry (take 24 (drop (unat (it_cursor_offset it)) (rd_base r))))) (\<lambda>(v, key).
    Inr (v, key, it\<lparr>it_cursor_offset := it_cursor_offset it + 24, it_remaining := it_remaining it - 1\<rparr>))"
proof -
  have wf: "wf_reader r" using ok it(1) by (simp add: iter_ok_def)
  have "unat (it_cursor_offset it) + 24 \<le> length (rd_base r)" and "unat (it_cursor_offset it + 24) = unat (it_cursor_offset it) + 24"
    using iter_room(1,3) [OF ok it(1,3)] it(2) by (simp_all add: iter_width_def)
  then have "reader_read_entry r (it_cursor_offset it) = Inr (load_entry (take 24 (drop (unat (it_cursor_offset it)) (rd_base r))))"
    using wf_reader_size [OF wf] by (simp add: reader_read_entry_def fetch_def read_at_def word_less_nat_alt)
  then show ?thesis using it
    by (simp add: iter_next_def visit_entry_def bindE_assoc)
qed

lemma drain_entries:
  "iter_ok it \<Longrightarrow> it_reader it = Some r \<Longrightarrow> it_is_block it \<Longrightarrow> unat (it_remaining it) = n \<Longrightarrow>
     drain n it = visit_all r (map (\<lambda>i. load_entry (take 24 (drop (unat (it_cursor_offset it) + i * 24) (rd_base r)))) [0..<n])"
proof (induction n arbitrary: it)
  case (Suc n)
  have nz: "it_remaining it \<noteq> 0" using Suc.prems(4) by auto
  let ?it = "it\<lparr>it_cursor_offset := it_cursor_offset it + 24, it_remaining := it_remaining it - 1\<rparr>"
  let ?e = "\<lambda>c i. load_entry (take 24 (drop (c + i * 24) (rd_base r)))"
  have cursor: "unat (it_cursor_offset it + 24) = unat (it_cursor_offset it) + 24"
    using iter_room(3) [OF Suc.prems(1,2) nz] Suc.prems(3) by (simp add: iter_width_def)
  have ok: "iter_ok ?it"
    using iter_room(2,3) [OF Suc.prems(1,2) nz] Suc.prems(1-3) by (auto simp: iter_ok_def iter_width_def)
  have n: "unat (it_remaining it - 1) = n" using Suc.prems(4) nz by (simp add: unat_minus_one)
  have "drain n ?it = visit_all r (map (?e (unat (it_cursor_offset it) + 24)) [0..<n])"
    using Suc.IH [OF ok] Suc.prems n cursor by simp
  moreover have "map (?e (unat (it_cursor_offset it))) [0..<Suc n]
      = ?e (unat (it_cursor_offset it)) 0 # map (?e (unat (it_cursor_offset it) + 24)) [0..<n]"
    by (subst upt_conv_Cons) (simp_all add: map_Suc_upt [symmetric] add.assoc del: upt_Suc)
  ultimately show ?case
    using iter_next_entry [OF Suc.prems(1-3) nz] by (simp add: bindE_assoc case_prod_beta del: upt_Suc)
qed simp

lemma iter_block_drain:
  assumes wf: "wf_reader r" and body: "reader_block_body_offsets r off = Inr (header, entries)"
  shows "\<exists>it. reader_iter_block (Some (value_ref_fill r off K_BLOCK)) = Inr it \<and>
    drain (unat (bh_child_count header)) it = visit_all r (table_entries r entries (ucast (bh_child_count header)))"
proof -
  let ?it = "\<lparr>it_reader = Some r, it_cursor_offset = entries,
    it_end_offset = entries + ucast (bh_child_count header) * of_nat ENTRY_SIZE,
    it_remaining = bh_child_count header, it_is_block = True\<rparr>"
  have it: "reader_iter_block (Some (value_ref_fill r off K_BLOCK)) = Inr ?it"
    by (simp add: reader_iter_block_def value_ref_fill_def body)
  have "iter_ok ?it"
    using wf block_body_fits [OF wf body] by (simp add: iter_ok_def iter_width_def table_fits_def)
  then show ?thesis using it drain_entries [of ?it r "unat (bh_child_count header)"]
    by (simp add: table_entries_def)
qed

end
