(* ===== verification/String_Pool.thy ===== *)
theory String_Pool
  imports Format Platform
begin

text \<open>
  The growable byte buffers and the deduplicating string pool of the encoder
  (\<open>src/writer/bc_hrbl_writer_encoder.c\<close>, lines 26 to 342). The pool appends every new string
  as a length-prefixed, 4-aligned record and finds the strings it already holds through an
  open-addressing hash table with linear probing. \<open>hash\<close> stands for XXH3 of the xxhash
  library; nothing is assumed about it, so colliding strings are covered.
\<close>

section \<open>Growable buffers\<close>

record encoder_buffer =
  eb_data :: bytes
  eb_capacity :: nat

text \<open>
  The \<open>while\<close> that doubles a capacity. It starts from a positive capacity at both call sites;
  from 0 it would not make progress.
\<close>

function grow_capacity :: "nat \<Rightarrow> nat \<Rightarrow> nat" where
  "grow_capacity capacity required =
     (if capacity < required \<and> 0 < capacity then grow_capacity (capacity * 2) required else capacity)"
  by pat_completeness auto
termination by (relation "measure (\<lambda>(c, r). r - c)") auto

declare grow_capacity.simps [simp del]

definition buffer_init :: "platform \<Rightarrow> nat \<Rightarrow> nat \<Rightarrow> fault + encoder_buffer \<times> nat" where
  "buffer_init pf k initial_capacity =
     (if initial_capacity = 0 then Inr (\<lparr>eb_data = [], eb_capacity = 0\<rparr>, k)
      else bindE (request pf k initial_capacity) (\<lambda>k.
           Inr (\<lparr>eb_data = [], eb_capacity = initial_capacity\<rparr>, k)))"

definition buffer_reserve :: "platform \<Rightarrow> nat \<Rightarrow> encoder_buffer \<Rightarrow> nat \<Rightarrow> fault + encoder_buffer \<times> nat" where
  "buffer_reserve pf k buffer required =
     (if required \<le> eb_capacity buffer then Inr (buffer, k)
      else let new_capacity =
             grow_capacity (if eb_capacity buffer = 0 then 4096 else eb_capacity buffer) required
           in bindE (request pf k new_capacity) (\<lambda>k.
              Inr (buffer\<lparr>eb_capacity := new_capacity\<rparr>, k)))"

definition buffer_append :: "platform \<Rightarrow> nat \<Rightarrow> encoder_buffer \<Rightarrow> bytes \<Rightarrow> fault + encoder_buffer \<times> nat" where
  "buffer_append pf k buffer data =
     bindE (buffer_reserve pf k buffer (length (eb_data buffer) + length data)) (\<lambda>(buffer, k).
     Inr (buffer\<lparr>eb_data := eb_data buffer @ data\<rparr>, k))"

definition buffer_append_zero :: "platform \<Rightarrow> nat \<Rightarrow> encoder_buffer \<Rightarrow> nat \<Rightarrow> fault + encoder_buffer \<times> nat" where
  "buffer_append_zero pf k buffer n =
     bindE (buffer_reserve pf k buffer (length (eb_data buffer) + n)) (\<lambda>(buffer, k).
     Inr (buffer\<lparr>eb_data := eb_data buffer @ zeros n\<rparr>, k))"

definition buffer_align_to :: "platform \<Rightarrow> nat \<Rightarrow> encoder_buffer \<Rightarrow> nat \<Rightarrow> fault + encoder_buffer \<times> nat" where
  "buffer_align_to pf k buffer alignment =
     (let aligned = align_up_nat (length (eb_data buffer)) alignment
      in if aligned = length (eb_data buffer) then Inr (buffer, k)
         else buffer_append_zero pf k buffer (aligned - length (eb_data buffer)))"

section \<open>The pool\<close>

record pool_entry =
  pen_pool_offset :: u32
  pen_length :: u32

record pool_slot =
  sl_hash :: u64
  sl_entry_index :: u32

text \<open>
  The arrays are lists, so \<open>entries_count\<close>, \<open>slots_capacity\<close> and \<open>fixup_count\<close> are their
  lengths and \<open>slots_mask\<close> is the length of \<open>slots\<close> minus one, as the code keeps them.
\<close>

record string_pool =
  sp_buffer :: encoder_buffer
  sp_entries :: "pool_entry list"
  sp_entries_capacity :: nat
  sp_slots :: "pool_slot list"
  sp_slots_used :: nat
  sp_fixup_offsets :: "nat list"
  sp_fixup_capacity :: nat
  sp_worker_count :: nat

definition slots_mask :: "pool_slot list \<Rightarrow> nat" where
  "slots_mask slots = length slots - 1"

definition POOL_HASH_NONZERO :: u64 where
  "POOL_HASH_NONZERO = 0x8000000000000000"

definition pool_mark :: "u64 \<Rightarrow> u64" where
  "pool_mark raw_hash = (if raw_hash = 0 then POOL_HASH_NONZERO else raw_hash)"

definition empty_slot :: pool_slot where
  "empty_slot = \<lparr>sl_hash = 0, sl_entry_index = 0\<rparr>"

definition pool_record_fixup :: "platform \<Rightarrow> nat \<Rightarrow> string_pool \<Rightarrow> nat \<Rightarrow> fault + string_pool \<times> nat" where
  "pool_record_fixup pf k pool node_offset =
     bindE (if length (sp_fixup_offsets pool) = sp_fixup_capacity pool
            then let new_capacity = (if sp_fixup_capacity pool = 0 then 1024 else sp_fixup_capacity pool * 2)
                 in bindE (request pf k (new_capacity * 8)) (\<lambda>k.
                    Inr (pool\<lparr>sp_fixup_capacity := new_capacity\<rparr>, k))
            else Inr (pool, k)) (\<lambda>(pool, k).
     Inr (pool\<lparr>sp_fixup_offsets := sp_fixup_offsets pool @ [node_offset]\<rparr>, k))"

text \<open>
  The loop that walks from \<open>pos\<close> to the next empty slot. Without one it goes round for ever,
  which \<open>fuel\<close>, the number of slots at every call, detects: after that many steps the walk is
  back where it started.
\<close>

fun find_empty :: "nat \<Rightarrow> pool_slot list \<Rightarrow> nat \<Rightarrow> fault + nat" where
  "find_empty 0 slots pos = Inl Loops_forever"
| "find_empty (Suc fuel) slots pos =
     (if sl_hash (slots ! pos) = 0 then Inr pos
      else find_empty fuel slots ((pos + 1) AND slots_mask slots))"

definition rehash_slot :: "pool_slot list \<Rightarrow> pool_slot \<Rightarrow> fault + pool_slot list" where
  "rehash_slot slots slot =
     (if sl_hash slot = 0 then Inr slots
      else bindE (find_empty (length slots) slots (unat (sl_hash slot) AND slots_mask slots)) (\<lambda>pos.
           Inr (slots[pos := slot])))"

fun rehash_slots :: "pool_slot list \<Rightarrow> pool_slot list \<Rightarrow> fault + pool_slot list" where
  "rehash_slots slots [] = Inr slots"
| "rehash_slots slots (s # old) = bindE (rehash_slot slots s) (\<lambda>slots. rehash_slots slots old)"

definition pool_slots_grow :: "platform \<Rightarrow> nat \<Rightarrow> string_pool \<Rightarrow> nat \<Rightarrow> fault + string_pool \<times> nat" where
  "pool_slots_grow pf k pool new_capacity =
     bindE (request pf k (new_capacity * 16)) (\<lambda>k.
     bindE (rehash_slots (replicate new_capacity empty_slot) (sp_slots pool)) (\<lambda>slots.
     Inr (pool\<lparr>sp_slots := slots\<rparr>, k)))"

definition pool_init :: "platform \<Rightarrow> nat \<Rightarrow> nat \<Rightarrow> fault + string_pool \<times> nat" where
  "pool_init pf k initial_capacity =
     bindE (buffer_init pf k (if initial_capacity < 4096 then 4096 else initial_capacity)) (\<lambda>(buffer, k).
     pool_slots_grow pf k
       \<lparr>sp_buffer = buffer, sp_entries = [], sp_entries_capacity = 0, sp_slots = [],
        sp_slots_used = 0, sp_fixup_offsets = [], sp_fixup_capacity = 0, sp_worker_count = 0\<rparr> 512)"

definition pool_entries_reserve :: "platform \<Rightarrow> nat \<Rightarrow> string_pool \<Rightarrow> nat \<Rightarrow> fault + string_pool \<times> nat" where
  "pool_entries_reserve pf k pool required =
     (if required \<le> sp_entries_capacity pool then Inr (pool, k)
      else let new_capacity =
             grow_capacity (if sp_entries_capacity pool = 0 then 64 else sp_entries_capacity pool) required
           in bindE (request pf k (new_capacity * 8)) (\<lambda>k.
              Inr (pool\<lparr>sp_entries_capacity := new_capacity\<rparr>, k)))"

text \<open>
  The probe loop of the intern function: \<open>Inr (Inl offset)\<close> when the string is already there,
  \<open>Inr (Inr pos)\<close> when the walk reached the empty slot \<open>pos\<close>.
\<close>

fun pool_probe :: "nat \<Rightarrow> string_pool \<Rightarrow> bytes \<Rightarrow> u64 \<Rightarrow> nat \<Rightarrow> fault + (u32 + nat)" where
  "pool_probe 0 pool data h pos = Inl Loops_forever"
| "pool_probe (Suc fuel) pool data h pos =
     (let slot = sp_slots pool ! pos;
          next_pos = (pos + 1) AND slots_mask (sp_slots pool)
      in if sl_hash slot = 0 then Inr (Inr pos)
         else if sl_hash slot = h then
           (if unat (sl_entry_index slot) < length (sp_entries pool) then
              let candidate = sp_entries pool ! unat (sl_entry_index slot)
              in if pen_length candidate = of_nat (length data) then
                   (if length data = 0 then Inr (Inl (pen_pool_offset candidate))
                    else case read_at (eb_data (sp_buffer pool)) (unat (pen_pool_offset candidate) + 4) (length data) of
                           None \<Rightarrow> Inl Out_of_bounds
                         | Some existing \<Rightarrow>
                             if existing = data then Inr (Inl (pen_pool_offset candidate))
                             else pool_probe fuel pool data h next_pos)
                 else pool_probe fuel pool data h next_pos
            else Inl Out_of_bounds)
         else pool_probe fuel pool data h next_pos)"

text \<open>The miss path in its three parts: the record, room in the table, the slot.\<close>

definition pool_append_record ::
    "platform \<Rightarrow> nat \<Rightarrow> encoder_buffer \<Rightarrow> bytes \<Rightarrow> fault + encoder_buffer \<times> nat" where
  "pool_append_record pf k buffer data =
     bindE (buffer_append pf k buffer (store_u32 (of_nat (length data)))) (\<lambda>(buffer, k).
     bindE (if length data \<noteq> 0 then buffer_append pf k buffer data else Inr (buffer, k)) (\<lambda>(buffer, k).
     buffer_align_to pf k buffer 4))"

definition pool_make_room ::
    "platform \<Rightarrow> nat \<Rightarrow> string_pool \<Rightarrow> u64 \<Rightarrow> nat \<Rightarrow> fault + nat \<times> string_pool \<times> nat" where
  "pool_make_room pf k pool h pos =
     (if (sp_slots_used pool + 1) * 4 \<ge> length (sp_slots pool) * 3
      then bindE (pool_slots_grow pf k pool (length (sp_slots pool) * 2)) (\<lambda>(pool, k).
           bindE (find_empty (length (sp_slots pool)) (sp_slots pool)
                   (unat h AND slots_mask (sp_slots pool))) (\<lambda>pos.
           Inr (pos, pool, k)))
      else Inr (pos, pool, k))"

definition pool_intern_new ::
    "platform \<Rightarrow> nat \<Rightarrow> string_pool \<Rightarrow> bytes \<Rightarrow> u64 \<Rightarrow> nat \<Rightarrow> fault + u32 \<times> string_pool \<times> nat" where
  "pool_intern_new pf k pool data h pos =
     (let intra_offset = length (eb_data (sp_buffer pool))
      in if intra_offset > UINT32_MAX then Inl (Fails W_STRING_POOL_OVERFLOW_4GB)
         else bindE (pool_append_record pf k (sp_buffer pool) data) (\<lambda>(buffer, k).
              bindE (pool_entries_reserve pf k (pool\<lparr>sp_buffer := buffer\<rparr>) (length (sp_entries pool) + 1)) (\<lambda>(pool, k).
              let entry_index = length (sp_entries pool)
              in bindE (pool_make_room pf k (pool\<lparr>sp_entries := sp_entries pool @
                   [\<lparr>pen_pool_offset = of_nat intra_offset, pen_length = of_nat (length data)\<rparr>]\<rparr>) h pos) (\<lambda>(pos, pool, k).
                 Inr (of_nat intra_offset,
                      pool\<lparr>sp_slots := (sp_slots pool)
                             [pos := \<lparr>sl_hash = h, sl_entry_index = of_nat entry_index\<rparr>],
                           sp_slots_used := sp_slots_used pool + 1\<rparr>, k)))))"

definition pool_intern_with_hash ::
    "platform \<Rightarrow> nat \<Rightarrow> string_pool \<Rightarrow> bytes \<Rightarrow> u64 \<Rightarrow> fault + u32 \<times> string_pool \<times> nat" where
  "pool_intern_with_hash pf k pool data raw_hash =
     (if length data > UINT32_MAX then Inl (Fails W_STRING_LENGTH_OVERFLOW_4GB)
      else let h = pool_mark raw_hash
      in bindE (pool_probe (length (sp_slots pool)) pool data h (unat h AND slots_mask (sp_slots pool)))
           (\<lambda>r. case r of
              Inl offset \<Rightarrow> Inr (offset, pool, k)
            | Inr pos \<Rightarrow> pool_intern_new pf k pool data h pos))"

definition pool_intern ::
    "(bytes \<Rightarrow> u64) \<Rightarrow> platform \<Rightarrow> nat \<Rightarrow> string_pool \<Rightarrow> bytes \<Rightarrow> fault + u32 \<times> string_pool \<times> nat" where
  "pool_intern hash pf k pool data = pool_intern_with_hash pf k pool data (hash data)"

section \<open>Buffers hold what was appended\<close>

lemma grow_capacity_ge: "0 < c \<Longrightarrow> r \<le> grow_capacity c r"
proof (induction c r rule: grow_capacity.induct)
  case (1 c r)
  then show ?case by (subst grow_capacity.simps) auto
qed

lemma grow_capacity_less: "0 < c \<Longrightarrow> c < r \<Longrightarrow> grow_capacity c r < 2 * r"
proof (induction c r rule: grow_capacity.induct)
  case (1 c r)
  show ?case
  proof (cases "c * 2 < r")
    case True
    then show ?thesis using 1 by (subst grow_capacity.simps) auto
  next
    case False
    then have "grow_capacity (c * 2) r = c * 2" by (subst grow_capacity.simps) auto
    then show ?thesis using 1 by (subst grow_capacity.simps) auto
  qed
qed

lemma buffer_reserve_data:
  "buffer_reserve pf k b n = Inr (b', k') \<Longrightarrow> eb_data b' = eb_data b"
  by (auto simp: buffer_reserve_def Let_def outcome_simps split: if_splits)

lemma buffer_append_data:
  "buffer_append pf k b xs = Inr (b', k') \<Longrightarrow> eb_data b' = eb_data b @ xs"
  by (auto simp: buffer_append_def outcome_simps dest: buffer_reserve_data)

lemma buffer_append_zero_data:
  "buffer_append_zero pf k b n = Inr (b', k') \<Longrightarrow> eb_data b' = eb_data b @ zeros n"
  by (auto simp: buffer_append_zero_def outcome_simps dest: buffer_reserve_data)

lemma buffer_align_to_data:
  "buffer_align_to pf k b a = Inr (b', k') \<Longrightarrow>
     eb_data b' = eb_data b @ zeros (align_up_nat (length (eb_data b)) a - length (eb_data b))"
  by (auto simp: buffer_align_to_def Let_def dest: buffer_append_zero_data split: if_splits)

lemmas buffer_data = buffer_append_data buffer_append_zero_data buffer_align_to_data

lemma buffer_outcome:
  "fails_only pf F (buffer_init pf k n)"
  "fails_only pf F (buffer_reserve pf k b n)"
  "fails_only pf F (buffer_append pf k b xs)"
  "fails_only pf F (buffer_append_zero pf k b n)"
  "fails_only pf F (buffer_align_to pf k b a)"
  by (auto simp: buffer_init_def buffer_reserve_def buffer_append_def buffer_append_zero_def
      buffer_align_to_def Let_def intro!: fails_only_rules)

text \<open>The capacity never falls below the size, so the appends stay inside the allocation.\<close>

definition buffer_ok :: "encoder_buffer \<Rightarrow> bool" where
  "buffer_ok b \<longleftrightarrow> length (eb_data b) \<le> eb_capacity b"

lemma buffer_reserve_ok:
  "buffer_reserve pf k b n = Inr (b', k') \<Longrightarrow> buffer_ok b \<Longrightarrow> buffer_ok b' \<and> n \<le> eb_capacity b'"
proof (cases "n \<le> eb_capacity b")
  case False
  assume a: "buffer_reserve pf k b n = Inr (b', k')" "buffer_ok b"
  let ?c = "grow_capacity (if eb_capacity b = 0 then 4096 else eb_capacity b) n"
  have "n \<le> ?c" by (rule grow_capacity_ge) simp
  moreover have "b' = b\<lparr>eb_capacity := ?c\<rparr>"
    using a(1) False by (auto simp: buffer_reserve_def Let_def outcome_simps)
  ultimately show ?thesis using a(2) False by (simp add: buffer_ok_def)
qed (auto simp: buffer_reserve_def)

lemma buffer_append_ok:
  assumes "buffer_append pf k b xs = Inr (b', k')" and "buffer_ok b"
  shows "buffer_ok b'"
proof -
  obtain b1 k1 where b1: "buffer_reserve pf k b (length (eb_data b) + length xs) = Inr (b1, k1)"
    "b' = b1\<lparr>eb_data := eb_data b1 @ xs\<rparr>"
    using assms(1) by (auto simp: buffer_append_def outcome_simps)
  show ?thesis
    using buffer_reserve_ok [OF b1(1) assms(2)] buffer_reserve_data [OF b1(1)]
    by (simp add: b1(2) buffer_ok_def)
qed

section \<open>Linear probing\<close>

text \<open>
  \<open>walk slots h d\<close> is the slot a probe for hash \<open>h\<close> looks at after \<open>d\<close> steps. In a table that is
  \<open>chained\<close> the walk from the home of a stored hash to its slot crosses no empty slot.
\<close>

abbreviation used :: "pool_slot list \<Rightarrow> pool_slot list" where
  "used slots \<equiv> filter (\<lambda>s. sl_hash s \<noteq> 0) slots"

definition pow2 :: "pool_slot list \<Rightarrow> bool" where
  "pow2 slots \<longleftrightarrow> (\<exists>m. length slots = 2 ^ m)"

definition walk :: "pool_slot list \<Rightarrow> u64 \<Rightarrow> nat \<Rightarrow> nat" where
  "walk slots h d = (unat h + d) mod length slots"

definition clear_run :: "pool_slot list \<Rightarrow> u64 \<Rightarrow> nat \<Rightarrow> bool" where
  "clear_run slots h d \<longleftrightarrow> (\<forall>j < d. sl_hash (slots ! walk slots h j) \<noteq> 0)"

definition chained :: "pool_slot list \<Rightarrow> bool" where
  "chained slots \<longleftrightarrow> (\<forall>i < length slots. sl_hash (slots ! i) \<noteq> 0 \<longrightarrow>
     (\<exists>d < length slots. i = walk slots (sl_hash (slots ! i)) d \<and> clear_run slots (sl_hash (slots ! i)) d))"

lemma pow2_pos: "pow2 slots \<Longrightarrow> 0 < length slots"
  by (auto simp: pow2_def)

lemma and_slots_mask: "pow2 slots \<Longrightarrow> n AND slots_mask slots = n mod length slots"
proof -
  assume "pow2 slots"
  then obtain m where m: "length slots = 2 ^ m" by (auto simp: pow2_def)
  have "n AND (2 ^ m - 1) = take_bit m n"
    by (simp only: take_bit_eq_mask mask_eq_exp_minus_1)
  then show ?thesis by (simp only: slots_mask_def m take_bit_eq_mod)
qed

lemma walk_less: "pow2 slots \<Longrightarrow> walk slots h d < length slots"
  unfolding walk_def by (rule mod_less_divisor) (rule pow2_pos)

lemma walk_0: "pow2 slots \<Longrightarrow> unat h AND slots_mask slots = walk slots h 0"
  by (simp add: and_slots_mask walk_def)

lemma walk_Suc: "pow2 slots \<Longrightarrow> (walk slots h d + 1) AND slots_mask slots = walk slots h (Suc d)"
  by (simp add: and_slots_mask walk_def mod_Suc_eq)

lemma walk_surj:
  assumes "pow2 slots" and "i < length slots"
  shows "\<exists>d < length slots. walk slots h d = i"
proof -
  let ?n = "length slots"
  let ?d = "(i + (?n - unat h mod ?n)) mod ?n"
  have "unat h mod ?n < ?n" using pow2_pos [OF assms(1)] by simp
  have "walk slots h ?d = (unat h mod ?n + (i + (?n - unat h mod ?n))) mod ?n"
    by (simp add: walk_def mod_add_left_eq mod_add_right_eq)
  also have "unat h mod ?n + (i + (?n - unat h mod ?n)) = i + ?n"
    using \<open>unat h mod ?n < ?n\<close> by simp
  finally show ?thesis using assms pow2_pos [OF assms(1)]
    by (intro exI [of _ ?d]) simp
qed

lemma first_empty:
  assumes "pow2 slots" and "length (used slots) < length slots"
  obtains d where "d < length slots" and "sl_hash (slots ! walk slots h d) = 0" and "clear_run slots h d"
proof -
  have "\<exists>s \<in> set slots. sl_hash s = 0"
  proof (rule ccontr)
    assume "\<not> ?thesis"
    then have "used slots = slots" by (simp add: filter_id_conv)
    then show False using assms(2) by simp
  qed
  then obtain i where "i < length slots" "sl_hash (slots ! i) = 0" by (auto simp: in_set_conv_nth)
  then obtain d where d: "d < length slots" "sl_hash (slots ! walk slots h d) = 0"
    using walk_surj [OF assms(1)] by metis
  let ?P = "\<lambda>d. sl_hash (slots ! walk slots h d) = 0"
  show thesis
  proof
    show "sl_hash (slots ! walk slots h (LEAST d. ?P d)) = 0" using d(2) by (rule LeastI)
    show "(LEAST d. ?P d) < length slots" using Least_le [of ?P d] d by simp
    show "clear_run slots h (LEAST d. ?P d)" unfolding clear_run_def using not_less_Least [of _ ?P] by blast
  qed
qed

lemma find_empty_walk:
  assumes "pow2 slots" and "clear_run slots h d" and "sl_hash (slots ! walk slots h d) = 0"
  shows "n \<le> d \<Longrightarrow> d - n < fuel \<Longrightarrow> find_empty fuel slots (walk slots h n) = Inr (walk slots h d)"
proof (induction fuel arbitrary: n)
  case 0
  then show ?case by simp
next
  case (Suc fuel)
  show ?case
  proof (cases "n = d")
    case True
    then show ?thesis using assms(3) by simp
  next
    case False
    then have "n < d" using Suc.prems by simp
    then have "sl_hash (slots ! walk slots h n) \<noteq> 0" using assms(2) by (simp add: clear_run_def)
    moreover have "find_empty fuel slots (walk slots h (Suc n)) = Inr (walk slots h d)"
      using Suc.IH [of "Suc n"] Suc.prems \<open>n < d\<close> by simp
    ultimately show ?thesis using walk_Suc [OF assms(1), of h n] by simp
  qed
qed

lemma find_empty_home:
  assumes "pow2 slots" and "length (used slots) < length slots"
  shows "\<exists>d < length slots. find_empty (length slots) slots (unat h AND slots_mask slots) = Inr (walk slots h d)
    \<and> sl_hash (slots ! walk slots h d) = 0 \<and> clear_run slots h d"
proof -
  obtain d where d: "d < length slots" "sl_hash (slots ! walk slots h d) = 0" "clear_run slots h d"
    using first_empty [OF assms] .
  then show ?thesis
    using find_empty_walk [OF assms(1) d(3) d(2), of 0 "length slots"] walk_0 [OF assms(1)] by auto
qed

lemma mset_used_update:
  assumes "i < length slots" and "sl_hash (slots ! i) = 0" and "sl_hash s \<noteq> 0"
  shows "mset (used (slots[i := s])) = add_mset s (mset (used slots))"
proof -
  let ?M = "mset slots - {#slots ! i#}"
  have "mset (used slots) = filter_mset (\<lambda>s. sl_hash s \<noteq> 0) (add_mset (slots ! i) ?M)"
    using assms(1) by simp
  moreover have "mset (slots[i := s]) = add_mset s ?M" using assms(1) by (rule mset_update)
  ultimately show ?thesis using assms(2,3) by (simp only: mset_filter) simp
qed

lemma chained_insert:
  assumes "pow2 slots" and "chained slots" and "d < length slots"
    and "sl_hash (slots ! walk slots (sl_hash s) d) = 0" and "clear_run slots (sl_hash s) d"
    and "sl_hash s \<noteq> 0"
  shows "chained (slots[walk slots (sl_hash s) d := s])"
proof -
  let ?p = "walk slots (sl_hash s) d"
  let ?new = "slots[?p := s]"
  have p: "?p < length slots" by (rule walk_less [OF assms(1)])
  have walk_eq: "walk ?new h e = walk slots h e" for h e by (simp add: walk_def)
  have keep: "clear_run ?new h e" if "clear_run slots h e" for h e
    using that assms(6) p unfolding clear_run_def walk_eq by (auto simp: nth_list_update)
  show ?thesis unfolding chained_def
  proof (intro allI impI)
    fix i assume i: "i < length ?new" "sl_hash (?new ! i) \<noteq> 0"
    show "\<exists>e < length ?new. i = walk ?new (sl_hash (?new ! i)) e \<and> clear_run ?new (sl_hash (?new ! i)) e"
    proof (cases "i = ?p")
      case True
      then show ?thesis using assms(3,5) keep p by (auto simp: walk_eq)
    next
      case False
      then have "?new ! i = slots ! i" "i < length slots" using i(1) by simp_all
      then obtain e where "e < length slots" "i = walk slots (sl_hash (slots ! i)) e"
        "clear_run slots (sl_hash (slots ! i)) e"
        using assms(2) i(2) unfolding chained_def by metis
      then show ?thesis using keep \<open>?new ! i = slots ! i\<close>
        by (intro exI [of _ e]) (simp add: walk_eq)
    qed
  qed
qed

lemma pow2_update [simp]: "pow2 (slots[i := s]) = pow2 slots"
  by (simp add: pow2_def)

lemma rehash_slot_spec:
  assumes "pow2 slots" and "chained slots" and "length (used slots) < length slots"
  shows "\<exists>slots'. rehash_slot slots s = Inr slots' \<and> length slots' = length slots \<and> chained slots'
    \<and> mset (used slots') = mset (used [s]) + mset (used slots)"
proof (cases "sl_hash s = 0")
  case True
  then show ?thesis using assms by (simp add: rehash_slot_def)
next
  case False
  obtain d where d: "d < length slots" "sl_hash (slots ! walk slots (sl_hash s) d) = 0"
    "clear_run slots (sl_hash s) d"
    "find_empty (length slots) slots (unat (sl_hash s) AND slots_mask slots) = Inr (walk slots (sl_hash s) d)"
    using find_empty_home [OF assms(1,3), of "sl_hash s"] by auto
  then show ?thesis
    using False chained_insert [OF assms(1,2) d(1-3) False]
      mset_used_update [OF walk_less [OF assms(1)] d(2) False]
    by (simp add: rehash_slot_def)
qed

lemma rehash_slots_spec:
  assumes "pow2 slots" and "chained slots" and "length (used slots) + length (used old) < length slots"
  shows "\<exists>slots'. rehash_slots slots old = Inr slots' \<and> length slots' = length slots \<and> chained slots'
    \<and> mset (used slots') = mset (used slots) + mset (used old)"
  using assms
proof (induction old arbitrary: slots)
  case Nil
  then show ?case by simp
next
  case (Cons s old)
  have "length (used slots) < length slots" using Cons.prems(3) by simp
  then obtain slots1 where s1: "rehash_slot slots s = Inr slots1" "length slots1 = length slots"
    "chained slots1" "mset (used slots1) = mset (used [s]) + mset (used slots)"
    using rehash_slot_spec [OF Cons.prems(1,2)] by blast
  have "length (used slots1) = length (used [s]) + length (used slots)"
    using s1(4) by (metis length_append mset_append size_mset)
  then have "length (used slots1) + length (used old) < length slots1"
    using Cons.prems(3) s1(2) by (simp split: if_splits)
  moreover have "pow2 slots1" using Cons.prems(1) s1(2) by (simp add: pow2_def)
  ultimately obtain slots2 where "rehash_slots slots1 old = Inr slots2" "length slots2 = length slots1"
    "chained slots2" "mset (used slots2) = mset (used slots1) + mset (used old)"
    using Cons.IH s1(3) by blast
  then show ?case using s1 by (simp split: if_splits)
qed

lemma fresh_table:
  "used (replicate n empty_slot) = []" "chained (replicate n empty_slot)"
  by (simp_all add: chained_def empty_slot_def)

section \<open>What the pool holds\<close>

text \<open>
  The layout of the string section: one record per distinct string, in order of first use. The
  offset of a string is the length of the records before it.
\<close>

definition pool_record :: "bytes \<Rightarrow> bytes" where
  "pool_record s = store_u32 (of_nat (length s)) @ s @ zeros (align_up_nat (length s) 4 - length s)"

definition pool_layout :: "bytes list \<Rightarrow> bytes" where
  "pool_layout strs = concat (map pool_record strs)"

definition string_offset :: "bytes list \<Rightarrow> bytes \<Rightarrow> nat" where
  "string_offset strs s = length (pool_layout (takeWhile (\<lambda>t. t \<noteq> s) strs))"

definition remember :: "bytes list \<Rightarrow> bytes \<Rightarrow> bytes list" where
  "remember strs s = (if s \<in> set strs then strs else strs @ [s])"

definition slot_for :: "(bytes \<Rightarrow> u64) \<Rightarrow> bytes list \<Rightarrow> nat \<Rightarrow> pool_slot" where
  "slot_for hash strs i = \<lparr>sl_hash = pool_mark (hash (strs ! i)), sl_entry_index = of_nat i\<rparr>"

definition pool_holds :: "(bytes \<Rightarrow> u64) \<Rightarrow> string_pool \<Rightarrow> bytes list \<Rightarrow> bool" where
  "pool_holds hash p strs \<longleftrightarrow>
     eb_data (sp_buffer p) = pool_layout strs \<and> distinct strs \<and>
     (\<forall>s \<in> set strs. length s < 2 ^ 32 \<and> string_offset strs s < 2 ^ 32) \<and>
     sp_entries p = map (\<lambda>s. \<lparr>pen_pool_offset = of_nat (string_offset strs s), pen_length = of_nat (length s)\<rparr>) strs \<and>
     pow2 (sp_slots p) \<and> chained (sp_slots p) \<and>
     mset (used (sp_slots p)) = mset (map (slot_for hash strs) [0..<length strs]) \<and>
     length strs * 4 < length (sp_slots p) * 3 \<and> sp_slots_used p = length strs"

lemma length_pool_record [simp]: "length (pool_record s) = 4 + align_up_nat (length s) 4"
  using align_up_nat_ge [of 4 "length s"] by (simp add: pool_record_def store_u32_def)

lemma pool_layout_simps [simp]:
  "pool_layout [] = []" "pool_layout (s # strs) = pool_record s @ pool_layout strs"
  "pool_layout (xs @ ys) = pool_layout xs @ pool_layout ys"
  by (simp_all add: pool_layout_def)

lemma length_pool_layout_ge: "4 * length strs \<le> length (pool_layout strs)"
  by (induction strs) auto

lemma dvd_length_pool_layout: "4 dvd length (pool_layout strs)"
  by (induction strs) (auto simp: dvd_align_up_nat)

lemma pool_mark_nonzero [simp]: "pool_mark h \<noteq> 0"
  by (simp add: pool_mark_def POOL_HASH_NONZERO_def)

lemma sl_hash_slot_for [simp]: "sl_hash (slot_for hash strs i) = pool_mark (hash (strs ! i))"
  by (simp add: slot_for_def)

lemma string_offset_Cons:
  "string_offset (t # strs) s = (if t = s then 0 else length (pool_record t) + string_offset strs s)"
  by (simp add: string_offset_def)

lemma string_offset_append:
  "s \<in> set xs \<Longrightarrow> string_offset (xs @ ys) s = string_offset xs s"
  by (simp add: string_offset_def takeWhile_append1)

lemma string_offset_new:
  "s \<notin> set strs \<Longrightarrow> string_offset (strs @ s # ys) s = length (pool_layout strs)"
  by (simp add: string_offset_def takeWhile_append2 takeWhile_tail)
    (metis (mono_tags, lifting) append_Nil2 takeWhile_append2 takeWhile_eq_all_conv)

lemma string_offset_nth:
  assumes "distinct strs" and "i < length strs"
  shows "string_offset strs (strs ! i) = length (pool_layout (take i strs))"
proof -
  have "strs ! i \<notin> set (take i strs)"
    using assms by (auto simp: in_set_conv_nth nth_eq_iff_index_eq)
  then show ?thesis
    by (subst id_take_nth_drop [OF assms(2)]) (rule string_offset_new)
qed

lemma string_offset_less:
  assumes "s \<in> set strs"
  shows "string_offset strs s + 4 + length s \<le> length (pool_layout strs)"
  using assms
proof (induction strs)
  case (Cons t strs)
  then show ?case using align_up_nat_ge [of 4 "length s"]
    by (auto simp: string_offset_Cons)
qed simp

lemma read_at_pool_layout:
  assumes "s \<in> set strs"
  shows "read_at (pool_layout strs) (string_offset strs s + 4) (length s) = Some s"
  using assms
proof (induction strs)
  case (Cons t strs)
  show ?case
  proof (cases "t = s")
    case True
    have "read_at (store_u32 (of_nat (length s)) @ s @ (zeros (align_up_nat (length s) 4 - length s) @ pool_layout strs))
        4 (length s) = Some s"
      using read_at_middle [of "store_u32 (of_nat (length s))" s] by (simp add: store_u32_def)
    then show ?thesis using True by (simp add: string_offset_Cons pool_record_def)
  next
    case False
    then have "read_at (pool_layout strs) (string_offset strs s + 4) (length s) = Some s"
      using Cons by simp
    then show ?thesis using False read_at_append_right [of "pool_record t" "pool_layout strs" "string_offset strs s + 4"]
      by (simp add: string_offset_Cons add.assoc)
  qed
qed simp

lemma read_at_pool_length:
  assumes "s \<in> set strs"
  shows "read_at (pool_layout strs) (string_offset strs s) 4 = Some (store_u32 (of_nat (length s)))"
  using assms
proof (induction strs)
  case (Cons t strs)
  show ?case
  proof (cases "t = s")
    case True
    then show ?thesis
      using read_at_middle [of "[]" "store_u32 (of_nat (length s))"]
      by (simp add: string_offset_Cons pool_record_def store_u32_def)
  next
    case False
    then show ?thesis using Cons read_at_append_right [of "pool_record t" "pool_layout strs" "string_offset strs s"]
      by (simp add: string_offset_Cons)
  qed
qed simp

lemma string_offset_inj:
  assumes "s \<in> set strs" and "t \<in> set strs" and "string_offset strs s = string_offset strs t"
  shows "s = t"
  using assms
proof (induction strs)
  case (Cons u strs)
  then show ?case by (auto simp: string_offset_Cons split: if_splits)
qed simp

lemma string_offset_aligned: "4 dvd string_offset strs s"
  unfolding string_offset_def by (rule dvd_length_pool_layout)

lemma pool_holds_length:
  assumes "pool_holds hash p strs"
  shows "length strs < 2 ^ 32"
proof (cases "strs = []")
  case False
  then have "string_offset strs (strs ! (length strs - 1)) = length (pool_layout (take (length strs - 1) strs))"
    using assms by (intro string_offset_nth) (simp_all add: pool_holds_def)
  moreover have "string_offset strs (strs ! (length strs - 1)) < 2 ^ 32"
    using assms False by (simp add: pool_holds_def)
  ultimately show ?thesis
    using length_pool_layout_ge [of "take (length strs - 1) strs"] False by simp
qed simp

lemma pool_holds_used:
  assumes "pool_holds hash p strs"
  shows "length (used (sp_slots p)) = length strs"
    and "set (used (sp_slots p)) = slot_for hash strs ` {..<length strs}"
proof -
  have eq: "mset (used (sp_slots p)) = mset (map (slot_for hash strs) [0..<length strs])"
    using assms unfolding pool_holds_def by blast
  show "length (used (sp_slots p)) = length strs"
    using mset_eq_length [OF eq] by (simp only: length_map length_upt diff_zero)
  show "set (used (sp_slots p)) = slot_for hash strs ` {..<length strs}"
    using mset_eq_setD [OF eq] by (simp only: set_map set_upt atLeast0LessThan)
qed

lemma pool_holds_slot:
  assumes "pool_holds hash p strs" and "pos < length (sp_slots p)" and "sl_hash (sp_slots p ! pos) \<noteq> 0"
  shows "\<exists>i < length strs. sp_slots p ! pos = slot_for hash strs i"
proof -
  have "sp_slots p ! pos \<in> set (used (sp_slots p))" using assms(2,3) by simp
  then show ?thesis unfolding pool_holds_used(2) [OF assms(1)] by auto
qed

lemma pool_holds_find:
  assumes "pool_holds hash p strs" and "s \<in> set strs"
  shows "\<exists>i d. i < length strs \<and> strs ! i = s \<and> d < length (sp_slots p) \<and>
    sp_slots p ! walk (sp_slots p) (pool_mark (hash s)) d = slot_for hash strs i \<and>
    clear_run (sp_slots p) (pool_mark (hash s)) d"
proof -
  obtain i where i: "i < length strs" "strs ! i = s" using assms(2) by (auto simp: in_set_conv_nth)
  then have "slot_for hash strs i \<in> set (used (sp_slots p))"
    unfolding pool_holds_used(2) [OF assms(1)] by auto
  then obtain pos where pos: "pos < length (sp_slots p)" "sp_slots p ! pos = slot_for hash strs i"
    by (auto simp: in_set_conv_nth)
  moreover have "chained (sp_slots p)" using assms(1) by (simp add: pool_holds_def)
  ultimately obtain d where "d < length (sp_slots p)" "pos = walk (sp_slots p) (pool_mark (hash s)) d"
    "clear_run (sp_slots p) (pool_mark (hash s)) d"
    unfolding chained_def using i(2) by (metis pool_mark_nonzero sl_hash_slot_for)
  then show ?thesis using i pos by blast
qed

section \<open>Probing finds exactly the strings held\<close>

definition matches :: "(bytes \<Rightarrow> u64) \<Rightarrow> bytes list \<Rightarrow> bytes \<Rightarrow> pool_slot \<Rightarrow> bool" where
  "matches hash strs s slot \<longleftrightarrow> (\<exists>i < length strs. slot = slot_for hash strs i \<and> strs ! i = s)"

lemma pool_probe_step:
  assumes holds: "pool_holds hash p strs" and pos: "pos < length (sp_slots p)" and s: "length s < 2 ^ 32"
    and nonempty: "sl_hash (sp_slots p ! pos) \<noteq> 0"
  shows "pool_probe (Suc fuel) p s (pool_mark (hash s)) pos =
    (if matches hash strs s (sp_slots p ! pos) then Inr (Inl (of_nat (string_offset strs s)))
     else pool_probe fuel p s (pool_mark (hash s)) ((pos + 1) AND slots_mask (sp_slots p)))"
proof -
  obtain i where i: "i < length strs" "sp_slots p ! pos = slot_for hash strs i"
    using pool_holds_slot [OF holds pos nonempty] by blast
  have lt: "length strs < 2 ^ 32" by (rule pool_holds_length [OF holds])
  have idx: "unat (sl_entry_index (slot_for hash strs j)) = j" if "j < length strs" for j
    using that lt by (simp add: slot_for_def)
  have match: "matches hash strs s (sp_slots p ! pos) \<longleftrightarrow> strs ! i = s"
    unfolding matches_def i(2) using i(1) idx by metis
  have entries: "length (sp_entries p) = length strs"
    "sp_entries p ! i = \<lparr>pen_pool_offset = of_nat (string_offset strs (strs ! i)), pen_length = of_nat (length (strs ! i))\<rparr>"
    using holds i(1) by (simp_all add: pool_holds_def)
  have bounds: "length (strs ! i) < 2 ^ 32" "string_offset strs (strs ! i) < 2 ^ 32"
    using holds i(1) by (simp_all add: pool_holds_def)
  have len: "(of_nat (length (strs ! i)) :: u32) = of_nat (length s) \<longleftrightarrow> length (strs ! i) = length s"
    by (rule of_nat_u32_eq [OF bounds(1) s])
  have data: "read_at (eb_data (sp_buffer p)) (string_offset strs (strs ! i) + 4) (length (strs ! i)) = Some (strs ! i)"
    using holds i(1) by (simp add: pool_holds_def read_at_pool_layout)
  show ?thesis
  proof (cases "strs ! i = s")
    case True
    then show ?thesis unfolding match pool_probe.simps(2)
      using i(1) bounds data entries idx [OF i(1)] by (simp add: i(2) Let_def)
  next
    case False
    then have "length (strs ! i) = length s \<Longrightarrow> length s \<noteq> 0" by auto
    then show ?thesis unfolding match pool_probe.simps(2)
      using i(1) False bounds data entries idx [OF i(1)] len by (auto simp: i(2) Let_def)
  qed
qed

lemma pool_probe_walk:
  assumes holds: "pool_holds hash p strs" and s: "length s < 2 ^ 32"
    and clear: "clear_run (sp_slots p) (pool_mark (hash s)) d"
    and none: "\<forall>j < d. \<not> matches hash strs s (sp_slots p ! walk (sp_slots p) (pool_mark (hash s)) j)"
  shows "n \<le> d \<Longrightarrow> d - n < fuel \<Longrightarrow>
    pool_probe fuel p s (pool_mark (hash s)) (walk (sp_slots p) (pool_mark (hash s)) n) =
    pool_probe (Suc (fuel - Suc (d - n))) p s (pool_mark (hash s)) (walk (sp_slots p) (pool_mark (hash s)) d)"
proof (induction fuel arbitrary: n)
  case 0
  then show ?case by simp
next
  case (Suc fuel)
  let ?w = "walk (sp_slots p) (pool_mark (hash s))"
  have pow2: "pow2 (sp_slots p)" using holds by (simp add: pool_holds_def)
  show ?case
  proof (cases "n = d")
    case False
    then have n: "n < d" using Suc.prems by simp
    then have "sl_hash (sp_slots p ! ?w n) \<noteq> 0" using clear by (simp add: clear_run_def)
    then have "pool_probe (Suc fuel) p s (pool_mark (hash s)) (?w n)
        = pool_probe fuel p s (pool_mark (hash s)) (?w (Suc n))"
      using pool_probe_step [OF holds walk_less [OF pow2] s] none n walk_Suc [OF pow2] by auto
    also have "\<dots> = pool_probe (Suc (fuel - Suc (d - Suc n))) p s (pool_mark (hash s)) (?w d)"
      by (rule Suc.IH) (use Suc.prems n in auto)
    also have "fuel - Suc (d - Suc n) = Suc fuel - Suc (d - n)" using n by simp
    finally show ?thesis .
  qed simp
qed

lemma pool_probe_found:
  assumes holds: "pool_holds hash p strs" and s: "length s < 2 ^ 32" and mem: "s \<in> set strs"
  shows "pool_probe (length (sp_slots p)) p s (pool_mark (hash s))
      (unat (pool_mark (hash s)) AND slots_mask (sp_slots p)) = Inr (Inl (of_nat (string_offset strs s)))"
proof -
  let ?w = "walk (sp_slots p) (pool_mark (hash s))"
  let ?P = "\<lambda>d. matches hash strs s (sp_slots p ! ?w d)"
  have pow2: "pow2 (sp_slots p)" using holds by (simp add: pool_holds_def)
  obtain d0 where d0: "d0 < length (sp_slots p)" "?P d0" "clear_run (sp_slots p) (pool_mark (hash s)) d0"
    using pool_holds_find [OF holds mem] unfolding matches_def by blast
  define d where "d = (LEAST d. ?P d)"
  have d: "?P d" unfolding d_def using d0(2) by (rule LeastI)
  have le: "d \<le> d0" unfolding d_def using d0(2) by (rule Least_le)
  have none: "\<forall>j < d. \<not> ?P j" unfolding d_def using not_less_Least by blast
  have clear: "clear_run (sp_slots p) (pool_mark (hash s)) d"
    using d0(3) le by (simp add: clear_run_def)
  have "sl_hash (sp_slots p ! ?w d) \<noteq> 0" using d by (auto simp: matches_def)
  then show ?thesis
    using pool_probe_walk [OF holds s clear none, of 0 "length (sp_slots p)"]
      pool_probe_step [OF holds walk_less [OF pow2] s] d le d0(1) walk_0 [OF pow2] by simp
qed

lemma pool_probe_absent:
  assumes holds: "pool_holds hash p strs" and s: "length s < 2 ^ 32" and new: "s \<notin> set strs"
  shows "\<exists>d < length (sp_slots p). pool_probe (length (sp_slots p)) p s (pool_mark (hash s))
      (unat (pool_mark (hash s)) AND slots_mask (sp_slots p)) = Inr (Inr (walk (sp_slots p) (pool_mark (hash s)) d))
    \<and> sl_hash (sp_slots p ! walk (sp_slots p) (pool_mark (hash s)) d) = 0
    \<and> clear_run (sp_slots p) (pool_mark (hash s)) d"
proof -
  have pow2: "pow2 (sp_slots p)" using holds by (simp add: pool_holds_def)
  have "length (used (sp_slots p)) < length (sp_slots p)"
    using holds pool_holds_used(1) [OF holds] by (simp add: pool_holds_def)
  then obtain d where d: "d < length (sp_slots p)"
    "sl_hash (sp_slots p ! walk (sp_slots p) (pool_mark (hash s)) d) = 0"
    "clear_run (sp_slots p) (pool_mark (hash s)) d"
    using first_empty [OF pow2] by blast
  have "\<not> matches hash strs s slot" for slot using new by (auto simp: matches_def)
  then show ?thesis
    using pool_probe_walk [OF holds s d(3), of 0 "length (sp_slots p)"] d walk_0 [OF pow2]
    by (intro exI [of _ d]) simp
qed

section \<open>Interning\<close>

text \<open>What interning leaves alone: the recorded fix-ups and the configured worker count.\<close>

definition same_fixups :: "string_pool \<Rightarrow> string_pool \<Rightarrow> bool" where
  "same_fixups p p' \<longleftrightarrow> sp_fixup_offsets p' = sp_fixup_offsets p \<and> sp_worker_count p' = sp_worker_count p"

lemma record_layout:
  "pool_layout strs @ store_u32 (of_nat (length s)) @ s @
     zeros (align_up_nat (length (pool_layout strs @ store_u32 (of_nat (length s)) @ s)) 4
            - length (pool_layout strs @ store_u32 (of_nat (length s)) @ s))
   = pool_layout (strs @ [s])"
proof -
  obtain q where q: "length (pool_layout strs) = 4 * q" using dvd_length_pool_layout [of strs] by (elim dvdE)
  have "(4 * q + (4 + length s) + 4 - 1) div 4 = (q + 1) + (length s + 4 - 1) div 4"
    using div_mult_self4 [of 4 "q + 1" "length s + 3"] by (simp add: algebra_simps)
  then have "align_up_nat (4 * q + (4 + length s)) 4 - (4 * q + (4 + length s)) = align_up_nat (length s) 4 - length s"
    unfolding align_up_nat_def by simp
  then show ?thesis by (simp add: pool_record_def q store_u32_def)
qed

lemma slot_for_append:
  "map (slot_for hash (strs @ [s])) [0..<length strs] = map (slot_for hash strs) [0..<length strs]"
  by (simp add: slot_for_def nth_append)

lemma pool_slots_grow_spec:
  assumes "pool_slots_grow pf k p (length (sp_slots p) * 2) = Inr (p', k')" and "pow2 (sp_slots p)"
    and "length (used (sp_slots p)) < length (sp_slots p)"
  shows "\<exists>slots. p' = p\<lparr>sp_slots := slots\<rparr> \<and> length slots = length (sp_slots p) * 2 \<and> pow2 slots
    \<and> chained slots \<and> mset (used slots) = mset (used (sp_slots p))"
proof -
  let ?fresh = "replicate (length (sp_slots p) * 2) empty_slot"
  have "pow2 ?fresh" using assms(2) by (auto simp: pow2_def intro: exI [of _ "Suc _"])
  moreover have "length (used ?fresh) + length (used (sp_slots p)) < length ?fresh"
    using assms(3) by (simp add: fresh_table)
  ultimately obtain slots where "rehash_slots ?fresh (sp_slots p) = Inr slots" "length slots = length ?fresh"
    "chained slots" "mset (used slots) = mset (used ?fresh) + mset (used (sp_slots p))"
    using rehash_slots_spec fresh_table(2) by blast
  moreover from this have "pow2 slots" using \<open>pow2 ?fresh\<close> by (simp add: pow2_def)
  ultimately show ?thesis using assms(1)
    by (auto simp: pool_slots_grow_def outcome_simps fresh_table)
qed

lemma pool_holds_new_slot:
  assumes holds: "pool_holds hash p strs" and new: "s \<notin> set strs" and s: "length s < 2 ^ 32"
    and off: "length (pool_layout strs) < 2 ^ 32"
    and slots: "pow2 slots" "chained slots" "mset (used slots) = mset (used (sp_slots p))"
      "(length strs + 1) * 4 < length slots * 3"
    and pos: "d < length slots" "sl_hash (slots ! walk slots (pool_mark (hash s)) d) = 0"
      "clear_run slots (pool_mark (hash s)) d"
    and p': "eb_data (sp_buffer p') = pool_layout (strs @ [s])"
      "sp_entries p' = sp_entries p @ [\<lparr>pen_pool_offset = of_nat (length (pool_layout strs)), pen_length = of_nat (length s)\<rparr>]"
      "sp_slots p' = slots[walk slots (pool_mark (hash s)) d
         := \<lparr>sl_hash = pool_mark (hash s), sl_entry_index = of_nat (length strs)\<rparr>]"
      "sp_slots_used p' = length strs + 1"
  shows "pool_holds hash p' (strs @ [s])"
proof -
  let ?new = "\<lparr>sl_hash = pool_mark (hash s), sl_entry_index = of_nat (length strs)\<rparr>"
  let ?w = "walk slots (pool_mark (hash s)) d"
  have "chained (slots[walk slots (sl_hash ?new) d := ?new])"
    by (rule chained_insert [OF slots(1,2)]) (use pos in simp_all)
  moreover have "mset (used (slots[?w := ?new])) = add_mset ?new (mset (used slots))"
    by (rule mset_used_update [OF walk_less [OF slots(1)] pos(2)]) simp
  moreover have "mset (map (slot_for hash (strs @ [s])) [0..<length (strs @ [s])])
      = add_mset ?new (mset (map (slot_for hash strs) [0..<length strs]))"
    unfolding length_append list.size upt_Suc_append [OF le0] add_0_right add_Suc_right map_append
      slot_for_append by (simp add: slot_for_def)
  ultimately show ?thesis
    using holds new s off slots p'
    unfolding pool_holds_def
    by (auto simp: string_offset_append string_offset_new)
qed

lemma pool_entries_reserve_spec:
  "pool_entries_reserve pf k p n = Inr (p', k') \<Longrightarrow> \<exists>c. p' = p\<lparr>sp_entries_capacity := c\<rparr>"
  by (auto simp: pool_entries_reserve_def Let_def outcome_simps split: if_splits)
    (metis string_pool.surjective string_pool.update_convs(3))

lemma pool_append_record_spec:
  assumes "pool_append_record pf k b s = Inr (b', k')" and "eb_data b = pool_layout strs"
  shows "eb_data b' = pool_layout (strs @ [s])"
proof -
  obtain b1 k1 b2 k2 where steps:
    "buffer_append pf k b (store_u32 (of_nat (length s))) = Inr (b1, k1)"
    "(if length s \<noteq> 0 then buffer_append pf k1 b1 s else Inr (b1, k1)) = Inr (b2, k2)"
    "buffer_align_to pf k2 b2 4 = Inr (b', k')"
    using assms(1) unfolding pool_append_record_def
    by (auto simp only: bindE_eq_Inr split_paired_Ex prod.case)
  have "eb_data b2 = eb_data b1 @ s"
    using steps(2) by (auto split: if_splits dest: buffer_append_data)
  then show ?thesis
    using buffer_append_data [OF steps(1)] buffer_align_to_data [OF steps(3)] record_layout [of strs s]
      assms(2) by simp
qed

lemma pool_make_room_spec:
  assumes result: "pool_make_room pf k p h (walk (sp_slots p) h d) = Inr (pos', p', k')"
    and p: "pow2 (sp_slots p)" "chained (sp_slots p)" "sp_slots_used p = n"
      "length (used (sp_slots p)) = n" "n * 4 < length (sp_slots p) * 3"
    and d: "d < length (sp_slots p)" "sl_hash (sp_slots p ! walk (sp_slots p) h d) = 0"
      "clear_run (sp_slots p) h d"
  shows "\<exists>slots d'. p' = p\<lparr>sp_slots := slots\<rparr> \<and> pow2 slots \<and> chained slots
      \<and> mset (used slots) = mset (used (sp_slots p)) \<and> (n + 1) * 4 < length slots * 3
      \<and> d' < length slots \<and> pos' = walk slots h d' \<and> sl_hash (slots ! walk slots h d') = 0
      \<and> clear_run slots h d'"
proof (cases "(n + 1) * 4 \<ge> length (sp_slots p) * 3")
  case False
  then show ?thesis using result p d
    by (intro exI [of _ "sp_slots p"] exI [of _ d]) (auto simp: pool_make_room_def)
next
  case True
  then obtain q kq where q: "pool_slots_grow pf k p (length (sp_slots p) * 2) = Inr (q, kq)"
    "find_empty (length (sp_slots q)) (sp_slots q) (unat h AND slots_mask (sp_slots q)) = Inr pos'" "p' = q"
    using result p(3) by (auto simp: pool_make_room_def outcome_simps)
  have lt: "length (used (sp_slots p)) < length (sp_slots p)" using p(4,5) by simp
  obtain slots where slots: "q = p\<lparr>sp_slots := slots\<rparr>" "length slots = length (sp_slots p) * 2"
    "pow2 slots" "chained slots" "mset (used slots) = mset (used (sp_slots p))"
    using pool_slots_grow_spec [OF q(1) p(1) lt] by blast
  have "length (used slots) < length slots" using mset_eq_length [OF slots(5)] lt slots(2) by simp
  then obtain d' where "d' < length slots" "pos' = walk slots h d'" "sl_hash (slots ! walk slots h d') = 0"
    "clear_run slots h d'"
    using find_empty_home [OF slots(3), of h] q(2) slots(1) by auto
  moreover have "(n + 1) * 4 < length slots * 3" using p(5) slots(2) by arith
  ultimately show ?thesis using slots q(3) by blast
qed

lemma pool_intern_new_spec:
  assumes holds: "pool_holds hash p strs" and new: "s \<notin> set strs" and s: "length s < 2 ^ 32"
    and pos: "d < length (sp_slots p)" "sl_hash (sp_slots p ! walk (sp_slots p) (pool_mark (hash s)) d) = 0"
      "clear_run (sp_slots p) (pool_mark (hash s)) d"
    and result: "pool_intern_new pf k p s (pool_mark (hash s)) (walk (sp_slots p) (pool_mark (hash s)) d)
      = Inr (off, p', k')"
  shows "pool_holds hash p' (strs @ [s]) \<and> off = of_nat (length (pool_layout strs))
    \<and> length (pool_layout strs) < 2 ^ 32 \<and> same_fixups p p'"
proof -
  let ?h = "pool_mark (hash s)"
  have buf: "eb_data (sp_buffer p) = pool_layout strs" and used: "sp_slots_used p = length strs"
    and pow2: "pow2 (sp_slots p)" and load: "length strs * 4 < length (sp_slots p) * 3"
    and len: "length (sp_entries p) = length strs"
    using holds by (simp_all add: pool_holds_def)
  have off: "length (pool_layout strs) < 2 ^ 32"
    using result buf by (auto simp: pool_intern_new_def Let_def split: if_splits)
  let ?ent = "\<lparr>pen_pool_offset = of_nat (length (pool_layout strs)), pen_length = of_nat (length s)\<rparr>"
  obtain b3 k3 p4 k4 pos' p5 k5 where steps:
    "pool_append_record pf k (sp_buffer p) s = Inr (b3, k3)"
    "pool_entries_reserve pf k3 (p\<lparr>sp_buffer := b3\<rparr>) (length (sp_entries p) + 1) = Inr (p4, k4)"
    "pool_make_room pf k4 (p4\<lparr>sp_entries := sp_entries p4 @ [?ent]\<rparr>) ?h (walk (sp_slots p) ?h d)
       = Inr (pos', p5, k5)"
    "p' = p5\<lparr>sp_slots := (sp_slots p5)[pos' := \<lparr>sl_hash = ?h, sl_entry_index = of_nat (length (sp_entries p4))\<rparr>],
             sp_slots_used := sp_slots_used p5 + 1\<rparr>"
    "off = of_nat (length (pool_layout strs))"
    using result buf off by (auto simp: pool_intern_new_def Let_def outcome_simps)
  have b3: "eb_data b3 = pool_layout (strs @ [s])"
    using pool_append_record_spec [OF steps(1) buf] .
  obtain c where p4: "p4 = p\<lparr>sp_buffer := b3, sp_entries_capacity := c\<rparr>"
    using pool_entries_reserve_spec [OF steps(2)] by auto
  let ?q = "p4\<lparr>sp_entries := sp_entries p @ [?ent]\<rparr>"
  obtain slots d' where p5: "p5 = ?q\<lparr>sp_slots := slots\<rparr>" "pow2 slots" "chained slots"
    "mset (used slots) = mset (used (sp_slots p))" "(length strs + 1) * 4 < length slots * 3"
    "d' < length slots" "pos' = walk slots ?h d'" "sl_hash (slots ! walk slots ?h d') = 0"
    "clear_run slots ?h d'"
    using pool_make_room_spec [of pf k4 ?q ?h d pos' p5 k5] steps(3) pos holds used
      pool_holds_used(1) [OF holds]
    by (auto simp: p4 pool_holds_def)
  have "pool_holds hash p' (strs @ [s])"
    by (rule pool_holds_new_slot [OF holds new s off p5(2-6) p5(8,9)])
      (use steps(4) p5 p4 b3 used len in simp_all)
  then show ?thesis using steps p5 p4 off by (simp add: same_fixups_def)
qed

lemma pool_intern_spec:
  assumes "pool_holds hash p strs"
    and "pool_intern_with_hash pf k p s (hash s) = Inr (off, p', k')"
  shows "pool_holds hash p' (remember strs s) \<and> off = of_nat (string_offset (remember strs s) s)
    \<and> string_offset (remember strs s) s < 2 ^ 32 \<and> same_fixups p p'"
proof -
  have s: "length s < 2 ^ 32"
    using assms(2) by (auto simp: pool_intern_with_hash_def split: if_splits)
  show ?thesis
  proof (cases "s \<in> set strs")
    case True
    then show ?thesis using assms pool_probe_found [OF assms(1) s True]
      by (auto simp: pool_intern_with_hash_def Let_def remember_def same_fixups_def pool_holds_def split: if_splits)
  next
    case False
    obtain d where d: "d < length (sp_slots p)"
      "pool_probe (length (sp_slots p)) p s (pool_mark (hash s)) (unat (pool_mark (hash s)) AND slots_mask (sp_slots p))
        = Inr (Inr (walk (sp_slots p) (pool_mark (hash s)) d))"
      "sl_hash (sp_slots p ! walk (sp_slots p) (pool_mark (hash s)) d) = 0"
      "clear_run (sp_slots p) (pool_mark (hash s)) d"
      using pool_probe_absent [OF assms(1) s False] by blast
    have "pool_intern_new pf k p s (pool_mark (hash s)) (walk (sp_slots p) (pool_mark (hash s)) d) = Inr (off, p', k')"
      using assms(2) d(2) s by (simp add: pool_intern_with_hash_def Let_def split: if_splits)
    from pool_intern_new_spec [OF assms(1) False s d(1,3,4) this]
    show ?thesis using False by (simp add: remember_def string_offset_new)
  qed
qed

section \<open>The empty pool\<close>

lemma pool_holds_empty:
  "pool_holds hash \<lparr>sp_buffer = \<lparr>eb_data = [], eb_capacity = c\<rparr>, sp_entries = [], sp_entries_capacity = ec,
     sp_slots = replicate 512 empty_slot, sp_slots_used = 0, sp_fixup_offsets = fs, sp_fixup_capacity = fc,
     sp_worker_count = w\<rparr> []"
proof -
  have "pow2 (replicate 512 empty_slot)"
    unfolding pow2_def by (rule exI [of _ 9]) simp
  then show ?thesis by (simp add: pool_holds_def fresh_table)
qed

lemma pool_init_spec:
  assumes "pool_init pf k n = Inr (p, k')"
  shows "pool_holds hash p [] \<and> sp_fixup_offsets p = [] \<and> sp_worker_count p = 0"
  using assms pool_holds_empty
  by (auto simp: pool_init_def pool_slots_grow_def buffer_init_def outcome_simps split: if_splits)

lemma pool_init_outcome: "fails_only pf F (pool_init pf k n)"
  unfolding pool_init_def pool_slots_grow_def
  by (auto intro!: fails_only_rules buffer_outcome)

section \<open>The ways interning can fail\<close>

lemma pool_append_record_outcome: "fails_only pf F (pool_append_record pf k b s)"
  unfolding pool_append_record_def
  by (intro fails_only_rules buffer_outcome fails_only_simps)

lemma pool_entries_reserve_outcome: "fails_only pf F (pool_entries_reserve pf k p n)"
  unfolding pool_entries_reserve_def Let_def
  by (intro fails_only_rules buffer_outcome fails_only_simps)

lemma pool_make_room_outcome:
  assumes p: "pow2 (sp_slots p)" "length (used (sp_slots p)) < length (sp_slots p)"
  shows "fails_only pf F (pool_make_room pf k p h pos)"
proof -
  let ?fresh = "replicate (length (sp_slots p) * 2) empty_slot"
  have fresh: "pow2 ?fresh" using p(1) by (auto simp: pow2_def intro: exI [of _ "Suc _"])
  moreover have "length (used ?fresh) + length (used (sp_slots p)) < length ?fresh"
    using p(2) by (simp add: fresh_table)
  ultimately obtain slots where slots: "rehash_slots ?fresh (sp_slots p) = Inr slots" "length slots = length ?fresh"
    "mset (used slots) = mset (used ?fresh) + mset (used (sp_slots p))"
    using rehash_slots_spec fresh_table(2) by blast
  have pow2: "pow2 slots" using fresh slots(2) by (simp add: pow2_def)
  have "length (used slots) < length slots"
    using mset_eq_length [of "used slots" "used (sp_slots p)"] slots p(2) by (simp add: fresh_table)
  then obtain d where "find_empty (length slots) slots (unat h AND slots_mask slots) = Inr (walk slots h d)"
    using find_empty_home [OF pow2, of h] by blast
  then show ?thesis using slots(1) fails_only_request [of pf F k "length (sp_slots p) * 32"]
    unfolding pool_make_room_def pool_slots_grow_def
    by (auto intro!: fails_only_rules simp: outcome_simps)
qed

lemma pool_intern_new_outcome:
  assumes holds: "pool_holds hash p strs"
    and F: "2 ^ 32 \<le> length (pool_layout strs) \<Longrightarrow> Fails W_STRING_POOL_OVERFLOW_4GB \<in> F"
  shows "fails_only pf F (pool_intern_new pf k p s h pos)"
proof -
  have room: "fails_only pf F (pool_make_room pf k' (q\<lparr>sp_entries := es\<rparr>) h pos)"
    if q: "pool_entries_reserve pf k1 (p\<lparr>sp_buffer := b\<rparr>) n = Inr (q, k')" for k1 k' b n q es
  proof -
    obtain c where "q = p\<lparr>sp_buffer := b, sp_entries_capacity := c\<rparr>"
      using pool_entries_reserve_spec [OF q] by auto
    then show ?thesis using holds pool_holds_used(1) [OF holds]
      by (intro pool_make_room_outcome) (simp_all add: pool_holds_def)
  qed
  have buf: "eb_data (sp_buffer p) = pool_layout strs" using holds by (simp add: pool_holds_def)
  show ?thesis
  proof (cases "length (pool_layout strs) < 2 ^ 32")
    case True
    then show ?thesis unfolding pool_intern_new_def Let_def buf
      by (auto intro!: fails_only_rules pool_append_record_outcome pool_entries_reserve_outcome room)
  next
    case False
    then show ?thesis using F by (simp add: pool_intern_new_def buf)
  qed
qed

lemma pool_intern_outcome:
  assumes holds: "pool_holds hash p strs"
    and length: "2 ^ 32 \<le> length s \<Longrightarrow> Fails W_STRING_LENGTH_OVERFLOW_4GB \<in> F"
    and layout: "s \<notin> set strs \<Longrightarrow> 2 ^ 32 \<le> length (pool_layout strs) \<Longrightarrow> Fails W_STRING_POOL_OVERFLOW_4GB \<in> F"
  shows "fails_only pf F (pool_intern_with_hash pf k p s (hash s))"
proof (cases "length s < 2 ^ 32")
  case False
  then show ?thesis using length by (simp add: pool_intern_with_hash_def)
next
  case s: True
  show ?thesis
  proof (cases "s \<in> set strs")
    case True
    then show ?thesis using pool_probe_found [OF holds s] s by (simp add: pool_intern_with_hash_def)
  next
    case False
    then obtain d where "pool_probe (List.length (sp_slots p)) p s (pool_mark (hash s))
        (unat (pool_mark (hash s)) AND slots_mask (sp_slots p)) = Inr (Inr d)"
      using pool_probe_absent [OF holds s] by blast
    then show ?thesis using s pool_intern_new_outcome [OF holds layout [OF False]]
      by (simp add: pool_intern_with_hash_def)
  qed
qed

section \<open>Recorded fix-ups\<close>

lemma pool_record_fixup_spec:
  assumes "pool_record_fixup pf k p off = Inr (p', k')"
  shows "sp_fixup_offsets p' = sp_fixup_offsets p @ [off] \<and> sp_worker_count p' = sp_worker_count p
    \<and> (pool_holds hash p' strs \<longleftrightarrow> pool_holds hash p strs)"
  using assms by (auto simp: pool_record_fixup_def Let_def outcome_simps pool_holds_def split: if_splits)

lemma pool_record_fixup_outcome: "fails_only pf F (pool_record_fixup pf k p off)"
  unfolding pool_record_fixup_def Let_def by (auto intro!: fails_only_rules)

section \<open>The interface of an interner\<close>

text \<open>
  What the encoder uses of the pool: a state that stands for the list of strings seen so far,
  in order of first occurrence, and an operation that adds a string and answers where it is.
\<close>

locale interner =
  fixes holds :: "'p \<Rightarrow> bytes list \<Rightarrow> bool"
    and intern :: "platform \<Rightarrow> nat \<Rightarrow> 'p \<Rightarrow> bytes \<Rightarrow> fault + u32 \<times> 'p \<times> nat"
    and place :: "bytes list \<Rightarrow> bytes \<Rightarrow> nat"
  assumes intern_holds: "holds p strs \<Longrightarrow> intern pf k p s = Inr (off, p', k') \<Longrightarrow>
      holds p' (remember strs s) \<and> off = of_nat (place (remember strs s) s) \<and> place (remember strs s) s < 2 ^ 32"
    and place_stable: "s \<in> set strs \<Longrightarrow> place (strs @ ss) s = place strs s"
    and place_inj: "s \<in> set strs \<Longrightarrow> t \<in> set strs \<Longrightarrow> place strs s = place strs t \<Longrightarrow> s = t"
begin

fun intern_all :: "platform \<Rightarrow> nat \<Rightarrow> 'p \<Rightarrow> bytes list \<Rightarrow> fault + u32 list \<times> 'p \<times> nat" where
  "intern_all pf k p [] = Inr ([], p, k)"
| "intern_all pf k p (s # ss) = bindE (intern pf k p s) (\<lambda>(off, p, k).
     bindE (intern_all pf k p ss) (\<lambda>(offs, p, k). Inr (off # offs, p, k)))"

lemma remember_all: "\<exists>rest. foldl remember strs ss = strs @ rest"
proof (induction ss arbitrary: strs)
  case (Cons s ss)
  obtain rest where "foldl remember (remember strs s) ss = remember strs s @ rest" using Cons by blast
  then show ?case by (cases "s \<in> set strs") (simp_all add: remember_def [of strs s])
qed simp

lemma set_remember_all: "set (foldl remember strs ss) = set strs \<union> set ss"
  by (induction ss arbitrary: strs) (auto simp: remember_def)

lemma place_remember_all:
  assumes "s \<in> set strs"
  shows "place (foldl remember strs ss) s = place strs s"
  using remember_all [of strs ss] place_stable [OF assms] by auto

lemma intern_all_holds:
  "holds p strs \<Longrightarrow> intern_all pf k p ss = Inr (offs, p', k') \<Longrightarrow>
     holds p' (foldl remember strs ss) \<and> offs = map (\<lambda>s. of_nat (place (foldl remember strs ss) s)) ss
     \<and> (\<forall>s \<in> set ss. place (foldl remember strs ss) s < 2 ^ 32)"
proof (induction ss arbitrary: strs p k offs)
  case (Cons s ss)
  obtain off p1 k1 offs1 where 1: "intern pf k p s = Inr (off, p1, k1)"
    "intern_all pf k1 p1 ss = Inr (offs1, p', k')" "offs = off # offs1"
    using Cons.prems(2) by (auto simp: outcome_simps)
  have "s \<in> set (remember strs s)" by (auto simp: remember_def)
  then show ?case
    using intern_holds [OF Cons.prems(1) 1(1)] Cons.IH [OF _ 1(2), of "remember strs s"]
      place_remember_all [of s "remember strs s" ss] 1(3) by simp
qed simp

text \<open>Equal strings get equal offsets, and different strings different ones.\<close>

lemma intern_all_injective:
  assumes "holds p strs" and "intern_all pf k p ss = Inr (offs, p', k')"
    and "i < length ss" and "j < length ss"
  shows "offs ! i = offs ! j \<longleftrightarrow> ss ! i = ss ! j"
proof -
  note all = intern_all_holds [OF assms(1,2)]
  have mem: "ss ! i \<in> set (foldl remember strs ss)" "ss ! j \<in> set (foldl remember strs ss)"
    using assms(3,4) by (simp_all add: set_remember_all)
  have "(of_nat (place (foldl remember strs ss) (ss ! i)) :: u32) = of_nat (place (foldl remember strs ss) (ss ! j))
      \<longleftrightarrow> place (foldl remember strs ss) (ss ! i) = place (foldl remember strs ss) (ss ! j)"
    using all assms(3,4) by (intro of_nat_u32_eq) simp_all
  then show ?thesis using all assms(3,4) place_inj [OF mem] by auto
qed

end

interpretation pool: interner "pool_holds hash" "pool_intern hash" string_offset
proof
  fix p strs pf k s off p' k'
  assume "pool_holds hash p strs" and "pool_intern hash pf k p s = Inr (off, p', k')"
  then show "pool_holds hash p' (remember strs s) \<and> off = of_nat (string_offset (remember strs s) s)
      \<and> string_offset (remember strs s) s < 2 ^ 32"
    unfolding pool_intern_def using pool_intern_spec by blast
qed (auto simp: string_offset_append intro: string_offset_inj)

end
