(* ===== verification/Verify.thy ===== *)
theory Verify
  imports Utf8 Paths String_Pool
begin

text \<open>
  The verifier (\<open>src/verify/bc_hrbl_verify.c\<close>): the header layout, the string pool walk, the
  root index and \<open>bc_hrbl_verify_buffer\<close>, which runs them. A result is a status; \<open>Inl Bad_read\<close>
  is a read outside the buffer. \<open>hash\<close> stands for XXH3.
\<close>

section \<open>Header layout\<close>

definition verify_header_layout :: "header \<Rightarrow> u64 \<Rightarrow> status" where
  "verify_header_layout header buffer_size =
     (if hdr_magic header \<noteq> BC_HRBL_MAGIC then V_BAD_MAGIC
      else if hdr_version_major header \<noteq> BC_HRBL_VERSION_MAJOR then V_BAD_VERSION
      else if hdr_version_minor header > BC_HRBL_VERSION_MINOR then V_BAD_VERSION
      else if hdr_flags header AND BC_HRBL_FLAGS_V1_REQUIRED \<noteq> BC_HRBL_FLAGS_V1_REQUIRED then V_BAD_FLAGS
      else if hdr_flags header AND BC_HRBL_FLAGS_V1_RESERVED_MASK \<noteq> 0 then V_BAD_FLAGS
      else if hdr_file_size header \<noteq> buffer_size then V_BAD_FILE_SIZE
      else if \<not> list_all (\<lambda>b. b = 0) (hdr_reserved header) then V_BAD_FLAGS
      else if hdr_root_index_offset header \<noteq> of_nat ROOT_INDEX_OFFSET then V_BAD_LAYOUT
      else if hdr_root_count header > BC_HRBL_ROOT_COUNT_MAX then V_BAD_LAYOUT
      else if hdr_root_index_size header \<noteq> hdr_root_count header * of_nat ENTRY_SIZE then V_BAD_LAYOUT
      else if hdr_nodes_offset header \<noteq> hdr_root_index_offset header + hdr_root_index_size header then V_BAD_LAYOUT
      else if hdr_strings_offset header \<noteq> hdr_nodes_offset header + hdr_nodes_size header then V_BAD_LAYOUT
      else if hdr_footer_offset header \<noteq> hdr_strings_offset header + hdr_strings_size header then V_BAD_LAYOUT
      else if hdr_footer_offset header + of_nat FOOTER_SIZE \<noteq> hdr_file_size header then V_BAD_LAYOUT
      else V_OK)"

section \<open>String pool\<close>

function verify_padding :: "bytes \<Rightarrow> u64 \<Rightarrow> u64 \<Rightarrow> u64 \<Rightarrow> stop + status" where
  "verify_padding data start pad aligned_total =
     (if pad < aligned_total then
        bindE (byte_at data (start + pad)) (\<lambda>b.
        if b \<noteq> 0 then Inr V_BAD_STRING else verify_padding data start (pad + 1) aligned_total)
      else Inr V_OK)"
  by pat_completeness auto
termination
  by (relation "measure (\<lambda>(_, _, pad, aligned). unat aligned - unat pad)") (auto simp: unat_Suc word_less_nat_alt)

declare verify_padding.simps [simp del]

lemma aligned_total_step:
  fixes w :: u32
  shows "unat (align_up (4 + ucast w :: u64) 4) = align_up_nat (4 + unat w) 4"
    and "4 \<le> unat (align_up (4 + ucast w :: u64) 4)"
proof -
  have "(4 + ucast w :: u64) = of_nat (4 + unat w)" by simp
  then show eq: "unat (align_up (4 + ucast w :: u64) 4) = align_up_nat (4 + unat w) 4"
    using unat_align_up [of 4 "4 + unat w"] unat_u32_less [of w] by (simp add: format_alignment_def)
  show "4 \<le> unat (align_up (4 + ucast w :: u64) 4)"
    unfolding eq using align_up_nat_ge [of 4 "4 + unat w"] by simp
qed

function verify_strings_loop :: "bytes \<Rightarrow> header \<Rightarrow> u64 \<Rightarrow> u64 \<Rightarrow> stop + status" where
  "verify_strings_loop data h offset counted =
     (if offset < hdr_strings_size h then
        if offset + 4 > hdr_strings_size h then Inr V_BAD_STRING
        else bindE (fetch data (hdr_strings_offset h + offset) 4) (\<lambda>bs.
          let string_length = load_u32 bs; total_length = 4 + ucast string_length :: u64
          in if offset + total_length > hdr_strings_size h then Inr V_BAD_STRING
             else bindE (verify_utf8_length data (hdr_strings_offset h + offset + 4) (unat string_length)) (\<lambda>utf8_status.
               if utf8_status \<noteq> V_OK then Inr utf8_status
               else let aligned_total = align_up total_length 4
                    in if aligned_total > hdr_strings_size h - offset then Inr V_BAD_STRING
                       else bindE (verify_padding data (hdr_strings_offset h + offset) total_length aligned_total) (\<lambda>pad_status.
                         if pad_status \<noteq> V_OK then Inr pad_status
                         else verify_strings_loop data h (offset + aligned_total) (counted + 1))))
      else if offset \<noteq> hdr_strings_size h then Inr V_BAD_STRING
      else if counted \<noteq> hdr_strings_count h then Inr V_BAD_STRING
      else Inr V_OK)"
  by pat_completeness auto
termination
proof (relation "measure (\<lambda>(_, h, offset, _). unat (hdr_strings_size h) - unat offset)", goal_cases)
  case (2 data h offset counted bs string_length total_length status aligned_total pad_status)
  then have le: "align_up (4 + ucast string_length) 4 \<le> hdr_strings_size h - offset" by simp
  then have "unat (align_up (4 + ucast string_length :: u64) 4) \<le> unat (hdr_strings_size h) - unat offset"
    by (simp add: word_le_nat_alt unat_sub [OF less_imp_le [OF 2(1)]])
  moreover from this have "unat (offset + align_up (4 + ucast string_length) 4) = unat offset + unat (align_up (4 + ucast string_length :: u64) 4)"
    using 2(1) unat_u64_less [of "hdr_strings_size h"] by (intro unat_sum) (simp add: word_less_nat_alt)
  ultimately show ?case
    using aligned_total_step(2) [of string_length] 2 by (simp add: word_less_nat_alt)
qed simp

declare verify_strings_loop.simps [simp del]

definition verify_strings_pool :: "bytes \<Rightarrow> header \<Rightarrow> stop + status" where
  "verify_strings_pool data h =
     (if hdr_strings_size h = 0 then
        if hdr_strings_count h \<noteq> 0 then Inr V_BAD_STRING else Inr V_OK
      else verify_strings_loop data h 0 0)"

section \<open>Root index\<close>

definition verify_root_entry :: "header \<Rightarrow> entry \<Rightarrow> u64 option \<Rightarrow> status" where
  "verify_root_entry h e previous_hash =
     (if previous_hash \<noteq> None \<and> ent_key_hash64 e < the previous_hash then V_BAD_ROOT_INDEX
      else if previous_hash \<noteq> None \<and> ent_key_hash64 e = the previous_hash then V_DUPLICATE_KEY
      else if ent_value_offset e < hdr_nodes_offset h \<or> ent_value_offset e \<ge> hdr_strings_offset h then V_BAD_ROOT_INDEX
      else if ucast (ent_key_pool_offset e) < hdr_strings_offset h \<or>
              ucast (ent_key_pool_offset e) + 4 + ucast (ent_key_length e) > hdr_strings_offset h + hdr_strings_size h
           then V_BAD_ROOT_INDEX
      else V_OK)"

text \<open>\<open>previous_hash\<close> is \<open>None\<close> in the first round, where the code does not compare.\<close>

function verify_root_loop :: "bytes \<Rightarrow> header \<Rightarrow> u64 \<Rightarrow> u64 option \<Rightarrow> stop + status" where
  "verify_root_loop data h i previous_hash =
     (if i < hdr_root_count h then
        bindE (fetch data (hdr_root_index_offset h + i * of_nat ENTRY_SIZE) ENTRY_SIZE) (\<lambda>bs.
        let e = load_entry bs; status = verify_root_entry h e previous_hash
        in if status \<noteq> V_OK then Inr status
           else verify_root_loop data h (i + 1) (Some (ent_key_hash64 e)))
      else Inr V_OK)"
  by pat_completeness auto
termination
  by (relation "measure (\<lambda>(_, h, i, _). unat (hdr_root_count h) - unat i)") (auto simp: unat_Suc word_less_nat_alt)

declare verify_root_loop.simps [simp del]

definition verify_root_index :: "bytes \<Rightarrow> header \<Rightarrow> stop + status" where
  "verify_root_index data h = verify_root_loop data h 0 None"

section \<open>The whole buffer\<close>

definition verify_footer :: "bytes \<Rightarrow> header \<Rightarrow> stop + status" where
  "verify_footer data h =
     bindE (fetch data (hdr_footer_offset h) FOOTER_SIZE) (\<lambda>bs.
     let footer = load_footer bs
     in if ftr_magic_end footer \<noteq> BC_HRBL_MAGIC then Inr V_BAD_FOOTER
        else if ftr_file_size footer \<noteq> hdr_file_size h then Inr V_BAD_FOOTER
        else if ftr_checksum footer \<noteq> hdr_checksum h then Inr V_BAD_FOOTER
        else Inr V_OK)"

definition verify_checksum :: "(bytes \<Rightarrow> u64) \<Rightarrow> bytes \<Rightarrow> header \<Rightarrow> stop + status" where
  "verify_checksum hash data h =
     bindE (fetch data (hdr_root_index_offset h) (unat (hdr_footer_offset h - hdr_root_index_offset h))) (\<lambda>payload.
     if hash payload \<noteq> hdr_checksum h then Inr V_BAD_CHECKSUM else Inr V_OK)"

definition verify_buffer :: "(bytes \<Rightarrow> u64) \<Rightarrow> bytes \<Rightarrow> stop + status" where
  "verify_buffer hash data =
     (let data_size = of_nat (length data)
      in if data_size < of_nat (HEADER_SIZE + FOOTER_SIZE) then Inr V_TOO_SMALL
         else bindE (fetch data 0 HEADER_SIZE) (\<lambda>bs.
           let h = load_header bs
           in and_then (Inr (verify_header_layout h data_size))
             (and_then (verify_footer data h)
             (and_then (verify_checksum hash data h)
             (and_then (verify_strings_pool data h)
                (verify_root_index data h))))))"

section \<open>Padding\<close>

lemma padding_spec:
  assumes "unat start + unat aligned \<le> length data" and "length data < 2 ^ 63"
  shows "verify_padding data start pad aligned =
    Inr (if \<forall>i. unat pad \<le> i \<and> i < unat aligned \<longrightarrow> data ! (unat start + i) = 0 then V_OK else V_BAD_STRING)"
  using assms
proof (induction data start pad aligned rule: verify_padding.induct)
  case (1 data start pad aligned)
  note unfold = verify_padding.simps [of data start pad aligned]
  show ?case
  proof (cases "pad < aligned")
    case False
    then show ?thesis by (auto simp: unfold word_less_nat_alt)
  next
    case True
    then have lt: "unat pad < unat aligned" by (simp add: word_less_nat_alt)
    then have "unat (start + pad) = unat start + unat pad" using 1(2,3) by (intro unat_sum) simp
    then have byte: "byte_at data (start + pad) = Inr (data ! (unat start + unat pad))"
      using 1(2) lt by (simp add: byte_at_def fetch_def read_at_def hd_drop_conv_nth)
    have split: "(\<forall>i. unat pad \<le> i \<and> i < unat aligned \<longrightarrow> data ! (unat start + i) = 0) \<longleftrightarrow>
      data ! (unat start + unat pad) = 0 \<and> (\<forall>i. unat (pad + 1) \<le> i \<and> i < unat aligned \<longrightarrow> data ! (unat start + i) = 0)"
      using lt unat_Suc [OF True] by (metis Suc_eq_plus1 Suc_le_eq le_eq_less_or_eq le_less)
    show ?thesis
    proof (cases "data ! (unat start + unat pad) = 0")
      case True
      then show ?thesis using 1(1) [OF \<open>pad < aligned\<close> byte _ 1(2,3)] \<open>pad < aligned\<close> byte
        unfolding split by (simp add: unfold)
    next
      case False
      then show ?thesis using \<open>pad < aligned\<close> byte unfolding split by (simp add: unfold)
    qed
  qed
qed

section \<open>Records of the pool\<close>

lemma align_up_4_add: "align_up_nat (4 + n) 4 = 4 + align_up_nat n 4"
proof -
  have "4 + n + 4 - 1 = (n + 4 - 1) + 4" by simp
  then show ?thesis by (simp only: align_up_nat_def div_add_self2 [of 4]) simp
qed

lemma load_store_u32 [simp]: "load_u32 (store_u32 w) = w"
  by (rule u32_codec.dec_enc) simp

lemma length_store_u32 [simp]: "length (store_u32 w) = 4"
  by (simp add: store_u32_def)

text \<open>What the loop finds when the rest of the pool starts with the record of \<open>s\<close>.\<close>

lemma pool_record_parts:
  assumes "R = pool_record s @ T"
  shows "take 4 R = store_u32 (of_nat (length s))" and "take (length s) (drop 4 R) = s"
    and "align_up_nat (4 + length s) 4 \<le> length R" and "drop (align_up_nat (4 + length s) 4) R = T"
    and "4 + length s \<le> i \<Longrightarrow> i < align_up_nat (4 + length s) 4 \<Longrightarrow> R ! i = 0"
proof -
  let ?z = "zeros (align_up_nat (length s) 4 - length s)"
  have R: "R = store_u32 (of_nat (length s)) @ s @ ?z @ T" unfolding assms pool_record_def by simp
  show "take 4 R = store_u32 (of_nat (length s))" unfolding R by simp
  show "take (length s) (drop 4 R) = s" unfolding R by simp
  have len: "length (pool_record s) = align_up_nat (4 + length s) 4" by (simp add: align_up_4_add)
  show "align_up_nat (4 + length s) 4 \<le> length R" unfolding assms len [symmetric] by simp
  show "drop (align_up_nat (4 + length s) 4) R = T" unfolding assms len [symmetric] by simp
  assume i: "4 + length s \<le> i" "i < align_up_nat (4 + length s) 4"
  then obtain j where j: "i = 4 + length s + j" "j < align_up_nat (length s) 4 - length s"
    using le_Suc_ex [OF i(1)] by (auto simp: align_up_4_add)
  then show "R ! i = 0" unfolding R by (simp add: nth_append zeros_def)
qed

lemma pool_record_build:
  assumes len: "length s = unat (load_u32 (take 4 R))" and s: "take (length s) (drop 4 R) = s"
    and fits: "align_up_nat (4 + length s) 4 \<le> length R"
    and pad: "\<forall>i. 4 + length s \<le> i \<and> i < align_up_nat (4 + length s) 4 \<longrightarrow> R ! i = 0"
  shows "R = pool_record s @ drop (align_up_nat (4 + length s) 4) R"
proof -
  have ge: "4 + length s \<le> align_up_nat (4 + length s) 4" by (rule align_up_nat_ge) simp
  have four: "length (take 4 R) = 4" using fits ge by simp
  have "store_u32 (of_nat (length s)) = take 4 R"
    using le_bytes_le_word [of "take 4 R", where 'a = 32] four
    by (simp add: store_u32_def len load_u32_def field_def)
  moreover have "drop (4 + length s) (take (align_up_nat (4 + length s) 4) R) = zeros (align_up_nat (length s) 4 - length s)"
    using fits ge pad by (intro nth_equalityI) (auto simp: zeros_def align_up_4_add)
  ultimately have "pool_record s = take 4 R @ take (length s) (drop 4 R) @ drop (4 + length s) (take (align_up_nat (4 + length s) 4) R)"
    using s by (simp add: pool_record_def)
  also have "\<dots> = take (align_up_nat (4 + length s) 4) R"
  proof -
    have "take 4 R @ take (length s) (drop 4 R) = take (4 + length s) (take (align_up_nat (4 + length s) 4) R)"
      using ge by (simp add: take_add min_absorb1)
    then show ?thesis using append_take_drop_id [of "4 + length s"] by (metis append_assoc)
  qed
  finally show ?thesis by simp
qed

section \<open>The pool walk\<close>

lemma record_iff:
  fixes T :: bytes
  defines "n \<equiv> unat (load_u32 (take 4 T))"
  shows "(\<exists>s T'. T = pool_record s @ T' \<and> length s < 2 ^ 32 \<and> Q s T') \<longleftrightarrow>
    4 \<le> length T \<and> 4 + n \<le> length T \<and> align_up_nat (4 + n) 4 \<le> length T \<and>
    (\<forall>i. 4 + n \<le> i \<and> i < align_up_nat (4 + n) 4 \<longrightarrow> T ! i = 0) \<and>
    Q (take n (drop 4 T)) (drop (align_up_nat (4 + n) 4) T)"
    (is "?lhs \<longleftrightarrow> ?rhs")
proof
  assume ?lhs
  then obtain s T' where T: "T = pool_record s @ T'" "length s < 2 ^ 32" "Q s T'" by blast
  note parts = pool_record_parts [OF T(1)]
  have n: "n = length s" using T(2) by (simp add: n_def parts(1))
  have "4 + length s \<le> align_up_nat (4 + length s) 4" by (rule align_up_nat_ge) simp
  then show ?rhs using parts(2-5) T(3) unfolding n by auto
next
  assume rhs: ?rhs
  let ?s = "take n (drop 4 T)"
  have len: "length ?s = n" using rhs by auto
  have "T = pool_record ?s @ drop (align_up_nat (4 + length ?s) 4) T"
    by (rule pool_record_build) (use rhs len in \<open>simp_all add: n_def\<close>)
  then have "T = pool_record ?s @ drop (align_up_nat (4 + n) 4) T" unfolding len .
  moreover have "length ?s < 2 ^ 32" using len unat_u32_less [of "load_u32 (take 4 T)"] by (simp add: n_def)
  ultimately show ?lhs using rhs by blast
qed

text \<open>The rest \<open>T\<close> of a pool holds the layout of well-formed strings that make up the count.\<close>

definition pool_accepts :: "u64 \<Rightarrow> bytes \<Rightarrow> u64 \<Rightarrow> bool" where
  "pool_accepts strings_count T counted \<longleftrightarrow> (\<exists>strs. (\<forall>s \<in> set strs. length s < 2 ^ 32 \<and> well_formed_utf8 s) \<and>
     T = pool_layout strs \<and> counted + of_nat (length strs) = strings_count)"

lemma pool_record_not_Nil: "pool_record s \<noteq> []"
  by (simp add: pool_record_def store_u32_def) (metis le_bytes_def length_le_bytes list.size(3) numeral_neq_zero)

lemma pool_accepts_Nil: "pool_accepts n [] counted \<longleftrightarrow> counted = n"
proof
  assume "pool_accepts n [] counted"
  then obtain strs where strs: "[] = pool_layout strs" "counted + of_nat (length strs) = n"
    by (auto simp: pool_accepts_def)
  then have "strs = []" using pool_record_not_Nil by (cases strs) auto
  then show "counted = n" using strs(2) by simp
qed (auto simp: pool_accepts_def intro: exI [of _ "[]"])

lemma pool_accepts_Cons:
  assumes "T \<noteq> []"
  shows "pool_accepts n T counted \<longleftrightarrow>
    (\<exists>s T'. T = pool_record s @ T' \<and> length s < 2 ^ 32 \<and> (well_formed_utf8 s \<and> pool_accepts n T' (counted + 1)))"
proof
  assume "pool_accepts n T counted"
  then obtain strs where strs: "\<forall>s \<in> set strs. length s < 2 ^ 32 \<and> well_formed_utf8 s" "T = pool_layout strs"
    "counted + of_nat (length strs) = n" by (auto simp: pool_accepts_def)
  then obtain s strs' where "strs = s # strs'" using assms by (cases strs) auto
  then show "\<exists>s T'. T = pool_record s @ T' \<and> length s < 2 ^ 32 \<and> (well_formed_utf8 s \<and> pool_accepts n T' (counted + 1))"
    using strs by (auto simp: pool_accepts_def add.assoc intro!: exI [of _ strs'])
next
  assume "\<exists>s T'. T = pool_record s @ T' \<and> length s < 2 ^ 32 \<and> (well_formed_utf8 s \<and> pool_accepts n T' (counted + 1))"
  then obtain s strs where "T = pool_record s @ pool_layout strs" "length s < 2 ^ 32" "well_formed_utf8 s"
    "\<forall>s \<in> set strs. length s < 2 ^ 32 \<and> well_formed_utf8 s" "counted + 1 + of_nat (length strs) = n"
    by (auto simp: pool_accepts_def)
  then show "pool_accepts n T counted"
    unfolding pool_accepts_def by (intro exI [of _ "s # strs"]) (simp add: add.assoc)
qed

definition region :: "bytes \<Rightarrow> u64 \<Rightarrow> u64 \<Rightarrow> bytes" where
  "region data off n = take (unat n) (drop (unat off) data)"

lemma region_rest:
  assumes "unat off + unat n \<le> length data" and "length data < 2 ^ 63" and "unat m \<le> unat n"
  shows "length (drop (unat m) (region data off n)) = unat n - unat m"
    and "unat (off + m) = unat off + unat m"
    and "k \<le> unat n - unat m \<Longrightarrow> take k (drop (unat off + unat m) data) = take k (drop (unat m) (region data off n))"
    and "i < unat n - unat m \<Longrightarrow> data ! (unat off + unat m + i) = drop (unat m) (region data off n) ! i"
proof -
  show "unat (off + m) = unat off + unat m" using assms by (intro unat_sum) simp
  show "k \<le> unat n - unat m \<Longrightarrow> take k (drop (unat off + unat m) data) = take k (drop (unat m) (region data off n))"
    by (simp add: region_def drop_take min_absorb1 add.commute)
qed (use assms in \<open>simp_all add: region_def add.assoc\<close>)

lemma strings_loop_spec:
  "unat (hdr_strings_offset h) + unat (hdr_strings_size h) \<le> length data \<Longrightarrow> length data < 2 ^ 63 \<Longrightarrow>
   offset \<le> hdr_strings_size h \<Longrightarrow>
   \<exists>status. verify_strings_loop data h offset counted = Inr status \<and>
     (status = V_OK \<longleftrightarrow> pool_accepts (hdr_strings_count h)
        (drop (unat offset) (region data (hdr_strings_offset h) (hdr_strings_size h))) counted)"
proof (induction data h offset counted rule: verify_strings_loop.induct)
  case (1 data h offset counted)
  let ?so = "hdr_strings_offset h" and ?ss = "hdr_strings_size h"
  let ?T = "drop (unat offset) (region data ?so ?ss)"
  note unfold = verify_strings_loop.simps [of data h offset counted]
  have le: "unat offset \<le> unat ?ss" using 1(4) by (simp add: word_le_nat_alt)
  note rest = region_rest [OF 1(2,3) le]
  show ?case
  proof (cases "offset < ?ss")
    case False
    then have "offset = ?ss" using 1(4) by simp
    moreover from this have "?T = []" using rest(1) by simp
    moreover have "verify_strings_loop data h offset counted =
        (if counted \<noteq> hdr_strings_count h then Inr V_BAD_STRING else Inr V_OK)"
      unfolding unfold using \<open>offset = ?ss\<close> by simp
    ultimately show ?thesis using pool_accepts_Nil by auto
  next
    case lt: True
    have small: "unat ?ss < 2 ^ 63" using 1(2,3) by simp
    have T: "length ?T = unat ?ss - unat offset" "?T \<noteq> []" using rest(1) lt by (auto simp: word_less_nat_alt)
    let ?n = "unat (load_u32 (take 4 ?T))"
    have A: "offset + 4 > ?ss \<longleftrightarrow> \<not> 4 \<le> length ?T"
      using unat_add_nat [of offset 4] small le T(1) by (auto simp: word_less_nat_alt)
    note iff = pool_accepts_Cons [OF T(2), of "hdr_strings_count h" counted, unfolded record_iff]
    show ?thesis
    proof (cases "4 \<le> length ?T")
      case False
      then show ?thesis unfolding iff using lt A by (simp add: unfold)
    next
      case four: True
      then have read: "fetch data (?so + offset) 4 = Inr (take 4 ?T)"
        using rest(2) rest(3) [of 4] 1(2) T(1) by (simp add: fetch_def read_at_def)
      have B: "offset + (4 + ucast (load_u32 (take 4 ?T))) > ?ss \<longleftrightarrow> \<not> 4 + ?n \<le> length ?T"
        using unat_add_nat [of offset "4 + ?n"] small le T(1) unat_u32_less [of "load_u32 (take 4 ?T)"]
        by (auto simp: word_less_nat_alt)
      have step: "verify_strings_loop data h offset counted =
        (if \<not> 4 + ?n \<le> length ?T then Inr V_BAD_STRING
         else bindE (verify_utf8_length data (?so + offset + 4) ?n) (\<lambda>utf8_status.
           if utf8_status \<noteq> V_OK then Inr utf8_status
           else let aligned_total = align_up (4 + ucast (load_u32 (take 4 ?T))) 4
                in if aligned_total > ?ss - offset then Inr V_BAD_STRING
                   else bindE (verify_padding data (?so + offset) (4 + ucast (load_u32 (take 4 ?T))) aligned_total) (\<lambda>pad_status.
                     if pad_status \<noteq> V_OK then Inr pad_status
                     else verify_strings_loop data h (offset + aligned_total) (counted + 1))))"
        unfolding unfold using lt A four read B by (simp add: Let_def)
      show ?thesis
      proof (cases "4 + ?n \<le> length ?T")
        case False
        then show ?thesis unfolding iff step by simp
      next
        case fits: True
        let ?p = "?so + offset" and ?s = "take ?n (drop 4 ?T)" and ?aligned = "align_up (4 + ucast (load_u32 (take 4 ?T))) 4 :: u64"
        have p: "unat ?p = unat ?so + unat offset" by (rule rest(2))
        have p4: "unat (?p + 4) = unat ?so + unat offset + 4"
          using unat_add_nat [of ?p 4] p 1(2,3) le by simp
        have utf8: "verify_utf8_length data (?p + 4) ?n = Inr (if well_formed_utf8 ?s then V_OK else V_BAD_UTF8)"
        proof -
          have "take ?n (drop (unat (?p + 4)) data) = drop 4 (take (?n + 4) (drop (unat ?so + unat offset) data))"
            unfolding p4 by (simp add: drop_take add.commute)
          also have "\<dots> = ?s" using rest(3) [of "?n + 4"] fits T(1) by (simp add: drop_take)
          finally show ?thesis using verify_utf8_spec [of "?p + 4" ?n data] p4 1(2,3) fits T(1) by simp
        qed
        have aligned: "unat ?aligned = align_up_nat (4 + ?n) 4" by (rule aligned_total_step(1))
        have F: "?aligned > ?ss - offset \<longleftrightarrow> \<not> align_up_nat (4 + ?n) 4 \<le> length ?T"
          using T(1) by (simp add: word_less_nat_alt aligned unat_sub [OF less_imp_le [OF lt]] not_le)
        show ?thesis
        proof (cases "well_formed_utf8 ?s \<and> align_up_nat (4 + ?n) 4 \<le> length ?T")
          case False
          then show ?thesis unfolding iff step utf8 using F by (auto simp: Let_def)
        next
          case good: True
          have pad: "verify_padding data ?p (4 + ucast (load_u32 (take 4 ?T))) ?aligned =
            Inr (if \<forall>i. 4 + ?n \<le> i \<and> i < align_up_nat (4 + ?n) 4 \<longrightarrow> ?T ! i = 0 then V_OK else V_BAD_STRING)"
          proof -
            have start: "unat (4 + ucast (load_u32 (take 4 ?T)) :: u64) = 4 + ?n"
              using unat_add_nat [of "ucast (load_u32 (take 4 ?T))" 4] unat_u32_less [of "load_u32 (take 4 ?T)"]
              by (simp add: add.commute)
            have bytes: "data ! (unat ?p + i) = ?T ! i" if "i < align_up_nat (4 + ?n) 4" for i
              using rest(4) [of i] that good T(1) p by simp
            have "(\<forall>i. unat (4 + ucast (load_u32 (take 4 ?T)) :: u64) \<le> i \<and> i < unat ?aligned \<longrightarrow> data ! (unat ?p + i) = 0)
              \<longleftrightarrow> (\<forall>i. 4 + ?n \<le> i \<and> i < align_up_nat (4 + ?n) 4 \<longrightarrow> ?T ! i = 0)"
              unfolding start aligned using bytes by (intro iff_allI imp_cong refl) simp
            moreover have "unat ?p + unat ?aligned \<le> length data"
              unfolding p aligned using good [THEN conjunct2] T(1) le 1(2) by linarith
            ultimately show ?thesis using padding_spec [of ?p ?aligned data "4 + ucast (load_u32 (take 4 ?T))"] 1(3) by (simp only:)
          qed
          have le_aligned: "unat (offset + ?aligned) = unat offset + align_up_nat (4 + ?n) 4"
          proof -
            have "unat offset + unat ?aligned < 2 ^ 64"
              unfolding aligned using good [THEN conjunct2] T(1) le unat_u64_less [of ?ss] by linarith
            then show ?thesis unfolding aligned [symmetric] by (rule unat_sum)
          qed
          have next_le: "offset + ?aligned \<le> ?ss"
            unfolding word_le_nat_alt le_aligned using good [THEN conjunct2] T(1) le by linarith
          have next_T: "drop (unat (offset + ?aligned)) (region data ?so ?ss) = drop (align_up_nat (4 + ?n) 4) ?T"
            by (simp add: le_aligned add.commute)
          show ?thesis
          proof (cases "\<forall>i. 4 + ?n \<le> i \<and> i < align_up_nat (4 + ?n) 4 \<longrightarrow> ?T ! i = 0")
            case False
            have pad': "verify_padding data ?p (4 + ucast (load_u32 (take 4 ?T))) ?aligned = Inr V_BAD_STRING"
              unfolding pad if_not_P [OF False] ..
            have utf8': "verify_utf8_length data (?p + 4) ?n = Inr V_OK" unfolding utf8 using good by simp
            have "verify_strings_loop data h offset counted = Inr V_BAD_STRING"
              unfolding step utf8' using fits F good pad' by (simp add: Let_def)
            moreover have "\<not> pool_accepts (hdr_strings_count h) ?T counted" unfolding iff using False by blast
            ultimately show ?thesis by simp
          next
            case zeros: True
            have utf8': "verify_utf8_length data (?p + 4) ?n = Inr V_OK" unfolding utf8 using good by simp
            have pad': "verify_padding data ?p (4 + ucast (load_u32 (take 4 ?T))) ?aligned = Inr V_OK"
              unfolding pad if_P [OF zeros] ..
            have "\<exists>status. verify_strings_loop data h (offset + ?aligned) (counted + 1) = Inr status \<and>
              (status = V_OK \<longleftrightarrow> pool_accepts (hdr_strings_count h) (drop (align_up_nat (4 + ?n) 4) ?T) (counted + 1))"
              unfolding next_T [symmetric]
              by (rule 1(1) [OF lt _ read refl refl _ utf8' _ refl _ pad' _ 1(2,3) next_le])
                (use A B four fits F good in simp_all)
            moreover have "verify_strings_loop data h offset counted = verify_strings_loop data h (offset + ?aligned) (counted + 1)"
              unfolding step utf8' using fits F good pad' by (simp add: Let_def)
            moreover have "pool_accepts (hdr_strings_count h) ?T counted \<longleftrightarrow>
              pool_accepts (hdr_strings_count h) (drop (align_up_nat (4 + ?n) 4) ?T) (counted + 1)"
              unfolding iff using four fits good zeros by blast
            ultimately show ?thesis by simp
          qed
        qed
      qed
    qed
  qed
qed

lemma strings_pool_spec:
  assumes "unat (hdr_strings_offset h) + unat (hdr_strings_size h) \<le> length data" and "length data < 2 ^ 63"
  shows "\<exists>status. verify_strings_pool data h = Inr status \<and>
    (status = V_OK \<longleftrightarrow> pool_accepts (hdr_strings_count h) (region data (hdr_strings_offset h) (hdr_strings_size h)) 0)"
proof (cases "hdr_strings_size h = 0")
  case True
  then have "region data (hdr_strings_offset h) (hdr_strings_size h) = []" by (simp add: region_def)
  then show ?thesis using True pool_accepts_Nil by (auto simp: verify_strings_pool_def)
next
  case False
  then show ?thesis using strings_loop_spec [OF assms, of 0 0] by (simp add: verify_strings_pool_def)
qed

section \<open>The root index\<close>

definition entry_ok :: "header \<Rightarrow> entry \<Rightarrow> bool" where
  "entry_ok h e \<longleftrightarrow> hdr_nodes_offset h \<le> ent_value_offset e \<and> ent_value_offset e < hdr_strings_offset h \<and>
     hdr_strings_offset h \<le> ucast (ent_key_pool_offset e) \<and>
     ucast (ent_key_pool_offset e) + 4 + ucast (ent_key_length e) \<le> hdr_strings_offset h + hdr_strings_size h"

definition roots_ok :: "header \<Rightarrow> u64 option \<Rightarrow> entry list \<Rightarrow> bool" where
  "roots_ok h previous es \<longleftrightarrow> (\<forall>e \<in> set es. entry_ok h e) \<and> sorted_wrt (<) (map ent_key_hash64 es) \<and>
     (\<forall>p \<in> set_option previous. \<forall>e \<in> set es. p < ent_key_hash64 e)"

lemma roots_ok_Nil [simp]: "roots_ok h previous []"
  by (simp add: roots_ok_def)

lemma roots_ok_Cons:
  "roots_ok h previous (e # es) \<longleftrightarrow> verify_root_entry h e previous = V_OK \<and> roots_ok h (Some (ent_key_hash64 e)) es"
proof -
  have "verify_root_entry h e previous = V_OK \<longleftrightarrow> entry_ok h e \<and> (\<forall>p \<in> set_option previous. p < ent_key_hash64 e)"
    by (cases previous) (auto simp: verify_root_entry_def entry_ok_def not_le not_less)
  then show ?thesis by (auto simp: roots_ok_def intro: less_trans)
qed

definition opened :: "bytes \<Rightarrow> reader" where
  "opened data = \<lparr>rd_base = data, rd_size = of_nat (length data), rd_header = load_header (take HEADER_SIZE data)\<rparr>"

lemma opened_simps [simp]:
  "rd_base (opened data) = data" "rd_size (opened data) = of_nat (length data)"
  "rd_header (opened data) = load_header (take HEADER_SIZE data)"
  by (simp_all add: opened_def)

lemma root_loop_spec:
  "wf_reader (opened data) \<Longrightarrow> h = rd_header (opened data) \<Longrightarrow> i \<le> hdr_root_count h \<Longrightarrow>
   \<exists>status. verify_root_loop data h i previous = Inr status \<and>
     (status = V_OK \<longleftrightarrow> roots_ok h previous (drop (unat i) (root_table (opened data))))"
proof (induction data h i previous rule: verify_root_loop.induct)
  case (1 data h i previous)
  let ?r = "opened data" and ?T = "root_table (opened data)"
  note unfold = verify_root_loop.simps [of data h i previous]
  show ?case
  proof (cases "i < hdr_root_count h")
    case False
    then have "verify_root_loop data h i previous = Inr V_OK" unfolding unfold by (rule if_not_P)
    moreover have "i = hdr_root_count h" using False 1(4) by simp
    ultimately show ?thesis using 1(3) by (simp add: root_table_def)
  next
    case True
    let ?e = "?T ! unat i"
    have fits: "table_fits ?r (hdr_root_index_offset h) (hdr_root_count h)"
      using table_fits_root [OF 1(2)] 1(3) by simp
    note addr = entry_address [OF 1(2) fits True]
    let ?bs = "take 24 (drop (unat (hdr_root_index_offset h) + unat i * 24) data)"
    have read: "fetch data (hdr_root_index_offset h + i * of_nat ENTRY_SIZE) ENTRY_SIZE = Inr ?bs"
      using addr by (simp add: fetch_def read_at_def)
    have lt: "unat i < unat (hdr_root_count h)" using True by (simp add: word_less_nat_alt)
    then have e: "load_entry ?bs = ?e" using 1(3) by (simp add: root_table_def table_entries_def)
    have "unat i < length ?T" using lt 1(3) by (simp add: root_table_def)
    then have drop: "drop (unat i) ?T = ?e # drop (unat (i + 1)) ?T"
      using unat_Suc [OF True] by (simp add: Cons_nth_drop_Suc)
    have step: "verify_root_loop data h i previous =
      (if verify_root_entry h ?e previous \<noteq> V_OK then Inr (verify_root_entry h ?e previous)
       else verify_root_loop data h (i + 1) (Some (ent_key_hash64 ?e)))"
      using True read e by (simp add: unfold Let_def del: of_nat_numeral)
    show ?thesis
    proof (cases "verify_root_entry h ?e previous = V_OK")
      case False
      then show ?thesis unfolding step drop roots_ok_Cons by simp
    next
      case ok: True
      have "i + 1 \<le> hdr_root_count h" using lt unat_Suc [OF True] by (simp add: word_le_nat_alt)
      from 1(1) [OF True read refl refl _ 1(2,3) this, unfolded e] show ?thesis
        unfolding step drop roots_ok_Cons using ok by simp
    qed
  qed
qed

lemma root_index_spec:
  assumes "wf_reader (opened data)" and "h = rd_header (opened data)"
  shows "\<exists>status. verify_root_index data h = Inr status \<and> (status = V_OK \<longleftrightarrow> roots_ok h None (root_table (opened data)))"
  using root_loop_spec [OF assms, of 0 None] by (simp add: verify_root_index_def)

section \<open>The whole buffer\<close>

lemma header_layout_iff: "verify_header_layout h n = V_OK \<longleftrightarrow> reader_header_layout_valid h n"
  by (simp add: verify_header_layout_def reader_header_layout_valid_def)

lemma verify_footer_iff:
  "verify_footer data h = Inr V_OK \<longleftrightarrow> reader_footer_matches data h = Inr True"
  by (auto simp: verify_footer_def reader_footer_matches_def Let_def bindE_def split: sum.split)

lemma and_then_ok [simp]: "and_then m n = Inr V_OK \<longleftrightarrow> m = Inr V_OK \<and> n = Inr V_OK"
  by (auto simp: and_then_def bindE_def split: sum.split)

lemma in_bounds_and_then: "in_bounds m \<Longrightarrow> (m = Inr V_OK \<Longrightarrow> in_bounds n) \<Longrightarrow> in_bounds (and_then m n)"
  by (auto simp: and_then_def intro!: in_bounds_rules)

lemma opened_regions:
  assumes "reader_header_layout_valid (load_header (take HEADER_SIZE data)) (of_nat (length data))"
    and "regions_do_not_wrap (load_header (take HEADER_SIZE data))" and "160 \<le> length data" and "length data < 2 ^ 63"
  shows "wf_reader (opened data)"
    and "unat (hdr_strings_offset (rd_header (opened data))) + unat (hdr_strings_size (rd_header (opened data))) + FOOTER_SIZE = length data"
    and "unat (hdr_footer_offset (rd_header (opened data))) + FOOTER_SIZE = length data"
proof -
  have "160 \<le> (of_nat (length data) :: u64)" using assms(3,4) by (simp add: word_le_nat_alt)
  note regions = layout_regions [OF assms(1,2)] layout_regions(5) [OF assms(1,2) this]
  show "wf_reader (opened data)" using regions assms(4) by (simp add: wf_reader_def)
  show "unat (hdr_strings_offset (rd_header (opened data))) + unat (hdr_strings_size (rd_header (opened data))) + FOOTER_SIZE = length data"
    and "unat (hdr_footer_offset (rd_header (opened data))) + FOOTER_SIZE = length data"
    using regions assms(4) by simp_all
qed

lemma verify_size_guard:
  "length data < 2 ^ 63 \<Longrightarrow> (of_nat (length data) :: u64) < of_nat (HEADER_SIZE + FOOTER_SIZE) \<longleftrightarrow> length data < 160"
  by (simp add: word_less_nat_alt)

lemma fetch_header: "160 \<le> length data \<Longrightarrow> fetch data 0 HEADER_SIZE = Inr (take HEADER_SIZE data)"
  by (simp add: fetch_def read_at_def)

text \<open>The parts a good file has.\<close>

definition good_file :: "(bytes \<Rightarrow> u64) \<Rightarrow> bytes \<Rightarrow> bool" where
  "good_file hash data \<longleftrightarrow>
     (let h = load_header (take HEADER_SIZE data)
      in 160 \<le> length data \<and> reader_header_layout_valid h (of_nat (length data)) \<and>
         reader_footer_matches data h = Inr True \<and>
         hash (drop ROOT_INDEX_OFFSET (take (unat (hdr_footer_offset h)) data)) = hdr_checksum h \<and>
         pool_accepts (hdr_strings_count h) (region data (hdr_strings_offset h) (hdr_strings_size h)) 0 \<and>
         roots_ok h None (root_table (opened data)))"

lemma checksum_payload:
  assumes "reader_header_layout_valid h n" and "regions_do_not_wrap h"
    and "unat (hdr_footer_offset h) + FOOTER_SIZE = length data"
  shows "verify_checksum hash data h =
    Inr (if hash (drop ROOT_INDEX_OFFSET (take (unat (hdr_footer_offset h)) data)) = hdr_checksum h then V_OK else V_BAD_CHECKSUM)"
proof -
  note regions = layout_regions [OF assms(1,2)]
  have "hdr_root_index_offset h \<le> hdr_footer_offset h"
    using regions by (simp add: word_le_nat_alt)
  then have "unat (hdr_footer_offset h - hdr_root_index_offset h) = unat (hdr_footer_offset h) - 128"
    using regions(1) by (simp add: unat_sub)
  then show ?thesis using regions assms(3)
    by (simp add: verify_checksum_def fetch_def read_at_def drop_take)
qed

lemma verify_buffer_iff:
  assumes small: "length data < 2 ^ 63" and wrap: "regions_do_not_wrap (load_header (take HEADER_SIZE data))"
  shows "in_bounds (verify_buffer hash data) \<and> (verify_buffer hash data = Inr V_OK \<longleftrightarrow> good_file hash data)"
proof (cases "160 \<le> length data \<and> reader_header_layout_valid (load_header (take HEADER_SIZE data)) (of_nat (length data))")
  case False
  let ?h = "load_header (take HEADER_SIZE data)"
  have bad: "\<not> good_file hash data" using False by (auto simp: good_file_def Let_def)
  show ?thesis
  proof (cases "160 \<le> length data")
    case True
    then have "verify_header_layout ?h (of_nat (length data)) \<noteq> V_OK" using False by (simp add: header_layout_iff)
    then have "verify_buffer hash data = Inr (verify_header_layout ?h (of_nat (length data)))"
      using True unfolding verify_buffer_def Let_def verify_size_guard [OF small] by (simp add: fetch_header and_then_def)
    then show ?thesis using bad \<open>verify_header_layout ?h (of_nat (length data)) \<noteq> V_OK\<close> by simp
  next
    case False
    then show ?thesis using bad unfolding verify_buffer_def Let_def verify_size_guard [OF small] by simp
  qed
next
  case True
  let ?h = "load_header (take HEADER_SIZE data)"
  have layout: "reader_header_layout_valid ?h (of_nat (length data))" using True by blast
  note regions = opened_regions [OF layout wrap _ small, simplified] 
  have len: "160 \<le> length data" using True by blast
  have footer: "in_bounds (verify_footer data ?h)"
    unfolding verify_footer_def Let_def using regions(3) [OF len]
    by (intro in_bounds_rules in_bounds_fetch) simp_all
  have checksum: "verify_checksum hash data ?h =
    Inr (if hash (drop ROOT_INDEX_OFFSET (take (unat (hdr_footer_offset ?h)) data)) = hdr_checksum ?h then V_OK else V_BAD_CHECKSUM)"
    by (rule checksum_payload [OF layout wrap]) (use regions(3) [OF len] in simp)
  obtain s1 where s1: "verify_strings_pool data ?h = Inr s1"
    "s1 = V_OK \<longleftrightarrow> pool_accepts (hdr_strings_count ?h) (region data (hdr_strings_offset ?h) (hdr_strings_size ?h)) 0"
    using strings_pool_spec [of ?h data] regions(2) [OF len] small by auto
  obtain s2 where s2: "verify_root_index data ?h = Inr s2" "s2 = V_OK \<longleftrightarrow> roots_ok ?h None (root_table (opened data))"
    using root_index_spec [OF regions(1) [OF len], of ?h] by auto
  have buffer: "verify_buffer hash data = and_then (Inr (verify_header_layout ?h (of_nat (length data))))
      (and_then (verify_footer data ?h) (and_then (verify_checksum hash data ?h)
        (and_then (verify_strings_pool data ?h) (verify_root_index data ?h))))"
    using len unfolding verify_buffer_def Let_def verify_size_guard [OF small] by (simp add: fetch_header)
  have "in_bounds (verify_buffer hash data)"
    unfolding buffer by (intro in_bounds_and_then footer) (simp_all add: checksum s1 s2)
  moreover have "verify_buffer hash data = Inr V_OK \<longleftrightarrow> good_file hash data"
    unfolding buffer and_then_ok verify_footer_iff good_file_def Let_def using s1 s2 checksum layout len
    by (simp add: header_layout_iff)
  ultimately show ?thesis ..
qed

text \<open>What the reader gets from a file the verifier accepts.\<close>

lemma roots_ok_sorted: "roots_ok h p es \<Longrightarrow> hash_sorted es"
  by (auto simp: roots_ok_def hash_sorted_def intro: sorted_wrt_mono_rel [rotated])

lemma verified_opens:
  assumes "length data < 2 ^ 63" and "regions_do_not_wrap (load_header (take HEADER_SIZE data))"
    and "verify_buffer hash data = Inr V_OK" and "pf_grants pf 0 40"
  shows "reader_open_buffer pf data = Inr (opened data)" and "root_holds (opened data) (root_table (opened data))"
proof -
  have good: "good_file hash data" using verify_buffer_iff [OF assms(1,2)] assms(3) by blast
  then have parts: "160 \<le> length data" "reader_header_layout_valid (load_header (take HEADER_SIZE data)) (of_nat (length data))"
    "reader_footer_matches data (load_header (take HEADER_SIZE data)) = Inr True"
    "roots_ok (load_header (take HEADER_SIZE data)) None (root_table (opened data))"
    by (auto simp: good_file_def Let_def)
  show "reader_open_buffer pf data = Inr (opened data)"
    using parts assms(4) unfolding reader_open_buffer_def reader_attach_buffer_def Let_def verify_size_guard [OF assms(1)]
    by (simp add: fetch_header opened_def)
  show "root_holds (opened data) (root_table (opened data))"
    using opened_regions(1) [OF parts(2) assms(2) parts(1) assms(1)] roots_ok_sorted [OF parts(4)]
    by (simp add: root_holds_def)
qed

section \<open>Headers whose sums wrap\<close>

text \<open>
  A file of 160 bytes, no roots, whose header gives the nodes region \<open>n\<close> bytes and the strings
  region \<open>-n\<close>: the layout sums come out right modulo \<open>2 ^ 64\<close>.
\<close>

definition wrapping_header :: "(bytes \<Rightarrow> u64) \<Rightarrow> u64 \<Rightarrow> header" where
  "wrapping_header hash n = \<lparr>hdr_magic = BC_HRBL_MAGIC, hdr_version_major = 1, hdr_version_minor = 0, hdr_file_size = 160,
     hdr_flags = BC_HRBL_FLAGS_V1_REQUIRED, hdr_root_count = 0, hdr_root_index_offset = 128, hdr_root_index_size = 0,
     hdr_nodes_offset = 128, hdr_nodes_size = n, hdr_strings_offset = 128 + n, hdr_strings_size = - n,
     hdr_strings_count = 0, hdr_footer_offset = 128, hdr_checksum = hash [], hdr_reserved = zeros 24\<rparr>"

definition wrapping_file :: "(bytes \<Rightarrow> u64) \<Rightarrow> u64 \<Rightarrow> bytes" where
  "wrapping_file hash n = store_header (wrapping_header hash n) @
     store_footer \<lparr>ftr_checksum = hash [], ftr_file_size = 160, ftr_magic_end = BC_HRBL_MAGIC, ftr_reserved = zeros 12\<rparr>"

lemma wrapping_fields [simp]:
  "hdr_magic (wrapping_header hash n) = BC_HRBL_MAGIC"
  "hdr_version_major (wrapping_header hash n) = 1"
  "hdr_version_minor (wrapping_header hash n) = 0"
  "hdr_file_size (wrapping_header hash n) = 160"
  "hdr_flags (wrapping_header hash n) = BC_HRBL_FLAGS_V1_REQUIRED"
  "hdr_root_count (wrapping_header hash n) = 0"
  "hdr_root_index_offset (wrapping_header hash n) = 128"
  "hdr_root_index_size (wrapping_header hash n) = 0"
  "hdr_nodes_offset (wrapping_header hash n) = 128"
  "hdr_nodes_size (wrapping_header hash n) = n"
  "hdr_strings_offset (wrapping_header hash n) = 128 + n"
  "hdr_strings_size (wrapping_header hash n) = - n"
  "hdr_strings_count (wrapping_header hash n) = 0"
  "hdr_footer_offset (wrapping_header hash n) = 128"
  "hdr_checksum (wrapping_header hash n) = hash []"
  "hdr_reserved (wrapping_header hash n) = zeros 24"
  by (simp_all add: wrapping_header_def)

lemma wrapping_parts:
  "length (store_header (wrapping_header hash n)) = 128" "length (wrapping_file hash n) = 160"
  "take 128 (wrapping_file hash n) = store_header (wrapping_header hash n)"
  "load_header (store_header (wrapping_header hash n)) = wrapping_header hash n"
proof -
  have v: "valid_header (wrapping_header hash n)" by (simp add: valid_header_def)
  have f: "length (store_footer \<lparr>ftr_checksum = c, ftr_file_size = s, ftr_magic_end = m, ftr_reserved = zeros 12\<rparr>) = 32" for c s m
    by (rule footer_codec.length_enc) (simp add: valid_footer_def)
  show l: "length (store_header (wrapping_header hash n)) = 128" by (rule header_codec.length_enc [OF v])
  show "length (wrapping_file hash n) = 160" by (simp add: wrapping_file_def l f)
  show "take 128 (wrapping_file hash n) = store_header (wrapping_header hash n)" by (simp add: wrapping_file_def l)
  show "load_header (store_header (wrapping_header hash n)) = wrapping_header hash n" by (rule header_codec.dec_enc [OF v])
qed

lemma wrapping_footer: "reader_footer_matches (wrapping_file hash n) (wrapping_header hash n) = Inr True"
proof -
  let ?f = "\<lparr>ftr_checksum = hash [], ftr_file_size = 160, ftr_magic_end = BC_HRBL_MAGIC, ftr_reserved = zeros 12\<rparr>"
  have "valid_footer ?f" by (simp add: valid_footer_def)
  then have "load_footer (store_footer ?f) = ?f" "length (store_footer ?f) = 32"
    by (rule footer_codec.dec_enc, rule footer_codec.length_enc)
  then show ?thesis
    by (simp add: reader_footer_matches_def fetch_def read_at_def wrapping_file_def wrapping_parts(1) Let_def)
qed

lemma wrapping_layout: "reader_header_layout_valid (wrapping_header hash n) 160"
  by (simp add: reader_header_layout_valid_def BC_HRBL_VERSION_MAJOR_def BC_HRBL_VERSION_MINOR_def
      BC_HRBL_FLAGS_V1_RESERVED_MASK_def BC_HRBL_ROOT_COUNT_MAX_def list_all_iff zeros_def)

lemma wrapping_opens: "reader_open_buffer pf (wrapping_file hash n) = (if pf_grants pf 0 40 then Inr (opened (wrapping_file hash n)) else Inl Rejected)"
  using fetch_header [of "wrapping_file hash n"] wrapping_layout wrapping_footer
  by (simp add: reader_open_buffer_def reader_attach_buffer_def wrapping_parts Let_def opened_def)

lemma wrapping_kind_at:
  assumes "160 \<le> off" and "off < 128 + n" and "128 \<le> 128 + n"
  shows "reader_kind_at (opened (wrapping_file hash n)) off = Inl Bad_read"
proof -
  have "128 \<le> off" using assms(1) by (rule order_trans [rotated]) simp
  then have "\<not> off < 128" by simp
  moreover have "160 \<le> unat off" using assms(1) by (simp add: word_le_nat_alt)
  ultimately show ?thesis using assms(2)
    by (simp add: reader_kind_at_def wrapping_parts fetch_def Let_def read_at_def not_le)
qed

lemma wrapping_verify:
  assumes "160 \<le> 128 + n" and "4 \<le> - n"
  shows "verify_buffer hash (wrapping_file hash n) = Inl Bad_read"
proof -
  let ?h = "wrapping_header hash n"
  have size: "(of_nat (length (wrapping_file hash n)) :: u64) = 160" by (simp add: wrapping_parts)
  have "n \<noteq> 0" using assms(1) by auto
  then have pos: "0 < - n" by (simp add: word_gt_0)
  have "fetch (wrapping_file hash n) (hdr_strings_offset ?h) 4 = Inl Bad_read"
    using assms(1) by (simp add: fetch_def read_at_def wrapping_parts word_le_nat_alt)
  then have "verify_strings_loop (wrapping_file hash n) ?h 0 0 = Inl Bad_read"
    using assms(2) pos by (subst verify_strings_loop.simps) simp
  then have pool: "verify_strings_pool (wrapping_file hash n) ?h = Inl Bad_read"
    using \<open>n \<noteq> 0\<close> by (simp add: verify_strings_pool_def)
  have "verify_checksum hash (wrapping_file hash n) ?h = Inr V_OK"
    by (simp add: verify_checksum_def fetch_def read_at_def wrapping_parts)
  moreover have "verify_footer (wrapping_file hash n) ?h = Inr V_OK"
    unfolding verify_footer_iff by (rule wrapping_footer)
  moreover have "verify_header_layout ?h 160 = V_OK" unfolding header_layout_iff by (rule wrapping_layout)
  ultimately show ?thesis
    using pool fetch_header [of "wrapping_file hash n"]
    by (simp add: verify_buffer_def Let_def size wrapping_parts and_then_def)
qed

end
