(* ===== verification/Samples.thy ===== *)
theory Samples
  imports Verify Paths
begin

text \<open>
  Concrete inputs: a platform that grants everything, and a complete file. The file has one root
  \<open>k\<close>, a block with the key \<open>a\<close>, whose value is the array of the string \<open>a\<close> and
  the integer 42; it is written for a hash that
  is constantly 7, so that it is small enough to evaluate.
\<close>

definition roomy :: platform where
  "roomy = \<lparr>pf_grants = (\<lambda>_ _. True), pf_spawns = (\<lambda>_ _. True), pf_schedule = (\<lambda>_ _. [])\<rparr>"

lemma generous_roomy [simp]: "generous roomy"
  by (simp add: generous_def roomy_def)

lemma roomy_grants [simp]: "pf_grants roomy k n"
  by (simp add: roomy_def)

definition sample_header :: header where
  "sample_header = \<lparr>hdr_magic = BC_HRBL_MAGIC, hdr_version_major = 1, hdr_version_minor = 0, hdr_file_size = 296,
     hdr_flags = BC_HRBL_FLAGS_V1_REQUIRED, hdr_root_count = 1, hdr_root_index_offset = 128,
     hdr_root_index_size = 24, hdr_nodes_offset = 152, hdr_nodes_size = 96, hdr_strings_offset = 248,
     hdr_strings_size = 16, hdr_strings_count = 2, hdr_footer_offset = 264, hdr_checksum = 7, hdr_reserved = zeros 24\<rparr>"

definition sample_nodes :: bytes where
  "sample_nodes =
     zeros 7 @ [kind_code K_BLOCK] @ store_block_header \<lparr>bh_child_count = 1, bh_entries_size_bytes = 24\<rparr> @
       store_entry \<lparr>ent_key_hash64 = 7, ent_key_pool_offset = 256, ent_key_length = 1, ent_value_offset = 199\<rparr> @
     zeros 7 @ [kind_code K_ARRAY] @ store_array_header \<lparr>ah_element_count = 2, ah_body_size_bytes = 16\<rparr> @ store_u64 227 @ store_u64 239 @
     zeros 3 @ [kind_code K_STRING] @ store_string_ref \<lparr>sr_pool_offset = 256, sr_length = 1\<rparr> @
     zeros 3 @ [kind_code K_INT64] @ store_u64 42"

definition sample_file :: bytes where
  "sample_file = store_header sample_header @
     store_entry \<lparr>ent_key_hash64 = 7, ent_key_pool_offset = 248, ent_key_length = 1, ent_value_offset = 159\<rparr> @
     sample_nodes @ pool_record [0x6B] @ pool_record [0x61] @
     store_footer \<lparr>ftr_checksum = 7, ftr_file_size = 296, ftr_magic_end = BC_HRBL_MAGIC, ftr_reserved = zeros 12\<rparr>"

lemma sample_length: "length sample_file = 296"
  by code_simp

lemma sample_load_header: "load_header (take 128 sample_file) = sample_header"
  by code_simp

lemma sample_layout: "verify_header_layout sample_header 296 = V_OK"
  by code_simp

lemma sample_footer: "verify_footer sample_file sample_header = Inr V_OK"
  by code_simp

lemma sample_checksum: "verify_checksum (\<lambda>_. 7) sample_file sample_header = Inr V_OK"
  by code_simp

lemma sample_root_index: "verify_root_index sample_file sample_header = Inr V_OK"
  by code_simp

lemma sample_strings: "verify_strings_pool sample_file sample_header = Inr V_OK"
  by code_simp

lemma sample_verify: "verify_buffer (\<lambda>_. 7) sample_file = Inr V_OK"
  by (simp add: verify_buffer_def sample_length fetch_def read_at_def sample_load_header sample_layout sample_footer
      sample_checksum sample_root_index sample_strings)

lemma sample_no_wrap: "regions_do_not_wrap (load_header (take 128 sample_file))"
  unfolding sample_load_header by (simp add: regions_do_not_wrap_def sample_header_def)

definition sample_reader :: reader where
  "sample_reader = \<lparr>rd_base = sample_file, rd_size = 296, rd_header = sample_header\<rparr>"

lemma opened_sample: "opened sample_file = sample_reader"
  by (simp add: opened_def sample_length sample_load_header sample_reader_def)

lemma sample_opens: "reader_open_buffer roomy sample_file = Inr sample_reader"
  and sample_root: "root_holds sample_reader (root_table sample_reader)"
  using verified_opens [of sample_file "\<lambda>_. 7" roomy] sample_length sample_verify sample_no_wrap
  by (simp_all add: opened_sample)

lemma sample_wf: "wf_reader sample_reader"
  using sample_root by (simp add: root_holds_def)

lemma sample_block: "reader_block_body_offsets sample_reader 159 = Inr (\<lparr>bh_child_count = 1, bh_entries_size_bytes = 24\<rparr>, 168)"
  by code_simp

end
