(* ===== verification/Reader_Properties.thy ===== *)
theory Reader_Properties
  imports Samples
begin

text \<open>
  What the reading half of the library promises, stated over the definitions of the components:
  the verifier, the bounds of every accessor, lookup, paths and iteration. Each property has an
  instance on the file of \<open>Samples\<close>.
\<close>

section \<open>Verification\<close>

text \<open>C5. For a buffer under 2^63 bytes whose header regions do not wrap around 64 bits, the
  verifier reads inside the buffer, and it answers OK exactly for a good file: header and footer
  as the format demands, the checksum of the payload, a string region that is the layout of some
  UTF-8 strings, as many as the header says, and root entries inside their regions with strictly
  increasing hashes.\<close>

theorem verify_accepts_good_files:
  assumes "length data < 2 ^ 63" and "regions_do_not_wrap (load_header (take HEADER_SIZE data))"
  shows "in_bounds (verify_buffer hash data) \<and> (verify_buffer hash data = Inr V_OK \<longleftrightarrow> good_file hash data)"
  by (rule verify_buffer_iff [OF assms])

theorem verify_accepts_good_files_witness:
  "in_bounds (verify_buffer (\<lambda>_. 7) sample_file) \<and> good_file (\<lambda>_. 7) sample_file"
  using verify_accepts_good_files [of sample_file "\<lambda>_. 7"] sample_length sample_no_wrap sample_verify by simp

text \<open>C13. The guard of the first property is needed: there is a file of 160 bytes, with a wrapping
  size for its nodes, that the reader opens, on which the verifier reads outside the buffer and on
  which asking for the kind of an offset past the end does too.\<close>

theorem crafted_header_escapes_the_buffer:
  "\<exists>data r off. length data = 160 \<and> verify_buffer hash data = Inl Bad_read \<and>
     reader_open_buffer roomy data = Inr r \<and> reader_kind_at r off = Inl Bad_read"
  using wrapping_verify [of "2 ^ 63" hash] wrapping_opens [of roomy hash "2 ^ 63"] wrapping_kind_at [of 200 "2 ^ 63" hash]
  by (intro exI [of _ "wrapping_file hash (2 ^ 63)"] exI [of _ "opened (wrapping_file hash (2 ^ 63))"] exI [of _ 200])
    (simp add: wrapping_parts)

text \<open>C15. A file the verifier accepts is one the reader opens, and its root index is a table the
  lookup can search: sorted by hash, inside the buffer.\<close>

theorem verified_file_opens:
  assumes "length data < 2 ^ 63" and "regions_do_not_wrap (load_header (take HEADER_SIZE data))"
    and "verify_buffer hash data = Inr V_OK" and "pf_grants pf 0 40"
  shows "reader_open_buffer pf data = Inr (opened data) \<and> root_holds (opened data) (root_table (opened data))
    \<and> sorted_wrt (<) (map ent_key_hash64 (root_table (opened data)))"
  using verified_opens [OF assms] verify_buffer_iff [OF assms(1,2), of hash] assms(3)
  by (simp add: good_file_def Let_def roots_ok_def)

theorem verified_file_opens_witness:
  "reader_open_buffer roomy sample_file = Inr sample_reader"
  using verified_file_opens [of sample_file "\<lambda>_. 7" roomy] sample_length sample_no_wrap sample_verify
  by (simp add: opened_sample)

text \<open>C12. The UTF-8 check of a string accepts exactly the byte strings that are concatenations of
  encodings of Unicode scalar values: no overlong form, no surrogate, nothing above U+10FFFF and no
  truncated sequence.\<close>

theorem utf8_check_is_exact:
  assumes "unat start + n \<le> length data" and "length data < 2 ^ 63"
  shows "verify_utf8_length data start n =
    Inr (if well_formed_utf8 (take n (drop (unat start) data)) then V_OK else V_BAD_UTF8)"
  by (rule verify_utf8_spec [OF assms])

theorem utf8_check_is_exact_witness:
  "well_formed_utf8 [0x41, 0xE2, 0x82, 0xAC] \<and> \<not> well_formed_utf8 [0xC0, 0x80]"
proof -
  have "verify_utf8_length [0x41, 0xE2, 0x82, 0xAC] 0 4 = Inr V_OK" by code_simp
  moreover have "verify_utf8_length [0xC0, 0x80] 0 2 = Inr V_BAD_UTF8" by code_simp
  ultimately show ?thesis
    using utf8_check_is_exact [of 0 4 "[0x41, 0xE2, 0x82, 0xAC]"] utf8_check_is_exact [of 0 2 "[0xC0, 0x80]"]
    by (simp split: if_splits)
qed

text \<open>C16. The check of the string pool accepts a region exactly when it is the concatenation of the
  records (length, bytes, zero padding to 4) of well-formed strings, in the number the header gives.\<close>

theorem string_pool_check_is_exact:
  assumes "unat (hdr_strings_offset h) + unat (hdr_strings_size h) \<le> length data" and "length data < 2 ^ 63"
  shows "in_bounds (verify_strings_pool data h) \<and> (verify_strings_pool data h = Inr V_OK \<longleftrightarrow>
    (\<exists>strs. (\<forall>s \<in> set strs. length s < 2 ^ 32 \<and> well_formed_utf8 s) \<and>
       region data (hdr_strings_offset h) (hdr_strings_size h) = pool_layout strs \<and>
       of_nat (length strs) = hdr_strings_count h))"
  using strings_pool_spec [OF assms] by (auto simp: pool_accepts_def in_bounds_def)

theorem string_pool_check_is_exact_witness:
  "\<exists>strs. region sample_file 248 16 = pool_layout strs \<and> of_nat (length strs) = (2 :: u64)"
  using string_pool_check_is_exact [of sample_header sample_file] sample_strings sample_length
  by (auto simp: sample_header_def)

section \<open>Reading stays inside the buffer\<close>

text \<open>C6. Once a buffer under 2^63 bytes with regions that do not wrap is open, no accessor reads
  outside it, whatever the nodes, the offsets, the keys and the paths it is given.\<close>

theorem accessors_stay_in_bounds:
  assumes "reader_open_buffer pf data = Inr r" and "length data < 2 ^ 63" and "regions_do_not_wrap (rd_header r)"
  shows "in_bounds (reader_root_at_offset r i want_key) \<and> in_bounds (reader_find_root_offset hash r key) \<and>
    in_bounds (reader_kind_at r off) \<and> in_bounds (reader_block_find_offset hash r off key) \<and>
    in_bounds (reader_block_entry_at_offset r off n want_key) \<and> in_bounds (reader_array_at_offset r off n) \<and>
    in_bounds (reader_scalar_int64_at r off) \<and> in_bounds (reader_scalar_uint64_at r off) \<and>
    in_bounds (reader_scalar_float64_at r off) \<and> in_bounds (reader_scalar_bool_at r off) \<and>
    in_bounds (reader_scalar_string_at r off) \<and> in_bounds (reader_find hash (Some r) path)"
proof -
  have "wf_reader r" by (rule open_buffer_wf [OF assms])
  then show ?thesis
    by (intro conjI in_bounds_root_at in_bounds_find_root in_bounds_kind_at in_bounds_block_find in_bounds_block_entry_at
        in_bounds_array_at in_bounds_scalars in_bounds_find) simp_all
qed

theorem accessors_stay_in_bounds_witness:
  "in_bounds (reader_kind_at sample_reader 0xFFFFFFFFFFFFFFFF) \<and> in_bounds (reader_array_at_offset sample_reader 12345 6)"
  using accessors_stay_in_bounds [OF sample_opens] sample_length sample_no_wrap
  by (simp add: sample_load_header sample_reader_def)

text \<open>A string the reader hands out lies inside the buffer, with all its bytes.\<close>

lemma string_lies_in_buffer:
  assumes "reader_open_buffer pf data = Inr r" and "length data < 2 ^ 63" and "regions_do_not_wrap (rd_header r)"
    and "reader_scalar_string_at r off = Inr (position, n)"
  shows "unat position + unat n \<le> length data"
  using string_within [OF open_buffer_wf [OF assms(1-3)] assms(4)] open_buffer_fields(1) [OF assms(1)] by simp

section \<open>Lookup\<close>

text \<open>C8. Binary search of the root index, with its probe of neighbours for colliding hashes, finds
  the value of an entry with the key when there is one, and rejects the key when there is none.\<close>

theorem find_root_is_lookup:
  assumes "root_holds r es"
  shows "case reader_find_root_offset hash r key of
      Inr v \<Rightarrow> \<exists>e \<in> set es. hit r (hash key) key e \<and> ent_value_offset e = v
    | Inl err \<Rightarrow> err = Rejected \<and> (\<forall>e \<in> set es. \<not> hit r (hash key) key e)"
  using root_index.find_found [OF assms, of hash key] root_index.find_complete [OF assms, of _ hash key]
    root_index.find_rejected [OF assms, of hash key]
  by (fastforce split: sum.split)

theorem find_root_is_lookup_witness:
  "\<exists>e \<in> set (root_table sample_reader). hit sample_reader 7 [0x6B] e \<and> ent_value_offset e = 159"
proof -
  have "reader_find_root_offset (\<lambda>_. 7) sample_reader [0x6B] = Inr 159" by code_simp
  then show ?thesis using find_root_is_lookup [OF sample_root, of "\<lambda>_. 7" "[0x6B]"] by simp
qed

text \<open>C17. The same for the entries of a block.\<close>

theorem find_in_block_is_lookup:
  assumes "block_holds (r, off) es"
  shows "case reader_block_find_offset hash r off key of
      Inr v \<Rightarrow> \<exists>e \<in> set es. hit r (hash key) key e \<and> ent_value_offset e = v
    | Inl err \<Rightarrow> err = Rejected \<and> (\<forall>e \<in> set es. \<not> hit r (hash key) key e)"
  using block_index.find_found [OF assms, of hash key] block_index.find_complete [OF assms, of _ hash key]
    block_index.find_rejected [OF assms, of hash key]
  by (fastforce split: sum.split)

theorem find_in_block_is_lookup_witness:
  "\<exists>e. hit sample_reader 7 [0x61] e \<and> ent_value_offset e = 199"
proof -
  have one: "table_entries sample_reader 168 1 = [load_entry (take 24 (drop 168 sample_file))]"
    by (simp add: table_entries_def sample_reader_def)
  then have "block_holds (sample_reader, 159) (table_entries sample_reader 168 1)"
    using sample_block sample_wf by (simp add: block_holds_def hash_sorted_def)
  moreover have "reader_block_find_offset (\<lambda>_. 7) sample_reader 159 [0x61] = Inr 199" by code_simp
  ultimately show ?thesis using find_in_block_is_lookup [of sample_reader 159 _ "\<lambda>_. 7" "[0x61]"] by auto
qed

section \<open>Paths\<close>

text \<open>C9. Resolving a path is parsing it by the grammar of dots, plain and quoted segments and
  bracketed indices, and following the steps from the root; a path outside the grammar is rejected.\<close>

theorem resolving_follows_the_grammar:
  assumes "wf_reader r"
  shows "reader_resolve_path hash r path =
    (case path_steps path of None \<Rightarrow> Inl Rejected | Some steps \<Rightarrow> follow_root hash r steps)"
  by (rule resolve_path_eq [OF assms])

theorem resolving_follows_the_grammar_witness:
  "follow_root (\<lambda>_. 7) sample_reader [Key [0x6B], Key [0x61], Index 1] = Inr 239"
proof -
  have "reader_resolve_path (\<lambda>_. 7) sample_reader [0x6B, 0x2E, 0x61, 0x5B, 0x31, 0x5D] = Inr 239" by code_simp
  moreover have "path_steps [0x6B, 0x2E, 0x61, 0x5B, 0x31, 0x5D] = Some [Key [0x6B], Key [0x61], Index 1]"
    by (simp add: path_steps.simps is_digit_def decimal_def)
  ultimately show ?thesis
    using resolving_follows_the_grammar [OF sample_wf, of "\<lambda>_. 7" "[0x6B, 0x2E, 0x61, 0x5B, 0x31, 0x5D]"] by simp
qed

text \<open>C18. Every step whose key is not empty and does not contain both quotes has a path: quoting the
  keys and writing the indices in decimal gives a text that resolves to following those steps.\<close>

theorem rendered_path_resolves:
  assumes "wf_reader r" and "list_all addressable steps"
  shows "reader_resolve_path hash r (concat (map render_step steps)) = follow_root hash r steps"
  by (simp add: resolve_path_eq [OF assms(1)] path_steps_render [OF assms(2)])

theorem rendered_path_resolves_witness:
  "reader_resolve_path (\<lambda>_. 7) sample_reader [0x2E, 0x27, 0x6B, 0x27] = Inr 159"
proof -
  have "concat (map render_step [Key [0x6B]]) = [0x2E, 0x27, 0x6B, 0x27]" by code_simp
  moreover have "follow_root (\<lambda>_. 7) sample_reader [Key [0x6B]] = Inr 159" by code_simp
  moreover have "list_all addressable [Key [0x6B]]" by code_simp
  ultimately show ?thesis using rendered_path_resolves [OF sample_wf, of "[Key [0x6B]]" "\<lambda>_. 7"] by simp
qed

section \<open>Iteration\<close>

text \<open>C21. Iterating over a block as often as it has children visits the entries of its table, in
  order, each with the place of its key and its value.\<close>

theorem block_iteration_visits_the_table:
  assumes "wf_reader r" and "reader_block_body_offsets r off = Inr (header, entries)"
  shows "\<exists>it. reader_iter_block (Some (value_ref_fill r off K_BLOCK)) = Inr it \<and>
    drain (unat (bh_child_count header)) it = visit_all r (table_entries r entries (ucast (bh_child_count header)))"
  by (rule iter_block_drain [OF assms])

theorem block_iteration_visits_the_table_witness:
  "\<exists>it. reader_iter_block (Some (value_ref_fill sample_reader 159 K_BLOCK)) = Inr it \<and>
    drain 1 it = visit_all sample_reader (table_entries sample_reader 168 1)"
  using block_iteration_visits_the_table [OF sample_wf sample_block] by simp

text \<open>C20. An iterator step stays inside the buffer, and one that succeeds leaves one child fewer to
  visit and an iterator with the same guarantee, so a loop over an iterator ends.\<close>

theorem iteration_terminates:
  assumes "iter_ok it"
  shows "in_bounds (iter_next (Some it)) \<and> (case iter_next (Some it) of Inl _ \<Rightarrow> True
    | Inr (v, key, it') \<Rightarrow> iter_ok it' \<and> unat (it_remaining it) = Suc (unat (it_remaining it')))"
  using in_bounds_iter_next [of "Some it"] iter_next_ok [OF assms] assms by (auto split: sum.split)

theorem iteration_terminates_witness:
  "in_bounds (iter_next (Some \<lparr>it_reader = Some sample_reader, it_cursor_offset = 168, it_end_offset = 192,
     it_remaining = 1, it_is_block = True\<rparr>))"
  using iteration_terminates [of "\<lparr>it_reader = Some sample_reader, it_cursor_offset = 168, it_end_offset = 192,
     it_remaining = 1, it_is_block = True\<rparr>"] sample_wf sample_length
  by (simp add: iter_ok_def iter_width_def sample_reader_def)

end
