(* ===== verification/Pending_Sort.thy ===== *)
theory Pending_Sort
  imports Platform
begin

text \<open>
  Sorting of the entries of a block by key hash (\<open>src/writer/bc_hrbl_writer_encoder.c\<close>,
  \<open>bc_hrbl_encoder_pending_sort\<close> and the functions it calls): insertion sort up to 32
  entries, a least-significant-digit radix sort with eight passes of 8 bits above, and its
  multi-threaded variant from 10000 entries on. All three are shown to be the stable sort
  \<open>sort_key\<close> of the library; for the threaded one, under every interleaving of its workers.
\<close>

section \<open>Entries waiting for their table\<close>

record pending_entry =
  pe_key_hash64 :: u64
  pe_key_pool_offset :: u32
  pe_key_length :: u32
  pe_value_offset :: u64

section \<open>Insertion sort\<close>

text \<open>The inner \<open>while\<close>: \<open>insertion_shift entries pivot j\<close> returns the array and the final \<open>j\<close>.\<close>

fun insertion_shift :: "pending_entry list \<Rightarrow> pending_entry \<Rightarrow> nat \<Rightarrow> pending_entry list \<times> nat" where
  "insertion_shift entries pivot 0 = (entries, 0)"
| "insertion_shift entries pivot (Suc j) =
     (if pe_key_hash64 (entries ! j) > pe_key_hash64 pivot
      then insertion_shift (entries[Suc j := entries ! j]) pivot j
      else (entries, Suc j))"

definition insertion_step :: "pending_entry list \<Rightarrow> nat \<Rightarrow> pending_entry list" where
  "insertion_step entries i =
     (let pivot = entries ! i;
          (shifted, j) = insertion_shift entries pivot i
      in shifted[j := pivot])"

definition insertion_sort :: "pending_entry list \<Rightarrow> pending_entry list" where
  "insertion_sort entries = foldl insertion_step entries [1..<length entries]"

section \<open>Radix sort, one thread\<close>

definition radix_byte :: "nat \<Rightarrow> pending_entry \<Rightarrow> nat" where
  "radix_byte shift e = unat (drop_bit shift (pe_key_hash64 e) AND 0xFF)"

definition radix_count :: "pending_entry list \<Rightarrow> nat \<Rightarrow> nat \<Rightarrow> nat \<Rightarrow> nat list" where
  "radix_count src shift lo hi =
     foldl (\<lambda>counts i. let byte = radix_byte shift (src ! i) in counts[byte := counts ! byte + 1])
       (replicate 256 0) [lo..<hi]"

definition radix_prefix :: "nat list \<Rightarrow> nat list" where
  "radix_prefix counts =
     foldl (\<lambda>prefix i. prefix[i := prefix ! (i - 1) + counts ! (i - 1)]) (replicate 256 0) [1..<256]"

definition radix_scatter_step ::
    "pending_entry list \<Rightarrow> nat \<Rightarrow> pending_entry list \<times> nat list \<Rightarrow> nat \<Rightarrow> pending_entry list \<times> nat list"
  where
  "radix_scatter_step src shift = (\<lambda>(dst, prefix) i.
     let byte = radix_byte shift (src ! i)
     in (dst[prefix ! byte := src ! i], prefix[byte := prefix ! byte + 1]))"

text \<open>One pass, with the swap of the two arrays at its end.\<close>

definition radix_pass :: "pending_entry list \<times> pending_entry list \<Rightarrow> nat \<Rightarrow> pending_entry list \<times> pending_entry list"
  where
  "radix_pass = (\<lambda>(src, dst) pass.
     let shift = pass * 8;
         counts = radix_count src shift 0 (length src);
         prefix = radix_prefix counts;
         (dst', _) = foldl (radix_scatter_step src shift) (dst, prefix) [0..<length src]
     in (dst', src))"

text \<open>
  After the eighth swap the first array is \<open>entries\<close> again. \<open>scratch\<close> is the content of the
  freshly allocated array.
\<close>

definition radix_sort_data :: "pending_entry list \<Rightarrow> pending_entry list \<Rightarrow> pending_entry list" where
  "radix_sort_data scratch entries = fst (foldl radix_pass (entries, scratch) [0..<8])"

definition blank_pending :: pending_entry where
  "blank_pending = \<lparr>pe_key_hash64 = 0, pe_key_pool_offset = 0, pe_key_length = 0, pe_value_offset = 0\<rparr>"

definition radix_sort_serial :: "platform \<Rightarrow> nat \<Rightarrow> pending_entry list \<Rightarrow> fault + pending_entry list \<times> nat" where
  "radix_sort_serial pf k entries =
     bindE (request pf k (length entries * 24)) (\<lambda>k.
     Inr (radix_sort_data (replicate (length entries) blank_pending) entries, k))"

section \<open>Radix sort, several threads\<close>

text \<open>
  One worker's context. \<open>rw_cursor\<close> is the loop variable of its scatter loop; the destination
  array is shared by all workers.
\<close>

record radix_worker =
  rw_range_start :: nat
  rw_range_end :: nat
  rw_cursor :: nat
  rw_local_counts :: "nat list"
  rw_write_positions :: "nat list"

definition worker_range_end :: "nat \<Rightarrow> nat \<Rightarrow> nat \<Rightarrow> nat" where
  "worker_range_end n workers w =
     (if w + 1 = workers then n else (w + 1) * (n div workers))"

definition count_worker :: "pending_entry list \<Rightarrow> nat \<Rightarrow> nat \<Rightarrow> nat \<Rightarrow> radix_worker" where
  "count_worker src shift workers w =
     (let start = w * (length src div workers);
          stop = worker_range_end (length src) workers w
      in \<lparr>rw_range_start = start, rw_range_end = stop, rw_cursor = start,
          rw_local_counts = radix_count src shift start stop,
          rw_write_positions = replicate 256 0\<rparr>)"

fun assign_bucket :: "nat \<Rightarrow> nat \<Rightarrow> radix_worker list \<Rightarrow> radix_worker list \<times> nat" where
  "assign_bucket bucket write_position [] = ([], write_position)"
| "assign_bucket bucket write_position (c # cs) =
     (let (cs', total) = assign_bucket bucket (write_position + rw_local_counts c ! bucket) cs
      in (c\<lparr>rw_write_positions := (rw_write_positions c)[bucket := write_position]\<rparr> # cs', total))"

definition assign_positions :: "radix_worker list \<Rightarrow> radix_worker list" where
  "assign_positions contexts =
     fst (foldl (\<lambda>(cs, running_total) bucket. assign_bucket bucket running_total cs)
            (contexts, 0) [0..<256])"

text \<open>One iteration of the scatter loop of worker \<open>w\<close>; a worker that is done does nothing.\<close>

definition scatter_worker_step ::
    "pending_entry list \<Rightarrow> nat \<Rightarrow> pending_entry list \<times> radix_worker list \<Rightarrow> nat
      \<Rightarrow> pending_entry list \<times> radix_worker list"
  where
  "scatter_worker_step src shift = (\<lambda>(dst, cs) w.
     if w < length cs \<and> rw_cursor (cs ! w) < rw_range_end (cs ! w)
     then let c = cs ! w; i = rw_cursor c; byte = radix_byte shift (src ! i)
          in (dst[rw_write_positions c ! byte := src ! i],
              cs[w := c\<lparr>rw_cursor := i + 1,
                        rw_write_positions := (rw_write_positions c)
                          [byte := rw_write_positions c ! byte + 1]\<rparr>])
     else (dst, cs))"

definition radix_pass_parallel ::
    "(nat \<Rightarrow> nat list) \<Rightarrow> nat \<Rightarrow> pending_entry list \<times> pending_entry list \<Rightarrow> nat
      \<Rightarrow> pending_entry list \<times> pending_entry list"
  where
  "radix_pass_parallel schedule workers = (\<lambda>(src, dst) pass.
     let shift = pass * 8;
         contexts = assign_positions (map (count_worker src shift workers) [0..<workers]);
         (dst', _) = foldl (scatter_worker_step src shift) (dst, contexts) (schedule pass)
     in (dst', src))"

definition radix_sort_parallel_data ::
    "(nat \<Rightarrow> nat list) \<Rightarrow> nat \<Rightarrow> pending_entry list \<Rightarrow> pending_entry list \<Rightarrow> pending_entry list" where
  "radix_sort_parallel_data schedule workers scratch entries =
     fst (foldl (radix_pass_parallel schedule workers) (entries, scratch) [0..<8])"

text \<open>
  The eight passes create \<open>16 * worker_count\<close> threads, and the function gives up at the first
  that cannot be created. The contexts take 4136 bytes each, the thread handles 8; these products are
  natural numbers, which agree with \<open>size_t\<close> below \<open>2 ^ 51\<close> workers. The counter \<open>k\<close> at the start of the
  sort tells the sorts of one file apart: each has its own threads and its own schedule.
\<close>

definition radix_sort_parallel ::
    "platform \<Rightarrow> nat \<Rightarrow> nat \<Rightarrow> pending_entry list \<Rightarrow> fault + pending_entry list \<times> nat" where
  "radix_sort_parallel pf k workers entries =
     bindE (request pf k (length entries * 24)) (\<lambda>k1.
     bindE (request pf k1 (workers * 4136)) (\<lambda>k2.
     bindE (request pf k2 (workers * 8)) (\<lambda>k3.
     if list_all (pf_spawns pf k) [0..<16 * workers]
     then Inr (radix_sort_parallel_data (pf_schedule pf k) workers
                 (replicate (length entries) blank_pending) entries, k3)
     else Inl (Fails W_INTERNAL))))"

section \<open>The choice of algorithm\<close>

definition pending_radix_sort ::
    "platform \<Rightarrow> nat \<Rightarrow> nat \<Rightarrow> pending_entry list \<Rightarrow> fault + pending_entry list \<times> nat" where
  "pending_radix_sort pf k worker_count entries =
     (if 2 \<le> worker_count \<and> 10000 \<le> length entries
      then radix_sort_parallel pf k worker_count entries
      else radix_sort_serial pf k entries)"

definition pending_sort ::
    "platform \<Rightarrow> nat \<Rightarrow> nat \<Rightarrow> pending_entry list \<Rightarrow> fault + pending_entry list \<times> nat" where
  "pending_sort pf k worker_count entries =
     (if length entries < 2 then Inr (entries, k)
      else if length entries \<le> 32 then Inr (insertion_sort entries, k)
      else pending_radix_sort pf k worker_count entries)"

section \<open>Stable sorting, abstractly\<close>

lemma sort_keyI:
  assumes "mset ys = mset xs" and "sorted (map f ys)"
    and "\<And>c. filter (\<lambda>x. f x = c) ys = filter (\<lambda>x. f x = c) xs"
  shows "ys = sort_key f xs"
proof (rule properties_for_sort_key [symmetric])
  fix k
  have "(\<lambda>x. f k = f x) = (\<lambda>x. f x = f k)" by auto
  then show "filter (\<lambda>x. f k = f x) ys = filter (\<lambda>x. f k = f x) xs"
    using assms(3) [of "f k"] by simp
qed (simp_all add: assms)

text \<open>
  What the encoder needs from a sorting routine: on the inputs it accepts, a permutation, sorted
  by the key, that keeps the order of entries with equal keys. These three laws determine the
  result.
\<close>

locale stable_sorter =
  fixes srt :: "'a list \<Rightarrow> 'a list"
    and key :: "'a \<Rightarrow> 'k::linorder"
    and accepts :: "'a list \<Rightarrow> bool"
  assumes mset_srt: "accepts xs \<Longrightarrow> mset (srt xs) = mset xs"
    and sorted_srt: "accepts xs \<Longrightarrow> sorted (map key (srt xs))"
    and stable_srt: "accepts xs \<Longrightarrow> filter (\<lambda>x. key x = c) (srt xs) = filter (\<lambda>x. key x = c) xs"
begin

lemma srt_eq_sort_key: "accepts xs \<Longrightarrow> srt xs = sort_key key xs"
  by (intro sort_keyI mset_srt sorted_srt stable_srt)

lemma length_srt: "accepts xs \<Longrightarrow> length (srt xs) = length xs"
  using mset_srt by (metis size_mset)

lemma set_srt: "accepts xs \<Longrightarrow> set (srt xs) = set xs"
  using mset_srt by (metis set_mset_mset)

lemma distinct_srt: "accepts xs \<Longrightarrow> distinct (map key xs) \<Longrightarrow> sorted_wrt (<) (map key (srt xs))"
  using sorted_srt [of xs] mset_eq_imp_distinct_iff [of "map key (srt xs)" "map key xs"]
  by (simp add: strict_sorted_iff mset_srt)

end

section \<open>The insertion sort\<close>

lemma insertion_shift_spec:
  assumes "insertion_shift es pivot j = (es', j')" and "j < length es"
  shows "\<exists>left right. take j es = left @ right \<and> length left = j'
    \<and> es' [j' := pivot] = left @ pivot # right @ drop (Suc j) es
    \<and> (\<forall>x \<in> set right. pe_key_hash64 pivot < pe_key_hash64 x)
    \<and> (left \<noteq> [] \<longrightarrow> pe_key_hash64 (last left) \<le> pe_key_hash64 pivot)"
  using assms
proof (induction es pivot j arbitrary: es' j' rule: insertion_shift.induct)
  case (1 es pivot)
  then have "es' = es" "j' = 0" "es[0 := pivot] = [] @ pivot # [] @ drop (Suc 0) es"
    by (simp_all add: upd_conv_take_nth_drop)
  then show ?case by (intro exI [of _ "[]"]) simp
next
  case (2 es pivot j)
  show ?case
  proof (cases "pe_key_hash64 (es ! j) > pe_key_hash64 pivot")
    case True
    with 2 obtain left right where IH:
      "take j (es[Suc j := es ! j]) = left @ right" "length left = j'"
      "es' [j' := pivot] = left @ pivot # right @ drop (Suc j) (es[Suc j := es ! j])"
      "\<forall>x \<in> set right. pe_key_hash64 pivot < pe_key_hash64 x"
      "left \<noteq> [] \<longrightarrow> pe_key_hash64 (last left) \<le> pe_key_hash64 pivot"
      by fastforce
    have "drop (Suc j) (es[Suc j := es ! j]) = es ! j # drop (Suc (Suc j)) es"
      using 2(3) by (simp add: drop_update_swap Cons_nth_drop_Suc [symmetric])
    moreover have "take (Suc j) es = left @ (right @ [es ! j])"
      using IH(1) 2(3) by (simp add: take_Suc_conv_app_nth)
    ultimately show ?thesis using IH True by (intro exI [of _ left] exI [of _ "right @ [es ! j]"]) auto
  next
    case False
    with 2 have "es' = es" "j' = Suc j" by auto
    moreover have "last (take (Suc j) es) = es ! j" "take (Suc j) es \<noteq> []"
      using 2(3) by (simp_all add: take_Suc_conv_app_nth)
    ultimately show ?thesis using False 2(3)
      by (intro exI [of _ "take (Suc j) es"] exI [of _ "[]"])
        (auto simp: upd_conv_take_nth_drop)
  qed
qed

lemma sorted_le_last:
  assumes "sorted (map f ys)" and "x \<in> set ys"
  shows "f x \<le> f (last ys)"
proof -
  have "ys = butlast ys @ [last ys]" using assms(2) by (cases ys) auto
  then have "sorted (map f (butlast ys) @ [f (last ys)])" "x \<in> set (butlast ys @ [last ys])"
    using assms by (metis list.simps(8) list.simps(9) map_append, metis)
  then show ?thesis by (auto simp: sorted_append)
qed

lemma insertion_merge:
  assumes eq: "left @ right = sort_key pe_key_hash64 xs"
    and right: "\<forall>x \<in> set right. pe_key_hash64 pivot < pe_key_hash64 x"
    and left: "left \<noteq> [] \<longrightarrow> pe_key_hash64 (last left) \<le> pe_key_hash64 pivot"
  shows "left @ pivot # right = sort_key pe_key_hash64 (xs @ [pivot])"
proof (rule sort_keyI)
  have "mset xs = mset (left @ right)" using eq by simp
  then show "mset (left @ pivot # right) = mset (xs @ [pivot])" by simp
  have "sorted (map pe_key_hash64 (left @ right))" using eq by simp
  moreover from this have "\<forall>x \<in> set left. pe_key_hash64 x \<le> pe_key_hash64 pivot"
    using left sorted_le_last [of pe_key_hash64 left] by (fastforce simp: sorted_append)
  ultimately show "sorted (map pe_key_hash64 (left @ pivot # right))"
    using right by (fastforce simp: sorted_append)
  fix c
  have "filter (\<lambda>x. pe_key_hash64 x = c) (left @ right) = filter (\<lambda>x. pe_key_hash64 x = c) xs"
    unfolding eq by (rule sort_key_stable)
  moreover have "c = pe_key_hash64 pivot \<Longrightarrow> filter (\<lambda>x. pe_key_hash64 x = c) right = []"
    using right by (auto simp: filter_empty_conv)
  ultimately show "filter (\<lambda>x. pe_key_hash64 x = c) (left @ pivot # right)
      = filter (\<lambda>x. pe_key_hash64 x = c) (xs @ [pivot])"
    by auto
qed

lemma insertion_step_sort:
  assumes "es = sort_key pe_key_hash64 (take i xs) @ drop i xs" and "i < length xs"
  shows "insertion_step es i = sort_key pe_key_hash64 (take (Suc i) xs) @ drop (Suc i) xs"
proof -
  have len: "length (sort_key pe_key_hash64 (take i xs)) = i" using assms(2) by simp
  then have pivot: "es ! i = xs ! i" "take i es = sort_key pe_key_hash64 (take i xs)"
    "drop (Suc i) es = drop (Suc i) xs" "i < length es"
    using assms by (simp_all add: nth_append)
  obtain es' j where shift: "insertion_shift es (es ! i) i = (es', j)" by fastforce
  obtain left right where lr: "take i es = left @ right"
    "es'[j := es ! i] = left @ es ! i # right @ drop (Suc i) es"
    "\<forall>x \<in> set right. pe_key_hash64 (es ! i) < pe_key_hash64 x"
    "left \<noteq> [] \<longrightarrow> pe_key_hash64 (last left) \<le> pe_key_hash64 (es ! i)"
    using insertion_shift_spec [OF shift pivot(4)] by blast
  have "left @ es ! i # right = sort_key pe_key_hash64 (take i xs @ [es ! i])"
    by (rule insertion_merge) (use lr pivot in simp_all)
  moreover have "insertion_step es i = (left @ es ! i # right) @ drop (Suc i) es"
    using lr(2) by (simp add: insertion_step_def shift)
  ultimately show ?thesis
    using pivot assms(2) by (simp add: take_Suc_conv_app_nth)
qed

lemma insertion_sort_eq: "insertion_sort xs = sort_key pe_key_hash64 xs"
proof (cases "xs = []")
  case False
  have "n < length xs \<Longrightarrow> foldl insertion_step xs [1..<Suc n]
      = sort_key pe_key_hash64 (take (Suc n) xs) @ drop (Suc n) xs" for n
  proof (induction n)
    case 0
    then show ?case by (cases xs) auto
  next
    case (Suc n)
    then have "foldl insertion_step xs [1..<Suc (Suc n)]
        = insertion_step (foldl insertion_step xs [1..<Suc n]) (Suc n)" by simp
    also have "\<dots> = sort_key pe_key_hash64 (take (Suc (Suc n)) xs) @ drop (Suc (Suc n)) xs"
      by (rule insertion_step_sort) (use Suc in simp_all)
    finally show ?case .
  qed
  from this [of "length xs - 1"] show ?thesis using False by (simp add: insertion_sort_def)
qed (simp add: insertion_sort_def)

interpretation insertion_sorter: stable_sorter insertion_sort pe_key_hash64 "\<lambda>_. True"
  by unfold_locales (simp_all add: insertion_sort_eq sort_key_stable)

section \<open>Counting sort\<close>

text \<open>
  A pass of the radix sort places the element at index \<open>i\<close> at \<open>target f xs i\<close>: after all elements
  with a smaller byte and after those with the same byte at smaller indices. However the writes
  are ordered, an array that has every element at its target is the stable sort by the byte.
\<close>

definition before :: "('a \<Rightarrow> nat) \<Rightarrow> 'a list \<Rightarrow> nat \<Rightarrow> nat" where
  "before f xs b = length (filter (\<lambda>x. f x < b) xs)"

definition rank :: "('a \<Rightarrow> nat) \<Rightarrow> 'a list \<Rightarrow> nat \<Rightarrow> nat \<Rightarrow> nat" where
  "rank f xs i b = length (filter (\<lambda>x. f x = b) (take i xs))"

definition target :: "('a \<Rightarrow> nat) \<Rightarrow> 'a list \<Rightarrow> nat \<Rightarrow> nat" where
  "target f xs i = before f xs (f (xs ! i)) + rank f xs i (f (xs ! i))"

definition placed :: "('a \<Rightarrow> nat) \<Rightarrow> 'a list \<Rightarrow> 'a list \<Rightarrow> nat set \<Rightarrow> bool" where
  "placed f xs dst D \<longleftrightarrow> length dst = length xs \<and> (\<forall>i \<in> D. dst ! target f xs i = xs ! i)"

lemma rank_0 [simp]: "rank f xs 0 b = 0"
  by (simp add: rank_def)

lemma rank_Suc:
  "i < length xs \<Longrightarrow> rank f xs (Suc i) b = rank f xs i b + (if f (xs ! i) = b then 1 else 0)"
  by (simp add: rank_def take_Suc_conv_app_nth)

lemma before_0 [simp]: "before f xs 0 = 0"
  by (simp add: before_def)

lemma before_Suc: "before f xs (Suc b) = before f xs b + rank f xs (length xs) b"
  unfolding before_def rank_def by (induction xs) auto

lemma before_mono: "b \<le> c \<Longrightarrow> before f xs b \<le> before f xs c"
  unfolding before_def by (induction xs) auto

lemma before_le_length: "before f xs b \<le> length xs"
  by (simp add: before_def)

lemma target_less_before_Suc:
  "i < length xs \<Longrightarrow> target f xs i < before f xs (Suc (f (xs ! i)))"
  unfolding target_def before_Suc rank_def
  using filter_rank_less [of i xs "\<lambda>x. f x = f (xs ! i)"] by simp

lemma target_less: "i < length xs \<Longrightarrow> target f xs i < length xs"
  using target_less_before_Suc before_le_length by (rule less_le_trans)

lemma target_less_of_byte:
  "i < length xs \<Longrightarrow> f (xs ! i) < f (xs ! j) \<Longrightarrow> target f xs i < target f xs j"
  using target_less_before_Suc [of i xs f] before_mono [of "Suc (f (xs ! i))" "f (xs ! j)" f xs]
  by (simp add: target_def)

lemma target_less_of_index:
  "i < j \<Longrightarrow> j < length xs \<Longrightarrow> f (xs ! i) = f (xs ! j) \<Longrightarrow> target f xs i < target f xs j"
  using filter_rank_strict [of i j xs "\<lambda>x. f x = f (xs ! i)"]
  by (simp add: target_def rank_def)

lemma target_inj: "inj_on (target f xs) {..<length xs}"
proof (rule inj_onI)
  fix i j assume ij: "i \<in> {..<length xs}" "j \<in> {..<length xs}" "target f xs i = target f xs j"
  show "i = j"
  proof (rule ccontr)
    assume "i \<noteq> j"
    then show False
      using ij target_less_of_byte [of i xs f j] target_less_of_byte [of j xs f i]
        target_less_of_index [of i j xs f] target_less_of_index [of j i xs f]
      by (cases "f (xs ! i)" "f (xs ! j)" rule: linorder_cases) (auto simp: nat_neq_iff)
  qed
qed

lemma target_surj: "target f xs ` {..<length xs} = {..<length xs}"
  by (rule inj_on_lessThan_surj [OF target_inj]) (auto simp: target_less)

lemma sorted_filter_split:
  assumes "sorted (map f ys)"
  shows "ys = filter (\<lambda>x. f x < b) ys @ filter (\<lambda>x. f x = b) ys @ filter (\<lambda>x. b < f x) ys"
  using assms
proof (induction ys)
  case (Cons y ys)
  then have "ys = filter (\<lambda>x. f x < b) ys @ filter (\<lambda>x. f x = b) ys @ filter (\<lambda>x. b < f x) ys"
    and ge: "\<forall>x \<in> set ys. f y \<le> f x" by auto
  moreover have "b \<le> f y \<Longrightarrow> filter (\<lambda>x. f x < b) ys = []"
    and "b < f y \<Longrightarrow> filter (\<lambda>x. f x = b) ys = []"
    and "b < f y \<Longrightarrow> filter (\<lambda>x. b < f x) ys = ys"
    using ge by (fastforce simp: filter_empty_conv filter_id_conv)+
  ultimately show ?case
    by (cases "f y" b rule: linorder_cases) (simp_all add: order_less_imp_not_eq order_less_imp_not_eq2 order_less_not_sym)
qed simp

lemma sort_key_at_target:
  assumes "i < length xs"
  shows "sort_key f xs ! target f xs i = xs ! i"
proof -
  let ?b = "f (xs ! i)" and ?ys = "sort_key f xs"
  let ?less = "filter (\<lambda>x. f x < ?b) ?ys" and ?same = "filter (\<lambda>x. f x = ?b) ?ys"
  have "length ?less = before f xs ?b"
    unfolding before_def by (metis mset_filter mset_sort size_mset)
  moreover have "?same = filter (\<lambda>x. f x = ?b) xs" by (rule sort_key_stable)
  moreover have "?ys = ?less @ ?same @ filter (\<lambda>x. ?b < f x) ?ys"
    by (rule sorted_filter_split) simp
  ultimately obtain l s r where split: "?ys = l @ s @ r"
    and l: "length l = before f xs ?b" and s: "s = filter (\<lambda>x. f x = ?b) xs" by blast
  have "rank f xs i ?b < length s"
    using filter_rank_less [of i xs "\<lambda>x. f x = ?b"] assms by (simp add: s rank_def)
  then have "?ys ! target f xs i = s ! rank f xs i ?b"
    unfolding split target_def l [symmetric] by (simp add: nth_append)
  also have "\<dots> = xs ! i"
    using filter_nth_rank [of i xs "\<lambda>x. f x = ?b"] assms by (simp add: s rank_def)
  finally show ?thesis .
qed

lemma placed_all: 
  assumes "placed f xs dst {..<length xs}"
  shows "dst = sort_key f xs"
proof (rule nth_equalityI)
  show "length dst = length (sort_key f xs)" using assms by (simp add: placed_def)
  fix p assume "p < length dst"
  then obtain i where "i < length xs" "p = target f xs i"
    using assms target_surj [of f xs] by (auto simp: placed_def)
  then show "dst ! p = sort_key f xs ! p"
    using assms by (simp add: placed_def sort_key_at_target)
qed

lemma placed_insert:
  assumes "placed f xs dst D" and "i < length xs" and "D \<subseteq> {..<length xs}"
  shows "placed f xs (dst[target f xs i := xs ! i]) (insert i D)"
proof -
  have "dst[target f xs i := xs ! i] ! target f xs j = xs ! j" if "j \<in> insert i D" for j
  proof (cases "j = i")
    case False
    then have "target f xs j \<noteq> target f xs i"
      using that assms inj_onD [OF target_inj, of f xs j i] by auto
    then show ?thesis using that False assms by (simp add: placed_def)
  qed (use assms target_less [of i xs f] in \<open>simp add: placed_def\<close>)
  then show ?thesis using assms by (simp add: placed_def)
qed

section \<open>The serial pass\<close>

lemma radix_byte_less [simp]: "radix_byte shift e < 256"
proof -
  have "drop_bit shift (pe_key_hash64 e) AND 0xFF = take_bit 8 (drop_bit shift (pe_key_hash64 e))"
    by (simp add: take_bit_eq_mask mask_eq_exp_minus_1)
  then show ?thesis
    unfolding radix_byte_def by (simp add: unsigned_take_bit_eq take_bit_nat_less_exp [of 8, simplified])
qed

lemma foldl_counts:
  assumes "lo \<le> hi" and "hi \<le> length src"
  shows "length (radix_count src shift lo hi) = 256 \<and> (\<forall>b < 256.
     radix_count src shift lo hi ! b + rank (radix_byte shift) src lo b = rank (radix_byte shift) src hi b)"
  using assms
proof (induction hi rule: dec_induct)
  case base
  then show ?case by (simp add: radix_count_def)
next
  case (step hi)
  then show ?case
    by (auto simp: radix_count_def Let_def rank_Suc nth_list_update)
qed

lemmas length_radix_count = foldl_counts [THEN conjunct1]
lemmas nth_radix_count = foldl_counts [THEN conjunct2, rule_format]

lemma radix_prefix_spec:
  assumes "length counts = 256" and "\<forall>b < 256. counts ! b = rank f xs (length xs) b"
  shows "length (radix_prefix counts) = 256 \<and> (\<forall>b < 256. radix_prefix counts ! b = before f xs b)"
proof -
  let ?fold = "\<lambda>n. foldl (\<lambda>prefix i. prefix[i := prefix ! (i - 1) + counts ! (i - 1)])
    (replicate 256 0) [1..<Suc n]"
  have "n < 256 \<Longrightarrow> length (?fold n) = 256 \<and> (\<forall>b \<le> n. ?fold n ! b = before f xs b)" for n
  proof (induction n)
    case 0
    then show ?case by simp
  next
    case (Suc n)
    then show ?case using assms(2)
      by (auto simp: before_Suc nth_list_update le_Suc_eq)
  qed
  from this [of 255] show ?thesis by (auto simp: radix_prefix_def)
qed

definition positions_at :: "(pending_entry \<Rightarrow> nat) \<Rightarrow> pending_entry list \<Rightarrow> nat list \<Rightarrow> nat \<Rightarrow> bool" where
  "positions_at f src ps i \<longleftrightarrow> length ps = 256 \<and> (\<forall>b < 256. ps ! b = before f src b + rank f src i b)"

lemma positions_at_target:
  "positions_at f src ps i \<Longrightarrow> f (src ! i) < 256 \<Longrightarrow> ps ! f (src ! i) = target f src i"
  by (simp add: positions_at_def target_def)

lemma positions_at_Suc:
  "positions_at f src ps i \<Longrightarrow> i < length src \<Longrightarrow> f (src ! i) < 256 \<Longrightarrow>
     positions_at f src (ps[f (src ! i) := ps ! f (src ! i) + 1]) (Suc i)"
  by (auto simp: positions_at_def rank_Suc nth_list_update)

lemma radix_scatter_spec:
  assumes "length dst = length src" and "positions_at (radix_byte shift) src prefix 0"
    and "n \<le> length src"
  shows "\<exists>dst' ps. foldl (radix_scatter_step src shift) (dst, prefix) [0..<n] = (dst', ps)
    \<and> placed (radix_byte shift) src dst' {..<n} \<and> positions_at (radix_byte shift) src ps n"
  using assms(3)
proof (induction n)
  case 0
  then show ?case using assms by (simp add: placed_def)
next
  case (Suc n)
  then obtain dst' ps where
    IH: "foldl (radix_scatter_step src shift) (dst, prefix) [0..<n] = (dst', ps)"
      "placed (radix_byte shift) src dst' {..<n}" "positions_at (radix_byte shift) src ps n"
    by auto
  have "ps ! radix_byte shift (src ! n) = target (radix_byte shift) src n"
    by (rule positions_at_target [OF IH(3)]) simp
  moreover have "placed (radix_byte shift) src
      (dst'[target (radix_byte shift) src n := src ! n]) (insert n {..<n})"
    by (rule placed_insert [OF IH(2)]) (use Suc in auto)
  moreover have "insert n {..<n} = {..<Suc n}" by auto
  moreover have "positions_at (radix_byte shift) src
      (ps[radix_byte shift (src ! n) := ps ! radix_byte shift (src ! n) + 1]) (Suc n)"
    by (rule positions_at_Suc [OF IH(3)]) (use Suc in auto)
  ultimately show ?case using IH(1) by (simp add: radix_scatter_step_def Let_def)
qed

lemma radix_pass_eq:
  assumes "length dst = length src"
  shows "radix_pass (src, dst) pass = (sort_key (radix_byte (pass * 8)) src, src)"
proof -
  let ?s = "pass * 8"
  let ?counts = "radix_count src ?s 0 (length src)"
  have "positions_at (radix_byte ?s) src (radix_prefix ?counts) 0"
    using radix_prefix_spec [of ?counts "radix_byte ?s" src] foldl_counts [of 0 "length src" src ?s]
    by (simp add: positions_at_def)
  then obtain dst' ps where
    "foldl (radix_scatter_step src ?s) (dst, radix_prefix ?counts) [0..<length src] = (dst', ps)"
    "placed (radix_byte ?s) src dst' {..<length src}"
    using radix_scatter_spec [OF assms] by blast
  then show ?thesis using placed_all by (simp add: radix_pass_def Let_def)
qed

section \<open>Eight passes\<close>

lemma sorted_lex:
  assumes "sorted (map g zs)" and "\<And>c. sorted (map f (filter (\<lambda>x. g x = c) zs))"
    and "\<And>x y. g x < g y \<or> g x = g y \<and> f x \<le> f y \<Longrightarrow> h x \<le> h y"
  shows "sorted (map h zs)"
  using assms(1,2)
proof (induction zs)
  case (Cons z zs)
  have "h z \<le> h y" if y: "y \<in> set zs" for y
  proof (cases "g z = g y")
    case True
    then show ?thesis using y Cons.prems(2) [of "g z"] by (auto intro!: assms(3))
  next
    case False
    then show ?thesis using y Cons.prems(1) by (auto intro!: assms(3))
  qed
  moreover have "sorted (map f (filter (\<lambda>x. g x = c) zs))" for c
    using Cons.prems(2) [of c] by (auto split: if_splits)
  ultimately show ?case using Cons by auto
qed simp

lemma sort_key_compose:
  fixes f :: "'a \<Rightarrow> 'b::linorder" and g :: "'a \<Rightarrow> 'c::linorder" and h :: "'a \<Rightarrow> 'd::linorder"
  assumes "\<And>x y. h x \<le> h y \<longleftrightarrow> g x < g y \<or> g x = g y \<and> f x \<le> f y"
  shows "sort_key g (sort_key f xs) = sort_key h xs"
proof (rule sort_keyI)
  let ?zs = "sort_key g (sort_key f xs)"
  have eq: "h x = h y \<longleftrightarrow> g x = g y \<and> f x = f y" for x y
    by (metis assms antisym_conv3 order_refl order_antisym_conv less_asym')
  show "mset ?zs = mset xs" by simp
  show "sorted (map h ?zs)"
  proof (rule sorted_lex [of g _ f])
    show "sorted (map f (filter (\<lambda>x. g x = c) ?zs))" for c
      by (simp add: sort_key_stable sorted_filter)
  qed (auto simp: assms)
  fix c
  show "filter (\<lambda>x. h x = c) ?zs = filter (\<lambda>x. h x = c) xs"
  proof (cases "\<exists>z. h z = c")
    case True
    then obtain z where "c = h z" by blast
    then have split: "filter (\<lambda>x. h x = c) ys = filter (\<lambda>x. f x = f z) (filter (\<lambda>x. g x = g z) ys)"
      and swap: "filter (\<lambda>x. f x = f z) (filter (\<lambda>x. g x = g z) ys)
        = filter (\<lambda>x. g x = g z) (filter (\<lambda>x. f x = f z) ys)" for ys
      by (auto simp: eq filter_filter intro: filter_cong)
    show ?thesis
      by (simp only: split sort_key_stable) (simp only: swap sort_key_stable)
  qed simp
qed

definition low_digits :: "nat \<Rightarrow> pending_entry \<Rightarrow> nat" where
  "low_digits k e = unat (pe_key_hash64 e) mod 256 ^ k"

lemma radix_byte_digit: "radix_byte (k * 8) e = unat (pe_key_hash64 e) div 256 ^ k mod 256"
proof -
  have "drop_bit (k * 8) (pe_key_hash64 e) AND 0xFF = take_bit 8 (drop_bit (k * 8) (pe_key_hash64 e))"
    by (simp add: take_bit_eq_mask mask_eq_exp_minus_1)
  moreover have "(256 :: nat) ^ k = 2 ^ (k * 8)"
    using power_mult [of "2 :: nat" 8 k] by (simp add: mult.commute)
  moreover have "unat (take_bit 8 (drop_bit (k * 8) (pe_key_hash64 e)))
      = take_bit 8 (drop_bit (k * 8) (unat (pe_key_hash64 e)))"
    by (simp only: unsigned_take_bit_eq unat_drop_bit_eq)
  ultimately show ?thesis
    unfolding radix_byte_def by (simp only: take_bit_eq_mod drop_bit_eq_div) simp
qed

lemma low_digits_Suc:
  "low_digits (Suc k) e = 256 ^ k * radix_byte (k * 8) e + low_digits k e"
proof -
  have "unat (pe_key_hash64 e) mod (256 ^ k * 256)
      = 256 ^ k * (unat (pe_key_hash64 e) div 256 ^ k mod 256) + unat (pe_key_hash64 e) mod 256 ^ k"
    by (rule mod_mult2_eq)
  then show ?thesis by (simp add: low_digits_def radix_byte_digit mult.commute)
qed

lemma lex_digits:
  fixes a b c d B :: nat
  assumes "c < B" and "d < B"
  shows "B * a + c \<le> B * b + d \<longleftrightarrow> a < b \<or> a = b \<and> c \<le> d"
proof (cases a b rule: linorder_cases)
  case less
  then have "B * Suc a \<le> B * b" by (intro mult_le_mono2) simp
  with less assms show ?thesis by simp
next
  case greater
  then have "B * Suc b \<le> B * a" by (intro mult_le_mono2) simp
  with greater assms show ?thesis by simp
qed simp

lemma radix_digit_step:
  "sort_key (radix_byte (k * 8)) (sort_key (low_digits k) xs) = sort_key (low_digits (Suc k)) xs"
proof (rule sort_key_compose)
  fix x y
  have "low_digits k x < 256 ^ k" "low_digits k y < 256 ^ k" by (simp_all add: low_digits_def)
  then show "low_digits (Suc k) x \<le> low_digits (Suc k) y \<longleftrightarrow>
      radix_byte (k * 8) x < radix_byte (k * 8) y \<or>
      radix_byte (k * 8) x = radix_byte (k * 8) y \<and> low_digits k x \<le> low_digits k y"
    unfolding low_digits_Suc by (rule lex_digits)
qed

lemma sort_key_low_digits_8: "sort_key (low_digits 8) xs = sort_key pe_key_hash64 xs"
proof (rule sort_keyI)
  have eq: "low_digits 8 e = unat (pe_key_hash64 e)" for e
    using unsigned_less [of "pe_key_hash64 e", where ?'a = nat] by (simp add: low_digits_def)
  then have "low_digits 8 = (\<lambda>e. unat (pe_key_hash64 e))" by auto
  then show "sorted (map pe_key_hash64 (sort_key (low_digits 8) xs))"
    using sorted_sort_key [of "low_digits 8" xs]
    by (simp add: sorted_map word_le_nat_alt)
  fix c
  have "(\<lambda>x. pe_key_hash64 x = c) = (\<lambda>x. low_digits 8 x = unat c)" by (auto simp: eq word_unat_eq_iff)
  then show "filter (\<lambda>x. pe_key_hash64 x = c) (sort_key (low_digits 8) xs)
      = filter (\<lambda>x. pe_key_hash64 x = c) xs"
    by (simp add: sort_key_stable)
qed simp

text \<open>Any pass that is the stable sort by its byte gives, eight times, the sort by the hash.\<close>

lemma eight_passes:
  assumes pass: "\<And>src dst p. length src = length xs \<Longrightarrow> length dst = length xs \<Longrightarrow> p < 8 \<Longrightarrow>
      pass (src, dst) p = (sort_key (radix_byte (p * 8)) src, src)"
    and "length scratch = length xs"
  shows "fst (foldl pass (xs, scratch) [0..<8]) = sort_key pe_key_hash64 xs"
proof -
  have "n \<le> 8 \<Longrightarrow> fst (foldl pass (xs, scratch) [0..<n]) = sort_key (low_digits n) xs
      \<and> length (snd (foldl pass (xs, scratch) [0..<n])) = length xs" for n
  proof (induction n)
    case 0
    have "low_digits 0 = (\<lambda>_. 0)" by (simp add: low_digits_def fun_eq_iff)
    then show ?case using assms(2) by (simp add: sort_key_const)
  next
    case (Suc n)
    then obtain dst where "foldl pass (xs, scratch) [0..<n] = (sort_key (low_digits n) xs, dst)"
      "length dst = length xs" by (cases "foldl pass (xs, scratch) [0..<n]") auto
    then show ?case using Suc.prems by (simp add: pass radix_digit_step)
  qed
  from this [of 8] show ?thesis by (simp add: sort_key_low_digits_8)
qed

lemma radix_sort_data_eq:
  "length scratch = length xs \<Longrightarrow> radix_sort_data scratch xs = sort_key pe_key_hash64 xs"
  unfolding radix_sort_data_def by (rule eight_passes) (simp_all add: radix_pass_eq)

interpretation radix_sorter:
  stable_sorter "\<lambda>xs. radix_sort_data (replicate (length xs) blank_pending) xs" pe_key_hash64 "\<lambda>_. True"
  by unfold_locales (simp_all add: radix_sort_data_eq sort_key_stable)

section \<open>The threads\<close>

text \<open>The prefix sums over buckets and workers give each worker the target of its first elements.\<close>

lemma assign_bucket_spec:
  assumes "assign_bucket b wp cs = (cs', wp')"
  shows "length cs' = length cs \<and> wp' = wp + (\<Sum>c\<leftarrow>cs. rw_local_counts c ! b) \<and>
    (\<forall>i < length cs. cs' ! i = (cs ! i)\<lparr>rw_write_positions :=
       (rw_write_positions (cs ! i))[b := wp + (\<Sum>c\<leftarrow>take i cs. rw_local_counts c ! b)]\<rparr>)"
  using assms
proof (induction cs arbitrary: wp cs' wp')
  case Nil
  then show ?case by simp
next
  case (Cons c cs)
  obtain ds t where ds: "assign_bucket b (wp + rw_local_counts c ! b) cs = (ds, t)" by fastforce
  with Cons.prems have eq: "cs' = c\<lparr>rw_write_positions := (rw_write_positions c)[b := wp]\<rparr> # ds" "wp' = t"
    by auto
  show ?case using Cons.IH [OF ds] unfolding eq by (auto simp: nth_Cons' take_Cons' add.assoc)
qed

definition worker_start :: "nat \<Rightarrow> nat \<Rightarrow> nat \<Rightarrow> nat" where
  "worker_start n workers w = w * (n div workers)"

lemma worker_start_le_end: "w < workers \<Longrightarrow> worker_start n workers w \<le> worker_range_end n workers w"
proof -
  assume "w < workers"
  then have "w * (n div workers) \<le> workers * (n div workers)" by (intro mult_le_mono1) simp
  also have "\<dots> \<le> n" by simp
  finally show ?thesis by (auto simp: worker_start_def worker_range_end_def)
qed

lemma worker_range_end_le: "w < workers \<Longrightarrow> worker_range_end n workers w \<le> n"
proof -
  assume "w < workers"
  then have "(w + 1) * (n div workers) \<le> workers * (n div workers)" by (intro mult_le_mono1) simp
  also have "\<dots> \<le> n" by simp
  finally show ?thesis by (simp add: worker_range_end_def)
qed

lemma worker_range_next:
  "w + 1 < workers \<Longrightarrow> worker_range_end n workers w = worker_start n workers (w + 1)"
  by (simp add: worker_range_end_def worker_start_def)

lemma worker_ranges_cover:
  assumes "0 < workers"
  shows "(\<Union>w < workers. {worker_start n workers w..<worker_range_end n workers w}) = {..<n}"
proof -
  have "w \<le> workers \<Longrightarrow> (\<Union>v < w. {worker_start n workers v..<worker_range_end n workers v})
      = {..<if w = workers then n else worker_start n workers w}" for w
  proof (induction w)
    case 0
    then show ?case using assms by (simp add: worker_start_def)
  next
    case (Suc w)
    have "worker_range_end n workers w = (if Suc w = workers then n else worker_start n workers (Suc w))"
      using worker_range_next [of w workers n] Suc.prems by (auto simp: worker_range_end_def)
    then show ?case
      using Suc worker_start_le_end [of w workers n]
      by (auto simp: lessThan_Suc)
  qed
  from this [of workers] show ?thesis by simp
qed

lemma sum_worker_counts:
  assumes "w \<le> workers" and "0 < workers" and "b < 256"
  shows "(\<Sum>c\<leftarrow>map (count_worker src shift workers) [0..<w]. rw_local_counts c ! b)
    = rank (radix_byte shift) src
        (if w = workers then length src else worker_start (length src) workers w) b"
  using assms(1)
proof (induction w)
  case 0
  then show ?case using assms(2) by (simp add: worker_start_def)
next
  case (Suc w)
  let ?n = "length src"
  let ?lo = "worker_start ?n workers w" and ?hi = "worker_range_end ?n workers w"
  have "?hi = (if Suc w = workers then ?n else worker_start ?n workers (Suc w))"
    using worker_range_next [of w workers ?n] Suc.prems by (auto simp: worker_range_end_def)
  moreover have "rw_local_counts (count_worker src shift workers w) ! b + rank (radix_byte shift) src ?lo b
      = rank (radix_byte shift) src ?hi b"
    using nth_radix_count [of ?lo ?hi src b shift] worker_start_le_end [of w workers ?n]
      worker_range_end_le [of w workers ?n] Suc.prems assms(3)
    by (simp add: count_worker_def worker_start_def Let_def)
  ultimately show ?case using Suc by simp
qed

lemma assign_positions_spec:
  assumes "\<forall>c \<in> set cs. length (rw_write_positions c) = 256"
  shows "length (assign_positions cs) = length cs \<and> (\<forall>i < length cs. \<exists>ps.
    assign_positions cs ! i = (cs ! i)\<lparr>rw_write_positions := ps\<rparr> \<and> length ps = 256 \<and>
    (\<forall>b < 256. ps ! b = (\<Sum>b' < b. \<Sum>c\<leftarrow>cs. rw_local_counts c ! b')
                          + (\<Sum>c\<leftarrow>take i cs. rw_local_counts c ! b)))"
proof -
  let ?fold = "\<lambda>n. foldl (\<lambda>(cs, running_total) bucket. assign_bucket bucket running_total cs) (cs, 0) [0..<n]"
  let ?total = "\<lambda>n. \<Sum>b' < n. \<Sum>c\<leftarrow>cs. rw_local_counts c ! b'"
  have "n \<le> 256 \<Longrightarrow> snd (?fold n) = ?total n \<and> length (fst (?fold n)) = length cs \<and>
    (\<forall>i < length cs. \<exists>ps. fst (?fold n) ! i = (cs ! i)\<lparr>rw_write_positions := ps\<rparr> \<and> length ps = 256 \<and>
      (\<forall>b < n. ps ! b = ?total b + (\<Sum>c\<leftarrow>take i cs. rw_local_counts c ! b)))" for n
  proof (induction n)
    case 0
    have "\<exists>ps. cs ! i = (cs ! i)\<lparr>rw_write_positions := ps\<rparr> \<and> length ps = 256" if "i < length cs" for i
      by (rule exI [of _ "rw_write_positions (cs ! i)"]) (use assms that in simp)
    then show ?case by auto
  next
    case (Suc n)
    obtain ds t where ds: "?fold n = (ds, t)" by fastforce
    obtain ds' t' where step: "assign_bucket n t ds = (ds', t')" by fastforce
    have IH: "t = ?total n" "length ds = length cs"
      "\<And>i. i < length cs \<Longrightarrow> \<exists>ps. ds ! i = (cs ! i)\<lparr>rw_write_positions := ps\<rparr> \<and> length ps = 256 \<and>
        (\<forall>b < n. ps ! b = ?total b + (\<Sum>c\<leftarrow>take i cs. rw_local_counts c ! b))"
      using Suc ds by auto
    have counts: "map rw_local_counts ds = map rw_local_counts cs"
      by (rule nth_equalityI) (use IH(2,3) in fastforce)+
    have sum_eq: "(\<Sum>c\<leftarrow>take i ds. rw_local_counts c ! n) = (\<Sum>c\<leftarrow>take i cs. rw_local_counts c ! n)" for i
      using arg_cong [OF counts, of "\<lambda>xs. map (\<lambda>c. c ! n) (take i xs)"]
      by (simp add: take_map o_def)
    have sum_all: "(\<Sum>c\<leftarrow>ds. rw_local_counts c ! n) = (\<Sum>c\<leftarrow>cs. rw_local_counts c ! n)"
      using sum_eq [of "length cs"] IH(2) by simp
    note spec = assign_bucket_spec [OF step]
    have "\<exists>ps. ds' ! i = (cs ! i)\<lparr>rw_write_positions := ps\<rparr> \<and> length ps = 256 \<and>
        (\<forall>b < Suc n. ps ! b = ?total b + (\<Sum>c\<leftarrow>take i cs. rw_local_counts c ! b))"
      if i: "i < length cs" for i
    proof -
      obtain ps where ps: "ds ! i = (cs ! i)\<lparr>rw_write_positions := ps\<rparr>" "length ps = 256"
        "\<forall>b < n. ps ! b = ?total b + (\<Sum>c\<leftarrow>take i cs. rw_local_counts c ! b)"
        using IH(3) [OF i] by blast
      then show ?thesis using spec i IH(1,2) Suc.prems sum_eq [of i]
        by (intro exI [of _ "ps[n := t + (\<Sum>c\<leftarrow>take i cs. rw_local_counts c ! n)]"])
          (auto simp: nth_list_update less_Suc_eq)
    qed
    then show ?case using ds step spec IH sum_all by simp
  qed
  from this [of 256] show ?thesis by (simp add: assign_positions_def)
qed

text \<open>
  The state of a scatter phase: every worker is inside its range with the targets of its next
  elements in its write positions, and the elements below the cursors are in place.
\<close>

definition scatter_inv :: "nat \<Rightarrow> pending_entry list \<Rightarrow> nat \<Rightarrow> pending_entry list \<Rightarrow> radix_worker list \<Rightarrow> bool"
  where
  "scatter_inv shift src workers dst cs \<longleftrightarrow>
     length cs = workers \<and>
     (\<forall>w < workers.
        rw_range_end (cs ! w) = worker_range_end (length src) workers w \<and>
        worker_start (length src) workers w \<le> rw_cursor (cs ! w) \<and>
        rw_cursor (cs ! w) \<le> rw_range_end (cs ! w) \<and>
        positions_at (radix_byte shift) src (rw_write_positions (cs ! w)) (rw_cursor (cs ! w))) \<and>
     placed (radix_byte shift) src dst
       (\<Union>w < workers. {worker_start (length src) workers w..<rw_cursor (cs ! w)})"

lemma scatter_inv_initial:
  assumes "0 < workers" and "length dst = length src"
  shows "scatter_inv shift src workers dst
    (assign_positions (map (count_worker src shift workers) [0..<workers]))"
proof -
  let ?f = "radix_byte shift" and ?n = "length src"
  let ?cs = "map (count_worker src shift workers) [0..<workers]"
  have "\<forall>c \<in> set ?cs. length (rw_write_positions c) = 256"
    by (simp add: count_worker_def Let_def)
  note spec = assign_positions_spec [OF this]
  have below: "(\<Sum>b' < b. \<Sum>c\<leftarrow>?cs. rw_local_counts c ! b') = before ?f src b" if "b \<le> 256" for b
    using that
  proof (induction b)
    case (Suc b)
    then show ?case
      using sum_worker_counts [of workers workers b src shift] assms(1) by (simp add: before_Suc)
  qed simp
  have "rw_range_end (assign_positions ?cs ! w) = worker_range_end ?n workers w \<and>
      rw_cursor (assign_positions ?cs ! w) = worker_start ?n workers w \<and>
      positions_at ?f src (rw_write_positions (assign_positions ?cs ! w)) (worker_start ?n workers w)"
    if w: "w < workers" for w
  proof -
    obtain ps where ps: "assign_positions ?cs ! w = (?cs ! w)\<lparr>rw_write_positions := ps\<rparr>"
      "length ps = 256"
      "\<forall>b < 256. ps ! b = (\<Sum>b' < b. \<Sum>c\<leftarrow>?cs. rw_local_counts c ! b')
         + (\<Sum>c\<leftarrow>take w ?cs. rw_local_counts c ! b)"
      using spec w by auto
    have "positions_at ?f src ps (worker_start ?n workers w)"
      using ps(2,3) w below sum_worker_counts [of w workers _ src shift] assms(1)
      by (simp add: positions_at_def take_map)
    then show ?thesis using ps(1) w by (simp add: count_worker_def worker_start_def Let_def)
  qed
  then show ?thesis using spec assms worker_start_le_end
    by (simp add: scatter_inv_def placed_def)
qed

lemma scatter_inv_step:
  assumes inv: "scatter_inv shift src workers dst cs"
    and step: "scatter_worker_step src shift (dst, cs) w = (dst', cs')"
  shows "scatter_inv shift src workers dst' cs'"
proof (cases "w < length cs \<and> rw_cursor (cs ! w) < rw_range_end (cs ! w)")
  case False
  then show ?thesis using inv step by (auto simp: scatter_worker_step_def)
next
  case True
  let ?f = "radix_byte shift" and ?n = "length src"
  let ?c = "cs ! w"
  let ?i = "rw_cursor ?c"
  let ?ps = "rw_write_positions ?c"
  let ?done = "\<lambda>cs. \<Union>v < workers. {worker_start ?n workers v..<rw_cursor (cs ! v)}"
  have w: "w < workers" and len: "length cs = workers" using True inv by (auto simp: scatter_inv_def)
  have i: "?i < ?n" "worker_start ?n workers w \<le> ?i"
    using True inv w worker_range_end_le [of w workers ?n] by (auto simp: scatter_inv_def)
  have pos: "positions_at ?f src ?ps ?i" using inv w by (simp add: scatter_inv_def)
  have at: "?ps ! ?f (src ! ?i) = target ?f src ?i" by (rule positions_at_target [OF pos]) simp
  let ?c' = "?c\<lparr>rw_cursor := ?i + 1, rw_write_positions := ?ps[?f (src ! ?i) := ?ps ! ?f (src ! ?i) + 1]\<rparr>"
  have eq: "dst' = dst[target ?f src ?i := src ! ?i]" "cs' = cs[w := ?c']"
    using step True at by (simp_all add: scatter_worker_step_def Let_def)
  have "?done cs' = insert ?i (?done cs)"
    using w len i(2) unfolding eq by (auto simp: nth_list_update less_Suc_eq split: if_splits)
  moreover have "?done cs \<subseteq> {..<?n}"
    using inv worker_range_end_le [of _ workers ?n] by (fastforce simp: scatter_inv_def)
  ultimately have "placed ?f src dst' (?done cs')"
    using placed_insert [of ?f src dst "?done cs" ?i] inv i(1) unfolding eq by (simp add: scatter_inv_def)
  moreover have "positions_at ?f src (rw_write_positions ?c') (rw_cursor ?c')"
    using positions_at_Suc [OF pos i(1)] by simp
  ultimately show ?thesis using inv True w i unfolding eq
    by (auto simp: scatter_inv_def nth_list_update)
qed

lemma scatter_inv_run:
  "scatter_inv shift src workers dst cs \<Longrightarrow>
   foldl (scatter_worker_step src shift) (dst, cs) sched = (dst', cs') \<Longrightarrow>
   scatter_inv shift src workers dst' cs' \<and>
   (\<forall>w < workers. rw_cursor (cs' ! w)
      = min (rw_range_end (cs ! w)) (rw_cursor (cs ! w) + count_list sched w))"
proof (induction sched arbitrary: dst cs)
  case Nil
  then show ?case by (auto simp: scatter_inv_def)
next
  case (Cons v sched)
  obtain dst1 cs1 where step: "scatter_worker_step src shift (dst, cs) v = (dst1, cs1)" by fastforce
  have inv: "scatter_inv shift src workers dst1 cs1" by (rule scatter_inv_step [OF Cons.prems(1) step])
  have "rw_range_end (cs1 ! w) = rw_range_end (cs ! w) \<and>
      min (rw_range_end (cs ! w)) (rw_cursor (cs1 ! w) + k)
        = min (rw_range_end (cs ! w)) (rw_cursor (cs ! w) + (if v = w then Suc k else k))"
    if "w < workers" for w k
    using step Cons.prems(1) that
    by (auto simp: scatter_worker_step_def scatter_inv_def Let_def nth_list_update split: if_splits)
  then show ?case using Cons.IH [OF inv] Cons.prems(2) step by simp
qed

text \<open>
  \<open>pthread_join\<close> waits for every worker, so a schedule gives each worker as many steps as its
  range has elements, in any order.
\<close>

definition joins_all :: "(nat \<Rightarrow> nat list) \<Rightarrow> nat \<Rightarrow> nat \<Rightarrow> bool" where
  "joins_all schedule workers n \<longleftrightarrow> (\<forall>p < 8. \<forall>w < workers.
     worker_range_end n workers w - worker_start n workers w \<le> count_list (schedule p) w)"

lemma radix_pass_parallel_eq:
  assumes "0 < workers" and "length dst = length src" and "joins_all schedule workers (length src)"
    and "p < 8"
  shows "radix_pass_parallel schedule workers (src, dst) p = (sort_key (radix_byte (p * 8)) src, src)"
proof -
  let ?cs = "assign_positions (map (count_worker src (p * 8) workers) [0..<workers])"
  obtain dst' cs' where run: "foldl (scatter_worker_step src (p * 8)) (dst, ?cs) (schedule p) = (dst', cs')"
    by fastforce
  have inv0: "scatter_inv (p * 8) src workers dst ?cs" by (rule scatter_inv_initial [OF assms(1,2)])
  note fin = scatter_inv_run [OF inv0 run]
  have "rw_cursor (cs' ! w) = worker_range_end (length src) workers w" if w: "w < workers" for w
  proof -
    have "worker_start (length src) workers w \<le> rw_cursor (?cs ! w)"
      "rw_range_end (?cs ! w) = worker_range_end (length src) workers w"
      using inv0 w by (simp_all add: scatter_inv_def)
    moreover have "worker_range_end (length src) workers w - worker_start (length src) workers w
        \<le> count_list (schedule p) w"
      using assms(3,4) w by (simp add: joins_all_def)
    ultimately show ?thesis using fin w by auto
  qed
  then have cover: "(\<Union>w < workers. {worker_start (length src) workers w..<rw_cursor (cs' ! w)}) = {..<length src}"
    using worker_ranges_cover [OF assms(1), of "length src"] by simp
  have "placed (radix_byte (p * 8)) src dst'
      (\<Union>w < workers. {worker_start (length src) workers w..<rw_cursor (cs' ! w)})"
    using fin unfolding scatter_inv_def by blast
  then have "dst' = sort_key (radix_byte (p * 8)) src"
    unfolding cover by (rule placed_all)
  then show ?thesis using run by (simp add: radix_pass_parallel_def Let_def)
qed

lemma radix_sort_parallel_data_eq:
  assumes "0 < workers" and "length scratch = length xs" and "joins_all schedule workers (length xs)"
  shows "radix_sort_parallel_data schedule workers scratch xs = sort_key pe_key_hash64 xs"
  unfolding radix_sort_parallel_data_def
  by (rule eight_passes) (use assms in \<open>simp_all add: radix_pass_parallel_eq\<close>)

interpretation parallel_sorter:
  stable_sorter "\<lambda>xs. radix_sort_parallel_data schedule workers (replicate (length xs) blank_pending) xs"
    pe_key_hash64 "\<lambda>xs. 0 < workers \<and> joins_all schedule workers (length xs)"
  for schedule workers
  by unfold_locales (simp_all add: radix_sort_parallel_data_eq sort_key_stable)

section \<open>The sorting step of the encoder\<close>

definition schedule_fair :: "platform \<Rightarrow> nat \<Rightarrow> nat \<Rightarrow> bool" where
  "schedule_fair pf workers n \<longleftrightarrow> (2 \<le> workers \<and> 10000 \<le> n \<longrightarrow> (\<forall>k. joins_all (pf_schedule pf k) workers n))"

lemma pending_sort_result:
  assumes "pending_sort pf k workers xs = Inr (ys, k')" and "schedule_fair pf workers (length xs)"
  shows "ys = sort_key pe_key_hash64 xs"
proof (cases "length xs < 2")
  case True
  then have "sorted (map pe_key_hash64 xs)" by (cases xs; cases "tl xs") auto
  then show ?thesis using assms True by (simp add: pending_sort_def sort_key_id_if_sorted)
next
  case False
  then show ?thesis using assms
    by (auto simp: pending_sort_def pending_radix_sort_def radix_sort_serial_def radix_sort_parallel_def
        schedule_fair_def insertion_sorter.srt_eq_sort_key radix_sorter.srt_eq_sort_key
        parallel_sorter.srt_eq_sort_key outcome_simps split: if_splits)
qed

lemma pending_sort_generous:
  assumes "generous pf" and "schedule_fair pf workers (length xs)"
  shows "\<exists>k'. pending_sort pf k workers xs = Inr (sort_key pe_key_hash64 xs, k')"
proof -
  have "\<exists>ys k'. pending_sort pf k workers xs = Inr (ys, k')"
    using assms(1) by (auto simp: pending_sort_def pending_radix_sort_def radix_sort_serial_def
        radix_sort_parallel_def list_all_iff)
  then show ?thesis using pending_sort_result assms(2) by metis
qed

lemma pending_sort_fault:
  "pending_sort pf k workers xs = Inl e \<Longrightarrow> e = Fails W_OOM \<or> e = Fails W_INTERNAL"
  by (auto simp: pending_sort_def pending_radix_sort_def radix_sort_serial_def radix_sort_parallel_def
      outcome_simps split: if_splits)

end
