(* ===== verification/Writer.thy ===== *)
theory Writer
  imports Format Platform
begin

text \<open>
  The writer (\<open>src/writer/bc_hrbl_writer.c\<close>): a state machine that builds a forest of linked
  nodes in an arena. The arena is a list of nodes and a pointer is an index into it; \<open>None\<close> is
  the null pointer. An operation returns the boolean the code returns and the new state, or
  \<open>None\<close> where it would dereference a null pointer.

  \<open>hash\<close> stands for XXH3. A key argument is a null pointer with the length that came with it, or
  the bytes it points to. The value of a string is given by its bytes.
\<close>

section \<open>Nodes\<close>

text \<open>
  The fields the encoder reads of a node, and then the links. \<open>pl_bits\<close> is the 64-bit member of
  the union (a \<open>double\<close> as its bit pattern), \<open>pl_string_data\<close> and \<open>pl_string_length\<close> the
  string member; the kind says which is live.
\<close>

record payload =
  pl_kind :: kind
  pl_key_length :: u32
  pl_key_data :: "bytes option"
  pl_key_hash64 :: u64
  pl_cached_key_pool_offset :: u32
  pl_cached_string_pool_offset :: u32
  pl_bits :: u64
  pl_string_data :: "bytes option"
  pl_string_length :: u32

record node = payload +
  nd_child_count :: u32
  nd_parent :: "nat option"
  nd_first_child :: "nat option"
  nd_last_child :: "nat option"
  nd_next_sibling :: "nat option"

definition POOL_OFFSET_NONE :: u32 where
  "POOL_OFFSET_NONE = 0xFFFFFFFF"

record writer =
  w_nodes :: "node list"
  w_arena_requests :: nat
  w_worker_count :: nat
  w_deduplicate_strings :: bool
  w_root_first :: "nat option"
  w_root_last :: "nat option"
  w_root_count :: u32
  w_current_scope :: "nat option"
  w_error_flag :: bool
  w_last_error :: writer_error

datatype arg = Null nat | Data bytes

fun arg_length :: "arg \<Rightarrow> nat" where
  "arg_length (Null n) = n"
| "arg_length (Data bs) = length bs"

fun arg_bytes :: "arg \<Rightarrow> bytes" where
  "arg_bytes (Null n) = []"
| "arg_bytes (Data bs) = bs"

fun is_null :: "arg \<Rightarrow> bool" where
  "is_null (Null n) = True"
| "is_null (Data bs) = False"

section \<open>The arena\<close>

definition arena_request :: "platform \<Rightarrow> writer \<Rightarrow> nat \<Rightarrow> bool \<times> writer" where
  "arena_request pf w n =
     (pf_grants pf (w_arena_requests w) n, w\<lparr>w_arena_requests := w_arena_requests w + 1\<rparr>)"

definition fail_flag :: "writer \<Rightarrow> writer" where
  "fail_flag w = w\<lparr>w_error_flag := True\<rparr>"

text \<open>A copy of the bytes; an empty string has none and is a null pointer. \<open>None\<close> is failure.\<close>

definition writer_arena_clone :: "platform \<Rightarrow> writer \<Rightarrow> bytes \<Rightarrow> bytes option option \<times> writer" where
  "writer_arena_clone pf w data =
     (if length data = 0 then (Some None, w)
      else let (ok, w) = arena_request pf w (length data)
           in if \<not> ok then (None, w) else (Some (Some data), w))"

definition fresh_node :: node where
  "fresh_node = \<lparr>pl_kind = K_NULL, pl_key_length = 0, pl_key_data = None, pl_key_hash64 = 0,
     pl_cached_key_pool_offset = POOL_OFFSET_NONE, pl_cached_string_pool_offset = POOL_OFFSET_NONE,
     pl_bits = 0, pl_string_data = None, pl_string_length = 0, nd_child_count = 0, nd_parent = None,
     nd_first_child = None, nd_last_child = None, nd_next_sibling = None\<rparr>"

text \<open>88 is \<open>sizeof(bc_hrbl_writer_node_t)\<close>.\<close>

definition writer_alloc_node :: "platform \<Rightarrow> writer \<Rightarrow> nat option \<times> writer" where
  "writer_alloc_node pf w =
     (let (ok, w) = arena_request pf w 88
      in if \<not> ok then (None, fail_flag w)
         else (Some (length (w_nodes w)), w\<lparr>w_nodes := w_nodes w @ [fresh_node]\<rparr>))"

definition update_node :: "nat \<Rightarrow> (node \<Rightarrow> node) \<Rightarrow> writer \<Rightarrow> writer" where
  "update_node i f w = w\<lparr>w_nodes := (w_nodes w)[i := f (w_nodes w ! i)]\<rparr>"

text \<open>A store through a pointer the code does not test.\<close>

definition update_through :: "nat option \<Rightarrow> (node \<Rightarrow> node) \<Rightarrow> writer \<Rightarrow> writer option" where
  "update_through p f w = map_option (\<lambda>i. update_node i f w) p"

definition writer_set_key :: "(bytes \<Rightarrow> u64) \<Rightarrow> platform \<Rightarrow> writer \<Rightarrow> nat \<Rightarrow> arg \<Rightarrow> bool \<times> writer" where
  "writer_set_key hash pf w node key =
     (if is_null key \<and> arg_length key \<noteq> 0 then (False, w)
      else if arg_length key > UINT32_MAX then (False, w)
      else case writer_arena_clone pf w (arg_bytes key) of
        (None, w) \<Rightarrow> (False, w)
      | (Some clone, w) \<Rightarrow>
          (True, update_node node (\<lambda>n. n\<lparr>pl_key_data := clone, pl_key_length := of_nat (arg_length key),
                   pl_key_hash64 := hash (arg_bytes key)\<rparr>) w))"

definition writer_optional_key ::
    "(bytes \<Rightarrow> u64) \<Rightarrow> platform \<Rightarrow> writer \<Rightarrow> nat \<Rightarrow> arg \<Rightarrow> bool \<Rightarrow> bool \<times> writer" where
  "writer_optional_key hash pf w node key wanted =
     (if wanted then writer_set_key hash pf w node key else (True, w))"

section \<open>Scopes\<close>

definition writer_append_to_scope :: "writer \<Rightarrow> nat \<Rightarrow> writer option" where
  "writer_append_to_scope w node =
     (case w_current_scope w of
        None \<Rightarrow>
          let w = update_node node (\<lambda>n. n\<lparr>nd_parent := None\<rparr>) w
          in map_option (\<lambda>w. w\<lparr>w_root_last := Some node, w_root_count := w_root_count w + 1\<rparr>)
               (if w_root_first w = None then Some (w\<lparr>w_root_first := Some node\<rparr>)
                else update_through (w_root_last w) (\<lambda>n. n\<lparr>nd_next_sibling := Some node\<rparr>) w)
      | Some scope \<Rightarrow>
          let w = update_node node (\<lambda>n. n\<lparr>nd_parent := Some scope\<rparr>) w
          in map_option (update_node scope (\<lambda>n. n\<lparr>nd_last_child := Some node, nd_child_count := nd_child_count n + 1\<rparr>))
               (if nd_first_child (w_nodes w ! scope) = None
                then Some (update_node scope (\<lambda>n. n\<lparr>nd_first_child := Some node\<rparr>) w)
                else update_through (nd_last_child (w_nodes w ! scope)) (\<lambda>n. n\<lparr>nd_next_sibling := Some node\<rparr>) w))"

definition writer_expect_keyed_scope :: "writer \<Rightarrow> bool" where
  "writer_expect_keyed_scope w =
     (case w_current_scope w of None \<Rightarrow> True | Some scope \<Rightarrow> pl_kind (w_nodes w ! scope) = K_BLOCK)"

definition writer_expect_indexed_scope :: "writer \<Rightarrow> bool" where
  "writer_expect_indexed_scope w =
     (case w_current_scope w of None \<Rightarrow> False | Some scope \<Rightarrow> pl_kind (w_nodes w ! scope) = K_ARRAY)"

text \<open>136 is \<open>sizeof(bc_hrbl_writer_t)\<close>; the second request creates the arena.\<close>

definition writer_create :: "platform \<Rightarrow> (nat \<times> bool) option \<Rightarrow> writer option" where
  "writer_create pf options =
     (if \<not> pf_grants pf 0 136 then None
      else if \<not> pf_grants pf 1 (256 * 1024) then None
      else Some \<lparr>w_nodes = [], w_arena_requests = 2,
             w_worker_count = (case options of None \<Rightarrow> 0 | Some (worker_count, _) \<Rightarrow> worker_count),
             w_deduplicate_strings = (case options of None \<Rightarrow> True | Some (_, dedup) \<Rightarrow> dedup),
             w_root_first = None, w_root_last = None, w_root_count = 0, w_current_scope = None,
             w_error_flag = False, w_last_error = W_OK\<rparr>)"

section \<open>Leaves\<close>

definition writer_add_leaf ::
    "(bytes \<Rightarrow> u64) \<Rightarrow> platform \<Rightarrow> writer \<Rightarrow> arg \<Rightarrow> kind \<Rightarrow> bool \<Rightarrow> (bool \<times> writer) option" where
  "writer_add_leaf hash pf w key k require_key =
     (if w_error_flag w then Some (False, w)
      else if require_key \<and> \<not> writer_expect_keyed_scope w then Some (False, fail_flag w)
      else if \<not> require_key \<and> \<not> writer_expect_indexed_scope w then Some (False, fail_flag w)
      else case writer_alloc_node pf w of
        (None, w) \<Rightarrow> Some (False, w)
      | (Some node, w) \<Rightarrow>
          let w = update_node node (\<lambda>n. n\<lparr>pl_kind := k\<rparr>) w;
              (ok, w) = writer_optional_key hash pf w node key require_key
          in if \<not> ok then Some (False, fail_flag w)
             else map_option (\<lambda>w. (True, w)) (writer_append_to_scope w node))"

text \<open>The node just added: \<open>root_last\<close>, or the last child of the current scope.\<close>

definition last_added :: "writer \<Rightarrow> nat option" where
  "last_added w =
     (case w_current_scope w of None \<Rightarrow> w_root_last w | Some scope \<Rightarrow> nd_last_child (w_nodes w ! scope))"

definition then_store :: "(bool \<times> writer) option \<Rightarrow> (node \<Rightarrow> node) \<Rightarrow> (bool \<times> writer) option" where
  "then_store r f =
     (case r of
        None \<Rightarrow> None
      | Some (ok, w) \<Rightarrow>
          if \<not> ok then Some (False, w)
          else map_option (\<lambda>w. (True, w)) (update_through (last_added w) f w))"

text \<open>The common end of the string operations: the clone of the value and its store.\<close>

definition then_store_string :: "platform \<Rightarrow> (bool \<times> writer) option \<Rightarrow> bytes \<Rightarrow> (bool \<times> writer) option" where
  "then_store_string pf r data =
     (case r of
        None \<Rightarrow> None
      | Some (ok, w) \<Rightarrow>
          if \<not> ok then Some (False, w)
          else case writer_arena_clone pf w data of
            (None, w) \<Rightarrow> Some (False, fail_flag w)
          | (Some clone, w) \<Rightarrow>
              map_option (\<lambda>w. (True, w)) (update_through (last_added w)
                (\<lambda>n. n\<lparr>pl_string_data := clone, pl_string_length := of_nat (length data)\<rparr>) w))"

definition writer_set_null :: "(bytes \<Rightarrow> u64) \<Rightarrow> platform \<Rightarrow> writer \<Rightarrow> arg \<Rightarrow> (bool \<times> writer) option" where
  "writer_set_null hash pf w key = writer_add_leaf hash pf w key K_NULL True"

definition writer_set_bool :: "(bytes \<Rightarrow> u64) \<Rightarrow> platform \<Rightarrow> writer \<Rightarrow> arg \<Rightarrow> bool \<Rightarrow> (bool \<times> writer) option" where
  "writer_set_bool hash pf w key b = writer_add_leaf hash pf w key (if b then K_TRUE else K_FALSE) True"

definition writer_set_int64 :: "(bytes \<Rightarrow> u64) \<Rightarrow> platform \<Rightarrow> writer \<Rightarrow> arg \<Rightarrow> u64 \<Rightarrow> (bool \<times> writer) option" where
  "writer_set_int64 hash pf w key v =
     then_store (writer_add_leaf hash pf w key K_INT64 True) (\<lambda>n. n\<lparr>pl_bits := v\<rparr>)"

definition writer_set_uint64 :: "(bytes \<Rightarrow> u64) \<Rightarrow> platform \<Rightarrow> writer \<Rightarrow> arg \<Rightarrow> u64 \<Rightarrow> (bool \<times> writer) option" where
  "writer_set_uint64 hash pf w key v =
     then_store (writer_add_leaf hash pf w key K_UINT64 True) (\<lambda>n. n\<lparr>pl_bits := v\<rparr>)"

definition writer_set_float64 :: "(bytes \<Rightarrow> u64) \<Rightarrow> platform \<Rightarrow> writer \<Rightarrow> arg \<Rightarrow> u64 \<Rightarrow> (bool \<times> writer) option" where
  "writer_set_float64 hash pf w key v =
     then_store (writer_add_leaf hash pf w key K_FLOAT64 True) (\<lambda>n. n\<lparr>pl_bits := v\<rparr>)"

definition writer_set_string :: "(bytes \<Rightarrow> u64) \<Rightarrow> platform \<Rightarrow> writer \<Rightarrow> arg \<Rightarrow> bytes \<Rightarrow> (bool \<times> writer) option" where
  "writer_set_string hash pf w key data =
     (if length data > UINT32_MAX then Some (False, fail_flag w)
      else then_store_string pf (writer_add_leaf hash pf w key K_STRING True) data)"

definition writer_append_null :: "(bytes \<Rightarrow> u64) \<Rightarrow> platform \<Rightarrow> writer \<Rightarrow> (bool \<times> writer) option" where
  "writer_append_null hash pf w = writer_add_leaf hash pf w (Null 0) K_NULL False"

definition writer_append_bool :: "(bytes \<Rightarrow> u64) \<Rightarrow> platform \<Rightarrow> writer \<Rightarrow> bool \<Rightarrow> (bool \<times> writer) option" where
  "writer_append_bool hash pf w b = writer_add_leaf hash pf w (Null 0) (if b then K_TRUE else K_FALSE) False"

definition writer_append_int64 :: "(bytes \<Rightarrow> u64) \<Rightarrow> platform \<Rightarrow> writer \<Rightarrow> u64 \<Rightarrow> (bool \<times> writer) option" where
  "writer_append_int64 hash pf w v =
     then_store (writer_add_leaf hash pf w (Null 0) K_INT64 False) (\<lambda>n. n\<lparr>pl_bits := v\<rparr>)"

definition writer_append_uint64 :: "(bytes \<Rightarrow> u64) \<Rightarrow> platform \<Rightarrow> writer \<Rightarrow> u64 \<Rightarrow> (bool \<times> writer) option" where
  "writer_append_uint64 hash pf w v =
     then_store (writer_add_leaf hash pf w (Null 0) K_UINT64 False) (\<lambda>n. n\<lparr>pl_bits := v\<rparr>)"

definition writer_append_float64 :: "(bytes \<Rightarrow> u64) \<Rightarrow> platform \<Rightarrow> writer \<Rightarrow> u64 \<Rightarrow> (bool \<times> writer) option" where
  "writer_append_float64 hash pf w v =
     then_store (writer_add_leaf hash pf w (Null 0) K_FLOAT64 False) (\<lambda>n. n\<lparr>pl_bits := v\<rparr>)"

definition writer_append_string :: "(bytes \<Rightarrow> u64) \<Rightarrow> platform \<Rightarrow> writer \<Rightarrow> bytes \<Rightarrow> (bool \<times> writer) option" where
  "writer_append_string hash pf w data =
     (if length data > UINT32_MAX then Some (False, fail_flag w)
      else then_store_string pf (writer_add_leaf hash pf w (Null 0) K_STRING False) data)"

section \<open>Containers\<close>

definition writer_begin_container ::
    "(bytes \<Rightarrow> u64) \<Rightarrow> platform \<Rightarrow> writer \<Rightarrow> arg \<Rightarrow> kind \<Rightarrow> (bool \<times> writer) option" where
  "writer_begin_container hash pf w key k =
     (if w_error_flag w then Some (False, w)
      else let at_root = (w_current_scope w = None);
               in_block = (\<not> at_root \<and> pl_kind (w_nodes w ! the (w_current_scope w)) = K_BLOCK);
               in_array = (\<not> at_root \<and> pl_kind (w_nodes w ! the (w_current_scope w)) = K_ARRAY)
      in if in_array \<and> key \<noteq> Null 0 then Some (False, fail_flag w)
         else if \<not> in_array \<and> (at_root \<or> in_block) \<and> is_null key \<and> arg_length key \<noteq> 0
         then Some (False, fail_flag w)
         else case writer_alloc_node pf w of
           (None, w) \<Rightarrow> Some (False, w)
         | (Some node, w) \<Rightarrow>
             let w = update_node node (\<lambda>n. n\<lparr>pl_kind := k\<rparr>) w;
                 (ok, w) = writer_optional_key hash pf w node key ((at_root \<or> in_block) \<and> \<not> is_null key)
             in if \<not> ok then Some (False, fail_flag w)
                else map_option (\<lambda>w. (True, w\<lparr>w_current_scope := Some node\<rparr>)) (writer_append_to_scope w node))"

definition writer_end_container :: "writer \<Rightarrow> kind \<Rightarrow> bool \<times> writer" where
  "writer_end_container w expected_kind =
     (if w_error_flag w then (False, w)
      else case w_current_scope w of
        None \<Rightarrow> (False, fail_flag w)
      | Some scope \<Rightarrow>
          if pl_kind (w_nodes w ! scope) \<noteq> expected_kind then (False, fail_flag w)
          else (True, w\<lparr>w_current_scope := nd_parent (w_nodes w ! scope)\<rparr>))"

definition writer_begin_block :: "(bytes \<Rightarrow> u64) \<Rightarrow> platform \<Rightarrow> writer \<Rightarrow> arg \<Rightarrow> (bool \<times> writer) option" where
  "writer_begin_block hash pf w key = writer_begin_container hash pf w key K_BLOCK"

definition writer_end_block :: "writer \<Rightarrow> bool \<times> writer" where
  "writer_end_block w = writer_end_container w K_BLOCK"

definition writer_begin_array :: "(bytes \<Rightarrow> u64) \<Rightarrow> platform \<Rightarrow> writer \<Rightarrow> arg \<Rightarrow> (bool \<times> writer) option" where
  "writer_begin_array hash pf w key = writer_begin_container hash pf w key K_ARRAY"

definition writer_end_array :: "writer \<Rightarrow> bool \<times> writer" where
  "writer_end_array w = writer_end_container w K_ARRAY"

section \<open>What the encoder traverses\<close>

datatype tree = Tree (tr_payload: payload) (tr_children: "tree list")

text \<open>
  The forest reached by \<open>first_child\<close> and \<open>next_sibling\<close> from a node. The fuel bounds the
  number of links followed; the number of nodes is always enough (\<open>read_forest_wf\<close>).
\<close>

fun read_forest :: "nat \<Rightarrow> node list \<Rightarrow> nat option \<Rightarrow> tree list option" where
  "read_forest fuel nodes None = Some []"
| "read_forest 0 nodes (Some i) = None"
| "read_forest (Suc fuel) nodes (Some i) =
     (case read_forest fuel nodes (nd_first_child (nodes ! i)) of
        None \<Rightarrow> None
      | Some children \<Rightarrow>
          (case read_forest fuel nodes (nd_next_sibling (nodes ! i)) of
             None \<Rightarrow> None
           | Some siblings \<Rightarrow> Some (Tree (payload.truncate (nodes ! i)) children # siblings)))"

definition writer_forest :: "writer \<Rightarrow> tree list option" where
  "writer_forest w = read_forest (length (w_nodes w)) (w_nodes w) (w_root_first w)"

section \<open>Children\<close>

text \<open>The children of a node, or the roots for \<open>None\<close>, in the order of their allocation.\<close>

definition kids :: "node list \<Rightarrow> nat option \<Rightarrow> nat list" where
  "kids nodes p = filter (\<lambda>i. nd_parent (nodes ! i) = p) [0..<length nodes]"

definition first_of :: "nat list \<Rightarrow> nat option" where
  "first_of xs = (case xs of [] \<Rightarrow> None | x # _ \<Rightarrow> Some x)"

definition last_of :: "nat list \<Rightarrow> nat option" where
  "last_of xs = (if xs = [] then None else Some (last xs))"

definition is_container :: "node \<Rightarrow> bool" where
  "is_container n \<longleftrightarrow> pl_kind n = K_BLOCK \<or> pl_kind n = K_ARRAY"

definition wf_links :: "node list \<Rightarrow> bool" where
  "wf_links nodes \<longleftrightarrow> (\<forall>i < length nodes.
     (\<forall>j. nd_parent (nodes ! i) = Some j \<longrightarrow> j < i \<and> is_container (nodes ! j)) \<and>
     nd_first_child (nodes ! i) = first_of (kids nodes (Some i)) \<and>
     nd_last_child (nodes ! i) = last_of (kids nodes (Some i)) \<and>
     nd_child_count (nodes ! i) = of_nat (length (kids nodes (Some i))) \<and>
     nd_next_sibling (nodes ! i) = first_of (filter (\<lambda>j. i < j) (kids nodes (nd_parent (nodes ! i)))))"

lemma in_kids: "i \<in> set (kids nodes p) \<longleftrightarrow> i < length nodes \<and> nd_parent (nodes ! i) = p"
  by (auto simp: kids_def)

lemma sorted_kids: "sorted_wrt (<) (kids nodes p)"
  unfolding kids_def by (rule sorted_wrt_filter) simp

lemma kids_append:
  assumes "length nodes' = Suc (length nodes)"
    and "\<And>i. i < length nodes \<Longrightarrow> nd_parent (nodes' ! i) = nd_parent (nodes ! i)"
  shows "kids nodes' p = kids nodes p @ (if nd_parent (nodes' ! length nodes) = p then [length nodes] else [])"
proof -
  have "filter (\<lambda>i. nd_parent (nodes' ! i) = p) [0..<length nodes] = filter (\<lambda>i. nd_parent (nodes ! i) = p) [0..<length nodes]"
    by (rule filter_cong) (simp_all add: assms(2))
  then show ?thesis by (simp add: kids_def assms(1))
qed

lemma wf_links_kid: "wf_links nodes \<Longrightarrow> i \<in> set (kids nodes (Some j)) \<Longrightarrow> j < i"
  by (auto simp: wf_links_def in_kids)

section \<open>The forest as a value\<close>

text \<open>\<open>above p i\<close>: index \<open>i\<close> can be a child of \<open>p\<close>; well-formed links satisfy it.\<close>

definition above :: "nat option \<Rightarrow> nat \<Rightarrow> bool" where
  "above p i \<longleftrightarrow> (case p of None \<Rightarrow> True | Some j \<Rightarrow> j < i)"

function forest_of :: "node list \<Rightarrow> nat option \<Rightarrow> tree list" where
  "forest_of nodes p = map (\<lambda>i. Tree (payload.truncate (nodes ! i)) (forest_of nodes (Some i)))
     (filter (above p) (kids nodes p))"
  by pat_completeness auto
termination
  by (relation "measure (\<lambda>(nodes, p). case p of None \<Rightarrow> Suc (length nodes) | Some j \<Rightarrow> length nodes - j)")
    (auto simp: in_kids above_def split: option.splits)

declare forest_of.simps [simp del]

lemma filter_above: "wf_links nodes \<Longrightarrow> filter (above p) (kids nodes p) = kids nodes p"
  by (cases p) (auto simp: filter_id_conv above_def dest: wf_links_kid)

lemma forest_of_wf: "wf_links nodes \<Longrightarrow>
    forest_of nodes p = map (\<lambda>i. Tree (payload.truncate (nodes ! i)) (forest_of nodes (Some i))) (kids nodes p)"
  by (subst forest_of.simps) (simp add: filter_above)

text \<open>
  Traversing the links from a child of \<open>p\<close> gives the trees of that child and of the younger ones.
\<close>

lemma sorted_split:
  assumes "sorted_wrt (<) (xs :: nat list)" and "x \<in> set xs"
  shows "filter (\<lambda>y. x \<le> y) xs = x # filter (\<lambda>y. x < y) xs"
  using assms
proof (induction xs)
  case (Cons a xs)
  show ?case
  proof (cases "a = x")
    case True
    then have "filter (\<lambda>y. x \<le> y) xs = filter (\<lambda>y. x < y) xs"
      using Cons.prems(1) by (intro filter_cong) auto
    then show ?thesis using True by simp
  next
    case False
    then show ?thesis using Cons by auto
  qed
qed simp

lemma first_of_Nil [simp]: "first_of [] = None"
  by (simp add: first_of_def)

lemma first_of_eq_Some: "first_of xs = Some x \<longleftrightarrow> (\<exists>ys. xs = x # ys)"
  by (cases xs) (auto simp: first_of_def)

lemma first_of_eq_None: "first_of xs = None \<longleftrightarrow> xs = []"
  by (cases xs) (auto simp: first_of_def)

lemma first_of_kids:
  assumes "wf_links nodes" and "first_of (filter P (kids nodes p)) = Some k"
  shows "k < length nodes" and "nd_parent (nodes ! k) = p" and "P k"
    and "filter (\<lambda>j. k \<le> j) (filter P (kids nodes p)) = filter P (kids nodes p)"
proof -
  obtain ks where ks: "filter P (kids nodes p) = k # ks" using assms(2) by (auto simp: first_of_eq_Some)
  then have "k \<in> set (filter P (kids nodes p))" by simp
  then show "k < length nodes" "nd_parent (nodes ! k) = p" "P k" by (simp_all add: in_kids)
  have "sorted_wrt (<) (filter P (kids nodes p))" by (rule sorted_wrt_filter) (rule sorted_kids)
  then show "filter (\<lambda>j. k \<le> j) (filter P (kids nodes p)) = filter P (kids nodes p)"
    unfolding ks by (auto simp: filter_id_conv intro: less_imp_le)
qed

lemma read_forest_from:
  "wf_links nodes \<Longrightarrow> (\<forall>i. start = Some i \<longrightarrow> i < length nodes \<and> length nodes - i \<le> fuel) \<Longrightarrow>
    read_forest fuel nodes start = Some (case start of None \<Rightarrow> []
      | Some i \<Rightarrow> map (\<lambda>j. Tree (payload.truncate (nodes ! j)) (forest_of nodes (Some j)))
          (filter (\<lambda>j. i \<le> j) (kids nodes (nd_parent (nodes ! i)))))"
proof (induction fuel nodes start rule: read_forest.induct)
  case (3 fuel nodes i)
  let ?t = "\<lambda>j. Tree (payload.truncate (nodes ! j)) (forest_of nodes (Some j))"
  have i: "i < length nodes" "length nodes - i \<le> Suc fuel" using 3(4) by auto
  have first: "nd_first_child (nodes ! i) = first_of (filter (\<lambda>_. True) (kids nodes (Some i)))"
    and sibling: "nd_next_sibling (nodes ! i) = first_of (filter (\<lambda>j. i < j) (kids nodes (nd_parent (nodes ! i))))"
    using 3(3) i(1) by (simp_all add: wf_links_def)
  have "read_forest fuel nodes (nd_first_child (nodes ! i)) = Some (forest_of nodes (Some i))"
  proof (cases "nd_first_child (nodes ! i)")
    case None
    then show ?thesis using first by (simp add: forest_of_wf [OF 3(3), of "Some i"] first_of_eq_None)
  next
    case (Some k)
    note k = first_of_kids [OF 3(3) first [symmetric, unfolded Some]]
    have "k \<in> set (kids nodes (Some i))" using k(1,2) by (simp add: in_kids)
    then have "i < k" using wf_links_kid [OF 3(3)] by blast
    then have "\<forall>j. nd_first_child (nodes ! i) = Some j \<longrightarrow> j < length nodes \<and> length nodes - j \<le> fuel"
      using k(1) i Some by auto
    from 3(1) [OF 3(3) this] show ?thesis
      using k(2,4) by (simp add: Some forest_of_wf [OF 3(3), of "Some i"])
  qed
  moreover have "read_forest fuel nodes (nd_next_sibling (nodes ! i)) = Some (map ?t (filter (\<lambda>j. i < j) (kids nodes (nd_parent (nodes ! i)))))"
  proof (cases "nd_next_sibling (nodes ! i)")
    case None
    then show ?thesis using sibling by (simp add: first_of_eq_None)
  next
    case (Some k)
    note k = first_of_kids [OF 3(3) sibling [symmetric, unfolded Some]]
    have ge: "filter (\<lambda>j. k \<le> j) (kids nodes (nd_parent (nodes ! i))) = filter (\<lambda>j. i < j) (kids nodes (nd_parent (nodes ! i)))"
    proof -
      have "filter (\<lambda>j. k \<le> j) (kids nodes (nd_parent (nodes ! i)))
          = filter (\<lambda>j. k \<le> j) (filter (\<lambda>j. i < j) (kids nodes (nd_parent (nodes ! i))))"
        unfolding filter_filter by (rule filter_cong) (use k(3) in auto)
      then show ?thesis using k(4) by simp
    qed
    have "\<forall>j. nd_next_sibling (nodes ! i) = Some j \<longrightarrow> j < length nodes \<and> length nodes - j \<le> fuel"
      using k(1,3) i Some by auto
    from 3(2) [OF \<open>read_forest fuel nodes (nd_first_child (nodes ! i)) = _\<close> 3(3) this] show ?thesis
      using k(2) ge by (simp add: Some)
  qed
  moreover have "filter (\<lambda>j. i \<le> j) (kids nodes (nd_parent (nodes ! i))) = i # filter (\<lambda>j. i < j) (kids nodes (nd_parent (nodes ! i)))"
    using i(1) by (intro sorted_split sorted_kids) (simp add: in_kids)
  ultimately show ?case by simp
qed auto

section \<open>Well-formed writers\<close>

text \<open>
  \<open>spine nodes p path\<close>: starting below \<open>p\<close>, \<open>path\<close> goes down the youngest children, which are
  containers. The open scopes of a writer are a spine from the roots to the current scope.
\<close>

fun spine :: "node list \<Rightarrow> nat option \<Rightarrow> nat list \<Rightarrow> bool" where
  "spine nodes p [] = True"
| "spine nodes p (c # path) \<longleftrightarrow> kids nodes p \<noteq> [] \<and> c = last (kids nodes p) \<and> is_container (nodes ! c)
     \<and> spine nodes (Some c) path"

definition wf_writer :: "writer \<Rightarrow> bool" where
  "wf_writer w \<longleftrightarrow> wf_links (w_nodes w) \<and>
     w_root_first w = first_of (kids (w_nodes w) None) \<and>
     w_root_last w = last_of (kids (w_nodes w) None) \<and>
     w_root_count w = of_nat (length (kids (w_nodes w) None)) \<and>
     (\<exists>path. spine (w_nodes w) None path \<and> w_current_scope w = last_of path)"

lemma read_forest_wf:
  assumes "wf_writer w"
  shows "writer_forest w = Some (forest_of (w_nodes w) None)"
proof -
  have wf: "wf_links (w_nodes w)" and first: "w_root_first w = first_of (filter (\<lambda>_. True) (kids (w_nodes w) None))"
    using assms by (simp_all add: wf_writer_def)
  show ?thesis
  proof (cases "w_root_first w")
    case None
    then show ?thesis using first by (simp add: writer_forest_def forest_of_wf [OF wf, of None] first_of_eq_None)
  next
    case (Some k)
    note k = first_of_kids [OF wf first [symmetric, unfolded Some]]
    have "\<forall>j. w_root_first w = Some j \<longrightarrow> j < length (w_nodes w) \<and> length (w_nodes w) - j \<le> length (w_nodes w)"
      using k(1) Some by auto
    from read_forest_from [OF wf this] show ?thesis
      using k(2,4) by (simp add: writer_forest_def Some forest_of_wf [OF wf, of None])
  qed
qed

section \<open>Appending below the spine\<close>

fun insert_at :: "nat \<Rightarrow> tree list \<Rightarrow> tree \<Rightarrow> tree list" where
  "insert_at 0 f t = f @ [t]"
| "insert_at (Suc d) f t =
     butlast f @ [Tree (tr_payload (last f)) (insert_at d (tr_children (last f)) t)]"

definition grows :: "node list \<Rightarrow> node list \<Rightarrow> bool" where
  "grows nodes nodes' \<longleftrightarrow> length nodes' = Suc (length nodes) \<and>
     (\<forall>i < length nodes. nd_parent (nodes' ! i) = nd_parent (nodes ! i) \<and>
        payload.truncate (nodes' ! i) = payload.truncate (nodes ! i))"

lemma spine_elements:
  "wf_links nodes \<Longrightarrow> spine nodes p path \<Longrightarrow> x \<in> set path \<Longrightarrow> x < length nodes \<and> above p x \<and>
     (x = hd path \<and> nd_parent (nodes ! x) = p \<or> (\<exists>y \<in> set path. nd_parent (nodes ! x) = Some y))"
proof (induction path arbitrary: p)
  case (Cons c path)
  have c: "c \<in> set (kids nodes p)" using Cons.prems(2) by auto
  have cp: "c < length nodes" "nd_parent (nodes ! c) = p" using c by (simp_all add: in_kids)
  have "above p c" using wf_links_kid [OF Cons.prems(1)] c by (cases p) (auto simp: above_def)
  show ?case
  proof (cases "x = c")
    case False
    then have "x < length nodes \<and> above (Some c) x \<and> (x = hd path \<and> nd_parent (nodes ! x) = Some c \<or> (\<exists>y \<in> set path. nd_parent (nodes ! x) = Some y))"
      using Cons by auto
    then show ?thesis using \<open>above p c\<close> by (auto simp: above_def split: option.splits)
  qed (use cp \<open>above p c\<close> in simp)
qed simp

text \<open>A subtree without the scope keeps its value.\<close>

lemma forest_of_unaffected:
  assumes wf: "wf_links nodes" and grows: "grows nodes nodes'"
    and path: "spine nodes p path" and parent: "nd_parent (nodes' ! length nodes) = (if path = [] then p else Some (last path))"
  shows "i \<notin> set path \<Longrightarrow> p \<noteq> Some i \<Longrightarrow> above p i \<Longrightarrow> i < length nodes \<Longrightarrow>
    forest_of nodes' (Some i) = forest_of nodes (Some i)"
proof (induction "length nodes - i" arbitrary: i rule: less_induct)
  case less
  have not_scope: "nd_parent (nodes' ! length nodes) \<noteq> Some i" using less.prems parent by auto
  have kids: "kids nodes' (Some i) = kids nodes (Some i)"
    using kids_append [of nodes' nodes "Some i"] grows not_scope by (auto simp: grows_def)
  have "forest_of nodes' (Some k) = forest_of nodes (Some k) \<and> payload.truncate (nodes' ! k) = payload.truncate (nodes ! k)"
    if k: "k \<in> set (filter (above (Some i)) (kids nodes (Some i)))" for k
  proof
    have k': "k < length nodes" "nd_parent (nodes ! k) = Some i" "i < k" using k by (auto simp: in_kids above_def)
    have "k \<notin> set path"
      using spine_elements [OF wf path, of k] k'(2) less.prems(1,2) by auto
    moreover have "above p k" "p \<noteq> Some k" using less.prems(3) k'(3) by (auto simp: above_def split: option.splits)
    ultimately show "forest_of nodes' (Some k) = forest_of nodes (Some k)" using less.hyps [of k] k' by auto
    show "payload.truncate (nodes' ! k) = payload.truncate (nodes ! k)" using grows k'(1) by (simp add: grows_def)
  qed
  then show ?case
    by (subst (1 2) forest_of.simps) (simp add: kids)
qed

lemma forest_of_grow:
  assumes wf: "wf_links nodes" and grows: "grows nodes nodes'"
  shows "spine nodes p path \<Longrightarrow> nd_parent (nodes' ! length nodes) = (if path = [] then p else Some (last path)) \<Longrightarrow>
    (\<forall>j. p = Some j \<longrightarrow> j < length nodes) \<Longrightarrow>
    forest_of nodes' p = insert_at (length path) (forest_of nodes p) (Tree (payload.truncate (nodes' ! length nodes)) [])"
proof (induction path arbitrary: p)
  case Nil
  let ?n = "length nodes"
  have kids: "kids nodes' p = kids nodes p @ [?n]"
    using kids_append [of nodes' nodes p] grows Nil(2) by (simp add: grows_def)
  have above: "above p ?n" using Nil(3) by (auto simp: above_def split: option.split)
  have "forest_of nodes' (Some ?n) = []"
    using grows by (subst forest_of.simps) (auto simp: filter_empty_conv in_kids above_def grows_def)
  moreover have "Tree (payload.truncate (nodes' ! i)) (forest_of nodes' (Some i)) = Tree (payload.truncate (nodes ! i)) (forest_of nodes (Some i))"
    if "i \<in> set (filter (above p) (kids nodes p))" for i
  proof -
    have "i < ?n" "above p i" using that by (simp_all add: in_kids)
    moreover from this have "p \<noteq> Some i" by (auto simp: above_def)
    ultimately show ?thesis
      using forest_of_unaffected [OF wf grows Nil(1,2), of i] grows by (simp add: grows_def)
  qed
  ultimately show ?case
    by (subst (1 2) forest_of.simps) (simp add: kids above)
next
  case (Cons c path)
  let ?n = "length nodes" and ?K = "kids nodes p"
  let ?T = "\<lambda>nodes i. Tree (payload.truncate (nodes ! i)) (forest_of nodes (Some i))"
  have K: "?K \<noteq> []" "c = last ?K" and rest: "spine nodes (Some c) path" using Cons.prems(1) by auto
  then have c: "c \<in> set ?K" by simp
  then have cn: "c < ?n" by (simp add: in_kids)
  have split: "?K = butlast ?K @ [c]" using K by simp
  have parent: "nd_parent (nodes' ! ?n) = (if path = [] then Some c else Some (last path))" using Cons.prems(2) by simp
  have scope: "last (c # path) \<in> set (c # path)" by (rule last_in_set) simp
  have "above p (last (c # path))" using spine_elements [OF wf Cons.prems(1) scope] by blast
  then have "nd_parent (nodes' ! ?n) \<noteq> p" using Cons.prems(2) by (auto simp: above_def split: option.splits if_splits)
  then have kids: "kids nodes' p = ?K"
    using kids_append [of nodes' nodes p] grows by (simp add: grows_def)
  have IH: "forest_of nodes' (Some c) = insert_at (length path) (forest_of nodes (Some c)) (Tree (payload.truncate (nodes' ! ?n)) [])"
    by (rule Cons.IH [OF rest parent]) (use cn in simp)
  have old: "?T nodes' i = ?T nodes i" if i: "i \<in> set (butlast ?K)" for i
  proof -
    have "sorted_wrt (<) (butlast ?K @ [c])" using sorted_kids [of nodes p] split by simp
    then have lt: "i < c" using i by (simp add: sorted_wrt_append)
    have iK: "i < ?n" "nd_parent (nodes ! i) = p" using in_set_butlastD [OF i] by (simp_all add: in_kids)
    have abv: "above p i" using wf_links_kid [OF wf] in_set_butlastD [OF i] by (cases p) (auto simp: above_def)
    have "i \<notin> set (c # path)"
    proof
      assume mem: "i \<in> set (c # path)"
      from spine_elements [OF wf Cons.prems(1) mem] obtain y where y: "y \<in> set (c # path)" "p = Some y"
        using lt iK(2) by auto
      from spine_elements [OF wf Cons.prems(1) y(1)] show False using y(2) by (auto simp: above_def)
    qed
    moreover have "p \<noteq> Some i" using abv by (auto simp: above_def)
    ultimately show ?thesis
      using forest_of_unaffected [OF wf grows Cons.prems(1) Cons.prems(2), of i] abv iK grows
      by (simp add: grows_def)
  qed
  have "filter (above p) ?K = ?K" by (rule filter_above [OF wf])
  then have new: "forest_of nodes' p = map (?T nodes') ?K" and before: "forest_of nodes p = map (?T nodes) ?K"
    by (simp_all add: forest_of.simps [of nodes' p] forest_of.simps [of nodes p] kids)
  have "map (?T nodes') ?K = map (?T nodes) (butlast ?K) @ [Tree (payload.truncate (nodes ! c)) (forest_of nodes' (Some c))]"
    by (subst split) (use old grows cn in \<open>simp add: grows_def\<close>)
  moreover have "butlast (forest_of nodes p) = map (?T nodes) (butlast ?K)" "last (forest_of nodes p) = ?T nodes c"
    unfolding before using K by (simp_all add: map_butlast last_map)
  ultimately show ?case using new IH by simp
qed

section \<open>Linking a new node\<close>

lemma truncate_kind: "payload.truncate m = payload.truncate n \<Longrightarrow> pl_kind m = pl_kind n"
  by (cases m, cases n) (simp add: payload.truncate_def)

definition fresh_links :: "node \<Rightarrow> bool" where
  "fresh_links n \<longleftrightarrow> nd_first_child n = None \<and> nd_last_child n = None \<and> nd_child_count n = 0 \<and> nd_next_sibling n = None"

text \<open>The links that change when the node at the end of the arena becomes the last child of \<open>p\<close>.\<close>

definition linked :: "node list \<Rightarrow> nat option \<Rightarrow> node list \<Rightarrow> bool" where
  "linked nodes p nodes' \<longleftrightarrow> grows nodes nodes' \<and> fresh_links (nodes' ! length nodes) \<and> nd_parent (nodes' ! length nodes) = p \<and>
     (\<forall>j < length nodes.
        nd_first_child (nodes' ! j) = (if p = Some j \<and> kids nodes p = [] then Some (length nodes) else nd_first_child (nodes ! j)) \<and>
        nd_last_child (nodes' ! j) = (if p = Some j then Some (length nodes) else nd_last_child (nodes ! j)) \<and>
        nd_child_count (nodes' ! j) = (if p = Some j then nd_child_count (nodes ! j) + 1 else nd_child_count (nodes ! j)) \<and>
        nd_next_sibling (nodes' ! j) = (if kids nodes p \<noteq> [] \<and> j = last (kids nodes p) then Some (length nodes) else nd_next_sibling (nodes ! j)))"

lemma linked_kids:
  "linked nodes p nodes' \<Longrightarrow> kids nodes' q = kids nodes q @ (if q = p then [length nodes] else [])"
  using kids_append [of nodes' nodes q] by (auto simp: linked_def grows_def)

lemma in_butlast: "x \<in> set xs \<Longrightarrow> x \<noteq> last xs \<Longrightarrow> x \<in> set (butlast xs)"
  by (induction xs) auto

lemma first_of_Cons [simp]: "first_of (x # xs) = Some x"
  by (simp add: first_of_def)

lemma younger_empty:
  assumes "j \<in> set (kids nodes p)"
  shows "filter (\<lambda>i. j < i) (kids nodes p) = [] \<longleftrightarrow> j = last (kids nodes p)"
proof
  have sorted: "sorted_wrt (<) (butlast (kids nodes p) @ [last (kids nodes p)])"
    using sorted_kids [of nodes p] assms by (metis append_butlast_last_id length_greater_0_conv length_pos_if_in_set)
  show "j = last (kids nodes p)" if "filter (\<lambda>i. j < i) (kids nodes p) = []"
  proof (rule ccontr)
    assume "j \<noteq> last (kids nodes p)"
    then have "j \<in> set (butlast (kids nodes p))" by (rule in_butlast [OF assms])
    then have "j < last (kids nodes p)" using sorted by (simp add: sorted_wrt_append)
    then show False using that assms by (metis filter_empty_conv last_in_set length_pos_if_in_set length_greater_0_conv)
  qed
  show "filter (\<lambda>i. j < i) (kids nodes p) = []" if j: "j = last (kids nodes p)"
    unfolding filter_empty_conv
  proof
    fix i assume "i \<in> set (kids nodes p)"
    then have "i \<in> set (butlast (kids nodes p) @ [last (kids nodes p)])"
      by (metis append_butlast_last_id length_greater_0_conv length_pos_if_in_set)
    then show "\<not> j < i" using sorted j by (auto simp: sorted_wrt_append)
  qed
qed

lemma first_of_append: "first_of (xs @ ys) = (if xs = [] then first_of ys else first_of xs)"
  by (cases xs) (simp_all add: first_of_def)

lemma wf_links_linked:
  assumes wf: "wf_links nodes" and linked: "linked nodes p nodes'"
    and p: "\<forall>s. p = Some s \<longrightarrow> s < length nodes \<and> is_container (nodes ! s)"
  shows "wf_links nodes'"
  unfolding wf_links_def
proof (intro allI impI)
  let ?n = "length nodes"
  fix i assume "i < length nodes'"
  then have i: "i < Suc ?n" using linked by (simp add: linked_def grows_def)
  note kids = linked_kids [OF linked]
  have container: "is_container (nodes' ! j)" if "j < ?n" "is_container (nodes ! j)" for j
    using linked that truncate_kind [of "nodes' ! j" "nodes ! j"] by (simp add: linked_def grows_def is_container_def)
  show "(\<forall>j. nd_parent (nodes' ! i) = Some j \<longrightarrow> j < i \<and> is_container (nodes' ! j)) \<and>
     nd_first_child (nodes' ! i) = first_of (kids nodes' (Some i)) \<and>
     nd_last_child (nodes' ! i) = last_of (kids nodes' (Some i)) \<and>
     nd_child_count (nodes' ! i) = of_nat (length (kids nodes' (Some i))) \<and>
     nd_next_sibling (nodes' ! i) = first_of (filter (\<lambda>j. i < j) (kids nodes' (nd_parent (nodes' ! i))))"
  proof (cases "i = ?n")
    case True
    have none: "kids nodes (Some ?n) = []" using wf by (auto simp: kids_def filter_empty_conv wf_links_def)
    have "p \<noteq> Some ?n" using p by auto
    moreover have "filter (\<lambda>j. ?n < j) (kids nodes' p) = []"
      unfolding kids by (auto simp: filter_empty_conv in_kids)
    ultimately show ?thesis
      using True p container linked none by (auto simp: linked_def fresh_links_def kids last_of_def)
  next
    case False
    then have lt: "i < ?n" using i by simp
    have same: "nd_parent (nodes' ! i) = nd_parent (nodes ! i)" using linked lt by (simp add: linked_def grows_def)
    have mem: "i \<in> set (kids nodes (nd_parent (nodes ! i)))" using lt by (simp add: in_kids)
    have young: "filter (\<lambda>j. i < j) (kids nodes' (nd_parent (nodes ! i))) =
        filter (\<lambda>j. i < j) (kids nodes (nd_parent (nodes ! i))) @ (if nd_parent (nodes ! i) = p then [?n] else [])"
      using lt by (simp add: kids)
    have last: "kids nodes p \<noteq> [] \<and> i = last (kids nodes p) \<longleftrightarrow> nd_parent (nodes ! i) = p \<and> filter (\<lambda>j. i < j) (kids nodes p) = []"
      using younger_empty [OF mem] mem by (metis in_kids last_in_set length_greater_0_conv length_pos_if_in_set younger_empty)
    have old: "nd_first_child (nodes ! i) = first_of (kids nodes (Some i))" "nd_last_child (nodes ! i) = last_of (kids nodes (Some i))"
      "nd_child_count (nodes ! i) = of_nat (length (kids nodes (Some i)))"
      "nd_next_sibling (nodes ! i) = first_of (filter (\<lambda>j. i < j) (kids nodes (nd_parent (nodes ! i))))"
      "\<And>j. nd_parent (nodes ! i) = Some j \<Longrightarrow> j < i \<and> is_container (nodes ! j)"
      using wf lt by (simp_all add: wf_links_def)
    have new: "nd_first_child (nodes' ! i) = (if p = Some i \<and> kids nodes p = [] then Some ?n else nd_first_child (nodes ! i))"
      "nd_last_child (nodes' ! i) = (if p = Some i then Some ?n else nd_last_child (nodes ! i))"
      "nd_child_count (nodes' ! i) = (if p = Some i then nd_child_count (nodes ! i) + 1 else nd_child_count (nodes ! i))"
      "nd_next_sibling (nodes' ! i) = (if kids nodes p \<noteq> [] \<and> i = last (kids nodes p) then Some ?n else nd_next_sibling (nodes ! i))"
      using linked lt by (simp_all add: linked_def)
    have "nd_next_sibling (nodes' ! i) = first_of (filter (\<lambda>j. i < j) (kids nodes' (nd_parent (nodes' ! i))))"
      unfolding same young first_of_append new(4) last old(4) by simp
    moreover have "nd_parent (nodes' ! i) = Some j \<Longrightarrow> j < i \<and> is_container (nodes' ! j)" for j
      using old(5) container [of j] lt unfolding same by auto
    moreover have "nd_first_child (nodes' ! i) = first_of (kids nodes' (Some i))"
      unfolding new(1) old(1) kids first_of_append by auto
    moreover have "nd_last_child (nodes' ! i) = last_of (kids nodes' (Some i))"
      unfolding new(2) old(2) kids by (simp add: last_of_def)
    moreover have "nd_child_count (nodes' ! i) = of_nat (length (kids nodes' (Some i)))"
      unfolding new(3) old(3) kids by simp
    ultimately show ?thesis by blast
  qed
qed

section \<open>Spines under the operations\<close>

abbreviation scope_of :: "nat option \<Rightarrow> nat list \<Rightarrow> nat option" where
  "scope_of p path \<equiv> (if path = [] then p else Some (last path))"

lemma linked_container:
  "linked nodes p nodes' \<Longrightarrow> i < length nodes \<Longrightarrow> is_container (nodes' ! i) = is_container (nodes ! i)"
  using truncate_kind [of "nodes' ! i" "nodes ! i"] by (simp add: linked_def grows_def is_container_def)

lemma spine_last:
  assumes "wf_links nodes" and "spine nodes p path" and "path \<noteq> []"
  shows "last path < length nodes" and "is_container (nodes ! last path)" and "above p (last path)" and "p \<noteq> Some (last path)"
proof -
  have mem: "last path \<in> set path" using assms(3) by simp
  note e = spine_elements [OF assms(1,2) mem]
  show "last path < length nodes" "above p (last path)" using e by blast+
  then show "p \<noteq> Some (last path)" by (auto simp: above_def)
  show "is_container (nodes ! last path)" using assms(2,3) by (induction path arbitrary: p) auto
qed

lemma spine_linked:
  assumes wf: "wf_links nodes"
  shows "spine nodes p path \<Longrightarrow> linked nodes (scope_of p path) nodes' \<Longrightarrow> spine nodes' p path"
proof (induction path arbitrary: p)
  case (Cons c path)
  have ne: "Some (last (c # path)) \<noteq> p" using spine_last(4) [OF wf Cons.prems(1)] by auto
  then have kids: "kids nodes' p = kids nodes p" using linked_kids [OF Cons.prems(2)] by auto
  have "c < length nodes" using Cons.prems(1) by (metis in_kids last_in_set spine.simps(2))
  moreover have "linked nodes (scope_of (Some c) path) nodes'" using Cons.prems(2) by (cases path) auto
  ultimately show ?case using Cons kids linked_container [OF Cons.prems(2)] by auto
qed simp

lemma spine_extend:
  assumes wf: "wf_links nodes" and n: "is_container (nodes' ! length nodes)"
  shows "spine nodes p path \<Longrightarrow> linked nodes (scope_of p path) nodes' \<Longrightarrow> spine nodes' p (path @ [length nodes])"
proof (induction path arbitrary: p)
  case Nil
  then show ?case using linked_kids [OF Nil(2), of p] n by simp
next
  case (Cons c path)
  have ne: "Some (last (c # path)) \<noteq> p" using spine_last(4) [OF wf Cons.prems(1)] by auto
  then have kids: "kids nodes' p = kids nodes p" using linked_kids [OF Cons.prems(2)] by auto
  have "c < length nodes" using Cons.prems(1) by (metis in_kids last_in_set spine.simps(2))
  moreover have "linked nodes (scope_of (Some c) path) nodes'" using Cons.prems(2) by (cases path) auto
  ultimately show ?case using Cons kids linked_container [OF Cons.prems(2)] by auto
qed

lemma spine_parent: "spine nodes p (path @ [c]) \<Longrightarrow> nd_parent (nodes ! c) = scope_of p path \<and> spine nodes p path"
proof (induction path arbitrary: p)
  case Nil
  then show ?case by (metis append_Nil in_kids last_in_set spine.simps)
qed (auto split: if_splits)

section \<open>Linking into a well-formed writer\<close>

text \<open>The writer \<open>w\<close> after the arena has given it the node \<open>nd\<close>.\<close>

definition with_node :: "writer \<Rightarrow> node \<Rightarrow> writer" where
  "with_node w nd = w\<lparr>w_nodes := w_nodes w @ [nd]\<rparr>"

lemma last_of_eq: "last_of xs = (if xs = [] then None else Some (last xs))"
  by (simp add: last_of_def)

text \<open>
  Everything a successful addition establishes, for a writer \<open>w\<close> that had the current scope
  and open path of the left-hand side.
\<close>

definition added :: "writer \<Rightarrow> node \<Rightarrow> writer \<Rightarrow> bool" where
  "added w nd w' \<longleftrightarrow> wf_writer w' \<and> linked (w_nodes w) (w_current_scope w) (w_nodes w') \<and>
     payload.truncate (w_nodes w' ! length (w_nodes w)) = payload.truncate nd \<and>
     w_current_scope w' = w_current_scope w \<and> last_added w' = Some (length (w_nodes w)) \<and>
     w_error_flag w' = w_error_flag w \<and> w_last_error w' = w_last_error w \<and> w_worker_count w' = w_worker_count w"

lemma truncate_links [simp]:
  "payload.truncate (n\<lparr>nd_parent := x\<rparr>) = payload.truncate n"
  "payload.truncate (n\<lparr>nd_next_sibling := x\<rparr>) = payload.truncate n"
  "payload.truncate (n\<lparr>nd_first_child := x\<rparr>) = payload.truncate n"
  "payload.truncate (n\<lparr>nd_last_child := x, nd_child_count := c\<rparr>) = payload.truncate n"
  by (simp_all add: payload.truncate_def)

lemma append_root:
  assumes wf: "wf_writer w" and nd: "fresh_links nd" and scope: "w_current_scope w = None"
  shows "\<exists>w'. writer_append_to_scope (with_node w nd) (length (w_nodes w)) = Some w' \<and> added w nd w' \<and> w_arena_requests w' = w_arena_requests w"
proof -
  let ?N = "w_nodes w" and ?K = "kids (w_nodes w) None"
  let ?n = "length ?N"
  have links: "wf_links ?N" and first: "w_root_first w = first_of ?K" and last: "w_root_last w = last_of ?K"
    and cnt: "w_root_count w = of_nat (length ?K)"
    using wf by (simp_all add: wf_writer_def)
  let ?N1 = "?N @ [nd\<lparr>nd_parent := None\<rparr>]"
  let ?N' = "if ?K = [] then ?N1 else ?N1[last ?K := (?N ! last ?K)\<lparr>nd_next_sibling := Some ?n\<rparr>]"
  let ?w' = "w\<lparr>w_nodes := ?N', w_root_first := (if ?K = [] then Some ?n else w_root_first w), w_root_last := Some ?n,
    w_root_count := w_root_count w + 1\<rparr>"
  have lastK: "last ?K < ?n" if "?K \<noteq> []" using that by (metis in_kids last_in_set)
  have "writer_append_to_scope (with_node w nd) ?n = Some ?w'"
    using scope first last lastK
    by (auto simp: writer_append_to_scope_def with_node_def update_node_def update_through_def Let_def last_of_eq
        first_of_eq_None nth_append)
  moreover have linked: "linked ?N None ?N'"
    using nd lastK by (auto simp: linked_def grows_def fresh_links_def nth_append nth_list_update)
  moreover have "wf_writer ?w'"
    using wf_links_linked [OF links linked] linked_kids [OF linked, of None] first cnt scope
    by (auto simp: wf_writer_def last_of_eq first_of_append intro!: exI [of _ "[]"])
  moreover have "payload.truncate (?N' ! ?n) = payload.truncate nd"
    using lastK by (auto simp: nth_append nth_list_update)
  ultimately show ?thesis using scope by (intro exI [of _ ?w']) (simp add: added_def last_added_def)
qed

lemma append_child:
  assumes wf: "wf_writer w" and nd: "fresh_links nd" and scope: "w_current_scope w = Some s"
  shows "\<exists>w'. writer_append_to_scope (with_node w nd) (length (w_nodes w)) = Some w' \<and> added w nd w' \<and> w_arena_requests w' = w_arena_requests w"
proof -
  let ?N = "w_nodes w" and ?K = "kids (w_nodes w) (Some s)"
  let ?n = "length ?N"
  obtain path where path: "spine ?N None path" "last_of path = Some s" using wf scope by (auto simp: wf_writer_def)
  then have pathne: "path \<noteq> []" "last path = s" by (auto simp: last_of_eq split: if_splits)
  have links: "wf_links ?N" and roots: "w_root_first w = first_of (kids ?N None)" "w_root_last w = last_of (kids ?N None)"
    "w_root_count w = of_nat (length (kids ?N None))"
    using wf by (simp_all add: wf_writer_def)
  have s: "s < ?n" "is_container (?N ! s)" using spine_last(1,2) [OF links path(1) pathne(1)] pathne(2) by simp_all
  have first: "nd_first_child (?N ! s) = first_of ?K" and last: "nd_last_child (?N ! s) = last_of ?K"
    using links s(1) by (simp_all add: wf_links_def)
  have lastK: "last ?K < ?n" "last ?K \<noteq> s" if "?K \<noteq> []"
    using that last_in_set [OF that] wf_links_kid [OF links, of "last ?K" s] by (auto simp: in_kids)
  let ?N1 = "?N @ [nd\<lparr>nd_parent := Some s\<rparr>]"
  let ?N2 = "if ?K = [] then ?N1[s := (?N ! s)\<lparr>nd_first_child := Some ?n\<rparr>]
             else ?N1[last ?K := (?N ! last ?K)\<lparr>nd_next_sibling := Some ?n\<rparr>]"
  let ?N' = "?N2[s := (?N2 ! s)\<lparr>nd_last_child := Some ?n, nd_child_count := nd_child_count (?N2 ! s) + 1\<rparr>]"
  let ?w' = "w\<lparr>w_nodes := ?N'\<rparr>"
  have "writer_append_to_scope (with_node w nd) ?n = Some ?w'"
    using scope first last lastK s
    by (auto simp: writer_append_to_scope_def with_node_def update_node_def update_through_def Let_def last_of_eq
        first_of_eq_None nth_append)
  moreover have linked: "linked ?N (Some s) ?N'"
    using nd lastK s by (auto simp: linked_def grows_def fresh_links_def nth_append nth_list_update)
  moreover have "wf_writer ?w'"
  proof -
    have "linked ?N (scope_of None path) ?N'" using linked pathne by simp
    from spine_linked [OF links path(1) this] have "spine ?N' None path" .
    moreover have "kids ?N' None = kids ?N None" using linked_kids [OF linked, of None] by simp
    moreover have "wf_links ?N'" by (rule wf_links_linked [OF links linked]) (use s in simp)
    ultimately show ?thesis using roots scope path by (auto simp: wf_writer_def)
  qed
  moreover have "payload.truncate (?N' ! ?n) = payload.truncate nd"
    using lastK s by (auto simp: nth_append nth_list_update)
  moreover have "nd_last_child (?N' ! s) = Some ?n" using s by simp
  ultimately show ?thesis using scope by (intro exI [of _ ?w']) (simp add: added_def last_added_def)
qed

lemma append_to_scope_added:
  assumes "wf_writer w" and "fresh_links nd"
  shows "\<exists>w'. writer_append_to_scope (with_node w nd) (length (w_nodes w)) = Some w' \<and> added w nd w' \<and> w_arena_requests w' = w_arena_requests w"
  using append_root [OF assms] append_child [OF assms] by (cases "w_current_scope w") auto

section \<open>The abstract builder\<close>

text \<open>
  What the writer builds, without links: a forest and the depth of the open scope on its spine.
\<close>

fun scope_kind :: "nat \<Rightarrow> tree list \<Rightarrow> kind option" where
  "scope_kind 0 f = None"
| "scope_kind (Suc 0) f = Some (pl_kind (tr_payload (last f)))"
| "scope_kind (Suc (Suc d)) f = scope_kind (Suc d) (tr_children (last f))"

definition builds :: "writer \<Rightarrow> tree list \<Rightarrow> nat \<Rightarrow> bool" where
  "builds w f d \<longleftrightarrow> wf_writer w \<and> f = forest_of (w_nodes w) None \<and>
     (\<exists>path. spine (w_nodes w) None path \<and> w_current_scope w = last_of path \<and> length path = d)"

lemma scope_kind_spine:
  "wf_links nodes \<Longrightarrow> spine nodes p path \<Longrightarrow> path \<noteq> [] \<Longrightarrow>
     scope_kind (length path) (forest_of nodes p) = Some (pl_kind (nodes ! last path))"
proof (induction path arbitrary: p)
  case (Cons c path)
  have "last (forest_of nodes p) = Tree (payload.truncate (nodes ! c)) (forest_of nodes (Some c))"
    using Cons.prems(2) by (subst forest_of_wf [OF Cons.prems(1)]) (simp add: last_map)
  then show ?case
    using Cons by (cases path) (auto simp: payload.truncate_def)
qed simp

lemma builds_added:
  assumes builds: "builds w f d" and added: "added w nd w'"
  shows "builds w' (insert_at d f (Tree (payload.truncate nd) [])) d"
proof -
  obtain path where path: "spine (w_nodes w) None path" "w_current_scope w = last_of path" "length path = d"
    and wf: "wf_writer w" and f: "f = forest_of (w_nodes w) None"
    using builds by (auto simp: builds_def)
  have links: "wf_links (w_nodes w)" using wf by (simp add: wf_writer_def)
  have linked: "linked (w_nodes w) (scope_of None path) (w_nodes w')"
    using added path(2) by (simp add: added_def last_of_eq)
  then have "grows (w_nodes w) (w_nodes w')" "nd_parent (w_nodes w' ! length (w_nodes w)) = scope_of None path"
    by (simp_all add: linked_def)
  from forest_of_grow [OF links this(1) path(1) this(2)]
  have "forest_of (w_nodes w') None = insert_at d f (Tree (payload.truncate nd) [])"
    using added path(3) f by (simp add: added_def)
  moreover have "spine (w_nodes w') None path" by (rule spine_linked [OF links path(1) linked])
  ultimately show ?thesis using added path by (auto simp: builds_def added_def)
qed

section \<open>Calls and their abstract effect\<close>

datatype leaf = L_null | L_bool bool | L_int64 u64 | L_uint64 u64 | L_float64 u64 | L_string bytes

datatype call = Set arg leaf | Append leaf | Begin_block arg | Begin_array arg | End_block | End_array

fun writer_set :: "(bytes \<Rightarrow> u64) \<Rightarrow> platform \<Rightarrow> writer \<Rightarrow> arg \<Rightarrow> leaf \<Rightarrow> (bool \<times> writer) option" where
  "writer_set hash pf w key L_null = writer_set_null hash pf w key"
| "writer_set hash pf w key (L_bool b) = writer_set_bool hash pf w key b"
| "writer_set hash pf w key (L_int64 v) = writer_set_int64 hash pf w key v"
| "writer_set hash pf w key (L_uint64 v) = writer_set_uint64 hash pf w key v"
| "writer_set hash pf w key (L_float64 v) = writer_set_float64 hash pf w key v"
| "writer_set hash pf w key (L_string s) = writer_set_string hash pf w key s"

fun writer_append :: "(bytes \<Rightarrow> u64) \<Rightarrow> platform \<Rightarrow> writer \<Rightarrow> leaf \<Rightarrow> (bool \<times> writer) option" where
  "writer_append hash pf w L_null = writer_append_null hash pf w"
| "writer_append hash pf w (L_bool b) = writer_append_bool hash pf w b"
| "writer_append hash pf w (L_int64 v) = writer_append_int64 hash pf w v"
| "writer_append hash pf w (L_uint64 v) = writer_append_uint64 hash pf w v"
| "writer_append hash pf w (L_float64 v) = writer_append_float64 hash pf w v"
| "writer_append hash pf w (L_string s) = writer_append_string hash pf w s"

fun writer_call :: "(bytes \<Rightarrow> u64) \<Rightarrow> platform \<Rightarrow> writer \<Rightarrow> call \<Rightarrow> (bool \<times> writer) option" where
  "writer_call hash pf w (Set key l) = writer_set hash pf w key l"
| "writer_call hash pf w (Append l) = writer_append hash pf w l"
| "writer_call hash pf w (Begin_block key) = writer_begin_block hash pf w key"
| "writer_call hash pf w (Begin_array key) = writer_begin_array hash pf w key"
| "writer_call hash pf w End_block = Some (writer_end_block w)"
| "writer_call hash pf w End_array = Some (writer_end_array w)"

fun leaf_kind :: "leaf \<Rightarrow> kind" where
  "leaf_kind L_null = K_NULL"
| "leaf_kind (L_bool b) = (if b then K_TRUE else K_FALSE)"
| "leaf_kind (L_int64 v) = K_INT64"
| "leaf_kind (L_uint64 v) = K_UINT64"
| "leaf_kind (L_float64 v) = K_FLOAT64"
| "leaf_kind (L_string s) = K_STRING"

definition stored :: "bytes \<Rightarrow> bytes option" where
  "stored s = (if s = [] then None else Some s)"

definition plain :: "kind \<Rightarrow> payload" where
  "plain k = (payload.truncate fresh_node)\<lparr>pl_kind := k\<rparr>"

definition keyed :: "(bytes \<Rightarrow> u64) \<Rightarrow> bytes \<Rightarrow> payload \<Rightarrow> payload" where
  "keyed hash key p = p\<lparr>pl_key_data := stored key, pl_key_length := of_nat (length key), pl_key_hash64 := hash key\<rparr>"

fun with_leaf :: "leaf \<Rightarrow> payload \<Rightarrow> payload" where
  "with_leaf (L_int64 v) p = p\<lparr>pl_bits := v\<rparr>"
| "with_leaf (L_uint64 v) p = p\<lparr>pl_bits := v\<rparr>"
| "with_leaf (L_float64 v) p = p\<lparr>pl_bits := v\<rparr>"
| "with_leaf (L_string s) p = p\<lparr>pl_string_data := stored s, pl_string_length := of_nat (length s)\<rparr>"
| "with_leaf _ p = p"

definition good_key :: "arg \<Rightarrow> bool" where
  "good_key key \<longleftrightarrow> (is_null key \<longrightarrow> arg_length key = 0) \<and> arg_length key \<le> UINT32_MAX"

definition good_leaf :: "leaf \<Rightarrow> bool" where
  "good_leaf l \<longleftrightarrow> (\<forall>s. l = L_string s \<longrightarrow> length s \<le> UINT32_MAX)"

definition opens_keyed :: "kind option \<Rightarrow> bool" where
  "opens_keyed scope \<longleftrightarrow> scope = None \<or> scope = Some K_BLOCK"

definition begin_payload :: "(bytes \<Rightarrow> u64) \<Rightarrow> kind option \<Rightarrow> arg \<Rightarrow> kind \<Rightarrow> payload" where
  "begin_payload hash scope key k =
     (if opens_keyed scope \<and> \<not> is_null key then keyed hash (arg_bytes key) (plain k) else plain k)"

definition begin_ok :: "kind option \<Rightarrow> arg \<Rightarrow> bool" where
  "begin_ok scope key \<longleftrightarrow> (if opens_keyed scope then good_key key else key = Null 0)"

text \<open>
  The effect of a call on the forest and the depth of the open scope; \<open>None\<close> is a call that is
  out of place or has an argument that is out of range.
\<close>

fun build_step :: "(bytes \<Rightarrow> u64) \<Rightarrow> tree list \<times> nat \<Rightarrow> call \<Rightarrow> (tree list \<times> nat) option" where
  "build_step hash (f, d) (Set key l) =
     (if opens_keyed (scope_kind d f) \<and> good_key key \<and> good_leaf l
      then Some (insert_at d f (Tree (with_leaf l (keyed hash (arg_bytes key) (plain (leaf_kind l)))) []), d) else None)"
| "build_step hash (f, d) (Append l) =
     (if scope_kind d f = Some K_ARRAY \<and> good_leaf l
      then Some (insert_at d f (Tree (with_leaf l (plain (leaf_kind l))) []), d) else None)"
| "build_step hash (f, d) (Begin_block key) =
     (if begin_ok (scope_kind d f) key
      then Some (insert_at d f (Tree (begin_payload hash (scope_kind d f) key K_BLOCK) []), Suc d) else None)"
| "build_step hash (f, d) (Begin_array key) =
     (if begin_ok (scope_kind d f) key
      then Some (insert_at d f (Tree (begin_payload hash (scope_kind d f) key K_ARRAY) []), Suc d) else None)"
| "build_step hash (f, d) End_block = (if scope_kind d f = Some K_BLOCK then Some (f, d - 1) else None)"
| "build_step hash (f, d) End_array = (if scope_kind d f = Some K_ARRAY then Some (f, d - 1) else None)"

section \<open>The steps of an addition\<close>

lemma wf_writer_requests [simp]:
  "wf_writer (w\<lparr>w_arena_requests := r\<rparr>) = wf_writer w"
  "builds (w\<lparr>w_arena_requests := r\<rparr>) f d = builds w f d"
  "added (w\<lparr>w_arena_requests := r\<rparr>) nd w' = added w nd w'"
  by (simp_all add: wf_writer_def builds_def added_def)

lemma update_with_node [simp]:
  "update_node (length (w_nodes w)) g (with_node w nd) = with_node w (g nd)"
  by (simp add: update_node_def with_node_def)

lemma with_node_requests [simp]:
  "(with_node w nd)\<lparr>w_arena_requests := r\<rparr> = with_node (w\<lparr>w_arena_requests := r\<rparr>) nd"
  "w_arena_requests (with_node w nd) = w_arena_requests w"
  "w_error_flag (with_node w nd) = w_error_flag w"
  by (simp_all add: with_node_def)

lemma alloc_node:
  "writer_alloc_node pf w = (None, fail_flag (w\<lparr>w_arena_requests := w_arena_requests w + 1\<rparr>)) \<and> \<not> generous pf
   \<or> writer_alloc_node pf w = (Some (length (w_nodes w)), with_node (w\<lparr>w_arena_requests := w_arena_requests w + 1\<rparr>) fresh_node)"
  by (auto simp: writer_alloc_node_def arena_request_def with_node_def generous_def)

lemma arena_clone:
  "\<exists>r. writer_arena_clone pf w data = (None, w\<lparr>w_arena_requests := r\<rparr>) \<and> \<not> generous pf
   \<or> writer_arena_clone pf w data = (Some (stored data), w\<lparr>w_arena_requests := r\<rparr>)"
proof (cases "data = []")
  case True
  then show ?thesis by (intro exI [of _ "w_arena_requests w"]) (simp add: writer_arena_clone_def stored_def)
next
  case False
  then show ?thesis by (intro exI [of _ "w_arena_requests w + 1"])
      (auto simp: writer_arena_clone_def stored_def arena_request_def generous_def)
qed

lemma set_key:
  "\<exists>r. writer_set_key hash pf (with_node w nd) (length (w_nodes w)) key = (False, with_node (w\<lparr>w_arena_requests := r\<rparr>) nd)
       \<and> \<not> (good_key key \<and> generous pf)
   \<or> writer_set_key hash pf (with_node w nd) (length (w_nodes w)) key =
       (True, with_node (w\<lparr>w_arena_requests := r\<rparr>) (nd\<lparr>pl_key_data := stored (arg_bytes key),
          pl_key_length := of_nat (length (arg_bytes key)), pl_key_hash64 := hash (arg_bytes key)\<rparr>)) \<and> good_key key"
proof (cases "good_key key")
  case False
  then have "writer_set_key hash pf (with_node w nd) (length (w_nodes w)) key = (False, with_node w nd)"
    by (auto simp: writer_set_key_def good_key_def)
  then show ?thesis using False by (intro exI [of _ "w_arena_requests w"]) simp
next
  case True
  then have len: "arg_length key = length (arg_bytes key)" by (cases key) (auto simp: good_key_def)
  obtain r where r: "writer_arena_clone pf (with_node w nd) (arg_bytes key) = (None, with_node (w\<lparr>w_arena_requests := r\<rparr>) nd) \<and> \<not> generous pf
     \<or> writer_arena_clone pf (with_node w nd) (arg_bytes key) = (Some (stored (arg_bytes key)), with_node (w\<lparr>w_arena_requests := r\<rparr>) nd)"
    using arena_clone [of pf "with_node w nd" "arg_bytes key"] by auto
  have upd: "update_node (length (w_nodes w)) g (with_node (w\<lparr>w_arena_requests := r\<rparr>) nd) = with_node (w\<lparr>w_arena_requests := r\<rparr>) (g nd)" for g
    using update_with_node [of "w\<lparr>w_arena_requests := r\<rparr>"] by simp
  show ?thesis using r True len upd
    by (intro exI [of _ r]) (auto simp: writer_set_key_def good_key_def)
qed

lemma expect_scopes:
  assumes "builds w f d"
  shows "writer_expect_keyed_scope w \<longleftrightarrow> opens_keyed (scope_kind d f)"
    and "writer_expect_indexed_scope w \<longleftrightarrow> scope_kind d f = Some K_ARRAY"
    and "scope_kind d f = map_option (\<lambda>s. pl_kind (w_nodes w ! s)) (w_current_scope w)"
    and "opens_keyed (scope_kind d f) \<longleftrightarrow> scope_kind d f \<noteq> Some K_ARRAY"
proof -
  obtain path where path: "spine (w_nodes w) None path" "w_current_scope w = last_of path" "length path = d"
    and wf: "wf_links (w_nodes w)" and f: "f = forest_of (w_nodes w) None"
    using assms by (auto simp: builds_def wf_writer_def)
  show eq: "scope_kind d f = map_option (\<lambda>s. pl_kind (w_nodes w ! s)) (w_current_scope w)"
  proof (cases "path = []")
    case True
    then show ?thesis using path by (simp add: last_of_eq)
  next
    case False
    then show ?thesis using scope_kind_spine [OF wf path(1) False] path(2,3) f by (simp add: last_of_eq)
  qed
  show "writer_expect_keyed_scope w \<longleftrightarrow> opens_keyed (scope_kind d f)"
    and "writer_expect_indexed_scope w \<longleftrightarrow> scope_kind d f = Some K_ARRAY"
    unfolding eq by (auto simp: writer_expect_keyed_scope_def writer_expect_indexed_scope_def opens_keyed_def split: option.split)
  show "opens_keyed (scope_kind d f) \<longleftrightarrow> scope_kind d f \<noteq> Some K_ARRAY"
    using spine_last(2) [OF wf path(1)] path(2) unfolding eq
    by (auto simp: opens_keyed_def last_of_eq is_container_def split: if_splits)
qed

lemma fresh_links_fresh_node [simp]: "fresh_links fresh_node"
  by (simp add: fresh_links_def fresh_node_def)

lemma fresh_links_payload [simp]:
  "fresh_links (nd\<lparr>pl_kind := k\<rparr>) = fresh_links nd"
  "fresh_links (nd\<lparr>pl_key_data := a, pl_key_length := b, pl_key_hash64 := c\<rparr>) = fresh_links nd"
  by (simp_all add: fresh_links_def)

lemma truncate_payload:
  "payload.truncate (nd\<lparr>pl_kind := k\<rparr>) = (payload.truncate nd)\<lparr>pl_kind := k\<rparr>"
  "payload.truncate (nd\<lparr>pl_key_data := a, pl_key_length := b, pl_key_hash64 := c\<rparr>)
     = (payload.truncate nd)\<lparr>pl_key_data := a, pl_key_length := b, pl_key_hash64 := c\<rparr>"
  by (simp_all add: payload.truncate_def)

lemma error_flag_fail [simp]: "w_error_flag (fail_flag w)"
  by (simp add: fail_flag_def)

text \<open>The part the leaves and the containers share: a node with its kind and perhaps its key.\<close>

definition new_node :: "(bytes \<Rightarrow> u64) \<Rightarrow> kind \<Rightarrow> arg option \<Rightarrow> node" where
  "new_node hash k key =
     (case key of None \<Rightarrow> fresh_node\<lparr>pl_kind := k\<rparr>
      | Some key \<Rightarrow> fresh_node\<lparr>pl_kind := k, pl_key_data := stored (arg_bytes key),
          pl_key_length := of_nat (length (arg_bytes key)), pl_key_hash64 := hash (arg_bytes key)\<rparr>)"

lemma new_node_facts:
  "fresh_links (new_node hash k key)"
  "payload.truncate (new_node hash k None) = plain k"
  "payload.truncate (new_node hash k (Some key')) = keyed hash (arg_bytes key') (plain k)"
  by (simp_all add: new_node_def plain_def keyed_def fresh_links_def fresh_node_def payload.truncate_def split: option.split)

lemma optional_key:
  "\<exists>r. writer_optional_key hash pf (with_node w (fresh_node\<lparr>pl_kind := k\<rparr>)) (length (w_nodes w)) key wanted
      = (False, with_node (w\<lparr>w_arena_requests := r\<rparr>) (fresh_node\<lparr>pl_kind := k\<rparr>)) \<and> \<not> ((wanted \<longrightarrow> good_key key) \<and> generous pf)
   \<or> writer_optional_key hash pf (with_node w (fresh_node\<lparr>pl_kind := k\<rparr>)) (length (w_nodes w)) key wanted
      = (True, with_node (w\<lparr>w_arena_requests := r\<rparr>) (new_node hash k (if wanted then Some key else None))) \<and> (wanted \<longrightarrow> good_key key)"
proof (cases wanted)
  case True
  then show ?thesis using set_key [of hash pf w "fresh_node\<lparr>pl_kind := k\<rparr>" key]
    by (simp add: new_node_def writer_optional_key_def)
next
  case False
  then show ?thesis by (intro exI [of _ "w_arena_requests w"]) (simp add: new_node_def writer_optional_key_def)
qed

lemma append_new_node:
  assumes "wf_writer w"
  shows "\<exists>w'. writer_append_to_scope (with_node (w\<lparr>w_arena_requests := r\<rparr>) (new_node hash k key)) (length (w_nodes w)) = Some w'
    \<and> added w (new_node hash k key) w'"
  using append_to_scope_added [of "w\<lparr>w_arena_requests := r\<rparr>" "new_node hash k key"] assms new_node_facts(1) by auto

text \<open>From the allocation to the link, as both kinds of addition do it.\<close>

definition add_node :: "(bytes \<Rightarrow> u64) \<Rightarrow> platform \<Rightarrow> writer \<Rightarrow> arg \<Rightarrow> kind \<Rightarrow> bool \<Rightarrow> (writer \<Rightarrow> nat \<Rightarrow> writer) \<Rightarrow> (bool \<times> writer) option" where
  "add_node hash pf w key k wanted finish =
     (case writer_alloc_node pf w of
        (None, w) \<Rightarrow> Some (False, w)
      | (Some node, w) \<Rightarrow>
          let w = update_node node (\<lambda>n. n\<lparr>pl_kind := k\<rparr>) w;
              (ok, w) = writer_optional_key hash pf w node key wanted
          in if \<not> ok then Some (False, fail_flag w)
             else map_option (\<lambda>w. (True, finish w node)) (writer_append_to_scope w node))"

lemma add_node:
  assumes wf: "wf_writer w"
  shows "(\<exists>w'. add_node hash pf w key k wanted finish = Some (False, w') \<and> w_error_flag w' \<and> \<not> ((wanted \<longrightarrow> good_key key) \<and> generous pf)) \<or>
    (\<exists>w'. add_node hash pf w key k wanted finish = Some (True, finish w' (length (w_nodes w))) \<and> (wanted \<longrightarrow> good_key key) \<and>
       added w (new_node hash k (if wanted then Some key else None)) w')"
proof -
  let ?w1 = "w\<lparr>w_arena_requests := Suc (w_arena_requests w)\<rparr>" and ?n = "length (w_nodes w)"
  have upd: "update_node ?n g (with_node ?w1 nd) = with_node ?w1 (g nd)" for g nd
    using update_with_node [of ?w1] by simp
  from alloc_node [of pf w, folded Suc_eq_plus1] show ?thesis
  proof
    assume "writer_alloc_node pf w = (None, fail_flag ?w1) \<and> \<not> generous pf"
    then show ?thesis by (simp add: add_node_def)
  next
    assume "writer_alloc_node pf w = (Some ?n, with_node ?w1 fresh_node)"
    then have step: "add_node hash pf w key k wanted finish =
      (case writer_optional_key hash pf (with_node ?w1 (fresh_node\<lparr>pl_kind := k\<rparr>)) ?n key wanted of
         (ok, w) \<Rightarrow> if \<not> ok then Some (False, fail_flag w)
           else map_option (\<lambda>w. (True, finish w ?n)) (writer_append_to_scope w ?n))"
      by (simp add: add_node_def upd Let_def)
    obtain r where "writer_optional_key hash pf (with_node ?w1 (fresh_node\<lparr>pl_kind := k\<rparr>)) ?n key wanted
        = (False, with_node (w\<lparr>w_arena_requests := r\<rparr>) (fresh_node\<lparr>pl_kind := k\<rparr>)) \<and> \<not> ((wanted \<longrightarrow> good_key key) \<and> generous pf)
      \<or> writer_optional_key hash pf (with_node ?w1 (fresh_node\<lparr>pl_kind := k\<rparr>)) ?n key wanted
        = (True, with_node (w\<lparr>w_arena_requests := r\<rparr>) (new_node hash k (if wanted then Some key else None))) \<and> (wanted \<longrightarrow> good_key key)"
      using optional_key [of hash pf ?w1 k key wanted] by auto
    moreover obtain w' where "writer_append_to_scope (with_node (w\<lparr>w_arena_requests := r\<rparr>)
        (new_node hash k (if wanted then Some key else None))) ?n = Some w'"
      "added w (new_node hash k (if wanted then Some key else None)) w'"
      using append_new_node [OF wf] by blast
    ultimately show ?thesis unfolding step by auto
  qed
qed

lemma add_leaf:
  fixes key :: arg and require_key :: bool
  assumes builds: "builds w f d" and flag: "\<not> w_error_flag w"
  defines "ok \<equiv> (if require_key then opens_keyed (scope_kind d f) \<and> good_key key else scope_kind d f = Some K_ARRAY)"
  shows "(\<exists>w'. writer_add_leaf hash pf w key k require_key = Some (False, w') \<and> w_error_flag w' \<and> \<not> (ok \<and> generous pf)) \<or>
    (\<exists>w'. writer_add_leaf hash pf w key k require_key = Some (True, w') \<and> ok \<and>
       added w (new_node hash k (if require_key then Some key else None)) w')"
proof (cases "if require_key then opens_keyed (scope_kind d f) else scope_kind d f = Some K_ARRAY")
  case False
  then have "writer_add_leaf hash pf w key k require_key = Some (False, fail_flag w)"
    using flag expect_scopes(1,2) [OF builds] by (auto simp: writer_add_leaf_def split: if_splits)
  then show ?thesis using False by (auto simp: ok_def split: if_splits)
next
  case True
  have wf: "wf_writer w" using builds by (simp add: builds_def)
  have "writer_add_leaf hash pf w key k require_key = add_node hash pf w key k require_key (\<lambda>w node. w)"
    using flag True expect_scopes(1,2) [OF builds] by (cases require_key) (simp_all add: writer_add_leaf_def add_node_def)
  then show ?thesis using add_node [OF wf, of hash pf key k require_key "\<lambda>w node. w"] True
    by (auto simp: ok_def)
qed

section \<open>Storing the value of the node just added\<close>

definition payload_store :: "(node \<Rightarrow> node) \<Rightarrow> (payload \<Rightarrow> payload) \<Rightarrow> bool" where
  "payload_store g h \<longleftrightarrow> (\<forall>n. payload.truncate (g n) = h (payload.truncate n) \<and> pl_kind (g n) = pl_kind n \<and>
     nd_parent (g n) = nd_parent n \<and> nd_first_child (g n) = nd_first_child n \<and> nd_last_child (g n) = nd_last_child n \<and>
     nd_child_count (g n) = nd_child_count n \<and> nd_next_sibling (g n) = nd_next_sibling n)"

lemma added_store:
  assumes builds: "builds w f d" and added: "added w nd w'" and g: "payload_store g h"
  shows "\<exists>w''. update_through (last_added w') g w' = Some w'' \<and> added w (g nd) w''"
proof -
  let ?n = "length (w_nodes w)" and ?N' = "w_nodes w'"
  let ?w'' = "update_node ?n g w'"
  obtain path where path: "spine (w_nodes w) None path" "w_current_scope w = last_of path" and links: "wf_links (w_nodes w)"
    using builds by (auto simp: builds_def wf_writer_def)
  have linked: "linked (w_nodes w) (w_current_scope w) ?N'" and len: "length ?N' = Suc ?n"
    and last: "last_added w' = Some ?n" and trunc: "payload.truncate (?N' ! ?n) = payload.truncate nd"
    and scope: "w_current_scope w' = w_current_scope w"
    using added by (simp_all add: added_def linked_def grows_def)
  have linked': "linked (w_nodes w) (w_current_scope w) (w_nodes ?w'')"
    using linked len g
    by (auto simp: update_node_def linked_def grows_def nth_list_update fresh_links_def payload_store_def)
  have kids: "kids (w_nodes ?w'') q = kids ?N' q" for q
    using linked_kids [OF linked, of q] linked_kids [OF linked', of q] by simp
  have scope_ok: "\<forall>s. w_current_scope w = Some s \<longrightarrow> s < ?n \<and> is_container (w_nodes w ! s)"
    using spine_last(1,2) [OF links path(1)] path(2) by (auto simp: last_of_eq split: if_splits)
  have "spine (w_nodes ?w'') None path"
    using spine_linked [OF links path(1), of "w_nodes ?w''"] linked' path(2) by (simp add: last_of_eq)
  then have "wf_writer ?w''"
    using wf_links_linked [OF links linked' scope_ok] added path(2) scope kids
    by (auto simp: wf_writer_def added_def) (auto simp: update_node_def)
  moreover have "last_added ?w'' = Some ?n"
    using last scope scope_ok len by (auto simp: last_added_def update_node_def nth_list_update split: option.splits)
  moreover have "payload.truncate (w_nodes ?w'' ! ?n) = payload.truncate (g nd)"
    using trunc g len by (simp add: update_node_def payload_store_def)
  ultimately have "added w (g nd) ?w''"
    using added linked' by (simp add: added_def) (simp add: update_node_def)
  then show ?thesis using last by (simp add: update_through_def)
qed

section \<open>Every call does its abstract step\<close>

text \<open>
  What a call returns against the abstract step: \<open>true\<close> and the forest of the step, or \<open>false\<close> and
  the error flag. With memory to spare it is \<open>false\<close> only if the abstract step is not defined.
\<close>

definition call_outcome :: "bool \<Rightarrow> (bool \<times> writer) option \<Rightarrow> (tree list \<times> nat) option \<Rightarrow> bool" where
  "call_outcome memory r step \<longleftrightarrow> (\<exists>ok w. r = Some (ok, w) \<and>
     (if ok then \<exists>f d. step = Some (f, d) \<and> builds w f d \<and> \<not> w_error_flag w
      else w_error_flag w \<and> (memory \<longrightarrow> step = None)))"

lemma call_outcome_fail: "w_error_flag w \<Longrightarrow> memory \<longrightarrow> step = None \<Longrightarrow> call_outcome memory (Some (False, w)) step"
  unfolding call_outcome_def by (intro exI [of _ False] exI [of _ w]) simp

lemma call_outcome_done:
  "step = Some (f, d) \<Longrightarrow> builds w f d \<Longrightarrow> \<not> w_error_flag w \<Longrightarrow> call_outcome memory (Some (True, w)) step"
  unfolding call_outcome_def by (intro exI [of _ True] exI [of _ w]) simp

lemma call_outcome_added:
  assumes "builds w f d" and "\<not> w_error_flag w" and "added w nd w'"
  shows "call_outcome memory (Some (True, w')) (Some (insert_at d f (Tree (payload.truncate nd) []), d))"
  using builds_added [OF assms(1,3)] assms(2,3)
  unfolding call_outcome_def by (intro exI [of _ True] exI [of _ w']) (simp add: added_def)

text \<open>The payload of a leaf before its value is stored, and the condition for adding it.\<close>

definition leaf_payload :: "(bytes \<Rightarrow> u64) \<Rightarrow> arg \<Rightarrow> kind \<Rightarrow> bool \<Rightarrow> payload" where
  "leaf_payload hash key k require_key = (if require_key then keyed hash (arg_bytes key) (plain k) else plain k)"

definition leaf_ok :: "tree list \<Rightarrow> nat \<Rightarrow> arg \<Rightarrow> bool \<Rightarrow> bool" where
  "leaf_ok f d key require_key \<longleftrightarrow>
     (if require_key then opens_keyed (scope_kind d f) \<and> good_key key else scope_kind d f = Some K_ARRAY)"

lemma truncate_new_node:
  "payload.truncate (new_node hash k (if require_key then Some key else None)) = leaf_payload hash key k require_key"
  by (simp add: leaf_payload_def new_node_facts)

lemma leaf_cases:
  assumes "builds w f d" and "\<not> w_error_flag w"
  obtains (failed) w' where "writer_add_leaf hash pf w key k require_key = Some (False, w')" "w_error_flag w'"
      "generous pf \<longrightarrow> \<not> leaf_ok f d key require_key"
    | (added) w' nd where "writer_add_leaf hash pf w key k require_key = Some (True, w')" "leaf_ok f d key require_key"
      "added w nd w'" "payload.truncate nd = leaf_payload hash key k require_key"
  using add_leaf [OF assms, where hash = hash and pf = pf and k = k and key = key and require_key = require_key]
    truncate_new_node [of hash k require_key key]
  unfolding leaf_ok_def by metis

lemma leaf_plain:
  assumes "builds w f d" and "\<not> w_error_flag w"
  shows "call_outcome (generous pf) (writer_add_leaf hash pf w key k require_key)
    (if leaf_ok f d key require_key then Some (insert_at d f (Tree (leaf_payload hash key k require_key) []), d) else None)"
proof (rule leaf_cases [OF assms, of hash pf key k require_key])
  fix w' assume "writer_add_leaf hash pf w key k require_key = Some (False, w')" "w_error_flag w'"
    "generous pf \<longrightarrow> \<not> leaf_ok f d key require_key"
  then show ?thesis by (simp add: call_outcome_fail)
next
  fix w' nd assume "writer_add_leaf hash pf w key k require_key = Some (True, w')" "leaf_ok f d key require_key"
    "added w nd w'" "payload.truncate nd = leaf_payload hash key k require_key"
  then show ?thesis using call_outcome_added [OF assms, of nd w'] by simp
qed

lemma leaf_stored:
  assumes "builds w f d" and "\<not> w_error_flag w" and g: "payload_store g h"
  shows "call_outcome (generous pf) (then_store (writer_add_leaf hash pf w key k require_key) g)
    (if leaf_ok f d key require_key then Some (insert_at d f (Tree (h (leaf_payload hash key k require_key)) []), d) else None)"
proof (rule leaf_cases [OF assms(1,2), of hash pf key k require_key])
  fix w' assume "writer_add_leaf hash pf w key k require_key = Some (False, w')" "w_error_flag w'"
    "generous pf \<longrightarrow> \<not> leaf_ok f d key require_key"
  then show ?thesis by (simp add: call_outcome_fail then_store_def)
next
  fix w' nd assume leaf: "writer_add_leaf hash pf w key k require_key = Some (True, w')" "leaf_ok f d key require_key"
    and a: "added w nd w'" and nd: "payload.truncate nd = leaf_payload hash key k require_key"
  obtain w'' where "update_through (last_added w') g w' = Some w''" "added w (g nd) w''"
    using added_store [OF assms(1) a g] by blast
  then show ?thesis using leaf call_outcome_added [OF assms(1,2), of "g nd" w''] g nd
    by (simp add: then_store_def payload_store_def)
qed

lemma added_requests [simp]:
  "added w nd (w'\<lparr>w_arena_requests := r\<rparr>) = added w nd w'"
  "last_added (w'\<lparr>w_arena_requests := r\<rparr>) = last_added w'"
proof -
  have wf: "wf_writer (w'\<lparr>w_arena_requests := r\<rparr>) = wf_writer w'" by (rule wf_writer_requests)
  show last: "last_added (w'\<lparr>w_arena_requests := r\<rparr>) = last_added w'" by (simp add: last_added_def split: option.split)
  show "added w nd (w'\<lparr>w_arena_requests := r\<rparr>) = added w nd w'" by (simp add: added_def wf last)
qed

lemma string_store:
  "payload_store (\<lambda>n. n\<lparr>pl_string_data := a, pl_string_length := b\<rparr>) (\<lambda>p. p\<lparr>pl_string_data := a, pl_string_length := b\<rparr>)"
  by (simp add: payload_store_def payload.truncate_def)

lemma bits_store: "payload_store (\<lambda>n. n\<lparr>pl_bits := v\<rparr>) (\<lambda>p. p\<lparr>pl_bits := v\<rparr>)"
  by (simp add: payload_store_def payload.truncate_def)

lemma leaf_string:
  assumes "builds w f d" and "\<not> w_error_flag w"
  shows "call_outcome (generous pf) (then_store_string pf (writer_add_leaf hash pf w key k require_key) s)
    (if leaf_ok f d key require_key
     then Some (insert_at d f (Tree (with_leaf (L_string s) (leaf_payload hash key k require_key)) []), d) else None)"
proof (rule leaf_cases [OF assms(1,2), of hash pf key k require_key])
  fix w' assume "writer_add_leaf hash pf w key k require_key = Some (False, w')" "w_error_flag w'"
    "generous pf \<longrightarrow> \<not> leaf_ok f d key require_key"
  then show ?thesis by (simp add: call_outcome_fail then_store_string_def)
next
  let ?g = "\<lambda>n. n\<lparr>pl_string_data := stored s, pl_string_length := of_nat (length s)\<rparr>"
  fix w' nd assume leaf: "writer_add_leaf hash pf w key k require_key = Some (True, w')" "leaf_ok f d key require_key"
    and a: "added w nd w'" and nd: "payload.truncate nd = leaf_payload hash key k require_key"
  obtain r where r: "writer_arena_clone pf w' s = (None, w'\<lparr>w_arena_requests := r\<rparr>) \<and> \<not> generous pf
    \<or> writer_arena_clone pf w' s = (Some (stored s), w'\<lparr>w_arena_requests := r\<rparr>)"
    using arena_clone [of pf w' s] by blast
  have a': "added w nd (w'\<lparr>w_arena_requests := r\<rparr>)" using a by simp
  obtain w'' where "update_through (last_added w') ?g (w'\<lparr>w_arena_requests := r\<rparr>) = Some w''" "added w (?g nd) w''"
    using added_store [OF assms(1) a' string_store] by auto
  then show ?thesis using leaf r call_outcome_added [OF assms(1,2), of "?g nd" w''] string_store nd
    by (auto simp: then_store_string_def payload_store_def intro!: call_outcome_fail)
qed

section \<open>Opening and closing a container\<close>

lemma begin_added:
  assumes builds: "builds w f d" and added: "added w nd w'" and kind: "is_container nd"
  shows "builds (w'\<lparr>w_current_scope := Some (length (w_nodes w))\<rparr>) (insert_at d f (Tree (payload.truncate nd) [])) (Suc d)"
proof -
  obtain path where path: "spine (w_nodes w) None path" "w_current_scope w = last_of path" "length path = d"
    and links: "wf_links (w_nodes w)"
    using builds by (auto simp: builds_def wf_writer_def)
  have linked: "linked (w_nodes w) (scope_of None path) (w_nodes w')"
    using added path(2) by (simp add: added_def last_of_eq)
  have "is_container (w_nodes w' ! length (w_nodes w))"
    using added kind truncate_kind [of "w_nodes w' ! length (w_nodes w)" nd] by (simp add: added_def is_container_def)
  from spine_extend [OF links this path(1) linked]
  have "spine (w_nodes w') None (path @ [length (w_nodes w)])" .
  then have "\<exists>path. spine (w_nodes w') None path \<and> Some (length (w_nodes w)) = last_of path \<and> length path = Suc d"
    using path(3) by (intro exI [of _ "path @ [length (w_nodes w)]"]) (simp add: last_of_eq)
  then show ?thesis
    using builds_added [OF builds added] added by (auto simp: builds_def added_def wf_writer_def)
qed

lemma begin_outcome:
  assumes builds: "builds w f d" and flag: "\<not> w_error_flag w" and k: "k = K_BLOCK \<or> k = K_ARRAY"
  shows "call_outcome (generous pf) (writer_begin_container hash pf w key k)
    (if begin_ok (scope_kind d f) key
     then Some (insert_at d f (Tree (begin_payload hash (scope_kind d f) key k) []), Suc d) else None)"
proof -
  let ?s = "scope_kind d f" and ?wanted = "opens_keyed (scope_kind d f) \<and> \<not> is_null key"
  let ?finish = "\<lambda>w node. w\<lparr>w_current_scope := Some node\<rparr>" and ?nd = "new_node hash k (if opens_keyed (scope_kind d f) \<and> \<not> is_null key then Some key else None)"
  note scope = expect_scopes(3) [OF builds] and keyed = expect_scopes(4) [OF builds]
  let ?bad = "if opens_keyed ?s then is_null key \<and> arg_length key \<noteq> 0 else key \<noteq> Null 0"
  have flags: "(w_current_scope w = None \<or> (w_current_scope w \<noteq> None \<and> pl_kind (w_nodes w ! the (w_current_scope w)) = K_BLOCK)) \<longleftrightarrow> opens_keyed ?s"
      "(w_current_scope w \<noteq> None \<and> pl_kind (w_nodes w ! the (w_current_scope w)) = K_ARRAY) \<longleftrightarrow> \<not> opens_keyed ?s"
    unfolding keyed by (auto simp: scope opens_keyed_def) (use keyed scope in \<open>auto simp: opens_keyed_def\<close>)
  have eq: "writer_begin_container hash pf w key k
      = (if ?bad then Some (False, fail_flag w) else add_node hash pf w key k ?wanted ?finish)"
    unfolding writer_begin_container_def add_node_def Let_def flags using flag
    by (cases "opens_keyed ?s") (simp_all cong: option.case_cong prod.case_cong)
  have ok: "begin_ok ?s key \<longleftrightarrow> \<not> ?bad \<and> (?wanted \<longrightarrow> good_key key)"
    by (auto simp: begin_ok_def good_key_def)
  have nd: "payload.truncate ?nd = begin_payload hash ?s key k" by (auto simp: begin_payload_def new_node_facts)
  have cont: "is_container ?nd" using k by (auto simp: is_container_def new_node_def)
  show ?thesis
  proof (cases ?bad)
    case True
    then show ?thesis unfolding eq using ok by (auto intro!: call_outcome_fail)
  next
    case False
    have "wf_writer w" using builds by (simp add: builds_def)
    from add_node [OF this, of hash pf key k ?wanted ?finish] show ?thesis
    proof (elim disjE exE conjE)
      fix w' assume "add_node hash pf w key k ?wanted ?finish = Some (False, w')" "w_error_flag w'"
        "\<not> ((?wanted \<longrightarrow> good_key key) \<and> generous pf)"
      then show ?thesis using False ok by (auto simp: eq intro!: call_outcome_fail)
    next
      fix w' assume add: "add_node hash pf w key k ?wanted ?finish = Some (True, ?finish w' (length (w_nodes w)))"
        "?wanted \<longrightarrow> good_key key" and added: "added w ?nd w'"
      have "builds (?finish w' (length (w_nodes w))) (insert_at d f (Tree (begin_payload hash ?s key k) [])) (Suc d)"
        using begin_added [OF builds added cont] nd by simp
      then show ?thesis using False ok add added flag by (auto simp: eq added_def intro: call_outcome_done)
    qed
  qed
qed

lemma end_outcome:
  assumes builds: "builds w f d" and flag: "\<not> w_error_flag w"
  shows "call_outcome memory (Some (writer_end_container w k)) (if scope_kind d f = Some k then Some (f, d - 1) else None)"
proof (cases "scope_kind d f = Some k")
  case False
  then have "writer_end_container w k = (False, fail_flag w)"
    using flag expect_scopes(3) [OF builds] by (auto simp: writer_end_container_def split: option.split)
  then show ?thesis using False by (auto intro!: call_outcome_fail)
next
  case True
  then obtain s where s: "w_current_scope w = Some s" "pl_kind (w_nodes w ! s) = k"
    using expect_scopes(3) [OF builds] by auto
  obtain path where path: "spine (w_nodes w) None path" "w_current_scope w = last_of path" "length path = d"
    using builds by (auto simp: builds_def)
  obtain up where up: "path = up @ [s]"
    using path(2) s(1) by (cases path rule: rev_cases) (auto simp: last_of_eq)
  have "nd_parent (w_nodes w ! s) = last_of up" "spine (w_nodes w) None up"
    using spine_parent [of "w_nodes w" None up s] path(1) up by (simp_all add: last_of_eq)
  moreover from this have "\<exists>path. spine (w_nodes w) None path \<and> last_of up = last_of path \<and> length path = d - 1"
    using path(3) up by (intro exI [of _ up]) simp
  ultimately have "builds (w\<lparr>w_current_scope := nd_parent (w_nodes w ! s)\<rparr>) f (d - 1)"
    using builds by (auto simp: builds_def wf_writer_def)
  then show ?thesis using True s flag by (auto simp: writer_end_container_def intro: call_outcome_done)
qed

section \<open>All calls\<close>

lemma set_outcome:
  assumes "builds w f d" and "\<not> w_error_flag w"
  shows "call_outcome (generous pf) (writer_set hash pf w key l) (build_step hash (f, d) (Set key l))"
  using leaf_plain [OF assms, of pf hash key _ True] leaf_stored [OF assms bits_store, of pf hash key _ True]
    leaf_string [OF assms, of pf hash key K_STRING True]
  by (cases l) (auto simp: leaf_ok_def leaf_payload_def good_leaf_def writer_set_null_def writer_set_bool_def
      writer_set_int64_def writer_set_uint64_def writer_set_float64_def writer_set_string_def not_less
      split: if_splits intro!: call_outcome_fail)

lemma append_outcome:
  assumes "builds w f d" and "\<not> w_error_flag w"
  shows "call_outcome (generous pf) (writer_append hash pf w l) (build_step hash (f, d) (Append l))"
  using leaf_plain [OF assms, of pf hash "Null 0" _ False] leaf_stored [OF assms bits_store, of pf hash "Null 0" _ False]
    leaf_string [OF assms, of pf hash "Null 0" K_STRING False]
  by (cases l) (auto simp: leaf_ok_def leaf_payload_def good_leaf_def writer_append_null_def writer_append_bool_def
      writer_append_int64_def writer_append_uint64_def writer_append_float64_def writer_append_string_def not_less
      split: if_splits intro!: call_outcome_fail)

lemma writer_call_outcome:
  assumes "builds w f d" and "\<not> w_error_flag w"
  shows "call_outcome (generous pf) (writer_call hash pf w c) (build_step hash (f, d) c)"
proof (cases c)
  case (Set key l) then show ?thesis using set_outcome [OF assms] by simp
next
  case (Append l) then show ?thesis using append_outcome [OF assms] by simp
next
  case (Begin_block key)
  then show ?thesis using begin_outcome [OF assms, of K_BLOCK pf hash key] by (simp add: writer_begin_block_def)
next
  case (Begin_array key)
  then show ?thesis using begin_outcome [OF assms, of K_ARRAY pf hash key] by (simp add: writer_begin_array_def)
next
  case End_block
  then show ?thesis using end_outcome [OF assms, of _ K_BLOCK] by (simp add: writer_end_block_def)
next
  case End_array
  then show ?thesis using end_outcome [OF assms, of _ K_ARRAY] by (simp add: writer_end_array_def)
qed


section \<open>A sequence of calls\<close>

text \<open>The client's calls in order, each made whatever the one before returned.\<close>

fun run_calls :: "(bytes \<Rightarrow> u64) \<Rightarrow> platform \<Rightarrow> writer \<Rightarrow> call list \<Rightarrow> (bool list \<times> writer) option" where
  "run_calls hash pf w [] = Some ([], w)"
| "run_calls hash pf w (c # cs) =
     (case writer_call hash pf w c of
        None \<Rightarrow> None
      | Some (ok, w) \<Rightarrow> map_option (\<lambda>(oks, w). (ok # oks, w)) (run_calls hash pf w cs))"

fun build_steps :: "(bytes \<Rightarrow> u64) \<Rightarrow> tree list \<times> nat \<Rightarrow> call list \<Rightarrow> (tree list \<times> nat) option" where
  "build_steps hash s [] = Some s"
| "build_steps hash s (c # cs) = (case build_step hash s c of None \<Rightarrow> None | Some s \<Rightarrow> build_steps hash s cs)"

lemma add_leaf_flagged: "w_error_flag w \<Longrightarrow> writer_add_leaf hash pf w key k rk = Some (False, w)"
  by (simp add: writer_add_leaf_def)

lemma set_flagged: "w_error_flag w \<Longrightarrow> \<exists>w'. writer_set hash pf w key l = Some (False, w') \<and> w_error_flag w'"
  by (cases l) (simp_all add: writer_set_null_def writer_set_bool_def writer_set_int64_def writer_set_uint64_def
      writer_set_float64_def writer_set_string_def add_leaf_flagged then_store_def then_store_string_def)

lemma append_flagged: "w_error_flag w \<Longrightarrow> \<exists>w'. writer_append hash pf w l = Some (False, w') \<and> w_error_flag w'"
  by (cases l) (simp_all add: writer_append_null_def writer_append_bool_def writer_append_int64_def writer_append_uint64_def
      writer_append_float64_def writer_append_string_def add_leaf_flagged then_store_def then_store_string_def)

lemma call_flagged: "w_error_flag w \<Longrightarrow> \<exists>w'. writer_call hash pf w c = Some (False, w') \<and> w_error_flag w'"
  using set_flagged append_flagged
  by (cases c) (simp_all add: writer_begin_block_def writer_begin_array_def writer_begin_container_def
      writer_end_block_def writer_end_array_def writer_end_container_def)

text \<open>After a failure every call fails.\<close>

lemma calls_flagged:
  "w_error_flag w \<Longrightarrow> \<exists>w'. run_calls hash pf w cs = Some (replicate (length cs) False, w') \<and> w_error_flag w'"
proof (induction cs arbitrary: w)
  case (Cons c cs)
  obtain w' where w': "writer_call hash pf w c = Some (False, w')" "w_error_flag w'"
    using call_flagged [OF Cons.prems] by blast
  show ?case using Cons.IH [OF w'(2)] w'(1) by auto
qed simp

text \<open>
  A sequence of calls never dereferences a null pointer; it either succeeds throughout and
  builds the forest of the abstract steps, or succeeds up to a call and fails from there on.
\<close>

lemma calls_outcome:
  assumes "builds w f d" and "\<not> w_error_flag w"
  shows "(\<exists>w' f' d'. run_calls hash pf w cs = Some (replicate (length cs) True, w') \<and>
        build_steps hash (f, d) cs = Some (f', d') \<and> builds w' f' d' \<and> \<not> w_error_flag w') \<or>
      (\<exists>w' m. m < length cs \<and> run_calls hash pf w cs = Some (replicate m True @ replicate (length cs - m) False, w') \<and>
        w_error_flag w' \<and> (generous pf \<longrightarrow> build_steps hash (f, d) cs = None))"
  using assms
proof (induction cs arbitrary: w f d)
  case (Cons c cs)
  obtain ok w1 where call: "writer_call hash pf w c = Some (ok, w1)"
    and out: "if ok then \<exists>f' d'. build_step hash (f, d) c = Some (f', d') \<and> builds w1 f' d' \<and> \<not> w_error_flag w1
              else w_error_flag w1 \<and> (generous pf \<longrightarrow> build_step hash (f, d) c = None)"
    using writer_call_outcome [OF Cons.prems, of pf hash c] unfolding call_outcome_def by blast
  show ?case
  proof (cases ok)
    case False
    then have flag: "w_error_flag w1" and none: "generous pf \<longrightarrow> build_step hash (f, d) c = None" using out by auto
    obtain w' where "run_calls hash pf w1 cs = Some (replicate (length cs) False, w')" "w_error_flag w'"
      using calls_flagged [OF flag] by blast
    then show ?thesis using call False none by (intro disjI2 exI [of _ w'] exI [of _ 0]) auto
  next
    case True
    then obtain f1 d1 where step: "build_step hash (f, d) c = Some (f1, d1)" and b: "builds w1 f1 d1" "\<not> w_error_flag w1"
      using out by auto
    from Cons.IH [OF b] show ?thesis
    proof (elim disjE exE conjE)
      fix w' f' d'
      assume "run_calls hash pf w1 cs = Some (replicate (length cs) True, w')"
        "build_steps hash (f1, d1) cs = Some (f', d')" "builds w' f' d'" "\<not> w_error_flag w'"
      then show ?thesis using call True step by (intro disjI1) simp
    next
      fix w' m
      assume "m < length cs" "run_calls hash pf w1 cs = Some (replicate m True @ replicate (length cs - m) False, w')"
        "w_error_flag w'" "generous pf \<longrightarrow> build_steps hash (f1, d1) cs = None"
      then show ?thesis using call True step by (intro disjI2 exI [of _ w'] exI [of _ "Suc m"]) simp
    qed
  qed
qed simp

lemma forest_of_Nil: "forest_of [] p = []"
  by (subst forest_of.simps) (simp add: kids_def)

lemma writer_create_builds:
  assumes "writer_create pf options = Some w"
  shows "builds w [] 0 \<and> \<not> w_error_flag w"
proof -
  have fields: "w_nodes w = []" "w_root_first w = None" "w_root_last w = None" "w_root_count w = 0"
      "w_current_scope w = None" "\<not> w_error_flag w"
    using assms by (auto simp: writer_create_def split: if_splits)
  have path: "\<exists>path. spine [] None path \<and> None = last_of path \<and> length path = 0" by (simp add: last_of_def)
  then have "wf_writer w" unfolding wf_writer_def fields by (auto simp: wf_links_def kids_def last_of_def)
  then show ?thesis using path by (simp add: builds_def fields forest_of_Nil)
qed

section \<open>Documents\<close>

text \<open>
  A document as the client sees it, the calls that write it, and the tree the writer is to hold
  for it: payloads with the hash of their key, but no links.
\<close>

datatype doc = Leaf leaf | Block "(bytes \<times> doc) list" | Array "doc list"

definition doc_arg :: "bytes option \<Rightarrow> arg" where
  "doc_arg key = (case key of None \<Rightarrow> Null 0 | Some k \<Rightarrow> Data k)"

fun doc_calls :: "bytes option \<Rightarrow> doc \<Rightarrow> call list" where
  "doc_calls key (Leaf l) = [case key of None \<Rightarrow> Append l | Some k \<Rightarrow> Set (Data k) l]"
| "doc_calls key (Block es) =
     Begin_block (doc_arg key) # concat (map (\<lambda>(k, v). doc_calls (Some k) v) es) @ [End_block]"
| "doc_calls key (Array vs) = Begin_array (doc_arg key) # concat (map (doc_calls None) vs) @ [End_array]"

definition doc_payload :: "(bytes \<Rightarrow> u64) \<Rightarrow> bytes option \<Rightarrow> kind \<Rightarrow> payload" where
  "doc_payload hash key k = (case key of None \<Rightarrow> plain k | Some key \<Rightarrow> keyed hash key (plain k))"

fun doc_tree :: "(bytes \<Rightarrow> u64) \<Rightarrow> bytes option \<Rightarrow> doc \<Rightarrow> tree" where
  "doc_tree hash key (Leaf l) = Tree (with_leaf l (doc_payload hash key (leaf_kind l))) []"
| "doc_tree hash key (Block es) = Tree (doc_payload hash key K_BLOCK) (map (\<lambda>(k, v). doc_tree hash (Some k) v) es)"
| "doc_tree hash key (Array vs) = Tree (doc_payload hash key K_ARRAY) (map (doc_tree hash None) vs)"

text \<open>Keys and strings whose lengths fit the 32-bit fields.\<close>

fun doc_fits :: "bytes option \<Rightarrow> doc \<Rightarrow> bool" where
  "doc_fits key (Leaf l) \<longleftrightarrow> good_key (doc_arg key) \<and> good_leaf l"
| "doc_fits key (Block es) \<longleftrightarrow> good_key (doc_arg key) \<and> (\<forall>(k, v) \<in> set es. doc_fits (Some k) v)"
| "doc_fits key (Array vs) \<longleftrightarrow> good_key (doc_arg key) \<and> (\<forall>v \<in> set vs. doc_fits None v)"

text \<open>Whether a value with this key (or none) belongs in the scope.\<close>

definition in_scope :: "kind option \<Rightarrow> bytes option \<Rightarrow> bool" where
  "in_scope scope key \<longleftrightarrow> (case key of None \<Rightarrow> scope = Some K_ARRAY | Some k \<Rightarrow> opens_keyed scope)"

lemma build_steps_append:
  "build_steps hash s (cs @ ds) = (case build_steps hash s cs of None \<Rightarrow> None | Some s \<Rightarrow> build_steps hash s ds)"
  by (induction cs arbitrary: s) (simp_all split: option.split)

text \<open>
  \<open>open_at d f\<close>: the forest has an open path of depth \<open>d\<close>. Adding below the open scope adds to
  the children of the last element of the path, whatever was there.
\<close>

fun open_at :: "nat \<Rightarrow> tree list \<Rightarrow> bool" where
  "open_at 0 f = True"
| "open_at (Suc d) f \<longleftrightarrow> f \<noteq> [] \<and> open_at d (tr_children (last f))"

lemma insert_at_open: "open_at d f \<Longrightarrow> open_at d (insert_at d f t) \<and> scope_kind d (insert_at d f t) = scope_kind d f"
proof (induction d arbitrary: f)
  case (Suc d)
  then show ?case by (cases d) auto
qed simp

lemma insert_at_begin:
  "open_at d f \<Longrightarrow> open_at (Suc d) (insert_at d f (Tree p ts)) \<and> scope_kind (Suc d) (insert_at d f (Tree p ts)) = Some (pl_kind p)"
  by (induction d arbitrary: f) auto

lemma insert_at_inside:
  "open_at d f \<Longrightarrow> insert_at (Suc d) (insert_at d f (Tree p ts)) t = insert_at d f (Tree p (ts @ [t]))"
  by (induction d arbitrary: f) auto

lemma build_children:
  assumes "open_at d f" and "\<And>x us. x \<in> set xs \<Longrightarrow> build_steps hash (insert_at d f (Tree p us), Suc d) (g x)
      = Some (insert_at (Suc d) (insert_at d f (Tree p us)) (t x), Suc d)"
  shows "build_steps hash (insert_at d f (Tree p us), Suc d) (concat (map g xs))
    = Some (insert_at d f (Tree p (us @ map t xs)), Suc d)"
  using assms(2)
proof (induction xs arbitrary: us)
  case (Cons x xs)
  then show ?case by (simp add: build_steps_append insert_at_inside [OF assms(1)] del: insert_at.simps)
qed simp

lemma begin_ok_doc: "in_scope (scope_kind d f) key \<Longrightarrow> good_key (doc_arg key) \<Longrightarrow>
   begin_ok (scope_kind d f) (doc_arg key) \<and> begin_payload hash (scope_kind d f) (doc_arg key) k = doc_payload hash key k"
  by (cases key) (auto simp: in_scope_def doc_arg_def begin_ok_def begin_payload_def doc_payload_def opens_keyed_def)

lemma doc_payload_kind [simp]: "pl_kind (doc_payload hash key k) = k"
  by (cases key) (simp_all add: doc_payload_def plain_def keyed_def)

lemma doc_steps:
  "doc_fits key v \<Longrightarrow> open_at d f \<Longrightarrow> in_scope (scope_kind d f) key \<Longrightarrow>
     build_steps hash (f, d) (doc_calls key v) = Some (insert_at d f (doc_tree hash key v), d)"
proof (induction v arbitrary: key f d rule: doc.induct)
  case (Leaf l)
  then show ?case
    by (cases key) (auto simp: in_scope_def doc_arg_def doc_payload_def)
next
  case (Block es)
  let ?p = "doc_payload hash key K_BLOCK"
  note inner = insert_at_begin [OF Block.prems(2), of ?p]
  have "build_steps hash (insert_at d f (Tree ?p []), Suc d) (concat (map (\<lambda>(k, v). doc_calls (Some k) v) es))
      = Some (insert_at d f (Tree ?p ([] @ map (\<lambda>(k, v). doc_tree hash (Some k) v) es)), Suc d)"
  proof (rule build_children [OF Block.prems(2)])
    fix x us assume x: "x \<in> set es"
    obtain k v where kv: "x = (k, v)" by (cases x)
    have "doc_fits (Some k) v" using Block.prems(1) x kv by auto
    moreover have "in_scope (scope_kind (Suc d) (insert_at d f (Tree ?p us))) (Some k)"
      using inner by (simp add: in_scope_def opens_keyed_def)
    ultimately show "build_steps hash (insert_at d f (Tree ?p us), Suc d) (case x of (k, v) \<Rightarrow> doc_calls (Some k) v)
       = Some (insert_at (Suc d) (insert_at d f (Tree ?p us)) (case x of (k, v) \<Rightarrow> doc_tree hash (Some k) v), Suc d)"
      using Block.IH [of x v "Some k" "Suc d" "insert_at d f (Tree ?p us)"] x kv inner by simp
  qed
  then show ?case
    using Block.prems(1) begin_ok_doc [OF Block.prems(3)] inner by (simp add: build_steps_append)
next
  case (Array vs)
  let ?p = "doc_payload hash key K_ARRAY"
  note inner = insert_at_begin [OF Array.prems(2), of ?p]
  have "build_steps hash (insert_at d f (Tree ?p []), Suc d) (concat (map (doc_calls None) vs))
      = Some (insert_at d f (Tree ?p ([] @ map (doc_tree hash None) vs)), Suc d)"
  proof (rule build_children [OF Array.prems(2)])
    fix v us assume v: "v \<in> set vs"
    have "in_scope (scope_kind (Suc d) (insert_at d f (Tree ?p us))) None"
      using inner by (simp add: in_scope_def)
    then show "build_steps hash (insert_at d f (Tree ?p us), Suc d) (doc_calls None v)
       = Some (insert_at (Suc d) (insert_at d f (Tree ?p us)) (doc_tree hash None v), Suc d)"
      using Array.IH [of v None "Suc d" "insert_at d f (Tree ?p us)"] Array.prems(1) v inner by auto
  qed
  then show ?case
    using Array.prems(1) begin_ok_doc [OF Array.prems(3)] inner by (simp add: build_steps_append)
qed

text \<open>A list of root entries, from an empty writer.\<close>

definition doc_roots_calls :: "(bytes \<times> doc) list \<Rightarrow> call list" where
  "doc_roots_calls es = concat (map (\<lambda>(k, v). doc_calls (Some k) v) es)"

definition doc_roots :: "(bytes \<Rightarrow> u64) \<Rightarrow> (bytes \<times> doc) list \<Rightarrow> tree list" where
  "doc_roots hash es = map (\<lambda>(k, v). doc_tree hash (Some k) v) es"

lemma doc_roots_steps:
  "(\<forall>(k, v) \<in> set es. doc_fits (Some k) v) \<Longrightarrow> build_steps hash (f, 0) (doc_roots_calls es) = Some (f @ doc_roots hash es, 0)"
proof (induction es arbitrary: f)
  case (Cons e es)
  obtain k v where e: "e = (k, v)" by (cases e)
  have "build_steps hash (f, 0) (doc_calls (Some k) v) = Some (insert_at 0 f (doc_tree hash (Some k) v), 0)"
    using Cons.prems e by (intro doc_steps) (auto simp: in_scope_def opens_keyed_def)
  then show ?case using Cons by (simp add: doc_roots_calls_def doc_roots_def e build_steps_append)
qed (simp add: doc_roots_calls_def doc_roots_def)

end
