(* ===== verification/Writer_Properties.thy ===== *)
theory Writer_Properties
  imports Samples Pending_Sort String_Pool Writer
begin

text \<open>
  What the parts of the writing half promise: the sort of the entries of a block, the string
  pool, and the state machine that builds the tree of a document.
\<close>

section \<open>Sorting\<close>

definition sample_entry :: "u64 \<Rightarrow> u32 \<Rightarrow> pending_entry" where
  "sample_entry h off = \<lparr>pe_key_hash64 = h, pe_key_pool_offset = off, pe_key_length = 1, pe_value_offset = 0\<rparr>"

text \<open>C10. Whatever algorithm the number of entries selects, sorting gives the stable sort by key hash;
  if the schedule lets the worker threads finish it can only fail for lack of memory or threads.\<close>

theorem pending_sort_is_stable_sort:
  assumes "schedule_fair pf workers (length xs)"
  shows "case pending_sort pf k workers xs of
      Inr (ys, k') \<Rightarrow> ys = sort_key pe_key_hash64 xs
    | Inl e \<Rightarrow> (e = Fails W_OOM \<or> e = Fails W_INTERNAL) \<and> \<not> generous pf"
  using pending_sort_result [OF _ assms, of k] pending_sort_fault [of pf k workers xs] pending_sort_generous [OF _ assms, of k]
  by (fastforce split: sum.split)

theorem pending_sort_is_stable_sort_witness:
  "pending_sort roomy 0 0 [sample_entry 9 0, sample_entry 3 1, sample_entry 9 2]
     = Inr (sort_key pe_key_hash64 [sample_entry 9 0, sample_entry 3 1, sample_entry 9 2], 0)"
  using pending_sort_is_stable_sort [of roomy 0 "[sample_entry 9 0, sample_entry 3 1, sample_entry 9 2]" 0]
  by (simp add: schedule_fair_def pending_sort_def)

text \<open>C14. The threaded radix sort gives what the serial one gives, for every number of workers and every
  order in which the workers of a pass take their steps, as long as each of them finishes its range.\<close>

theorem threads_sort_like_one:
  assumes "0 < workers" and "length scratch = length xs" and "joins_all schedule workers (length xs)"
  shows "radix_sort_parallel_data schedule workers scratch xs = radix_sort_data scratch xs"
  by (simp add: radix_sort_parallel_data_eq [OF assms] radix_sort_data_eq [OF assms(2)])

lemma less_2_cases: "(w :: nat) < 2 \<longleftrightarrow> w = 0 \<or> w = 1"
  by auto

theorem threads_sort_like_one_witness:
  "radix_sort_parallel_data (\<lambda>_. [1, 0, 1]) 2 (replicate 3 blank_pending) [sample_entry 9 0, sample_entry 3 1, sample_entry 9 2]
     = radix_sort_data (replicate 3 blank_pending) [sample_entry 9 0, sample_entry 3 1, sample_entry 9 2]"
  by (rule threads_sort_like_one) (auto simp: joins_all_def worker_range_end_def worker_start_def less_2_cases)

section \<open>The string pool\<close>

text \<open>C7. Interning a list of strings into a new pool gives two of them the same offset exactly when
  they are equal, and at the offset of each string the pool holds its length and its bytes.\<close>

theorem interning_deduplicates:
  assumes "pool_init pf k0 n = Inr (p, k)" and "interner.intern_all (pool_intern hash) pf k p ss = Inr (offs, p', k')"
    and "i < length ss" and "j < length ss"
  shows "(offs ! i = offs ! j \<longleftrightarrow> ss ! i = ss ! j) \<and>
    read_at (eb_data (sp_buffer p')) (unat (offs ! i)) 4 = Some (store_u32 (of_nat (length (ss ! i)))) \<and>
    read_at (eb_data (sp_buffer p')) (unat (offs ! i) + 4) (length (ss ! i)) = Some (ss ! i)"
proof -
  have holds: "pool_holds hash p []" using pool_init_spec [OF assms(1)] by blast
  note all = pool.intern_all_holds [OF holds assms(2)]
  have mem: "ss ! i \<in> set (foldl remember [] ss)" using assms(3) by (simp add: pool.set_remember_all)
  have off: "unat (offs ! i) = string_offset (foldl remember [] ss) (ss ! i)"
    using all assms(3) by simp
  show ?thesis
    using pool.intern_all_injective [OF holds assms(2-4)] all off read_at_pool_layout [OF mem] read_at_pool_length [OF mem]
    by (simp add: pool_holds_def)
qed

theorem interning_deduplicates_witness:
  "\<exists>p k offs p' k'. pool_init roomy 0 4096 = Inr (p, k) \<and>
     interner.intern_all (pool_intern (\<lambda>_. 7)) roomy k p [[0x61], [0x62], [0x61]] = Inr (offs, p', k') \<and>
     offs ! 0 = offs ! 2 \<and> offs ! 0 \<noteq> offs ! 1"
proof -
  let ?h = "\<lambda>_ :: bytes. 7 :: u64"
  obtain p k where p: "pool_init roomy 0 4096 = Inr (p, k)"
    using fails_only_generous [OF pool_init_outcome generous_roomy] by fast
  have h0: "pool_holds ?h p []" using pool_init_spec [OF p] by blast
  have intern: "\<exists>off q k'. pool_intern ?h roomy k p s = Inr (off, q, k')"
    if "pool_holds ?h p strs" "length s < 2 ^ 32" "length (pool_layout strs) < 2 ^ 32" for p k s strs
    using fails_only_generous [OF pool_intern_outcome [OF that(1), of s "{}" roomy k] generous_roomy] that(2,3)
    by (auto simp: pool_intern_def)
  have step: "\<exists>off q k'. pool_intern ?h roomy k p s = Inr (off, q, k') \<and> pool_holds ?h q (remember strs s)"
    if "pool_holds ?h p strs" "length s < 2 ^ 32" "length (pool_layout strs) < 2 ^ 32" for p k s strs
    using intern [OF that] pool.intern_holds [OF that(1)] by blast
  obtain o1 p1 k1 where 1: "pool_intern ?h roomy k p [0x61] = Inr (o1, p1, k1)" "pool_holds ?h p1 [[0x61]]"
    using step [OF h0, of "[0x61]" k] by (auto simp: remember_def)
  obtain o2 p2 k2 where 2: "pool_intern ?h roomy k1 p1 [0x62] = Inr (o2, p2, k2)" "pool_holds ?h p2 [[0x61], [0x62]]"
    using step [OF 1(2), of "[0x62]" k1] by (auto simp: remember_def align_up_nat_def)
  obtain o3 p3 k3 where 3: "pool_intern ?h roomy k2 p2 [0x61] = Inr (o3, p3, k3)"
    using step [OF 2(2), of "[0x61]" k2] by (auto simp: remember_def align_up_nat_def)
  have run: "interner.intern_all (pool_intern ?h) roomy k p [[0x61], [0x62], [0x61]] = Inr ([o1, o2, o3], p3, k3)"
    using 1(1) 2(1) 3 by (simp add: pool.intern_all.simps)
  show ?thesis
    using p run interning_deduplicates [OF p run, of 0 2] interning_deduplicates [OF p run, of 0 1] by auto
qed

text \<open>C19. Interning ends and stays inside the arrays of the pool, for every hash function: a string
  under 4 GiB in a pool under 4 GiB gets an offset, unless memory runs out.\<close>

theorem interning_terminates:
  assumes "pool_holds hash p strs" and "length s < 2 ^ 32" and "length (pool_layout strs) < 2 ^ 32"
  shows "(\<exists>off p' k'. pool_intern hash pf k p s = Inr (off, p', k') \<and> pool_holds hash p' (remember strs s)) \<or>
    pool_intern hash pf k p s = Inl (Fails W_OOM) \<and> \<not> generous pf"
proof -
  have "fails_only pf {} (pool_intern hash pf k p s)"
    unfolding pool_intern_def by (rule pool_intern_outcome [OF assms(1)]) (use assms in auto)
  then show ?thesis
    by (rule fails_only_cases) (auto dest: pool.intern_holds [OF assms(1)])
qed

theorem interning_terminates_witness:
  "\<exists>p k off p' k'. pool_init roomy 0 4096 = Inr (p, k) \<and> pool_intern (\<lambda>_. 7) roomy k p [0x61] = Inr (off, p', k')"
proof -
  obtain p k where p: "pool_init roomy 0 4096 = Inr (p, k)"
    using fails_only_generous [OF pool_init_outcome generous_roomy] by fast
  then have "pool_holds (\<lambda>_. 7) p []" using pool_init_spec by blast
  from interning_terminates [OF this, of "[0x61]" roomy k] p show ?thesis by auto
qed

section \<open>Building a document\<close>

lemma builds_forest: "builds w f d \<Longrightarrow> writer_forest w = Some f"
  by (simp add: builds_def read_forest_wf)

lemma builds_closed: "builds w f 0 \<Longrightarrow> w_current_scope w = None"
  by (auto simp: builds_def last_of_def)

text \<open>C11. No sequence of calls on a new writer dereferences a null pointer. There is a point up to
  which every call succeeds and from which every call fails; if that point is the end, the linked
  nodes are the forest that the abstract steps of the calls build, and otherwise the error flag is
  set and, with memory to spare, the calls had no abstract meaning.\<close>

theorem calls_succeed_then_fail:
  assumes "writer_create pf options = Some w"
  shows "\<exists>w' m. m \<le> length cs \<and>
    run_calls hash pf w cs = Some (replicate m True @ replicate (length cs - m) False, w') \<and>
    (if m = length cs then \<exists>f d. build_steps hash ([], 0) cs = Some (f, d) \<and> writer_forest w' = Some f \<and> \<not> w_error_flag w'
     else w_error_flag w' \<and> (generous pf \<longrightarrow> build_steps hash ([], 0) cs = None))"
proof -
  note new = writer_create_builds [OF assms]
  from calls_outcome [OF conjunct1 [OF new] conjunct2 [OF new], of hash pf cs] show ?thesis
  proof (elim disjE exE conjE)
    fix w' f d
    assume "run_calls hash pf w cs = Some (replicate (length cs) True, w')" "build_steps hash ([], 0) cs = Some (f, d)"
      "builds w' f d" "\<not> w_error_flag w'"
    then show ?thesis using builds_forest by (intro exI [of _ w'] exI [of _ "length cs"]) simp
  next
    fix w' m
    assume "m < length cs" "run_calls hash pf w cs = Some (replicate m True @ replicate (length cs - m) False, w')"
      "w_error_flag w'" "generous pf \<longrightarrow> build_steps hash ([], 0) cs = None"
    then show ?thesis by (intro exI [of _ w'] exI [of _ m]) simp
  qed
qed

lemma roomy_writer: "\<exists>w. writer_create roomy None = Some w \<and> w_worker_count w = 0"
  by (simp add: writer_create_def)

theorem calls_succeed_then_fail_witness:
  "\<exists>w w'. writer_create roomy None = Some w \<and> run_calls (\<lambda>_. 7) roomy w [End_block] = Some ([False], w')"
proof -
  obtain w where w: "writer_create roomy None = Some w" using roomy_writer by blast
  from calls_succeed_then_fail [OF w, of "[End_block]" "\<lambda>_. 7"] obtain w' m where
    m: "m \<le> 1" "run_calls (\<lambda>_. 7) roomy w [End_block] = Some (replicate m True @ replicate (1 - m) False, w')"
      "if m = 1 then \<exists>f d. build_steps (\<lambda>_. 7) ([], 0) [End_block] = Some (f, d) else True"
    by (auto split: if_splits)
  then have "m = 0" by (cases "m = 1") auto
  then show ?thesis using w m(2) by auto
qed

text \<open>C4. Writing a document: for root entries whose keys and strings fit their 32-bit lengths, the
  calls that write them all succeed, close every scope, and leave nodes that form exactly the tree
  of the document, with the hash of every key.\<close>

theorem writer_builds_the_document:
  assumes "writer_create pf options = Some w" and "generous pf" and "\<forall>(k, v) \<in> set es. doc_fits (Some k) v"
  shows "\<exists>w' oks. run_calls hash pf w (doc_roots_calls es) = Some (oks, w') \<and> list_all id oks \<and>
    writer_forest w' = Some (doc_roots hash es) \<and> w_current_scope w' = None \<and> \<not> w_error_flag w'"
proof -
  note new = writer_create_builds [OF assms(1)]
  have steps: "build_steps hash ([], 0) (doc_roots_calls es) = Some (doc_roots hash es, 0)"
    using doc_roots_steps [OF assms(3), of hash "[]"] by simp
  from calls_outcome [OF conjunct1 [OF new] conjunct2 [OF new], of hash pf "doc_roots_calls es"] obtain w' where
    "run_calls hash pf w (doc_roots_calls es) = Some (replicate (length (doc_roots_calls es)) True, w')"
    "builds w' (doc_roots hash es) 0" "\<not> w_error_flag w'"
    using steps assms(2) by auto
  then show ?thesis using builds_forest builds_closed by (auto simp: list_all_iff)
qed

definition sample_doc :: "(bytes \<times> doc) list" where
  "sample_doc = [([0x6B], Block [([0x61], Array [Leaf (L_string [0x61]), Leaf (L_int64 42)])])]"

theorem writer_builds_the_document_witness:
  "\<exists>w w' oks. writer_create roomy None = Some w \<and> run_calls (\<lambda>_. 7) roomy w (doc_roots_calls sample_doc) = Some (oks, w') \<and>
     writer_forest w' = Some (doc_roots (\<lambda>_. 7) sample_doc)"
proof -
  obtain w where w: "writer_create roomy None = Some w" using roomy_writer by blast
  have "\<forall>(k, v) \<in> set sample_doc. doc_fits (Some k) v"
    by (simp add: sample_doc_def good_key_def doc_arg_def good_leaf_def)
  from writer_builds_the_document [OF w generous_roomy this, of "\<lambda>_. 7"] w show ?thesis by blast
qed

end
