(* ===== verification/Encoder.thy ===== *)
theory Encoder
  imports Pending_Sort String_Pool Writer
begin

text \<open>
  The emission of the nodes and the assembly of a file (\<open>src/writer/bc_hrbl_writer_encoder.c\<close>,
  lines 344 to 375 and 564 to 986), and the finalisation of a writer to a buffer
  (\<open>src/writer/bc_hrbl_writer.c\<close>). Collecting the strings walks the links of the arena and stores
  the offsets in its nodes (\<open>collect_nodes\<close>); emission only reads the nodes, so it is given the forest
  they form then (\<open>writer_forest\<close>). \<open>collect_strings\<close>, \<open>collect_all\<close> and \<open>serialize\<close> are the same steps on a
  forest: a tree whose payloads are replaced. Buffer sizes are natural numbers, since
  the memory they stand for has been allocated; the 32-bit fields of the format wrap as in C.
  The recursion over the nodes has no bound on its stack here, unlike that of the exporters.

  \<open>k\<close> counts the requests to the memory context, and an error of the code is an \<open>Inl\<close>.
\<close>

section \<open>Keys and strings of a node\<close>

definition node_view :: "bytes option \<Rightarrow> u32 \<Rightarrow> bytes" where
  "node_view data n = (case data of None \<Rightarrow> [] | Some bs \<Rightarrow> take (unat n) bs)"

definition node_key :: "payload \<Rightarrow> bytes" where
  "node_key p = node_view (pl_key_data p) (pl_key_length p)"

definition node_string :: "payload \<Rightarrow> bytes" where
  "node_string p = node_view (pl_string_data p) (pl_string_length p)"

definition node_key_hash :: "(bytes \<Rightarrow> u64) \<Rightarrow> payload \<Rightarrow> u64" where
  "node_key_hash hash p =
     (if length (node_key p) = 0 \<and> pl_key_data p = None then hash (node_key p) else pl_key_hash64 p)"

section \<open>Collecting the strings\<close>

definition collect_key :: "platform \<Rightarrow> nat \<Rightarrow> string_pool \<Rightarrow> payload \<Rightarrow> fault + payload \<times> string_pool \<times> nat" where
  "collect_key pf k pool p =
     (if pl_key_data p \<noteq> None then
        bindE (pool_intern_with_hash pf k pool (node_key p) (pl_key_hash64 p)) (\<lambda>(offset, pool, k).
        Inr (p\<lparr>pl_cached_key_pool_offset := offset\<rparr>, pool, k))
      else Inr (p, pool, k))"

definition collect_string ::
    "(bytes \<Rightarrow> u64) \<Rightarrow> platform \<Rightarrow> nat \<Rightarrow> string_pool \<Rightarrow> payload \<Rightarrow> fault + payload \<times> string_pool \<times> nat" where
  "collect_string hash pf k pool p =
     (if pl_kind p = K_STRING then
        bindE (pool_intern hash pf k pool (node_string p)) (\<lambda>(offset, pool, k).
        Inr (p\<lparr>pl_cached_string_pool_offset := offset\<rparr>, pool, k))
      else Inr (p, pool, k))"

fun collect_strings ::
      "(bytes \<Rightarrow> u64) \<Rightarrow> platform \<Rightarrow> nat \<Rightarrow> string_pool \<Rightarrow> tree \<Rightarrow> fault + tree \<times> string_pool \<times> nat"
  and collect_all ::
      "(bytes \<Rightarrow> u64) \<Rightarrow> platform \<Rightarrow> nat \<Rightarrow> string_pool \<Rightarrow> tree list \<Rightarrow> fault + tree list \<times> string_pool \<times> nat" where
  "collect_strings hash pf k pool (Tree p children) =
     bindE (collect_key pf k pool p) (\<lambda>(p, pool, k).
     bindE (collect_string hash pf k pool p) (\<lambda>(p, pool, k).
     bindE (collect_all hash pf k pool children) (\<lambda>(children, pool, k).
     Inr (Tree p children, pool, k))))"
| "collect_all hash pf k pool [] = Inr ([], pool, k)"
| "collect_all hash pf k pool (t # ts) =
     bindE (collect_strings hash pf k pool t) (\<lambda>(t, pool, k).
     bindE (collect_all hash pf k pool ts) (\<lambda>(ts, pool, k).
     Inr (t # ts, pool, k)))"

text \<open>
  The walk over the arena: from a node over its children and then its siblings. The stores that were
  made before a failure stay. The fuel bounds the number of links followed, as in \<open>read_forest\<close>.
\<close>

definition store_payload :: "payload \<Rightarrow> nat \<Rightarrow> node list \<Rightarrow> node list" where
  "store_payload p i nodes = nodes[i := payload.extend p (payload.more (nodes ! i))]"

fun collect_nodes ::
    "(bytes \<Rightarrow> u64) \<Rightarrow> platform \<Rightarrow> nat \<Rightarrow> nat \<Rightarrow> string_pool \<Rightarrow> node list \<Rightarrow> nat option
       \<Rightarrow> node list \<times> (fault + string_pool \<times> nat)" where
  "collect_nodes hash pf fuel k pool nodes None = (nodes, Inr (pool, k))"
| "collect_nodes hash pf 0 k pool nodes (Some i) = (nodes, Inl Loops_forever)"
| "collect_nodes hash pf (Suc fuel) k pool nodes (Some i) =
     (case collect_key pf k pool (payload.truncate (nodes ! i)) of
        Inl f \<Rightarrow> (nodes, Inl f)
      | Inr (p, pool, k) \<Rightarrow>
          (case collect_string hash pf k pool p of
             Inl f \<Rightarrow> (store_payload p i nodes, Inl f)
           | Inr (p, pool, k) \<Rightarrow>
               (case collect_nodes hash pf fuel k pool (store_payload p i nodes) (nd_first_child (nodes ! i)) of
                  (nodes, Inl f) \<Rightarrow> (nodes, Inl f)
                | (nodes, Inr (pool, k)) \<Rightarrow> collect_nodes hash pf fuel k pool nodes (nd_next_sibling (nodes ! i)))))"

section \<open>Emission\<close>

text \<open>The kind byte, placed so that the body after it is aligned; the result is its offset.\<close>

definition emit_kind :: "platform \<Rightarrow> nat \<Rightarrow> encoder_buffer \<Rightarrow> kind \<Rightarrow> nat \<Rightarrow> fault + nat \<times> encoder_buffer \<times> nat" where
  "emit_kind pf k nodes kd alignment =
     (let kind_offset = align_up_nat (length (eb_data nodes) + 1) alignment - 1
      in bindE (if kind_offset > length (eb_data nodes)
                then buffer_append_zero pf k nodes (kind_offset - length (eb_data nodes))
                else Inr (nodes, k)) (\<lambda>(nodes, k).
         bindE (buffer_append pf k nodes [kind_code kd]) (\<lambda>(nodes, k).
         Inr (kind_offset, nodes, k))))"

definition emit_string_ref ::
    "(bytes \<Rightarrow> u64) \<Rightarrow> platform \<Rightarrow> nat \<Rightarrow> encoder_buffer \<Rightarrow> string_pool \<Rightarrow> payload \<Rightarrow> fault + encoder_buffer \<times> string_pool \<times> nat" where
  "emit_string_ref hash pf k nodes pool p =
     bindE (if pl_cached_string_pool_offset p = POOL_OFFSET_NONE
            then pool_intern hash pf k pool (node_string p)
            else Inr (pl_cached_string_pool_offset p, pool, k)) (\<lambda>(pool_offset_intra, pool, k).
     let ref = \<lparr>sr_pool_offset = pool_offset_intra, sr_length = of_nat (length (node_string p))\<rparr>;
         string_ref_offset = length (eb_data nodes)
     in bindE (buffer_append pf k nodes (store_string_ref ref)) (\<lambda>(nodes, k).
        bindE (pool_record_fixup pf k pool string_ref_offset) (\<lambda>(pool, k).
        Inr (nodes, pool, k))))"

definition emit_scalar ::
    "(bytes \<Rightarrow> u64) \<Rightarrow> platform \<Rightarrow> nat \<Rightarrow> encoder_buffer \<Rightarrow> string_pool \<Rightarrow> u64 \<Rightarrow> payload
       \<Rightarrow> fault + u64 \<times> encoder_buffer \<times> string_pool \<times> nat" where
  "emit_scalar hash pf k nodes pool nodes_base_offset p =
     bindE (emit_kind pf k nodes (pl_kind p) (kind_body_align (pl_kind p))) (\<lambda>(kind_offset, nodes, k).
     bindE (if pl_kind p = K_NULL \<or> pl_kind p = K_FALSE \<or> pl_kind p = K_TRUE then Inr (nodes, pool, k)
            else if pl_kind p = K_INT64 \<or> pl_kind p = K_UINT64 \<or> pl_kind p = K_FLOAT64
            then bindE (buffer_append pf k nodes (store_u64 (pl_bits p))) (\<lambda>(nodes, k). Inr (nodes, pool, k))
            else if pl_kind p = K_STRING then emit_string_ref hash pf k nodes pool p
            else Inl (Fails W_INTERNAL)) (\<lambda>(nodes, pool, k).
     Inr (nodes_base_offset + of_nat kind_offset, nodes, pool, k)))"

definition stored_entry :: "pending_entry \<Rightarrow> entry" where
  "stored_entry e = \<lparr>ent_key_hash64 = pe_key_hash64 e, ent_key_pool_offset = pe_key_pool_offset e,
     ent_key_length = pe_key_length e, ent_value_offset = pe_value_offset e\<rparr>"

text \<open>The loop that stores the sorted entries over the zeros reserved for them.\<close>

fun store_entries ::
    "platform \<Rightarrow> nat \<Rightarrow> encoder_buffer \<Rightarrow> string_pool \<Rightarrow> nat \<Rightarrow> pending_entry list
       \<Rightarrow> fault + encoder_buffer \<times> string_pool \<times> nat" where
  "store_entries pf k nodes pool off [] = Inr (nodes, pool, k)"
| "store_entries pf k nodes pool off (e # es) =
     bindE (pool_record_fixup pf k pool (off + 8)) (\<lambda>(pool, k).
     store_entries pf k (nodes\<lparr>eb_data := patch off (store_entry (stored_entry e)) (eb_data nodes)\<rparr>) pool (off + ENTRY_SIZE) es)"

text \<open>The pool offset of the key of a child of a block, or of a root.\<close>

definition emit_key ::
    "(bytes \<Rightarrow> u64) \<Rightarrow> platform \<Rightarrow> nat \<Rightarrow> string_pool \<Rightarrow> payload \<Rightarrow> fault + u32 \<times> string_pool \<times> nat" where
  "emit_key hash pf k pool p =
     (if pl_cached_key_pool_offset p = POOL_OFFSET_NONE
      then pool_intern_with_hash pf k pool (node_key p) (node_key_hash hash p)
      else Inr (pl_cached_key_pool_offset p, pool, k))"

definition pending_for :: "(bytes \<Rightarrow> u64) \<Rightarrow> payload \<Rightarrow> u32 \<Rightarrow> u64 \<Rightarrow> pending_entry" where
  "pending_for hash p key_pool_offset value_offset =
     \<lparr>pe_key_hash64 = node_key_hash hash p, pe_key_pool_offset = key_pool_offset,
      pe_key_length = of_nat (length (node_key p)), pe_value_offset = value_offset\<rparr>"

text \<open>The head of a container: its kind byte, aligned, its two-word header and the reserved table.\<close>

definition emit_container_head ::
    "platform \<Rightarrow> nat \<Rightarrow> encoder_buffer \<Rightarrow> kind \<Rightarrow> bytes \<Rightarrow> nat \<Rightarrow> fault + nat \<times> nat \<times> encoder_buffer \<times> nat" where
  "emit_container_head pf k nodes kd head table_size =
     bindE (emit_kind pf k nodes kd 8) (\<lambda>(kind_offset, nodes, k).
     bindE (buffer_align_to pf k nodes 8) (\<lambda>(nodes, k).
     bindE (buffer_append pf k nodes head) (\<lambda>(nodes, k).
     let table_offset = length (eb_data nodes)
     in bindE (buffer_append_zero pf k nodes table_size) (\<lambda>(nodes, k).
        Inr (kind_offset, table_offset, nodes, k)))))"

text \<open>
  \<open>emit_children\<close> is the loop over the children of a block, which fills the \<open>pending\<close> array;
  \<open>emit_elements\<close> the loop over the elements of an array, which stores each offset in the table.
  The array \<open>pending\<close> has \<open>child_count\<close> elements.
\<close>

fun emit_value ::
      "(bytes \<Rightarrow> u64) \<Rightarrow> platform \<Rightarrow> nat \<Rightarrow> encoder_buffer \<Rightarrow> string_pool \<Rightarrow> u64 \<Rightarrow> tree
         \<Rightarrow> fault + u64 \<times> encoder_buffer \<times> string_pool \<times> nat"
  and emit_children ::
      "(bytes \<Rightarrow> u64) \<Rightarrow> platform \<Rightarrow> nat \<Rightarrow> encoder_buffer \<Rightarrow> string_pool \<Rightarrow> u64 \<Rightarrow> nat \<Rightarrow> pending_entry list \<Rightarrow> tree list
         \<Rightarrow> fault + pending_entry list \<times> encoder_buffer \<times> string_pool \<times> nat"
  and emit_elements ::
      "(bytes \<Rightarrow> u64) \<Rightarrow> platform \<Rightarrow> nat \<Rightarrow> encoder_buffer \<Rightarrow> string_pool \<Rightarrow> u64 \<Rightarrow> nat \<Rightarrow> u32 \<Rightarrow> tree list
         \<Rightarrow> fault + encoder_buffer \<times> string_pool \<times> nat" where
  "emit_value hash pf k nodes pool base (Tree p children) =
     (if pl_kind p = K_BLOCK then
        let child_count = of_nat (length children) :: u32
        in bindE (emit_container_head pf k nodes K_BLOCK
                   (store_block_header \<lparr>bh_child_count = child_count, bh_entries_size_bytes = child_count * 24\<rparr>)
                   (unat child_count * ENTRY_SIZE)) (\<lambda>(kind_offset, table_offset, nodes, k).
           bindE (if child_count \<noteq> 0 then request pf k (unat child_count * 24) else Inr k) (\<lambda>k.
           bindE (emit_children hash pf k nodes pool base (unat child_count) [] children) (\<lambda>(pending, nodes, pool, k).
           bindE (pending_sort pf k (sp_worker_count pool) pending) (\<lambda>(pending, k).
           bindE (store_entries pf k nodes pool table_offset pending) (\<lambda>(nodes, pool, k).
           Inr (base + of_nat kind_offset, nodes, pool, k))))))
      else if pl_kind p = K_ARRAY then
        let element_count = of_nat (length children) :: u32
        in bindE (emit_container_head pf k nodes K_ARRAY
                   (store_array_header \<lparr>ah_element_count = element_count, ah_body_size_bytes = element_count * 8\<rparr>)
                   (unat element_count * ARRAY_ELEMENT_SIZE)) (\<lambda>(kind_offset, table_offset, nodes, k).
           bindE (emit_elements hash pf k nodes pool base table_offset 0 children) (\<lambda>(nodes, pool, k).
           Inr (base + of_nat kind_offset, nodes, pool, k)))
      else emit_scalar hash pf k nodes pool base p)"
| "emit_children hash pf k nodes pool base room pending [] = Inr (pending, nodes, pool, k)"
| "emit_children hash pf k nodes pool base room pending (t # ts) =
     bindE (emit_key hash pf k pool (tr_payload t)) (\<lambda>(key_pool_offset, pool, k).
     bindE (emit_value hash pf k nodes pool base t) (\<lambda>(value_offset, nodes, pool, k).
     if length pending < room
     then emit_children hash pf k nodes pool base room
            (pending @ [pending_for hash (tr_payload t) key_pool_offset value_offset]) ts
     else Inl Out_of_bounds))"
| "emit_elements hash pf k nodes pool base table_offset index [] = Inr (nodes, pool, k)"
| "emit_elements hash pf k nodes pool base table_offset index (t # ts) =
     bindE (emit_value hash pf k nodes pool base t) (\<lambda>(element_offset, nodes, pool, k).
     let off = table_offset + unat index * ARRAY_ELEMENT_SIZE
     in if off + 8 \<le> length (eb_data nodes)
        then emit_elements hash pf k (nodes\<lparr>eb_data := patch off (store_u64 element_offset) (eb_data nodes)\<rparr>) pool base
               table_offset (index + 1) ts
        else Inl Out_of_bounds)"

section \<open>Fix-ups\<close>

definition apply_fixup :: "u32 \<Rightarrow> bytes \<Rightarrow> nat \<Rightarrow> fault + bytes" where
  "apply_fixup delta data off =
     (if off + 4 \<le> length data
      then Inr (patch off (store_u32 (load_u32 (take 4 (drop off data)) + delta)) data)
      else Inl Out_of_bounds)"

fun apply_fixups_loop :: "u32 \<Rightarrow> bytes \<Rightarrow> nat list \<Rightarrow> fault + bytes" where
  "apply_fixups_loop delta data [] = Inr data"
| "apply_fixups_loop delta data (off # offs) =
     bindE (apply_fixup delta data off) (\<lambda>data. apply_fixups_loop delta data offs)"

definition apply_fixups :: "encoder_buffer \<Rightarrow> string_pool \<Rightarrow> nat \<Rightarrow> fault + encoder_buffer" where
  "apply_fixups nodes pool strings_offset =
     bindE (apply_fixups_loop (of_nat strings_offset) (eb_data nodes) (sp_fixup_offsets pool)) (\<lambda>data.
     Inr (nodes\<lparr>eb_data := data\<rparr>))"

section \<open>The file\<close>

definition relocate_root :: "nat \<Rightarrow> pending_entry \<Rightarrow> pending_entry" where
  "relocate_root strings_offset e =
     e\<lparr>pe_key_pool_offset := ucast (of_nat strings_offset + ucast (pe_key_pool_offset e) :: u64)\<rparr>"

fun store_roots :: "bytes \<Rightarrow> nat \<Rightarrow> pending_entry list \<Rightarrow> bytes" where
  "store_roots out off [] = out"
| "store_roots out off (e # es) = store_roots (patch off (store_entry (stored_entry e)) out) (off + ENTRY_SIZE) es"

definition assemble_file ::
    "(bytes \<Rightarrow> u64) \<Rightarrow> pending_entry list \<Rightarrow> u64 \<Rightarrow> bytes \<Rightarrow> bytes \<Rightarrow> nat \<Rightarrow> bytes" where
  "assemble_file hash root_entries root_count nodes strings strings_count =
     (let root_index_size = unat root_count * ENTRY_SIZE;
          nodes_offset = ROOT_INDEX_OFFSET + root_index_size;
          strings_offset = nodes_offset + length nodes;
          footer_offset = strings_offset + length strings;
          file_size = footer_offset + FOOTER_SIZE;
          out = zeros file_size;
          out = patch 0 (store_header \<lparr>hdr_magic = BC_HRBL_MAGIC, hdr_version_major = BC_HRBL_VERSION_MAJOR,
            hdr_version_minor = BC_HRBL_VERSION_MINOR, hdr_file_size = of_nat file_size,
            hdr_flags = BC_HRBL_FLAGS_V1_REQUIRED, hdr_root_count = root_count,
            hdr_root_index_offset = of_nat ROOT_INDEX_OFFSET, hdr_root_index_size = of_nat root_index_size,
            hdr_nodes_offset = of_nat nodes_offset, hdr_nodes_size = of_nat (length nodes),
            hdr_strings_offset = of_nat strings_offset, hdr_strings_size = of_nat (length strings),
            hdr_strings_count = of_nat strings_count, hdr_footer_offset = of_nat footer_offset,
            hdr_checksum = 0, hdr_reserved = zeros 24\<rparr>) out;
          out = store_roots out ROOT_INDEX_OFFSET root_entries;
          out = (if length nodes \<noteq> 0 then patch nodes_offset nodes out else out);
          out = (if length strings \<noteq> 0 then patch strings_offset strings out else out);
          checksum = hash (take (footer_offset - ROOT_INDEX_OFFSET) (drop ROOT_INDEX_OFFSET out));
          out = patch 96 (store_u64 checksum) out
      in patch footer_offset (store_footer \<lparr>ftr_checksum = checksum, ftr_file_size = of_nat file_size,
           ftr_magic_end = BC_HRBL_MAGIC, ftr_reserved = zeros 12\<rparr>) out)"

text \<open>
  \<open>bc_hrbl_writer_serialize_to_buffer\<close> once the strings are collected: \<open>roots\<close> are the trees at
  \<open>root_first\<close> and its siblings, \<open>root_count\<close> the field of the writer.
\<close>

definition serialize_collected ::
    "(bytes \<Rightarrow> u64) \<Rightarrow> platform \<Rightarrow> nat \<Rightarrow> string_pool \<Rightarrow> u32 \<Rightarrow> tree list \<Rightarrow> fault + bytes" where
  "serialize_collected hash pf k pool root_count roots =
     bindE (buffer_init pf k 4096) (\<lambda>(nodes, k).
     let nodes_offset = ROOT_INDEX_OFFSET + unat root_count * ENTRY_SIZE
     in bindE (if root_count \<noteq> 0 then request pf k (unat root_count * 24) else Inr k) (\<lambda>k.
        bindE (emit_children hash pf k nodes pool (of_nat nodes_offset) (unat root_count) [] roots) (\<lambda>(entries, nodes, pool, k).
        bindE (pending_sort pf k (sp_worker_count pool) entries) (\<lambda>(entries, k).
        let strings_offset = nodes_offset + length (eb_data nodes);
            file_size = strings_offset + length (eb_data (sp_buffer pool)) + FOOTER_SIZE;
            entries = map (relocate_root strings_offset) entries
        in bindE (apply_fixups nodes pool strings_offset) (\<lambda>nodes.
           bindE (request pf k file_size) (\<lambda>k.
           Inr (assemble_file hash entries (ucast root_count) (eb_data nodes) (eb_data (sp_buffer pool))
                  (length (sp_entries pool)))))))))"

text \<open>The whole of it for a forest, and for a writer, whose nodes keep the offsets.\<close>

definition serialize ::
    "(bytes \<Rightarrow> u64) \<Rightarrow> platform \<Rightarrow> nat \<Rightarrow> u32 \<Rightarrow> tree list \<Rightarrow> fault + bytes" where
  "serialize hash pf worker_count root_count roots =
     bindE (pool_init pf 0 4096) (\<lambda>(pool, k).
     bindE (collect_all hash pf k (pool\<lparr>sp_worker_count := worker_count\<rparr>) roots) (\<lambda>(roots, pool, k).
     serialize_collected hash pf k pool root_count roots))"

definition writer_serialize_to_buffer :: "(bytes \<Rightarrow> u64) \<Rightarrow> platform \<Rightarrow> writer \<Rightarrow> (fault + bytes) \<times> writer" where
  "writer_serialize_to_buffer hash pf w =
     (case pool_init pf 0 4096 of
        Inl f \<Rightarrow> (Inl f, w)
      | Inr (pool, k) \<Rightarrow>
          (case collect_nodes hash pf (length (w_nodes w)) k (pool\<lparr>sp_worker_count := w_worker_count w\<rparr>) (w_nodes w) (w_root_first w) of
             (nodes, Inl f) \<Rightarrow> (Inl f, w\<lparr>w_nodes := nodes\<rparr>)
           | (nodes, Inr (pool, k)) \<Rightarrow>
               let w = w\<lparr>w_nodes := nodes\<rparr>
               in (case writer_forest w of
                     None \<Rightarrow> (Inl Loops_forever, w)
                   | Some roots \<Rightarrow> (serialize_collected hash pf k pool (w_root_count w) roots, w))))"

text \<open>
  \<open>None\<close> as the buffer is the return value \<open>false\<close>. The faults that are not error codes are not
  outcomes the code returns from.
\<close>

definition writer_finalize_to_buffer ::
    "(bytes \<Rightarrow> u64) \<Rightarrow> platform \<Rightarrow> writer \<Rightarrow> fault + bytes option \<times> writer" where
  "writer_finalize_to_buffer hash pf w =
     (if w_error_flag w then Inr (None, w\<lparr>w_last_error := W_CONSTRUCTION\<rparr>)
      else if w_current_scope w \<noteq> None then Inr (None, w\<lparr>w_last_error := W_UNCLOSED_SCOPE\<rparr>)
      else case writer_serialize_to_buffer hash pf w of
        (Inr out, w) \<Rightarrow> Inr (Some out, w)
      | (Inl (Fails e), w) \<Rightarrow> Inr (None, w\<lparr>w_last_error := (if e \<noteq> W_OK then e else W_INTERNAL)\<rparr>)
      | (Inl f, w) \<Rightarrow> Inl f)"

end
