(* ===== verification/Layout.thy ===== *)
theory Layout
  imports Encoder "HOL-Library.Sublist"
begin

text \<open>
  The layout of the node region as a function of the tree alone: where every value starts and
  ends, its bytes, and where the pool offsets are among them. The emission of \<open>Encoder\<close>, which
  patches a growing buffer and interns keys on the way, is shown to produce these bytes.
\<close>

section \<open>Positions\<close>

definition kind_position :: "nat \<Rightarrow> kind \<Rightarrow> nat" where
  "kind_position n kd = align_up_nat (n + 1) (kind_body_align kd) - 1"

definition value_position :: "nat \<Rightarrow> tree \<Rightarrow> nat" where
  "value_position n t = kind_position n (pl_kind (tr_payload t))"

definition body_position :: "nat \<Rightarrow> kind \<Rightarrow> nat" where
  "body_position n kd = Suc (kind_position n kd)"

definition table_width :: "kind \<Rightarrow> nat" where
  "table_width kd = (if kd = K_BLOCK then ENTRY_SIZE else ARRAY_ELEMENT_SIZE)"

definition is_container_kind :: "kind \<Rightarrow> bool" where
  "is_container_kind kd \<longleftrightarrow> kd = K_BLOCK \<or> kd = K_ARRAY"

text \<open>Where the children of a container start: after its head and its table.\<close>

definition children_position :: "nat \<Rightarrow> kind \<Rightarrow> nat \<Rightarrow> nat" where
  "children_position n kd c = body_position n kd + 8 + c * table_width kd"

text \<open>The position after a value that starts to be laid out at \<open>n\<close>.\<close>

fun value_end :: "nat \<Rightarrow> tree \<Rightarrow> nat" and values_end :: "nat \<Rightarrow> tree list \<Rightarrow> nat" where
  "value_end n (Tree p cs) =
     (if is_container_kind (pl_kind p) then values_end (children_position n (pl_kind p) (length cs)) cs
      else body_position n (pl_kind p) + kind_body_size (pl_kind p))"
| "values_end n [] = n"
| "values_end n (t # ts) = values_end (value_end n t) ts"

fun offsets :: "u64 \<Rightarrow> nat \<Rightarrow> tree list \<Rightarrow> u64 list" where
  "offsets base n [] = []"
| "offsets base n (t # ts) = (base + of_nat (value_position n t)) # offsets base (value_end n t) ts"

definition pendings :: "(bytes \<Rightarrow> u64) \<Rightarrow> (bytes \<Rightarrow> u32) \<Rightarrow> u64 \<Rightarrow> nat \<Rightarrow> tree list \<Rightarrow> pending_entry list" where
  "pendings hash po base n ts = map (\<lambda>(t, v). pending_for hash (tr_payload t) (po (node_key (tr_payload t))) v)
     (zip ts (offsets base n ts))"

definition entry_table :: "pending_entry list \<Rightarrow> bytes" where
  "entry_table es = concat (map (\<lambda>e. store_entry (stored_entry e)) es)"

section \<open>Bytes\<close>

definition lead :: "nat \<Rightarrow> kind \<Rightarrow> bytes" where
  "lead n kd = zeros (kind_position n kd - n) @ [kind_code kd]"

definition scalar_bytes :: "(bytes \<Rightarrow> u32) \<Rightarrow> payload \<Rightarrow> bytes" where
  "scalar_bytes po p =
     (if kind_body_size (pl_kind p) = 0 then []
      else if pl_kind p = K_STRING
      then store_string_ref \<lparr>sr_pool_offset = po (node_string p), sr_length = of_nat (length (node_string p))\<rparr>
      else store_u64 (pl_bits p))"

definition container_head :: "kind \<Rightarrow> nat \<Rightarrow> bytes" where
  "container_head kd c =
     (if kd = K_BLOCK then store_block_header \<lparr>bh_child_count = of_nat c, bh_entries_size_bytes = of_nat c * 24\<rparr>
      else store_array_header \<lparr>ah_element_count = of_nat c, ah_body_size_bytes = of_nat c * 8\<rparr>)"

definition container_table :: "(bytes \<Rightarrow> u64) \<Rightarrow> (bytes \<Rightarrow> u32) \<Rightarrow> u64 \<Rightarrow> nat \<Rightarrow> kind \<Rightarrow> tree list \<Rightarrow> bytes" where
  "container_table hash po base n kd cs =
     (if kd = K_BLOCK then entry_table (sort_key pe_key_hash64 (pendings hash po base n cs))
      else concat (map store_u64 (offsets base n cs)))"

text \<open>
  The bytes of a value laid out from position \<open>n\<close> of the node region, when the region is at \<open>base\<close>
  of the file and \<open>po\<close> says where the strings are.
\<close>

fun layout :: "(bytes \<Rightarrow> u64) \<Rightarrow> (bytes \<Rightarrow> u32) \<Rightarrow> u64 \<Rightarrow> nat \<Rightarrow> tree \<Rightarrow> bytes"
  and layout_all :: "(bytes \<Rightarrow> u64) \<Rightarrow> (bytes \<Rightarrow> u32) \<Rightarrow> u64 \<Rightarrow> nat \<Rightarrow> tree list \<Rightarrow> bytes" where
  "layout hash po base n (Tree p cs) = lead n (pl_kind p) @
     (if is_container_kind (pl_kind p) then
        container_head (pl_kind p) (length cs) @
        container_table hash po base (children_position n (pl_kind p) (length cs)) (pl_kind p) cs @
        layout_all hash po base (children_position n (pl_kind p) (length cs)) cs
      else scalar_bytes po p)"
| "layout_all hash po base n [] = []"
| "layout_all hash po base n (t # ts) = layout hash po base n t @ layout_all hash po base (value_end n t) ts"

text \<open>The positions of the pool offsets in these bytes, in the order in which they are recorded.\<close>

fun fixups :: "nat \<Rightarrow> tree \<Rightarrow> nat list" and fixups_all :: "nat \<Rightarrow> tree list \<Rightarrow> nat list" where
  "fixups n (Tree p cs) =
     (if is_container_kind (pl_kind p) then
        fixups_all (children_position n (pl_kind p) (length cs)) cs @
        (if pl_kind p = K_BLOCK then map (\<lambda>i. body_position n (pl_kind p) + 8 + i * 24 + 8) [0..<length cs] else [])
      else if pl_kind p = K_STRING then [body_position n (pl_kind p)] else [])"
| "fixups_all n [] = []"
| "fixups_all n (t # ts) = fixups n t @ fixups_all (value_end n t) ts"

section \<open>Lengths\<close>

lemma kind_position_ge [simp]: "n \<le> kind_position n kd"
  using align_up_nat_ge [of "kind_body_align kd" "n + 1"] by (cases kd) (simp_all add: kind_position_def)

lemma length_lead [simp]: "length (lead n kd) = body_position n kd - n"
  by (simp add: lead_def body_position_def Suc_diff_le)

lemma body_position_gt: "n < body_position n kd"
  by (simp add: body_position_def le_imp_less_Suc)

lemma length_offsets [simp]: "length (offsets base n ts) = length ts"
  by (induction ts arbitrary: n) simp_all

lemma length_pendings [simp]: "length (pendings hash po base n ts) = length ts"
  by (simp add: pendings_def)

lemma length_store_entry [simp]: "length (store_entry e) = 24"
  by (rule entry_codec.length_enc) simp

lemma length_store_u64 [simp]: "length (store_u64 v) = 8"
  by (rule u64_codec.length_enc) simp

lemma length_store_string_ref [simp]: "length (store_string_ref v) = 8"
  by (rule string_ref_codec.length_enc) simp

lemma length_store_block_header [simp]: "length (store_block_header v) = 8"
  by (rule block_header_codec.length_enc) simp

lemma length_store_array_header [simp]: "length (store_array_header v) = 8"
  by (rule array_header_codec.length_enc) simp

lemma length_entry_table [simp]: "length (entry_table es) = length es * 24"
  by (induction es) (simp_all add: entry_table_def)

lemma length_u64_table [simp]: "length (concat (map store_u64 vs)) = length vs * 8"
  by (induction vs) simp_all

lemma length_container_head [simp]: "length (container_head kd c) = 8"
  by (simp add: container_head_def)

lemma length_container_table [simp]: "length (container_table hash po base n kd cs) = length cs * table_width kd"
  by (simp add: container_table_def table_width_def)

lemma length_scalar_bytes [simp]: "length (scalar_bytes po p) = kind_body_size (pl_kind p)"
  by (cases "pl_kind p") (simp_all add: scalar_bytes_def)

lemma length_layout:
  "n + length (layout hash po base n t) = value_end n t"
  "n + length (layout_all hash po base n ts) = values_end n ts"
proof (induction n t and n ts rule: value_end_values_end.induct)
  case (1 n p cs)
  then show ?case
    using body_position_gt [of n "pl_kind p"] by (auto simp: children_position_def)
next
  case (3 n t ts)
  then show ?case by simp
qed simp

lemma value_end_gt: "n < value_end n t" and values_end_ge: "n \<le> values_end n ts"
proof -
  obtain p cs where "t = Tree p cs" by (cases t)
  then have "0 < length (layout (\<lambda>_. 0) (\<lambda>_. 0) 0 n t)" by (simp add: lead_def)
  then show "n < value_end n t" using length_layout(1) [of n "\<lambda>_. 0" "\<lambda>_. 0" 0 t] by linarith
  show "n \<le> values_end n ts" using length_layout(2) [of n "\<lambda>_. 0" "\<lambda>_. 0" 0 ts] by linarith
qed

section \<open>What the encoder is given\<close>

definition intra :: "bytes list \<Rightarrow> bytes \<Rightarrow> u32" where
  "intra strs s = of_nat (string_offset strs s)"

definition ready_payload :: "(bytes \<Rightarrow> u64) \<Rightarrow> bytes list \<Rightarrow> payload \<Rightarrow> bool" where
  "ready_payload hash strs p \<longleftrightarrow>
     node_key_hash hash p = hash (node_key p) \<and>
     (if pl_key_data p = None then pl_cached_key_pool_offset p = POOL_OFFSET_NONE
      else node_key p \<in> set strs \<and> pl_cached_key_pool_offset p = intra strs (node_key p)) \<and>
     (pl_kind p = K_STRING \<longrightarrow> node_string p \<in> set strs \<and> pl_cached_string_pool_offset p = intra strs (node_string p))"

text \<open>
  A tree after \<open>collect_strings\<close>: its keys and strings are among \<open>strs\<close> and the nodes cache where.
\<close>

fun ready :: "(bytes \<Rightarrow> u64) \<Rightarrow> bytes list \<Rightarrow> tree \<Rightarrow> bool" where
  "ready hash strs (Tree p cs) \<longleftrightarrow> ready_payload hash strs p \<and> length cs < 2 ^ 32 \<and> (\<forall>t \<in> set cs. ready hash strs t)"

text \<open>The strings that emission adds: an empty key is a null pointer, which is not collected.\<close>

definition late_key :: "payload \<Rightarrow> bytes list" where
  "late_key p = (if pl_key_data p = None then [[]] else [])"

fun late :: "tree \<Rightarrow> bytes list" where
  "late (Tree p cs) =
     (if pl_kind p = K_BLOCK then concat (map (\<lambda>t. late_key (tr_payload t) @ late t) cs)
      else if pl_kind p = K_ARRAY then concat (map late cs) else [])"

definition late_children :: "tree list \<Rightarrow> bytes list" where
  "late_children ts = concat (map (\<lambda>t. late_key (tr_payload t) @ late t) ts)"

definition late_elements :: "tree list \<Rightarrow> bytes list" where
  "late_elements ts = concat (map late ts)"

lemma late_simps [simp]:
  "late_children [] = []" "late_children (t # ts) = late_key (tr_payload t) @ late t @ late_children ts"
  "late_elements [] = []" "late_elements (t # ts) = late t @ late_elements ts"
  by (simp_all add: late_children_def late_elements_def)

lemma late_Tree:
  "late (Tree p cs) = (if pl_kind p = K_BLOCK then late_children cs else if pl_kind p = K_ARRAY then late_elements cs else [])"
  by (simp add: late_children_def late_elements_def)

declare late.simps [simp del]

lemma prefix_remember: "prefix strs (remember strs s)"
  by (simp add: remember_def)

lemma prefix_remember_all: "prefix strs (foldl remember strs ss)"
  using pool.remember_all [of strs ss] by auto

lemma prefix_remember_later: "prefix (foldl remember (foldl remember strs ss) ts) F \<Longrightarrow> prefix (foldl remember strs ss) F"
  using prefix_remember_all prefix_order.trans by blast

lemma intra_prefix: "prefix strs F \<Longrightarrow> s \<in> set strs \<Longrightarrow> intra F s = intra strs s"
  by (auto simp: intra_def prefix_def string_offset_append)

lemma intra_not_none:
  assumes "pool_holds hash pool strs" and "s \<in> set strs"
  shows "intra strs s \<noteq> POOL_OFFSET_NONE"
proof
  assume "intra strs s = POOL_OFFSET_NONE"
  then have "unat (intra strs s) = 4294967295" by (simp add: POOL_OFFSET_NONE_def)
  moreover have "string_offset strs s < 2 ^ 32" using assms by (simp add: pool_holds_def)
  ultimately have "string_offset strs s = 4294967295" by (simp add: intra_def)
  then show False using string_offset_aligned [of strs s] by simp
qed

lemma ready_payload_mono: "prefix strs F \<Longrightarrow> ready_payload hash strs p \<Longrightarrow> ready_payload hash F p"
  using intra_prefix [of strs F] by (auto simp: ready_payload_def prefix_def split: if_splits)

lemma ready_mono: "prefix strs F \<Longrightarrow> ready hash strs t \<Longrightarrow> ready hash F t"
  by (induction t) (auto intro: ready_payload_mono)

section \<open>The steps of emission\<close>

lemma emit_kind_spec:
  assumes "emit_kind pf k nodes kd (kind_body_align kd) = Inr (ko, nodes', k')"
  shows "ko = kind_position (length (eb_data nodes)) kd \<and> eb_data nodes' = eb_data nodes @ lead (length (eb_data nodes)) kd"
  using assms
  by (auto simp: emit_kind_def Let_def kind_position_def lead_def outcome_simps dest!: buffer_data split: if_splits)

text \<open>What the steps keep of the pool.\<close>

definition pool_step :: "(bytes \<Rightarrow> u64) \<Rightarrow> string_pool \<Rightarrow> bytes list \<Rightarrow> string_pool \<Rightarrow> bytes list \<Rightarrow> nat list \<Rightarrow> bool" where
  "pool_step hash pool strs pool' ss fs \<longleftrightarrow> pool_holds hash pool' (foldl remember strs ss) \<and>
     sp_fixup_offsets pool' = sp_fixup_offsets pool @ fs \<and> sp_worker_count pool' = sp_worker_count pool"

lemma pool_step_refl: "pool_holds hash pool strs \<Longrightarrow> pool_step hash pool strs pool [] []"
  by (simp add: pool_step_def)

lemma pool_step_trans:
  "pool_step hash pool strs pool' ss fs \<Longrightarrow> pool_step hash pool' (foldl remember strs ss) pool'' ss' fs' \<Longrightarrow>
     pool_step hash pool strs pool'' (ss @ ss') (fs @ fs')"
  by (simp add: pool_step_def)

lemma pool_step_intern:
  assumes "pool_holds hash pool strs" and "pool_intern_with_hash pf k pool s (hash s) = Inr (off, pool', k')"
  shows "pool_step hash pool strs pool' [s] [] \<and> off = intra (remember strs s) s"
  using pool_intern_spec [OF assms] by (auto simp: pool_step_def intra_def same_fixups_def)

lemma pool_step_fixup:
  "pool_holds hash pool strs \<Longrightarrow> pool_record_fixup pf k pool off = Inr (pool', k') \<Longrightarrow> pool_step hash pool strs pool' [] [off]"
  using pool_record_fixup_spec [of pf k pool off pool' k' hash strs] by (simp add: pool_step_def)

lemma emit_key_spec:
  assumes holds: "pool_holds hash pool strs" and ready: "ready_payload hash strs p"
    and emit: "emit_key hash pf k pool p = Inr (off, pool', k')"
  shows "pool_step hash pool strs pool' (late_key p) [] \<and> node_key p \<in> set (foldl remember strs (late_key p)) \<and>
    off = intra (foldl remember strs (late_key p)) (node_key p)"
proof (cases "pl_key_data p = None")
  case True
  then have "pool_intern_with_hash pf k pool [] (hash []) = Inr (off, pool', k')" and "node_key p = []"
    using emit ready by (simp_all add: emit_key_def ready_payload_def node_key_def node_view_def)
  then show ?thesis using pool_step_intern [OF holds, of pf k "[]" off pool' k'] True
    by (simp add: late_key_def remember_def)
next
  case False
  then show ?thesis using emit ready intra_not_none [OF holds] pool_step_refl [OF holds]
    by (auto simp: emit_key_def ready_payload_def late_key_def)
qed

lemma emit_scalar_spec:
  assumes holds: "pool_holds hash pool strs" and ready: "ready_payload hash strs p"
    and kind: "\<not> is_container_kind (pl_kind p)" and F: "prefix strs F"
    and emit: "emit_scalar hash pf k nodes pool base p = Inr (off, nodes', pool', k')"
  defines "n \<equiv> length (eb_data nodes)"
  shows "pool_step hash pool strs pool' [] (if pl_kind p = K_STRING then [body_position n (pl_kind p)] else []) \<and>
    off = base + of_nat (kind_position n (pl_kind p)) \<and>
    eb_data nodes' = eb_data nodes @ lead n (pl_kind p) @ scalar_bytes (intra F) p"
proof -
  obtain ko nodes1 k1 where kd: "emit_kind pf k nodes (pl_kind p) (kind_body_align (pl_kind p)) = Inr (ko, nodes1, k1)"
    using emit by (auto simp: emit_scalar_def outcome_simps)
  note kind1 = emit_kind_spec [OF kd]
  have len: "length (eb_data nodes1) = body_position n (pl_kind p)"
    using kind1 body_position_gt [of n "pl_kind p"] by (simp add: n_def)
  show ?thesis
  proof (cases "pl_kind p = K_STRING")
    case True
    then have str: "node_string p \<in> set strs" "pl_cached_string_pool_offset p = intra strs (node_string p)"
      using ready by (simp_all add: ready_payload_def)
    then have "pl_cached_string_pool_offset p \<noteq> POOL_OFFSET_NONE" using intra_not_none [OF holds] by simp
    then obtain nodes2 k2 where "buffer_append pf k1 nodes1 (store_string_ref \<lparr>sr_pool_offset = intra strs (node_string p),
          sr_length = of_nat (length (node_string p))\<rparr>) = Inr (nodes2, k2)"
      "pool_record_fixup pf k2 pool (length (eb_data nodes1)) = Inr (pool', k')" "nodes' = nodes2" "off = base + of_nat ko"
      using emit kd True str by (auto simp: emit_scalar_def emit_string_ref_def outcome_simps Let_def)
    then show ?thesis
      using True str intra_prefix [OF F str(1)] pool_step_fixup [OF holds] kind1 len
      by (auto simp: scalar_bytes_def n_def dest!: buffer_data)
  next
    case False
    then show ?thesis
      using emit kd kind1 kind pool_step_refl [OF holds]
      by (cases "pl_kind p") (auto simp: emit_scalar_def outcome_simps scalar_bytes_def n_def is_container_kind_def dest!: buffer_data)
  qed
qed

lemma body_position_align: "is_container_kind kd \<Longrightarrow> align_up_nat (body_position n kd) 8 = body_position n kd"
proof -
  assume "is_container_kind kd"
  then have "body_position n kd = align_up_nat (n + 1) 8"
    using align_up_nat_ge [of 8 "n + 1"] by (auto simp: is_container_kind_def body_position_def kind_position_def)
  then show ?thesis by (simp add: align_up_nat_id dvd_align_up_nat)
qed

lemma container_head_spec:
  assumes kd: "is_container_kind kd" and emit: "emit_container_head pf k nodes kd head room = Inr (ko, table, nodes', k')"
  defines "n \<equiv> length (eb_data nodes)"
  shows "ko = kind_position n kd \<and> table = body_position n kd + length head \<and>
    eb_data nodes' = eb_data nodes @ lead n kd @ head @ zeros room"
proof -
  have align: "kind_body_align kd = 8" using kd by (auto simp: is_container_kind_def)
  obtain nodes1 k1 nodes2 k2 nodes3 k3 where steps:
    "emit_kind pf k nodes kd 8 = Inr (ko, nodes1, k1)" "buffer_align_to pf k1 nodes1 8 = Inr (nodes2, k2)"
    "buffer_append pf k2 nodes2 head = Inr (nodes3, k3)" "table = length (eb_data nodes3)"
    "buffer_append_zero pf k3 nodes3 room = Inr (nodes', k')"
    using emit by (auto simp: emit_container_head_def outcome_simps Let_def)
  note k1 = emit_kind_spec [of pf k nodes kd ko nodes1 k1, unfolded align, OF steps(1)]
  have "length (eb_data nodes1) = body_position n kd"
    using k1 body_position_gt [of n kd] by (simp add: n_def)
  then show ?thesis using k1 buffer_data(3) [OF steps(2)] buffer_data(1) [OF steps(3)] buffer_data(2) [OF steps(5)] steps(4)
    by (simp add: body_position_align [OF kd] n_def)
qed

lemma store_entries_spec:
  "store_entries pf k nodes pool (length A) es = Inr (nodes', pool', k') \<Longrightarrow> pool_holds hash pool strs \<Longrightarrow>
   eb_data nodes = A @ zeros (length es * 24) @ B \<Longrightarrow>
   eb_data nodes' = A @ entry_table es @ B \<and>
   pool_step hash pool strs pool' [] (map (\<lambda>i. length A + i * 24 + 8) [0..<length es])"
proof (induction es arbitrary: k nodes pool A)
  case Nil
  then show ?case by (simp add: entry_table_def pool_step_refl)
next
  case (Cons e es)
  obtain pool1 k1 where recorded: "pool_record_fixup pf k pool (length A + 8) = Inr (pool1, k1)"
    and rest: "store_entries pf k1 (nodes\<lparr>eb_data := patch (length A) (store_entry (stored_entry e)) (eb_data nodes)\<rparr>) pool1
       (length (A @ store_entry (stored_entry e))) es = Inr (nodes', pool', k')"
    using Cons.prems(1) by (auto simp: outcome_simps)
  note step = pool_step_fixup [OF Cons.prems(2) recorded]
  then have holds: "pool_holds hash pool1 strs" by (simp add: pool_step_def)
  have "zeros (length (e # es) * 24) = zeros 24 @ zeros (length es * 24)"
    by (simp add: zeros_def flip: replicate_add)
  then have "patch (length A) (store_entry (stored_entry e)) (eb_data nodes)
      = (A @ store_entry (stored_entry e)) @ zeros (length es * 24) @ B"
    using patch_middle [of "zeros 24" "store_entry (stored_entry e)" A "zeros (length es * 24) @ B"] Cons.prems(3) by simp
  with Cons.IH [OF rest holds] have
    data: "eb_data nodes' = (A @ store_entry (stored_entry e)) @ entry_table es @ B" and
    step': "pool_step hash pool1 strs pool' [] (map (\<lambda>i. length (A @ store_entry (stored_entry e)) + i * 24 + 8) [0..<length es])"
    by simp_all
  have "map (\<lambda>i. length A + i * 24 + 8) [0..<length (e # es)]
     = (length A + 8) # map (\<lambda>i. length (A @ store_entry (stored_entry e)) + i * 24 + 8) [0..<length es]"
    by (subst length_Cons, subst upt_conv_Cons) (simp_all add: map_Suc_upt [symmetric] del: upt_Suc)
  then show ?case using data pool_step_trans [OF step, of pool' "[]"] step' by (simp add: entry_table_def)
qed

section \<open>Emission produces the layout\<close>

text \<open>In every block the schedule lets the worker threads of its sort finish.\<close>

fun sorts_finish :: "platform \<Rightarrow> nat \<Rightarrow> tree \<Rightarrow> bool" where
  "sorts_finish pf workers (Tree p cs) \<longleftrightarrow>
     (pl_kind p = K_BLOCK \<longrightarrow> schedule_fair pf workers (length cs)) \<and> (\<forall>t \<in> set cs. sorts_finish pf workers t)"

text \<open>
  \<open>emits\<close>: a successful emission of \<open>t\<close> appends its layout, relative to any later state \<open>F\<close> of
  the strings, records its fix-ups, and returns the offset of its kind byte.
\<close>

definition emits :: "(bytes \<Rightarrow> u64) \<Rightarrow> platform \<Rightarrow> u64 \<Rightarrow> tree \<Rightarrow> bool" where
  "emits hash pf base t \<longleftrightarrow> (\<forall>k nodes pool strs F off nodes' pool' k'.
     emit_value hash pf k nodes pool base t = Inr (off, nodes', pool', k') \<longrightarrow> pool_holds hash pool strs \<longrightarrow>
     ready hash strs t \<longrightarrow> sorts_finish pf (sp_worker_count pool) t \<longrightarrow> prefix (foldl remember strs (late t)) F \<longrightarrow>
     pool_step hash pool strs pool' (late t) (fixups (length (eb_data nodes)) t) \<and>
     off = base + of_nat (value_position (length (eb_data nodes)) t) \<and>
     eb_data nodes' = eb_data nodes @ layout hash (intra F) base (length (eb_data nodes)) t)"

lemma emitsD:
  assumes "emits hash pf base t" and "emit_value hash pf k nodes pool base t = Inr (off, nodes', pool', k')"
    and "pool_holds hash pool strs" and "ready hash strs t" and "sorts_finish pf (sp_worker_count pool) t"
    and "prefix (foldl remember strs (late t)) F"
  shows "pool_step hash pool strs pool' (late t) (fixups (length (eb_data nodes)) t) \<and>
     off = base + of_nat (value_position (length (eb_data nodes)) t) \<and>
     eb_data nodes' = eb_data nodes @ layout hash (intra F) base (length (eb_data nodes)) t"
  using assms unfolding emits_def by blast

lemma pool_stepD: "pool_step hash pool strs pool' ss fs \<Longrightarrow> pool_holds hash pool' (foldl remember strs ss) \<and> sp_worker_count pool' = sp_worker_count pool"
  by (simp add: pool_step_def)

lemma emit_children_spec:
  assumes "\<forall>t \<in> set ts. emits hash pf base t"
  shows "emit_children hash pf k nodes pool base room pending ts = Inr (pending', nodes', pool', k') \<Longrightarrow>
    pool_holds hash pool strs \<Longrightarrow> \<forall>t \<in> set ts. ready hash strs t \<and> sorts_finish pf (sp_worker_count pool) t \<Longrightarrow>
    prefix (foldl remember strs (late_children ts)) F \<Longrightarrow>
    pool_step hash pool strs pool' (late_children ts) (fixups_all (length (eb_data nodes)) ts) \<and>
    pending' = pending @ pendings hash (intra F) base (length (eb_data nodes)) ts \<and>
    eb_data nodes' = eb_data nodes @ layout_all hash (intra F) base (length (eb_data nodes)) ts"
  using assms
proof (induction ts arbitrary: k nodes pool strs pending)
  case Nil
  then show ?case by (simp add: pool_step_refl pendings_def)
next
  case (Cons t ts)
  let ?n = "length (eb_data nodes)" and ?s1 = "foldl remember strs (late_key (tr_payload t))"
  let ?s2 = "foldl remember ?s1 (late t)"
  obtain off1 pool1 k1 v nodes2 pool2 k2 where
    key: "emit_key hash pf k pool (tr_payload t) = Inr (off1, pool1, k1)" and
    val: "emit_value hash pf k1 nodes pool1 base t = Inr (v, nodes2, pool2, k2)" and
    rest: "emit_children hash pf k2 nodes2 pool2 base room (pending @ [pending_for hash (tr_payload t) off1 v]) ts
       = Inr (pending', nodes', pool', k')"
    using Cons.prems(1) by (auto simp: outcome_simps split: if_splits)
  have ready: "ready hash strs t" and sorts: "sorts_finish pf (sp_worker_count pool) t" using Cons.prems(3) by auto
  then have "ready_payload hash strs (tr_payload t)" by (cases t) simp
  note keyed = emit_key_spec [OF Cons.prems(2) this key]
  note d1 = pool_stepD [OF conjunct1 [OF keyed]]
  have F: "prefix (foldl remember ?s2 (late_children ts)) F" using Cons.prems(4) by simp
  have F2: "prefix ?s2 F" using prefix_remember_all F prefix_order.trans by blast
  have F1: "prefix ?s1 F" using prefix_remember_all F2 prefix_order.trans by blast
  have valued: "pool_step hash pool1 ?s1 pool2 (late t) (fixups ?n t) \<and> v = base + of_nat (value_position ?n t) \<and>
      eb_data nodes2 = eb_data nodes @ layout hash (intra F) base ?n t"
    using emitsD [OF _ val conjunct1 [OF d1] ready_mono [OF prefix_remember_all ready] _ F2] Cons.prems(5) sorts d1 by simp
  note d2 = pool_stepD [OF conjunct1 [OF valued]]
  have len: "length (eb_data nodes2) = value_end ?n t"
    using valued length_layout(1) [of ?n hash "intra F" base t] by simp
  have "\<forall>t \<in> set ts. ready hash ?s2 t \<and> sorts_finish pf (sp_worker_count pool2) t"
    using Cons.prems(3) d1 d2 ready_mono [OF prefix_remember_all] by (metis list.set_intros(2))
  from Cons.IH [OF rest conjunct1 [OF d2] this F] Cons.prems(5)
  have tail_eq: "pool_step hash pool2 ?s2 pool' (late_children ts) (fixups_all (value_end ?n t) ts)"
    "pending' = (pending @ [pending_for hash (tr_payload t) off1 v]) @ pendings hash (intra F) base (value_end ?n t) ts"
    "eb_data nodes' = eb_data nodes2 @ layout_all hash (intra F) base (value_end ?n t) ts"
    by (simp_all add: len)
  have "off1 = intra F (node_key (tr_payload t))" using keyed intra_prefix [OF F1] by simp
  then show ?case
    using tail_eq valued pool_step_trans [OF conjunct1 [OF keyed] pool_step_trans [OF conjunct1 [OF valued] tail_eq(1)]]
    by (simp add: pendings_def)
qed

lemma emit_elements_spec:
  assumes "\<forall>t \<in> set ts. emits hash pf base t"
  shows "emit_elements hash pf k nodes pool base (length A) index ts = Inr (nodes', pool', k') \<Longrightarrow>
    pool_holds hash pool strs \<Longrightarrow> \<forall>t \<in> set ts. ready hash strs t \<and> sorts_finish pf (sp_worker_count pool) t \<Longrightarrow>
    prefix (foldl remember strs (late_elements ts)) F \<Longrightarrow>
    eb_data nodes = A @ concat (map store_u64 vs) @ zeros (length ts * 8) @ B \<Longrightarrow> unat index = length vs \<Longrightarrow>
    length vs + length ts < 2 ^ 32 \<Longrightarrow>
    pool_step hash pool strs pool' (late_elements ts) (fixups_all (length (eb_data nodes)) ts) \<and>
    eb_data nodes' = A @ concat (map store_u64 (vs @ offsets base (length (eb_data nodes)) ts)) @ B @
      layout_all hash (intra F) base (length (eb_data nodes)) ts"
  using assms
proof (induction ts arbitrary: k nodes pool strs vs index B)
  case Nil
  then show ?case by (simp add: pool_step_refl)
next
  case (Cons t ts)
  obtain n where n: "length (eb_data nodes) = n" by simp
  let ?s2 = "foldl remember strs (late t)" and ?l = "layout hash (intra F) base n t"
  let ?v = "base + of_nat (value_position n t)"
  obtain v nodes2 pool2 k2 where
    val: "emit_value hash pf k nodes pool base t = Inr (v, nodes2, pool2, k2)" and
    rest: "emit_elements hash pf k2 (nodes2\<lparr>eb_data := patch (length A + unat index * 8) (store_u64 v) (eb_data nodes2)\<rparr>) pool2 base
       (length A) (index + 1) ts = Inr (nodes', pool', k')"
    using Cons.prems(1) by (auto simp: outcome_simps Let_def split: if_splits)
  have F: "prefix (foldl remember ?s2 (late_elements ts)) F" using Cons.prems(4) by simp
  have F2: "prefix ?s2 F" using prefix_remember_all F prefix_order.trans by blast
  have valued: "pool_step hash pool strs pool2 (late t) (fixups n t) \<and> v = ?v \<and> eb_data nodes2 = eb_data nodes @ ?l"
    using emitsD [OF _ val Cons.prems(2) _ _ F2] Cons.prems(3,8) n by simp
  note d2 = pool_stepD [OF conjunct1 [OF valued]]
  let ?C = "A @ concat (map store_u64 vs)"
  have zeros: "zeros (length (t # ts) * 8) = zeros 8 @ zeros (length ts * 8)"
    by (simp add: zeros_def flip: replicate_add)
  have "patch (length ?C) (store_u64 v) (?C @ zeros 8 @ (zeros (length ts * 8) @ B @ ?l)) = ?C @ store_u64 v @ (zeros (length ts * 8) @ B @ ?l)"
    by (rule patch_middle) simp
  then have data: "patch (length A + unat index * 8) (store_u64 v) (eb_data nodes2)
      = A @ concat (map store_u64 (vs @ [?v])) @ zeros (length ts * 8) @ (B @ ?l)"
    using valued Cons.prems(5,6) zeros by simp
  have len: "length (patch (length A + unat index * 8) (store_u64 v) (eb_data nodes2)) = value_end n t"
  proof -
    have "length (patch (length A + unat index * 8) (store_u64 v) (eb_data nodes2))
        = length A + length vs * 8 + 8 + length ts * 8 + length B + length ?l"
      unfolding data by simp
    moreover have "n = length A + length vs * 8 + 8 + length ts * 8 + length B"
      using n Cons.prems(5) by simp
    ultimately show ?thesis using length_layout(1) [of n hash "intra F" base t] by linarith
  qed
  have "\<forall>t \<in> set ts. ready hash ?s2 t \<and> sorts_finish pf (sp_worker_count pool2) t"
    using Cons.prems(3) d2 ready_mono [OF prefix_remember_all] by (metis list.set_intros(2))
  moreover have "unat (index + 1) = length (vs @ [?v])"
    using Cons.prems(6,7) unat_word_ariths(1) [of index 1] by simp
  ultimately have tail_eq: "pool_step hash pool2 ?s2 pool' (late_elements ts) (fixups_all (value_end n t) ts)"
    "eb_data nodes' = A @ concat (map store_u64 ((vs @ [?v]) @ offsets base (value_end n t) ts)) @ (B @ ?l) @
       layout_all hash (intra F) base (value_end n t) ts"
    using Cons.IH [OF rest conjunct1 [OF d2] _ F, of "vs @ [?v]" "B @ ?l"] data len Cons.prems(7,8) by simp_all
  then show ?case using valued pool_step_trans [OF conjunct1 [OF valued] tail_eq(1)] by (simp add: n)
qed

lemma head_length:
  assumes "is_container_kind kd"
  shows "n + length (lead n kd @ container_head kd c @ zeros (c * table_width kd)) = children_position n kd c"
  using body_position_gt [of n kd] by (simp add: children_position_def)

lemma emit_block:
  assumes kind: "pl_kind p = K_BLOCK" and IH: "\<forall>t \<in> set cs. emits hash pf base t"
  shows "emits hash pf base (Tree p cs)"
  unfolding emits_def
proof (intro allI impI)
  fix k nodes pool strs F off nodes' pool' k'
  assume emit: "emit_value hash pf k nodes pool base (Tree p cs) = Inr (off, nodes', pool', k')"
    and holds: "pool_holds hash pool strs" and ready: "ready hash strs (Tree p cs)"
    and sorts: "sorts_finish pf (sp_worker_count pool) (Tree p cs)"
    and F: "prefix (foldl remember strs (late (Tree p cs))) F"
  obtain n where n: "length (eb_data nodes) = n" by simp
  have cont: "is_container_kind K_BLOCK" by (simp add: is_container_kind_def)
  let ?m = "children_position n K_BLOCK (length cs)" and ?head = "container_head K_BLOCK (length cs)"
  have count: "unat (of_nat (length cs) :: u32) = length cs" using ready by simp
  obtain ko tab nodes1 k1 k2 pending nodes2 pool2 k3 sorted k4 where
    head: "emit_container_head pf k nodes K_BLOCK ?head (length cs * 24) = Inr (ko, tab, nodes1, k1)" and
    children: "emit_children hash pf k2 nodes1 pool base (length cs) [] cs = Inr (pending, nodes2, pool2, k3)" and
    sort: "pending_sort pf k3 (sp_worker_count pool2) pending = Inr (sorted, k4)" and
    store: "store_entries pf k4 nodes2 pool2 tab sorted = Inr (nodes', pool', k')" and
    off: "off = base + of_nat ko"
    using emit by (auto simp: kind count container_head_def Let_def outcome_simps split: if_splits)
  note h = container_head_spec [OF cont head, unfolded n]
  have data1: "eb_data nodes1 = eb_data nodes @ lead n K_BLOCK @ ?head @ zeros (length cs * 24)" using h by simp
  have len1: "length (eb_data nodes1) = ?m"
    using head_length [OF cont, of n "length cs"] n data1 by (simp add: table_width_def)
  have "\<forall>t \<in> set cs. ready hash strs t \<and> sorts_finish pf (sp_worker_count pool) t" using ready sorts by simp
  moreover have Fc: "prefix (foldl remember strs (late_children cs)) F" using F kind by (simp add: late_Tree)
  ultimately have kids: "pool_step hash pool strs pool2 (late_children cs) (fixups_all ?m cs)"
      "pending = pendings hash (intra F) base ?m cs"
      "eb_data nodes2 = eb_data nodes1 @ layout_all hash (intra F) base ?m cs"
    using emit_children_spec [OF IH children holds] len1 by simp_all
  note d2 = pool_stepD [OF kids(1)]
  have "schedule_fair pf (sp_worker_count pool2) (length pending)" using sorts kind d2 kids(2) by simp
  from pending_sort_result [OF sort this]
  have sorted: "sorted = sort_key pe_key_hash64 (pendings hash (intra F) base ?m cs)" using kids(2) by simp
  let ?A = "eb_data nodes @ lead n K_BLOCK @ ?head"
  have tab: "tab = length ?A" using h n body_position_gt [of n K_BLOCK] by simp
  have "eb_data nodes2 = ?A @ zeros (length sorted * 24) @ layout_all hash (intra F) base ?m cs"
    using kids(3) data1 sorted by simp
  from store_entries_spec [OF store [unfolded tab] conjunct1 [OF d2] this]
  have stored: "eb_data nodes' = ?A @ entry_table sorted @ layout_all hash (intra F) base ?m cs"
    "pool_step hash pool2 (foldl remember strs (late_children cs)) pool' [] (map (\<lambda>i. length ?A + i * 24 + 8) [0..<length cs])"
    using sorted by simp_all
  have A: "length ?A = body_position n K_BLOCK + 8" using h tab by simp
  have "pool_step hash pool strs pool' (late_children cs @ [])
      (fixups_all ?m cs @ map (\<lambda>i. body_position n K_BLOCK + 8 + i * 24 + 8) [0..<length cs])"
    by (rule pool_step_trans [OF kids(1) stored(2) [unfolded A]])
  then show "pool_step hash pool strs pool' (late (Tree p cs)) (fixups (length (eb_data nodes)) (Tree p cs)) \<and>
     off = base + of_nat (value_position (length (eb_data nodes)) (Tree p cs)) \<and>
     eb_data nodes' = eb_data nodes @ layout hash (intra F) base (length (eb_data nodes)) (Tree p cs)"
    using stored(1) sorted off h by (simp add: n kind cont late_Tree value_position_def container_table_def del: map_eq_conv)
qed

lemma emit_array:
  assumes kind: "pl_kind p = K_ARRAY" and IH: "\<forall>t \<in> set cs. emits hash pf base t"
  shows "emits hash pf base (Tree p cs)"
  unfolding emits_def
proof (intro allI impI)
  fix k nodes pool strs F off nodes' pool' k'
  assume emit: "emit_value hash pf k nodes pool base (Tree p cs) = Inr (off, nodes', pool', k')"
    and holds: "pool_holds hash pool strs" and ready: "ready hash strs (Tree p cs)"
    and sorts: "sorts_finish pf (sp_worker_count pool) (Tree p cs)"
    and F: "prefix (foldl remember strs (late (Tree p cs))) F"
  obtain n where n: "length (eb_data nodes) = n" by simp
  have cont: "is_container_kind K_ARRAY" by (simp add: is_container_kind_def)
  let ?m = "children_position n K_ARRAY (length cs)" and ?head = "container_head K_ARRAY (length cs)"
  have count: "unat (of_nat (length cs) :: u32) = length cs" using ready by simp
  obtain ko tab nodes1 k1 where
    head: "emit_container_head pf k nodes K_ARRAY ?head (length cs * 8) = Inr (ko, tab, nodes1, k1)" and
    elements: "emit_elements hash pf k1 nodes1 pool base tab 0 cs = Inr (nodes', pool', k')" and
    off: "off = base + of_nat ko"
    using emit by (auto simp: kind count container_head_def Let_def outcome_simps split: if_splits)
  note h = container_head_spec [OF cont head, unfolded n]
  let ?A = "eb_data nodes @ lead n K_ARRAY @ ?head"
  have data1: "eb_data nodes1 = ?A @ concat (map store_u64 []) @ zeros (length cs * 8) @ []" using h by simp
  have len1: "length (eb_data nodes1) = ?m"
    using head_length [OF cont, of n "length cs"] n data1 by (simp add: table_width_def)
  have tab: "tab = length ?A" using h n body_position_gt [of n K_ARRAY] by simp
  have "\<forall>t \<in> set cs. ready hash strs t \<and> sorts_finish pf (sp_worker_count pool) t" using ready sorts by simp
  moreover have Fc: "prefix (foldl remember strs (late_elements cs)) F" using F kind by (simp add: late_Tree)
  ultimately have kids: "pool_step hash pool strs pool' (late_elements cs) (fixups_all ?m cs)"
      "eb_data nodes' = ?A @ concat (map store_u64 (offsets base ?m cs)) @ layout_all hash (intra F) base ?m cs"
    using emit_elements_spec [OF IH elements [unfolded tab] holds _ _ data1] len1 ready by simp_all
  then show "pool_step hash pool strs pool' (late (Tree p cs)) (fixups (length (eb_data nodes)) (Tree p cs)) \<and>
     off = base + of_nat (value_position (length (eb_data nodes)) (Tree p cs)) \<and>
     eb_data nodes' = eb_data nodes @ layout hash (intra F) base (length (eb_data nodes)) (Tree p cs)"
    using off h by (simp add: n kind cont late_Tree value_position_def container_table_def)
qed

lemma emit_leaf:
  assumes kind: "\<not> is_container_kind (pl_kind p)"
  shows "emits hash pf base (Tree p cs)"
  unfolding emits_def
proof (intro allI impI)
  fix k nodes pool strs F off nodes' pool' k'
  assume emit: "emit_value hash pf k nodes pool base (Tree p cs) = Inr (off, nodes', pool', k')"
    and holds: "pool_holds hash pool strs" and ready: "ready hash strs (Tree p cs)"
    and F: "prefix (foldl remember strs (late (Tree p cs))) F"
  have "pl_kind p \<noteq> K_BLOCK" "pl_kind p \<noteq> K_ARRAY" using kind by (auto simp: is_container_kind_def)
  then have "emit_scalar hash pf k nodes pool base p = Inr (off, nodes', pool', k')" and none: "late (Tree p cs) = []"
    using emit by (simp_all add: late_Tree)
  moreover have "prefix strs F" using F none by simp
  ultimately show "pool_step hash pool strs pool' (late (Tree p cs)) (fixups (length (eb_data nodes)) (Tree p cs)) \<and>
     off = base + of_nat (value_position (length (eb_data nodes)) (Tree p cs)) \<and>
     eb_data nodes' = eb_data nodes @ layout hash (intra F) base (length (eb_data nodes)) (Tree p cs)"
    using emit_scalar_spec [OF holds _ kind] ready kind by (simp add: value_position_def none)
qed

lemma emit_value_emits: "emits hash pf base t"
proof (induction t)
  case (Tree p cs)
  then show ?case using emit_block [of p cs hash pf base] emit_array [of p cs hash pf base] emit_leaf [of p hash pf base cs]
    by (auto simp: is_container_kind_def)
qed

end
