(* ===== verification/Serialisation.thy ===== *)
theory Serialisation
  imports Layout
begin

text \<open>
  From the layout of the nodes to the file: what collecting the strings leaves in the pool and
  in the nodes, that the fix-ups turn offsets into the pool into offsets into the file, and that
  the assembled file is the concatenation of its regions. \<open>document_file\<close> is the file of a forest
  as a function of the forest; \<open>serialize\<close> returns it, or fails for one of a few reasons.
\<close>

section \<open>Trees without caches\<close>

text \<open>
  The layout does not read the cached offsets, so the tree that \<open>collect_all\<close> returns has the
  layout of the tree it was given.
\<close>

definition uncached_payload :: "payload \<Rightarrow> payload" where
  "uncached_payload p =
     p\<lparr>pl_cached_key_pool_offset := POOL_OFFSET_NONE, pl_cached_string_pool_offset := POOL_OFFSET_NONE\<rparr>"

fun uncached :: "tree \<Rightarrow> tree" where
  "uncached (Tree p cs) = Tree (uncached_payload p) (map uncached cs)"

lemma node_view_None [simp]: "node_view None n = []"
  by (simp add: node_view_def)

lemma uncached_payload_simps [simp]:
  "pl_kind (uncached_payload p) = pl_kind p" "node_key (uncached_payload p) = node_key p"
  "node_string (uncached_payload p) = node_string p" "node_key_hash hash (uncached_payload p) = node_key_hash hash p"
  "pl_bits (uncached_payload p) = pl_bits p" "late_key (uncached_payload p) = late_key p"
  "scalar_bytes po (uncached_payload p) = scalar_bytes po p"
  "pending_for hash (uncached_payload p) off v = pending_for hash p off v"
  by (simp_all add: uncached_payload_def node_key_def node_string_def node_key_hash_def late_key_def scalar_bytes_def
      pending_for_def)

lemma tr_payload_uncached [simp]: "tr_payload (uncached t) = uncached_payload (tr_payload t)"
  by (cases t) simp

lemma value_position_uncached [simp]: "value_position n (uncached t) = value_position n t"
  by (simp add: value_position_def)

lemma value_end_uncached [simp]: "value_end n (uncached t) = value_end n t"
  and values_end_uncached [simp]: "values_end n (map uncached ts) = values_end n ts"
  by (induction n t and n ts rule: value_end_values_end.induct) simp_all

lemma offsets_uncached [simp]: "offsets base n (map uncached ts) = offsets base n ts"
  by (induction ts arbitrary: n) simp_all

lemma zip_map_left: "map (\<lambda>(t, v). g t v) (zip (map f ts) vs) = map (\<lambda>(t, v). g (f t) v) (zip ts vs)"
  by (simp add: zip_map1 case_prod_beta)

lemma pendings_uncached [simp]: "pendings hash po base n (map uncached ts) = pendings hash po base n ts"
  unfolding pendings_def offsets_uncached zip_map_left by (simp add: case_prod_beta)

lemma layout_uncached [simp]: "layout hash po base n (uncached t) = layout hash po base n t"
  and layout_all_uncached [simp]: "layout_all hash po base n (map uncached ts) = layout_all hash po base n ts"
  by (induction hash po base n t and hash po base n ts rule: layout_layout_all.induct) (simp_all add: container_table_def)

lemma fixups_uncached [simp]: "fixups n (uncached t) = fixups n t"
  and fixups_all_uncached [simp]: "fixups_all n (map uncached ts) = fixups_all n ts"
  by (induction n t and n ts rule: fixups_fixups_all.induct) simp_all

lemma late_uncached [simp]: "late (uncached t) = late t"
  by (induction t) (auto simp: late.simps intro!: arg_cong [where f = concat])

lemma late_children_uncached [simp]: "late_children (map uncached ts) = late_children ts"
  by (induction ts) simp_all

lemma sorts_finish_uncached [simp]: "sorts_finish pf workers (uncached t) = sorts_finish pf workers t"
  by (induction t) simp

lemma same_uncached:
  assumes "uncached t' = uncached t"
  shows "sorts_finish pf workers t' = sorts_finish pf workers t"
  by (metis assms sorts_finish_uncached)

lemma same_uncached_all:
  assumes "map uncached ts' = map uncached ts"
  shows "layout_all hash po base n ts' = layout_all hash po base n ts" and "fixups_all n ts' = fixups_all n ts"
    and "pendings hash po base n ts' = pendings hash po base n ts" and "late_children ts' = late_children ts"
    and "length ts' = length ts"
  by (metis assms layout_all_uncached, metis assms fixups_all_uncached, metis assms pendings_uncached,
      metis assms late_children_uncached, metis assms length_map)

section \<open>Collecting the strings\<close>

definition collected_payload :: "payload \<Rightarrow> bytes list" where
  "collected_payload p = (if pl_key_data p \<noteq> None then [node_key p] else []) @ (if pl_kind p = K_STRING then [node_string p] else [])"

fun collected :: "tree \<Rightarrow> bytes list" where
  "collected (Tree p cs) = collected_payload p @ concat (map collected cs)"

text \<open>
  What the encoder relies on: keys carry their hash, a node without a key has no cached offset
  (no step ever sets one), and the number of children fits 32 bits.
\<close>

fun encodable :: "(bytes \<Rightarrow> u64) \<Rightarrow> tree \<Rightarrow> bool" where
  "encodable hash (Tree p cs) \<longleftrightarrow>
     (if pl_key_data p = None then pl_cached_key_pool_offset p = POOL_OFFSET_NONE else pl_key_hash64 p = hash (node_key p)) \<and>
     length cs < 2 ^ 32 \<and> (\<forall>t \<in> set cs. encodable hash t)"

lemma collect_payload_spec:
  assumes holds: "pool_holds hash pool strs"
    and key: "if pl_key_data p = None then pl_cached_key_pool_offset p = POOL_OFFSET_NONE else pl_key_hash64 p = hash (node_key p)"
    and run: "collect_key pf k pool p = Inr (p1, pool1, k1)" "collect_string hash pf k1 pool1 p1 = Inr (p2, pool2, k2)"
  shows "pool_step hash pool strs pool2 (collected_payload p) [] \<and> uncached_payload p2 = uncached_payload p \<and>
    (\<forall>F. prefix (foldl remember strs (collected_payload p)) F \<longrightarrow> ready_payload hash F p2)"
proof -
  let ?k = "if pl_key_data p \<noteq> None then [node_key p] else []" and ?s = "if pl_kind p = K_STRING then [node_string p] else []"
  let ?s1 = "foldl remember strs ?k" and ?s2 = "foldl remember (foldl remember strs ?k) ?s"
  obtain c where c: "p1 = p\<lparr>pl_cached_key_pool_offset := c\<rparr>" "pool_step hash pool strs pool1 ?k []"
    "if pl_key_data p = None then c = POOL_OFFSET_NONE else c = intra ?s1 (node_key p)"
    using run(1) key pool_step_intern [OF holds] pool_step_refl [OF holds]
    by (fastforce simp: collect_key_def outcome_simps split: if_splits)
  have fields [simp]: "pl_kind p1 = pl_kind p" "node_string p1 = node_string p"
    using c(1) by (simp_all add: node_string_def)
  obtain d where d: "p2 = p1\<lparr>pl_cached_string_pool_offset := d\<rparr>" "pool_step hash pool1 ?s1 pool2 ?s []"
    "pl_kind p = K_STRING \<longrightarrow> d = intra ?s2 (node_string p)"
  proof (cases "pl_kind p = K_STRING")
    case True
    then obtain off where "pool_intern_with_hash pf k1 pool1 (node_string p) (hash (node_string p)) = Inr (off, pool2, k2)"
      "p2 = p1\<lparr>pl_cached_string_pool_offset := off\<rparr>"
      using run(2) by (auto simp: collect_string_def pool_intern_def outcome_simps)
    with pool_step_intern [OF conjunct1 [OF pool_stepD [OF c(2)]] this(1)] True show ?thesis
      by (intro that [of off]) simp_all
  next
    case False
    then show ?thesis using run(2) pool_step_refl [OF conjunct1 [OF pool_stepD [OF c(2)]]]
      by (intro that [of "pl_cached_string_pool_offset p1"]) (simp_all add: collect_string_def)
  qed
  have ready: "ready_payload hash F p2" if F: "prefix ?s2 F" for F
  proof -
    have F1: "prefix ?s1 F" using prefix_remember_all F prefix_order.trans by blast
    have eqs: "node_key p2 = node_key p" "node_string p2 = node_string p" "pl_key_data p2 = pl_key_data p" "pl_kind p2 = pl_kind p"
        "pl_cached_key_pool_offset p2 = c" "pl_cached_string_pool_offset p2 = d" "pl_key_hash64 p2 = pl_key_hash64 p"
      using c(1) d(1) by (simp_all add: node_key_def node_string_def)
    have sub: "set ?s1 \<subseteq> set F" "set ?s2 \<subseteq> set F" using set_mono_prefix [OF F1] set_mono_prefix [OF F] by auto
    have key_mem: "pl_key_data p \<noteq> None \<Longrightarrow> node_key p \<in> set ?s1" and str_mem: "pl_kind p = K_STRING \<Longrightarrow> node_string p \<in> set ?s2"
      by (auto simp: remember_def)
    have "pl_key_data p = None \<Longrightarrow> node_key p = []" by (simp add: node_key_def node_view_def)
    then show ?thesis
      using c(3) d(3) key key_mem str_mem sub intra_prefix [OF F1] intra_prefix [OF F]
      by (auto simp: ready_payload_def eqs node_key_hash_def split: if_splits)
  qed
  have "uncached_payload p2 = uncached_payload p" using c(1) d(1) by (simp add: uncached_payload_def)
  then show ?thesis
    using pool_step_trans [OF c(2) d(2)] ready by (simp add: collected_payload_def)
qed

definition collects :: "(bytes \<Rightarrow> u64) \<Rightarrow> platform \<Rightarrow> tree \<Rightarrow> bool" where
  "collects hash pf t \<longleftrightarrow> (\<forall>k pool strs t' pool' k'.
     collect_strings hash pf k pool t = Inr (t', pool', k') \<longrightarrow> pool_holds hash pool strs \<longrightarrow> encodable hash t \<longrightarrow>
     pool_step hash pool strs pool' (collected t) [] \<and> uncached t' = uncached t \<and>
     (\<forall>F. prefix (foldl remember strs (collected t)) F \<longrightarrow> ready hash F t'))"

lemma collectsD:
  "collects hash pf t \<Longrightarrow> collect_strings hash pf k pool t = Inr (t', pool', k') \<Longrightarrow> pool_holds hash pool strs \<Longrightarrow>
   encodable hash t \<Longrightarrow> pool_step hash pool strs pool' (collected t) [] \<and> uncached t' = uncached t \<and>
     (\<forall>F. prefix (foldl remember strs (collected t)) F \<longrightarrow> ready hash F t')"
  unfolding collects_def by blast

lemma collect_all_of:
  assumes "\<forall>t \<in> set ts. collects hash pf t"
  shows "collect_all hash pf k pool ts = Inr (ts', pool', k') \<Longrightarrow> pool_holds hash pool strs \<Longrightarrow> \<forall>t \<in> set ts. encodable hash t \<Longrightarrow>
    pool_step hash pool strs pool' (concat (map collected ts)) [] \<and> map uncached ts' = map uncached ts \<and>
    (\<forall>F. prefix (foldl remember strs (concat (map collected ts))) F \<longrightarrow> (\<forall>t \<in> set ts'. ready hash F t))"
  using assms
proof (induction ts arbitrary: k pool strs ts')
  case Nil
  then show ?case by (simp add: pool_step_refl)
next
  case (Cons t ts)
  obtain t1 pool1 k1 ts1 where 1: "collect_strings hash pf k pool t = Inr (t1, pool1, k1)"
    "collect_all hash pf k1 pool1 ts = Inr (ts1, pool', k')" "ts' = t1 # ts1"
    using Cons.prems(1) by (auto simp: outcome_simps)
  have c1: "pool_step hash pool strs pool1 (collected t) [] \<and> uncached t1 = uncached t \<and>
     (\<forall>F. prefix (foldl remember strs (collected t)) F \<longrightarrow> ready hash F t1)"
    using collectsD [OF _ 1(1) Cons.prems(2)] Cons.prems(3,4) by simp
  then have h1: "pool_holds hash pool1 (foldl remember strs (collected t))" using pool_stepD by blast
  have c2: "pool_step hash pool1 (foldl remember strs (collected t)) pool' (concat (map collected ts)) [] \<and>
      map uncached ts1 = map uncached ts \<and>
      (\<forall>F. prefix (foldl remember (foldl remember strs (collected t)) (concat (map collected ts))) F \<longrightarrow> (\<forall>t \<in> set ts1. ready hash F t))"
    using Cons.IH [OF 1(2) h1] Cons.prems(3,4) by simp
  have "prefix (foldl remember strs (collected t)) F"
    if "prefix (foldl remember (foldl remember strs (collected t)) (concat (map collected ts))) F" for F
    using that prefix_remember_all prefix_order.trans by blast
  then show ?case
    using c1 c2 1(3) pool_step_trans [OF conjunct1 [OF c1] conjunct1 [OF c2]] by simp
qed

lemma collect_strings_collects: "collects hash pf t"
proof (induction t)
  case (Tree p cs)
  show ?case
    unfolding collects_def
  proof (intro allI impI)
    fix k pool strs t' pool' k'
    assume run: "collect_strings hash pf k pool (Tree p cs) = Inr (t', pool', k')"
      and holds: "pool_holds hash pool strs" and enc: "encodable hash (Tree p cs)"
    obtain p1 pool1 k1 p2 pool2 k2 cs' where
      1: "collect_key pf k pool p = Inr (p1, pool1, k1)" "collect_string hash pf k1 pool1 p1 = Inr (p2, pool2, k2)"
      "collect_all hash pf k2 pool2 cs = Inr (cs', pool', k')" "t' = Tree p2 cs'"
      using run by (auto simp: outcome_simps)
    have p: "pool_step hash pool strs pool2 (collected_payload p) [] \<and> uncached_payload p2 = uncached_payload p \<and>
        (\<forall>F. prefix (foldl remember strs (collected_payload p)) F \<longrightarrow> ready_payload hash F p2)"
      by (rule collect_payload_spec [OF holds _ 1(1,2)]) (use enc in simp)
    then have h2: "pool_holds hash pool2 (foldl remember strs (collected_payload p))" using pool_stepD by blast
    have c: "pool_step hash pool2 (foldl remember strs (collected_payload p)) pool' (concat (map collected cs)) [] \<and>
        map uncached cs' = map uncached cs \<and>
        (\<forall>F. prefix (foldl remember (foldl remember strs (collected_payload p)) (concat (map collected cs))) F \<longrightarrow>
           (\<forall>t \<in> set cs'. ready hash F t))"
      using collect_all_of [OF _ 1(3) h2] Tree.IH enc by simp
    have "prefix (foldl remember strs (collected_payload p)) F"
      if "prefix (foldl remember (foldl remember strs (collected_payload p)) (concat (map collected cs))) F" for F
      using that prefix_remember_all prefix_order.trans by blast
    moreover have "length cs' = length cs" using c by (metis length_map)
    ultimately show "pool_step hash pool strs pool' (collected (Tree p cs)) [] \<and> uncached t' = uncached (Tree p cs) \<and>
        (\<forall>F. prefix (foldl remember strs (collected (Tree p cs))) F \<longrightarrow> ready hash F t')"
      using p c 1(4) enc pool_step_trans [OF conjunct1 [OF p] conjunct1 [OF c]] by simp
  qed
qed

lemma collect_all_spec:
  assumes "collect_all hash pf k pool ts = Inr (ts', pool', k')" and "pool_holds hash pool strs" and "\<forall>t \<in> set ts. encodable hash t"
  shows "pool_step hash pool strs pool' (concat (map collected ts)) [] \<and> map uncached ts' = map uncached ts \<and>
    (\<forall>F. prefix (foldl remember strs (concat (map collected ts))) F \<longrightarrow> (\<forall>t \<in> set ts'. ready hash F t))"
  by (rule collect_all_of [OF _ assms]) (simp add: collect_strings_collects)

section \<open>Fix-ups relocate the layout\<close>

definition moved :: "u32 \<Rightarrow> pending_entry \<Rightarrow> pending_entry" where
  "moved delta e = e\<lparr>pe_key_pool_offset := pe_key_pool_offset e + delta\<rparr>"

definition moved_offset :: "(bytes \<Rightarrow> u32) \<Rightarrow> u32 \<Rightarrow> bytes \<Rightarrow> u32" where
  "moved_offset po delta s = po s + delta"

lemma fixups_loop_append:
  "apply_fixups_loop delta data (xs @ ys) = bindE (apply_fixups_loop delta data xs) (\<lambda>data. apply_fixups_loop delta data ys)"
  by (induction xs arbitrary: data) (simp_all add: bindE_assoc)

lemma apply_fixup_word:
  "apply_fixup delta (A @ le_bytes 4 w @ B) (length A) = Inr (A @ le_bytes 4 (w + delta) @ B)"
proof -
  have "load_u32 (take 4 (drop (length A) (A @ le_bytes 4 w @ B))) = w"
    by (simp add: load_u32_def field_def)
  moreover have "patch (length A) (le_bytes 4 (w + delta)) (A @ le_bytes 4 w @ B) = A @ le_bytes 4 (w + delta) @ B"
    by (rule patch_middle) simp
  ultimately show ?thesis by (simp add: apply_fixup_def store_u32_def)
qed

lemma apply_fixup_ref:
  "apply_fixup delta (A @ store_string_ref \<lparr>sr_pool_offset = w, sr_length = l\<rparr> @ B) (length A)
    = Inr (A @ store_string_ref \<lparr>sr_pool_offset = w + delta, sr_length = l\<rparr> @ B)"
  using apply_fixup_word [of delta A w "le_bytes 4 l @ B"] by (simp add: store_string_ref_def)

lemma apply_fixup_entry:
  "apply_fixup delta (A @ store_entry (stored_entry e) @ B) (length A + 8) = Inr (A @ store_entry (stored_entry (moved delta e)) @ B)"
  using apply_fixup_word [of delta "A @ le_bytes 8 (pe_key_hash64 e)" "pe_key_pool_offset e"
      "le_bytes 4 (pe_key_length e) @ le_bytes 8 (pe_value_offset e) @ B"]
  by (simp add: store_entry_def stored_entry_def moved_def)

lemma entry_table_Cons: "entry_table (e # es) = store_entry (stored_entry e) @ entry_table es"
  by (simp add: entry_table_def)

lemma table_positions:
  "map (\<lambda>i. a + i * 24 + 8) [0..<Suc n] = (a + 8) # map (\<lambda>i. (a + 24) + i * 24 + 8) [0..<n]"
  by (subst upt_conv_Cons) (simp_all add: map_Suc_upt [symmetric] add.assoc del: upt_Suc)

lemma fixups_table:
  "apply_fixups_loop delta (A @ entry_table es @ B) (map (\<lambda>i. length A + i * 24 + 8) [0..<length es])
    = Inr (A @ entry_table (map (moved delta) es) @ B)"
proof (induction es arbitrary: A)
  case (Cons e es)
  have "apply_fixup delta (A @ entry_table (e # es) @ B) (length A + 8)
      = Inr ((A @ store_entry (stored_entry (moved delta e))) @ entry_table es @ B)"
    using apply_fixup_entry [of delta A e "entry_table es @ B"] by (simp add: entry_table_Cons)
  then show ?case
    using Cons.IH [of "A @ store_entry (stored_entry (moved delta e))"]
    by (simp only: length_Cons table_positions apply_fixups_loop.simps) (simp add: entry_table_Cons)
qed (simp add: entry_table_def)

lemma sort_key_map_same:
  assumes "\<And>x. f (g x) = f x"
  shows "sort_key f (map g xs) = map g (sort_key f xs)"
proof (rule sort_keyI [symmetric])
  show "mset (map g (sort_key f xs)) = mset (map g xs)" by simp
  show "sorted (map f (map g (sort_key f xs)))" by (simp add: assms comp_def)
  fix c
  have "filter (\<lambda>x. f x = c) (map g ys) = map g (filter (\<lambda>x. f x = c) ys)" for ys
    by (simp add: filter_map assms comp_def)
  moreover have "filter (\<lambda>x. f x = c) (sort_key f xs) = filter (\<lambda>x. f x = c) xs" by (rule sort_key_stable)
  ultimately show "filter (\<lambda>x. f x = c) (map g (sort_key f xs)) = filter (\<lambda>x. f x = c) (map g xs)" by simp
qed

lemma pendings_moved: "pendings hash (moved_offset po delta) base n ts = map (moved delta) (pendings hash po base n ts)"
  by (simp add: pendings_def moved_def pending_for_def moved_offset_def case_prod_beta)

lemma table_moved:
  "entry_table (sort_key pe_key_hash64 (pendings hash (moved_offset po delta) base n ts))
    = entry_table (map (moved delta) (sort_key pe_key_hash64 (pendings hash po base n ts)))"
  unfolding pendings_moved by (subst sort_key_map_same) (simp_all add: moved_def)

lemma relocate:
  "length A = n \<Longrightarrow> apply_fixups_loop delta (A @ layout hash po base n t @ B) (fixups n t)
    = Inr (A @ layout hash (moved_offset po delta) base n t @ B)"
  "length A = n \<Longrightarrow> apply_fixups_loop delta (A @ layout_all hash po base n ts @ B) (fixups_all n ts)
    = Inr (A @ layout_all hash (moved_offset po delta) base n ts @ B)"
proof (induction n t and n ts arbitrary: A B and A B rule: fixups_fixups_all.induct)
  case (1 n p cs)
  let ?kd = "pl_kind p" and ?m = "children_position n (pl_kind p) (length cs)"
  have lead: "length (A @ lead n ?kd) = body_position n ?kd"
    using 1(2) body_position_gt [of n ?kd] by simp
  show ?case
  proof (cases "is_container_kind ?kd")
    case True
    let ?A = "A @ lead n ?kd @ container_head ?kd (length cs)"
    let ?T = "\<lambda>po. container_table hash po base ?m ?kd cs" and ?L = "\<lambda>po. layout_all hash po base ?m cs"
    have lenA: "length ?A = body_position n ?kd + 8" using lead by simp
    have "length (?A @ ?T po) = ?m" unfolding length_append [of ?A] lenA by (simp add: children_position_def)
    from 1(1) [OF True this] have kids: "apply_fixups_loop delta ((?A @ ?T po) @ ?L po @ B) (fixups_all ?m cs)
        = Inr ((?A @ ?T po) @ ?L (moved_offset po delta) @ B)" .
    have table: "apply_fixups_loop delta (?A @ ?T po @ ?L (moved_offset po delta) @ B)
       (if ?kd = K_BLOCK then map (\<lambda>i. body_position n ?kd + 8 + i * 24 + 8) [0..<length cs] else [])
       = Inr (?A @ ?T (moved_offset po delta) @ ?L (moved_offset po delta) @ B)"
    proof (cases "?kd = K_BLOCK")
      case block: True
      then have T: "?T q = entry_table (sort_key pe_key_hash64 (pendings hash q base ?m cs))" for q
        by (simp add: container_table_def)
      have "length cs = length (sort_key pe_key_hash64 (pendings hash po base ?m cs))" by simp
      then show ?thesis
        using fixups_table [of delta ?A "sort_key pe_key_hash64 (pendings hash po base ?m cs)" "?L (moved_offset po delta) @ B"] block
        unfolding T lenA table_moved by simp
    qed (simp add: container_table_def)
    show ?thesis using kids table True by (simp add: fixups_loop_append)
  next
    case False
    show ?thesis
    proof (cases "?kd = K_STRING")
      case str: True
      have "scalar_bytes q p = store_string_ref \<lparr>sr_pool_offset = q (node_string p), sr_length = of_nat (length (node_string p))\<rparr>" for q
        using str by (simp add: scalar_bytes_def)
      then show ?thesis
        using apply_fixup_ref [of delta "A @ lead n ?kd" "po (node_string p)" "of_nat (length (node_string p))" B] lead str False
        by (simp add: moved_offset_def)
    next
      case other: False
      then have "scalar_bytes (moved_offset po delta) p = scalar_bytes po p" by (simp add: scalar_bytes_def)
      then show ?thesis using other False by simp
    qed
  qed
next
  case (3 n t ts)
  have "length (A @ layout hash (moved_offset po delta) base n t) = value_end n t"
    using 3(3) length_layout(1) [of n hash "moved_offset po delta" base t] by simp
  from 3(2) [OF this, of B] 3(1) [OF 3(3), of "layout_all hash po base (value_end n t) ts @ B"]
  show ?case by (simp add: fixups_loop_append)
qed simp

section \<open>The file is the concatenation of its regions\<close>

definition file_header :: "nat \<Rightarrow> nat \<Rightarrow> nat \<Rightarrow> nat \<Rightarrow> u64 \<Rightarrow> header" where
  "file_header roots nodes strings strings_count checksum =
     \<lparr>hdr_magic = BC_HRBL_MAGIC, hdr_version_major = BC_HRBL_VERSION_MAJOR, hdr_version_minor = BC_HRBL_VERSION_MINOR,
      hdr_file_size = of_nat (128 + roots * 24 + nodes + strings + 32), hdr_flags = BC_HRBL_FLAGS_V1_REQUIRED,
      hdr_root_count = of_nat roots, hdr_root_index_offset = 128, hdr_root_index_size = of_nat (roots * 24),
      hdr_nodes_offset = of_nat (128 + roots * 24), hdr_nodes_size = of_nat nodes,
      hdr_strings_offset = of_nat (128 + roots * 24 + nodes), hdr_strings_size = of_nat strings,
      hdr_strings_count = of_nat strings_count, hdr_footer_offset = of_nat (128 + roots * 24 + nodes + strings),
      hdr_checksum = checksum, hdr_reserved = zeros 24\<rparr>"

definition file_footer :: "nat \<Rightarrow> u64 \<Rightarrow> footer" where
  "file_footer file_size checksum =
     \<lparr>ftr_checksum = checksum, ftr_file_size = of_nat file_size, ftr_magic_end = BC_HRBL_MAGIC, ftr_reserved = zeros 12\<rparr>"

text \<open>A file with root entries \<open>es\<close>, node bytes \<open>N\<close>, and \<open>c\<close> strings whose bytes are \<open>S\<close>.\<close>

definition file_of :: "(bytes \<Rightarrow> u64) \<Rightarrow> pending_entry list \<Rightarrow> bytes \<Rightarrow> bytes \<Rightarrow> nat \<Rightarrow> bytes" where
  "file_of hash es N S c =
     (let payload = entry_table es @ N @ S; checksum = hash payload
      in store_header (file_header (length es) (length N) (length S) c checksum) @ payload @
         store_footer (file_footer (128 + length payload + 32) checksum))"

lemma length_store_header: "length (hdr_reserved h) = 24 \<Longrightarrow> length (store_header h) = 128"
  by (rule header_codec.length_enc) (simp add: valid_header_def)

lemma length_store_footer: "length (ftr_reserved f) = 12 \<Longrightarrow> length (store_footer f) = 32"
  by (rule footer_codec.length_enc) (simp add: valid_footer_def)

lemma length_file_header [simp]: "length (store_header (file_header r n s c x)) = 128"
  by (rule length_store_header) (simp add: file_header_def)

lemma length_file_footer [simp]: "length (store_footer (file_footer n x)) = 32"
  by (rule length_store_footer) (simp add: file_footer_def)

lemma patch_checksum:
  "length (hdr_reserved h) = 24 \<Longrightarrow> patch 96 (store_u64 c) (store_header h @ R) = store_header (h\<lparr>hdr_checksum := c\<rparr>) @ R"
proof -
  assume r: "length (hdr_reserved h) = 24"
  let ?A = "le_bytes 4 (hdr_magic h) @ le_bytes 2 (hdr_version_major h) @
     le_bytes 2 (hdr_version_minor h) @ le_bytes 8 (hdr_file_size h) @
     le_bytes 8 (hdr_flags h) @ le_bytes 8 (hdr_root_count h) @
     le_bytes 8 (hdr_root_index_offset h) @ le_bytes 8 (hdr_root_index_size h) @
     le_bytes 8 (hdr_nodes_offset h) @ le_bytes 8 (hdr_nodes_size h) @
     le_bytes 8 (hdr_strings_offset h) @ le_bytes 8 (hdr_strings_size h) @
     le_bytes 8 (hdr_strings_count h) @ le_bytes 8 (hdr_footer_offset h)"
  have "patch (length ?A) (le_bytes 8 c) (?A @ le_bytes 8 (hdr_checksum h) @ (hdr_reserved h @ R))
      = ?A @ le_bytes 8 c @ (hdr_reserved h @ R)"
    by (rule patch_middle) simp
  then show ?thesis by (simp add: store_header_def store_u64_def)
qed

lemma store_roots_spec: "store_roots (A @ zeros (length es * 24) @ B) (length A) es = A @ entry_table es @ B"
proof (induction es arbitrary: A)
  case (Cons e es)
  have "zeros (length (e # es) * 24) = zeros 24 @ zeros (length es * 24)"
    by (simp add: zeros_def flip: replicate_add)
  then have "patch (length A) (store_entry (stored_entry e)) (A @ zeros (length (e # es) * 24) @ B)
      = (A @ store_entry (stored_entry e)) @ zeros (length es * 24) @ B"
    using patch_middle [of "zeros 24" "store_entry (stored_entry e)" A "zeros (length es * 24) @ B"] by simp
  then show ?case using Cons [of "A @ store_entry (stored_entry e)"] by (simp add: entry_table_Cons)
qed (simp add: entry_table_def)

lemma zeros_add: "zeros (a + b) = zeros a @ zeros b"
  by (simp add: zeros_def replicate_add)

lemma patch_region: "length X = length A \<Longrightarrow> patch (length X) Y (A @ zeros (length Y) @ B) = A @ Y @ B"
  using patch_middle [of "zeros (length Y)" Y A B] by simp

lemma patch_region_if: "(if length Y \<noteq> 0 then patch off Y out else out) = patch off Y out"
  by simp

lemma assemble_file_eq:
  assumes "length es < 2 ^ 32"
  shows "assemble_file hash es (of_nat (length es)) N S c = file_of hash es N S c"
proof -
  have count: "unat (of_nat (length es) :: u64) = length es" using assms by simp
  let ?payload = "entry_table es @ N @ S" and ?size = "128 + length es * 24 + length N + length S + 32"
  let ?H = "\<lambda>x. store_header (file_header (length es) (length N) (length S) c x)"
  have h0: "\<lparr>hdr_magic = BC_HRBL_MAGIC, hdr_version_major = BC_HRBL_VERSION_MAJOR, hdr_version_minor = BC_HRBL_VERSION_MINOR,
       hdr_file_size = of_nat ?size, hdr_flags = BC_HRBL_FLAGS_V1_REQUIRED, hdr_root_count = of_nat (length es),
       hdr_root_index_offset = of_nat 128, hdr_root_index_size = of_nat (length es * 24),
       hdr_nodes_offset = of_nat (128 + length es * 24), hdr_nodes_size = of_nat (length N),
       hdr_strings_offset = of_nat (128 + length es * 24 + length N), hdr_strings_size = of_nat (length S),
       hdr_strings_count = of_nat c, hdr_footer_offset = of_nat (128 + length es * 24 + length N + length S),
       hdr_checksum = 0, hdr_reserved = zeros 24\<rparr> = file_header (length es) (length N) (length S) c 0"
    by (simp add: file_header_def)
  have z: "zeros ?size = zeros 128 @ zeros (length es * 24) @ zeros (length N) @ zeros (length S) @ zeros 32"
    by (simp only: zeros_add append_assoc)
  have 1: "patch 0 (?H 0) (zeros ?size) = ?H 0 @ zeros (length es * 24) @ zeros (length N) @ zeros (length S) @ zeros 32"
    using patch_region [of "[]" "[]" "?H 0"] unfolding z by simp
  have 2: "store_roots (?H 0 @ zeros (length es * 24) @ zeros (length N) @ zeros (length S) @ zeros 32) 128 es
      = ?H 0 @ entry_table es @ zeros (length N) @ zeros (length S) @ zeros 32"
    using store_roots_spec [of "?H 0" es "zeros (length N) @ zeros (length S) @ zeros 32"] by simp
  have 3: "patch (128 + length es * 24) N (?H 0 @ entry_table es @ zeros (length N) @ zeros (length S) @ zeros 32)
      = ?H 0 @ entry_table es @ N @ zeros (length S) @ zeros 32"
    using patch_region [of "?H 0 @ entry_table es" "?H 0 @ entry_table es" N] by simp
  have 4: "patch (128 + length es * 24 + length N) S (?H 0 @ entry_table es @ N @ zeros (length S) @ zeros 32)
      = ?H 0 @ ?payload @ zeros 32"
    using patch_region [of "?H 0 @ entry_table es @ N" "?H 0 @ entry_table es @ N" S] by (simp add: add.assoc)
  have 5: "take (128 + length es * 24 + length N + length S - 128) (drop 128 (?H 0 @ ?payload @ zeros 32)) = ?payload"
    by simp
  have 6: "patch 96 (store_u64 x) (?H 0 @ ?payload @ zeros 32) = ?H x @ ?payload @ zeros 32" for x
    using patch_checksum [of "file_header (length es) (length N) (length S) c 0" x] by (simp add: file_header_def)
  have 7: "patch (128 + length es * 24 + length N + length S) (store_footer (file_footer ?size x)) (?H x @ ?payload @ zeros 32)
      = ?H x @ ?payload @ store_footer (file_footer ?size x)" for x
    using patch_region [of "?H x @ ?payload" "?H x @ ?payload" "store_footer (file_footer ?size x)" "[]"]
    by (simp add: add.assoc)
  show ?thesis
    unfolding assemble_file_def Let_def count h0 patch_region_if 1 2 3 4 5 6
    using 7 [of "hash ?payload"] by (simp add: file_of_def file_footer_def add.assoc Let_def)
qed

section \<open>Serialisation\<close>

text \<open>The strings of a document in pool order, and where its regions are.\<close>

definition file_strings :: "tree list \<Rightarrow> bytes list" where
  "file_strings ts = foldl remember [] (concat (map collected ts) @ late_children ts)"

definition nodes_start :: "tree list \<Rightarrow> nat" where
  "nodes_start ts = 128 + length ts * 24"

definition strings_start :: "tree list \<Rightarrow> nat" where
  "strings_start ts = nodes_start ts + values_end 0 ts"

definition file_offset :: "tree list \<Rightarrow> bytes \<Rightarrow> u32" where
  "file_offset ts = moved_offset (intra (file_strings ts)) (of_nat (strings_start ts))"

definition root_entries :: "(bytes \<Rightarrow> u64) \<Rightarrow> tree list \<Rightarrow> pending_entry list" where
  "root_entries hash ts = sort_key pe_key_hash64 (pendings hash (file_offset ts) (of_nat (nodes_start ts)) 0 ts)"

definition node_bytes :: "(bytes \<Rightarrow> u64) \<Rightarrow> tree list \<Rightarrow> bytes" where
  "node_bytes hash ts = layout_all hash (file_offset ts) (of_nat (nodes_start ts)) 0 ts"

definition document_file :: "(bytes \<Rightarrow> u64) \<Rightarrow> tree list \<Rightarrow> bytes" where
  "document_file hash ts = file_of hash (root_entries hash ts) (node_bytes hash ts) (pool_layout (file_strings ts))
     (length (file_strings ts))"

lemma length_root_entries [simp]: "length (root_entries hash ts) = length ts"
  by (simp add: root_entries_def)

lemma length_node_bytes [simp]: "length (node_bytes hash ts) = values_end 0 ts"
  using length_layout(2) [of 0] by (simp add: node_bytes_def)

lemma ucast_of_nat_u32: "ucast (of_nat n :: u64) = (of_nat n :: u32)"
  by (simp add: word_unat_eq_iff unsigned_ucast_eq unsigned_of_nat take_bit_eq_mod mod_mod_cancel)

lemma ucast_sum_u32: "ucast (of_nat a + ucast b :: u64) = (of_nat a + b :: u32)"
proof -
  have "of_nat a + ucast b = (of_nat (a + unat b) :: u64)" by simp
  then have "ucast (of_nat a + ucast b :: u64) = (of_nat (a + unat b) :: u32)" by (simp only: ucast_of_nat_u32)
  then show ?thesis by simp
qed

lemma relocate_root_moved: "relocate_root off = moved (of_nat off)"
proof
  fix e :: pending_entry
  have "ucast (of_nat off + ucast (pe_key_pool_offset e) :: u64) = (of_nat off + pe_key_pool_offset e :: u32)"
    by (rule ucast_sum_u32)
  then show "relocate_root off e = moved (of_nat off) e" by (simp add: relocate_root_def moved_def add.commute)
qed

text \<open>What the writer hands over: few enough roots, all encodable, sorts that finish.\<close>

definition serializable :: "(bytes \<Rightarrow> u64) \<Rightarrow> platform \<Rightarrow> nat \<Rightarrow> tree list \<Rightarrow> bool" where
  "serializable hash pf workers ts \<longleftrightarrow> length ts < 2 ^ 32 \<and> schedule_fair pf workers (length ts) \<and>
     (\<forall>t \<in> set ts. encodable hash t \<and> sorts_finish pf workers t)"

lemma serialize_start:
  assumes ok: "serializable hash pf workers ts" and init: "pool_init pf 0 4096 = Inr (pool, k)"
    and coll: "collect_all hash pf k (pool\<lparr>sp_worker_count := workers\<rparr>) ts = Inr (ts1, pool1, k1)"
  defines "C \<equiv> foldl remember [] (concat (map collected ts))"
  shows "pool_holds hash pool1 C \<and> sp_worker_count pool1 = workers \<and> sp_fixup_offsets pool1 = []"
    and "map uncached ts1 = map uncached ts"
    and "\<forall>t \<in> set ts1. ready hash C t \<and> sorts_finish pf workers t"
proof -
  note start = pool_init_spec [where hash = hash, OF init]
  have holds0: "pool_holds hash (pool\<lparr>sp_worker_count := workers\<rparr>) []" using start by (simp add: pool_holds_def)
  have c: "pool_step hash (pool\<lparr>sp_worker_count := workers\<rparr>) [] pool1 (concat (map collected ts)) [] \<and> map uncached ts1 = map uncached ts \<and>
      (\<forall>F. prefix C F \<longrightarrow> (\<forall>t \<in> set ts1. ready hash F t))"
    using collect_all_spec [OF coll holds0] ok by (simp add: serializable_def C_def)
  then show "pool_holds hash pool1 C \<and> sp_worker_count pool1 = workers \<and> sp_fixup_offsets pool1 = []" "map uncached ts1 = map uncached ts"
    using start by (simp_all add: pool_step_def C_def)
  show "\<forall>t \<in> set ts1. ready hash C t \<and> sorts_finish pf workers t"
  proof
    fix t assume t: "t \<in> set ts1"
    then have "uncached t \<in> set (map uncached ts)" using c by (metis image_eqI list.set_map)
    then obtain t0 where t0: "t0 \<in> set ts" "uncached t = uncached t0" by auto
    then have "sorts_finish pf workers t0" using ok by (simp add: serializable_def)
    then show "ready hash C t \<and> sorts_finish pf workers t" using same_uncached [OF t0(2)] c t by simp
  qed
qed

lemma file_strings_late: "file_strings ts = foldl remember (foldl remember [] (concat (map collected ts))) (late_children ts)"
  by (simp add: file_strings_def)

lemma serialize_emitted:
  assumes ok: "serializable hash pf workers ts" and init: "pool_init pf 0 4096 = Inr (pool, k)"
    and coll: "collect_all hash pf k (pool\<lparr>sp_worker_count := workers\<rparr>) ts = Inr (ts1, pool1, k1)"
    and buf: "buffer_init pf k1 4096 = Inr (nodes0, k2)"
    and emit: "emit_children hash pf k3 nodes0 pool1 base (length ts) [] ts1 = Inr (pending, nodes, pool2, k4)"
  shows "pool_holds hash pool2 (file_strings ts) \<and> sp_worker_count pool2 = workers \<and> sp_fixup_offsets pool2 = fixups_all 0 ts \<and>
      pending = pendings hash (intra (file_strings ts)) base 0 ts \<and> eb_data nodes = layout_all hash (intra (file_strings ts)) base 0 ts"
proof -
  note start = serialize_start [OF ok init coll]
  note same = same_uncached_all [OF start(2)]
  have "eb_data nodes0 = []" using buf by (auto simp: buffer_init_def outcome_simps)
  then have "pool_step hash pool1 (foldl remember [] (concat (map collected ts))) pool2 (late_children ts) (fixups_all 0 ts) \<and>
      pending = pendings hash (intra (file_strings ts)) base 0 ts \<and> eb_data nodes = layout_all hash (intra (file_strings ts)) base 0 ts"
    using emit_children_spec [OF _ emit, of "foldl remember [] (concat (map collected ts))" "file_strings ts"]
      emit_value_emits start by (simp add: same file_strings_late)
  then show ?thesis using start(1) by (simp add: pool_step_def file_strings_late)
qed

lemma serialize_relocated:
  assumes "eb_data nodes = layout_all hash (intra (file_strings ts)) (of_nat (nodes_start ts)) 0 ts"
    and "sp_fixup_offsets pool = fixups_all 0 ts"
  shows "apply_fixups nodes pool (nodes_start ts + length (eb_data nodes)) = Inr (nodes\<lparr>eb_data := node_bytes hash ts\<rparr>)"
    and "nodes_start ts + length (eb_data nodes) = strings_start ts"
proof -
  show strings: "nodes_start ts + length (eb_data nodes) = strings_start ts"
    using assms length_layout(2) [of 0 hash "intra (file_strings ts)" "of_nat (nodes_start ts)" ts] by (simp add: strings_start_def)
  show "apply_fixups nodes pool (nodes_start ts + length (eb_data nodes)) = Inr (nodes\<lparr>eb_data := node_bytes hash ts\<rparr>)"
    using relocate(2) [of "[]" 0 "of_nat (strings_start ts)" hash "intra (file_strings ts)" "of_nat (nodes_start ts)" ts "[]"] assms
    unfolding strings by (simp add: apply_fixups_def node_bytes_def file_offset_def)
qed

lemma serialize_spec:
  assumes ok: "serializable hash pf workers ts" and run: "serialize hash pf workers (of_nat (length ts)) ts = Inr out"
  shows "out = document_file hash ts"
proof -
  have count: "unat (of_nat (length ts) :: u32) = length ts" using ok by (simp add: serializable_def)
  have ucount: "ucast (of_nat (length ts) :: u32) = (of_nat (length ts) :: u64)"
    using ok by (simp add: serializable_def word_unat_eq_iff)
  obtain pool k ts1 pool1 k1 nodes0 k2 k3 pending nodes pool2 k4 sorted k5 nodes' where
    init: "pool_init pf 0 4096 = Inr (pool, k)" and
    coll: "collect_all hash pf k (pool\<lparr>sp_worker_count := workers\<rparr>) ts = Inr (ts1, pool1, k1)" and
    buf: "buffer_init pf k1 4096 = Inr (nodes0, k2)" and
    emit: "emit_children hash pf k3 nodes0 pool1 (of_nat (nodes_start ts)) (length ts) [] ts1 = Inr (pending, nodes, pool2, k4)" and
    sort: "pending_sort pf k4 (sp_worker_count pool2) pending = Inr (sorted, k5)" and
    fixed: "apply_fixups nodes pool2 (nodes_start ts + length (eb_data nodes)) = Inr nodes'" and
    out: "out = assemble_file hash (map (relocate_root (nodes_start ts + length (eb_data nodes))) sorted)
      (of_nat (length ts)) (eb_data nodes') (eb_data (sp_buffer pool2)) (length (sp_entries pool2))"
    using run by (auto simp: serialize_def serialize_collected_def outcome_simps Let_def count ucount nodes_start_def)
  have e: "pool_holds hash pool2 (file_strings ts)" "sp_worker_count pool2 = workers" "sp_fixup_offsets pool2 = fixups_all 0 ts"
      "pending = pendings hash (intra (file_strings ts)) (of_nat (nodes_start ts)) 0 ts"
      "eb_data nodes = layout_all hash (intra (file_strings ts)) (of_nat (nodes_start ts)) 0 ts"
    using serialize_emitted [OF ok init coll buf emit] by blast+
  have sorted: "sorted = sort_key pe_key_hash64 (pendings hash (intra (file_strings ts)) (of_nat (nodes_start ts)) 0 ts)"
    using pending_sort_result [OF sort] e ok by (simp add: serializable_def)
  note moved = serialize_relocated [OF e(5,3)]
  have "map (relocate_root (strings_start ts)) sorted = root_entries hash ts"
    unfolding relocate_root_moved sorted root_entries_def file_offset_def pendings_moved
    by (rule sort_key_map_same [symmetric]) (simp add: moved_def)
  moreover have "eb_data nodes' = node_bytes hash ts" using fixed moved(1) by auto
  moreover have "eb_data (sp_buffer pool2) = pool_layout (file_strings ts)" "length (sp_entries pool2) = length (file_strings ts)"
    using e(1) by (auto simp: pool_holds_def)
  ultimately show ?thesis
    using out assemble_file_eq [of "root_entries hash ts" hash] ok
    unfolding moved(2) by (simp add: document_file_def serializable_def)
qed

section \<open>The ways serialisation can fail\<close>

text \<open>
  \<open>allows pf Z F\<close>: the set \<open>F\<close> of faults has the overflow of the pool if the strings \<open>Z\<close> do not
  fit 4 GiB, and the failure of a thread if the platform refuses something.
\<close>

definition allows :: "platform \<Rightarrow> bytes list \<Rightarrow> fault set \<Rightarrow> bool" where
  "allows pf Z F \<longleftrightarrow> (2 ^ 32 \<le> length (pool_layout Z) \<longrightarrow> Fails W_STRING_POOL_OVERFLOW_4GB \<in> F) \<and>
     (\<not> generous pf \<longrightarrow> Fails W_INTERNAL \<in> F)"

lemma pool_layout_prefix: "prefix xs ys \<Longrightarrow> length (pool_layout xs) \<le> length (pool_layout ys)"
  by (auto simp: prefix_def pool_layout_def)

lemma length_node_view: "length (node_view data n) < 2 ^ 32"
proof -
  have "length (node_view data n) \<le> unat n" by (cases data) (simp_all add: node_view_def)
  then show ?thesis using unat_u32_less [of n] by linarith
qed

lemma intern_outcome:
  assumes "pool_holds hash pool strs" and "length s < 2 ^ 32" and "prefix strs Z" and "allows pf Z F"
  shows "fails_only pf F (pool_intern_with_hash pf k pool s (hash s))"
  by (rule pool_intern_outcome [OF assms(1)])
    (use assms(2,4) pool_layout_prefix [OF assms(3)] in \<open>auto simp: allows_def\<close>)

lemma sort_outcome:
  assumes "schedule_fair pf workers (length xs)" and "allows pf Z F"
  shows "fails_only pf F (pending_sort pf k workers xs)"
proof (cases "generous pf")
  case True
  then show ?thesis using pending_sort_generous [OF True assms(1), of k] by auto
next
  case False
  then show ?thesis using pending_sort_fault [of pf k workers xs] assms(2)
    by (cases "pending_sort pf k workers xs") (auto simp: allows_def)
qed

lemma prefix_now: "prefix (foldl remember strs ss) Z \<Longrightarrow> prefix strs Z"
  using prefix_remember_all prefix_order.trans by blast

lemma collect_payload_outcome:
  assumes holds: "pool_holds hash pool strs" and Z: "prefix (foldl remember strs (collected_payload p)) Z" and F: "allows pf Z F"
    and key: "if pl_key_data p = None then pl_cached_key_pool_offset p = POOL_OFFSET_NONE else pl_key_hash64 p = hash (node_key p)"
  shows "fails_only pf F (collect_key pf k pool p)"
    and "collect_key pf k pool p = Inr (p1, pool1, k1) \<Longrightarrow> fails_only pf F (collect_string hash pf k1 pool1 p1)"
proof -
  have len: "length (node_key q) < 2 ^ 32" "length (node_string q) < 2 ^ 32" for q
    unfolding node_key_def node_string_def by (rule length_node_view)+
  let ?k = "if pl_key_data p \<noteq> None then [node_key p] else []"
  have Zk: "prefix (foldl remember strs ?k) Z" using prefix_now [of "foldl remember strs ?k" _ Z] Z by (simp add: collected_payload_def)
  show "fails_only pf F (collect_key pf k pool p)"
    using intern_outcome [OF holds len(1) prefix_now [OF Zk] F, of k p] key
    unfolding collect_key_def by (auto intro!: fails_only_rules)
  assume run: "collect_key pf k pool p = Inr (p1, pool1, k1)"
  have "pool_holds hash pool1 (foldl remember strs ?k)"
    using run key holds pool_stepD [OF conjunct1 [OF pool_step_intern [OF holds]]]
    by (fastforce simp: collect_key_def outcome_simps split: if_splits)
  then show "fails_only pf F (collect_string hash pf k1 pool1 p1)"
    unfolding collect_string_def pool_intern_def
    by (auto intro!: fails_only_rules intern_outcome [OF _ len(2) Zk F])
qed

lemma collect_all_outcome_of:
  assumes "\<forall>t \<in> set ts. \<forall>k pool strs. pool_holds hash pool strs \<longrightarrow> encodable hash t \<longrightarrow>
      prefix (foldl remember strs (collected t)) Z \<longrightarrow> fails_only pf F (collect_strings hash pf k pool t)"
  shows "pool_holds hash pool strs \<Longrightarrow> \<forall>t \<in> set ts. encodable hash t \<Longrightarrow>
     prefix (foldl remember strs (concat (map collected ts))) Z \<Longrightarrow> fails_only pf F (collect_all hash pf k pool ts)"
  using assms
proof (induction ts arbitrary: k pool strs)
  case (Cons t ts)
  have Z: "prefix (foldl remember (foldl remember strs (collected t)) (concat (map collected ts))) Z" using Cons.prems(3) by simp
  have "fails_only pf F (collect_all hash pf k1 pool1 ts)" if "collect_strings hash pf k pool t = Inr (t1, pool1, k1)" for t1 pool1 k1
  proof (rule Cons.IH [OF _ _ Z])
    show "pool_holds hash pool1 (foldl remember strs (collected t))"
      using collectsD [OF collect_strings_collects that Cons.prems(1)] Cons.prems(2) pool_stepD by auto
  qed (use Cons.prems in auto)
  moreover have "fails_only pf F (collect_strings hash pf k pool t)"
    using Cons.prems(1,2,4) prefix_now [OF Z] by simp
  ultimately show ?case by (auto intro!: fails_only_rules)
qed simp

lemma collect_strings_outcome:
  assumes F: "allows pf Z F"
  shows "pool_holds hash pool strs \<Longrightarrow> encodable hash t \<Longrightarrow> prefix (foldl remember strs (collected t)) Z \<Longrightarrow>
    fails_only pf F (collect_strings hash pf k pool t)"
proof (induction t arbitrary: k pool strs)
  case (Tree p cs)
  have key: "if pl_key_data p = None then pl_cached_key_pool_offset p = POOL_OFFSET_NONE else pl_key_hash64 p = hash (node_key p)"
    using Tree.prems(2) by simp
  have Z: "prefix (foldl remember (foldl remember strs (collected_payload p)) (concat (map collected cs))) Z"
    using Tree.prems(3) by simp
  note out = collect_payload_outcome [OF Tree.prems(1) prefix_now [OF Z] F key]
  have "fails_only pf F (collect_all hash pf k2 pool2 cs)"
    if "collect_key pf k pool p = Inr (p1, pool1, k1)" "collect_string hash pf k1 pool1 p1 = Inr (p2, pool2, k2)" for p1 pool1 k1 p2 pool2 k2
    by (rule collect_all_outcome_of [OF _ _ _ Z])
      (use Tree.IH Tree.prems(2) pool_stepD [OF conjunct1 [OF collect_payload_spec [OF Tree.prems(1) key that]]] in auto)
  then show ?case using out by (auto intro!: fails_only_rules)
qed

section \<open>The ways emission can fail\<close>

lemma emit_kind_outcome: "fails_only pf F (emit_kind pf k nodes kd a)"
  unfolding emit_kind_def Let_def by (auto intro!: fails_only_rules buffer_outcome)

lemma container_head_outcome: "fails_only pf F (emit_container_head pf k nodes kd head room)"
  unfolding emit_container_head_def Let_def by (auto intro!: fails_only_rules buffer_outcome emit_kind_outcome)

lemma store_entries_outcome: "fails_only pf F (store_entries pf k nodes pool off es)"
  by (induction es arbitrary: k nodes pool off) (auto intro!: fails_only_rules pool_record_fixup_outcome)

lemma emit_key_outcome:
  assumes holds: "pool_holds hash pool strs" and ready: "ready_payload hash strs p"
    and Z: "prefix (foldl remember strs (late_key p)) Z" and F: "allows pf Z F"
  shows "fails_only pf F (emit_key hash pf k pool p)"
proof -
  have "length (node_key p) < 2 ^ 32" unfolding node_key_def by (rule length_node_view)
  from intern_outcome [OF holds this prefix_now [OF Z] F, of k] ready
  show ?thesis by (simp add: emit_key_def ready_payload_def)
qed

lemma emit_scalar_outcome:
  assumes holds: "pool_holds hash pool strs" and ready: "ready_payload hash strs p" and kind: "\<not> is_container_kind (pl_kind p)"
  shows "fails_only pf F (emit_scalar hash pf k nodes pool base p)"
proof -
  have "pl_kind p = K_STRING \<Longrightarrow> pl_cached_string_pool_offset p \<noteq> POOL_OFFSET_NONE"
    using ready intra_not_none [OF holds] by (simp add: ready_payload_def)
  then show ?thesis
    using kind unfolding emit_scalar_def emit_string_ref_def Let_def
    by (cases "pl_kind p") (auto simp: is_container_kind_def intro!: fails_only_rules emit_kind_outcome buffer_outcome pool_record_fixup_outcome)
qed

definition emits_within :: "(bytes \<Rightarrow> u64) \<Rightarrow> platform \<Rightarrow> u64 \<Rightarrow> bytes list \<Rightarrow> fault set \<Rightarrow> tree \<Rightarrow> bool" where
  "emits_within hash pf base Z F t \<longleftrightarrow> (\<forall>k nodes pool strs.
     pool_holds hash pool strs \<longrightarrow> ready hash strs t \<longrightarrow> sorts_finish pf (sp_worker_count pool) t \<longrightarrow>
     prefix (foldl remember strs (late t)) Z \<longrightarrow> fails_only pf F (emit_value hash pf k nodes pool base t))"

lemma emit_children_outcome:
  assumes F: "allows pf Z F" and "\<forall>t \<in> set ts. emits_within hash pf base Z F t"
  shows "pool_holds hash pool strs \<Longrightarrow> \<forall>t \<in> set ts. ready hash strs t \<and> sorts_finish pf (sp_worker_count pool) t \<Longrightarrow>
    prefix (foldl remember strs (late_children ts)) Z \<Longrightarrow> length pending + length ts \<le> room \<Longrightarrow>
    fails_only pf F (emit_children hash pf k nodes pool base room pending ts)"
  using assms(2)
proof (induction ts arbitrary: k nodes pool strs pending)
  case (Cons t ts)
  let ?s1 = "foldl remember strs (late_key (tr_payload t))"
  let ?s2 = "foldl remember ?s1 (late t)"
  have ready: "ready hash strs t" and sorts: "sorts_finish pf (sp_worker_count pool) t" using Cons.prems(2) by auto
  then have payload: "ready_payload hash strs (tr_payload t)" by (cases t) simp
  have Z: "prefix (foldl remember ?s2 (late_children ts)) Z" using Cons.prems(3) by simp
  note Z2 = prefix_now [OF Z] and Z1 = prefix_now [OF prefix_now [OF Z]]
  have "fails_only pf F (emit_key hash pf k pool (tr_payload t))"
    by (rule emit_key_outcome [OF Cons.prems(1) payload Z1 F])
  moreover have "fails_only pf F (emit_value hash pf k1 nodes pool1 base t)"
    if key: "emit_key hash pf k pool (tr_payload t) = Inr (off1, pool1, k1)" for off1 pool1 k1
    using pool_stepD [OF conjunct1 [OF emit_key_spec [OF Cons.prems(1) payload key]]] Cons.prems(5) Z2 sorts
      ready_mono [OF prefix_remember_all ready] unfolding emits_within_def by auto
  moreover have "fails_only pf F (emit_children hash pf k2 nodes2 pool2 base room (pending @ [e]) ts)"
    if key: "emit_key hash pf k pool (tr_payload t) = Inr (off1, pool1, k1)" and
      val: "emit_value hash pf k1 nodes pool1 base t = Inr (v, nodes2, pool2, k2)" for off1 pool1 k1 v nodes2 pool2 k2 e
  proof -
    note d1 = pool_stepD [OF conjunct1 [OF emit_key_spec [OF Cons.prems(1) payload key]]]
    have "pool_step hash pool1 ?s1 pool2 (late t) (fixups (length (eb_data nodes)) t)"
      using emitsD [OF emit_value_emits val conjunct1 [OF d1] ready_mono [OF prefix_remember_all ready] _ Z2] sorts d1 by simp
    note d2 = pool_stepD [OF this]
    have "\<forall>t \<in> set ts. ready hash ?s2 t \<and> sorts_finish pf (sp_worker_count pool2) t"
      using Cons.prems(2) d1 d2 ready_mono [OF prefix_remember_all] by (metis list.set_intros(2))
    then show ?thesis using Cons.IH [OF conjunct1 [OF d2] _ Z, of "pending @ [e]"] Cons.prems(4,5) by simp
  qed
  ultimately show ?case using Cons.prems(4) by (auto intro!: fails_only_rules)
qed simp

lemma emit_elements_outcome:
  assumes F: "allows pf Z F" and "\<forall>t \<in> set ts. emits_within hash pf base Z F t"
  shows "pool_holds hash pool strs \<Longrightarrow> \<forall>t \<in> set ts. ready hash strs t \<and> sorts_finish pf (sp_worker_count pool) t \<Longrightarrow>
    prefix (foldl remember strs (late_elements ts)) Z \<Longrightarrow> unat index + length ts < 2 ^ 32 \<Longrightarrow>
    tab + (unat index + length ts) * 8 \<le> length (eb_data nodes) \<Longrightarrow>
    fails_only pf F (emit_elements hash pf k nodes pool base tab index ts)"
  using assms(2)
proof (induction ts arbitrary: k nodes pool strs index)
  case (Cons t ts)
  let ?s2 = "foldl remember strs (late t)"
  have ready: "ready hash strs t" and sorts: "sorts_finish pf (sp_worker_count pool) t" using Cons.prems(2) by auto
  have Z: "prefix (foldl remember ?s2 (late_elements ts)) Z" using Cons.prems(3) by simp
  have "fails_only pf F (emit_value hash pf k nodes pool base t)"
    using Cons.prems(1,6) ready sorts prefix_now [OF Z] unfolding emits_within_def by auto
  moreover have "fails_only pf F (emit_elements hash pf k2 (nodes2\<lparr>eb_data := patch (tab + unat index * 8) (store_u64 v) (eb_data nodes2)\<rparr>)
      pool2 base tab (index + 1) ts) \<and> tab + unat index * 8 + 8 \<le> length (eb_data nodes2)"
    if val: "emit_value hash pf k nodes pool base t = Inr (v, nodes2, pool2, k2)" for v nodes2 pool2 k2
  proof -
    note e = emitsD [OF emit_value_emits val Cons.prems(1) ready sorts prefix_now [OF Z]]
    note d2 = pool_stepD [OF conjunct1 [OF e]]
    have grow: "length (eb_data nodes) \<le> length (eb_data nodes2)" using e by simp
    then have room: "tab + unat index * 8 + 8 \<le> length (eb_data nodes2)" using Cons.prems(5) by simp
    have "\<forall>t \<in> set ts. ready hash ?s2 t \<and> sorts_finish pf (sp_worker_count pool2) t"
      using Cons.prems(2) d2 ready_mono [OF prefix_remember_all] by (metis list.set_intros(2))
    moreover have "unat (index + 1) = unat index + 1" using Cons.prems(4) unat_word_ariths(1) [of index 1] by simp
    ultimately show ?thesis
      using Cons.IH [OF conjunct1 [OF d2] _ Z, of "index + 1"] Cons.prems(4-6) grow room by simp
  qed
  ultimately show ?case by (auto simp: Let_def intro!: fails_only_rules)
qed simp

lemma emit_value_within:
  assumes F: "allows pf Z F"
  shows "emits_within hash pf base Z F t"
proof (induction t)
  case (Tree p cs)
  show ?case unfolding emits_within_def
  proof (intro allI impI)
    fix k nodes pool strs
    assume holds: "pool_holds hash pool strs" and ready: "ready hash strs (Tree p cs)"
      and sorts: "sorts_finish pf (sp_worker_count pool) (Tree p cs)" and Z: "prefix (foldl remember strs (late (Tree p cs))) Z"
    have count: "unat (of_nat (length cs) :: u32) = length cs" using ready by simp
    have kids: "\<forall>t \<in> set cs. ready hash strs t \<and> sorts_finish pf (sp_worker_count pool) t" using ready sorts by simp
    have IH: "\<forall>t \<in> set cs. emits_within hash pf base Z F t" using Tree.IH by simp
    show "fails_only pf F (emit_value hash pf k nodes pool base (Tree p cs))"
    proof (cases "pl_kind p")
      case K_BLOCK
      then have Zc: "prefix (foldl remember strs (late_children cs)) Z" using Z by (simp add: late_Tree)
      have sort: "fails_only pf F (pending_sort pf k3 (sp_worker_count pool2) pending)"
        if "emit_children hash pf k2 nodes1 pool base (length cs) [] cs = Inr (pending, nodes2, pool2, k3)" for k2 nodes1 pending nodes2 pool2 k3
      proof -
        have "pool_step hash pool strs pool2 (late_children cs) (fixups_all (length (eb_data nodes1)) cs) \<and>
            pending = [] @ pendings hash (intra Z) base (length (eb_data nodes1)) cs"
          using emit_children_spec [OF _ that holds kids Zc] emit_value_emits by simp
        then show ?thesis using sorts K_BLOCK pool_stepD by (intro sort_outcome [OF _ F]) fastforce
      qed
      show ?thesis
        using K_BLOCK emit_children_outcome [OF F IH holds kids Zc, of "[]" "length cs"]
        by (auto simp: Let_def count intro!: fails_only_rules container_head_outcome store_entries_outcome sort)
    next
      case K_ARRAY
      then have Zc: "prefix (foldl remember strs (late_elements cs)) Z" using Z by (simp add: late_Tree)
      have "tab + (unat (0 :: u32) + length cs) * 8 \<le> length (eb_data nodes1)"
        if "emit_container_head pf k nodes K_ARRAY head (length cs * 8) = Inr (ko, tab, nodes1, k1)" for head ko tab nodes1 k1
        using container_head_spec [OF _ that] body_position_gt [of "length (eb_data nodes)" K_ARRAY]
        by (simp add: is_container_kind_def)
      then show ?thesis
        using K_ARRAY emit_elements_outcome [OF F IH holds kids Zc, of 0] ready
        by (auto simp: Let_def count intro!: fails_only_rules container_head_outcome)
    qed (use emit_scalar_outcome [OF holds] ready in \<open>simp_all add: is_container_kind_def\<close>)
  qed
qed

section \<open>Serialisation fails only for these reasons\<close>

lemma serialize_outcome:
  assumes ok: "serializable hash pf workers ts" and F: "allows pf (file_strings ts) F"
  shows "fails_only pf F (serialize hash pf workers (of_nat (length ts)) ts)"
proof -
  have count: "unat (of_nat (length ts) :: u32) = length ts" using ok by (simp add: serializable_def)
  let ?C = "foldl remember [] (concat (map collected ts))" and ?base = "of_nat (nodes_start ts) :: u64"
  have C: "prefix ?C (file_strings ts)" unfolding file_strings_late by (rule prefix_remember_all)
  have collect: "fails_only pf F (collect_all hash pf k (pool\<lparr>sp_worker_count := workers\<rparr>) ts)"
    if "pool_init pf 0 4096 = Inr (pool, k)" for pool k
  proof (rule collect_all_outcome_of [OF _ _ _ C])
    show "pool_holds hash (pool\<lparr>sp_worker_count := workers\<rparr>) []"
      using pool_init_spec [where hash = hash, OF that] by (simp add: pool_holds_def)
  qed (use ok collect_strings_outcome [OF F] in \<open>auto simp: serializable_def\<close>)
  have emit: "fails_only pf F (emit_children hash pf k2 nodes0 pool1 ?base (length ts) [] ts1)"
    if "pool_init pf 0 4096 = Inr (pool, k)" "collect_all hash pf k (pool\<lparr>sp_worker_count := workers\<rparr>) ts = Inr (ts1, pool1, k1)"
    for pool k ts1 pool1 k1 nodes0 k2
  proof -
    note start = serialize_start [OF ok that]
    have "late_children ts1 = late_children ts" "length ts1 = length ts" using same_uncached_all [OF start(2)] by simp_all
    then show ?thesis
      using start emit_value_within [OF F] by (intro emit_children_outcome [OF F]) (auto simp: file_strings_late)
  qed
  have after: "fails_only pf F (pending_sort pf k4 (sp_worker_count pool2) pending) \<and>
      is_ok (apply_fixups nodes pool2 (nodes_start ts + length (eb_data nodes)))"
    if "pool_init pf 0 4096 = Inr (pool, k)" "collect_all hash pf k (pool\<lparr>sp_worker_count := workers\<rparr>) ts = Inr (ts1, pool1, k1)"
      "buffer_init pf k1 4096 = Inr (nodes0, k2)"
      "emit_children hash pf k3 nodes0 pool1 ?base (length ts) [] ts1 = Inr (pending, nodes, pool2, k4)"
    for pool k ts1 pool1 k1 nodes0 k2 k3 pending nodes pool2 k4
  proof -
    note e = serialize_emitted [OF ok that]
    then have "fails_only pf F (pending_sort pf k4 (sp_worker_count pool2) pending)"
      using ok by (intro sort_outcome [OF _ F]) (simp add: serializable_def)
    then show ?thesis using e serialize_relocated(1) [of nodes hash ts pool2] by simp
  qed
  have fixups: "fails_only pf F (apply_fixups nodes pool2 (nodes_start ts + length (eb_data nodes)))"
    if "is_ok (apply_fixups nodes pool2 (nodes_start ts + length (eb_data nodes)))" for nodes pool2
    using that by (auto simp: is_ok_iff)
  show ?thesis
    unfolding serialize_def serialize_collected_def Let_def count nodes_start_def [symmetric]
    by (auto intro!: fails_only_rules pool_init_outcome buffer_outcome collect emit fixups dest: after)
qed

end
