(* ===== verification/Caching.thy ===== *)
theory Caching
  imports Serialisation
begin

text \<open>
  Collecting the strings in the arena (\<open>collect_nodes\<close>): it does to the nodes what \<open>collect_all\<close> does to
  the forest they form, and changes nothing but the cached offsets, also when it fails half-way. So a
  writer goes on after a finalisation as if there had been none.
\<close>

section \<open>Nodes that differ in their caches\<close>

text \<open>The offsets that collection stores, forgotten: a node without a key has no key offset to store.\<close>

definition bare_payload :: "payload \<Rightarrow> payload" where
  "bare_payload p = p\<lparr>pl_cached_key_pool_offset := (if pl_key_data p = None then pl_cached_key_pool_offset p else POOL_OFFSET_NONE),
     pl_cached_string_pool_offset := POOL_OFFSET_NONE\<rparr>"

fun bare :: "tree \<Rightarrow> tree" where
  "bare (Tree p cs) = Tree (bare_payload p) (map bare cs)"

lemma bare_payload_simps [simp]:
  "pl_kind (bare_payload p) = pl_kind p" "pl_key_data (bare_payload p) = pl_key_data p" "pl_key_length (bare_payload p) = pl_key_length p"
  "pl_key_hash64 (bare_payload p) = pl_key_hash64 p" "node_key (bare_payload p) = node_key p" "node_string (bare_payload p) = node_string p"
  "uncached_payload (bare_payload p) = uncached_payload p" "collected_payload (bare_payload p) = collected_payload p"
  by (simp_all add: bare_payload_def node_key_def node_string_def uncached_payload_def collected_payload_def)

lemma bare_payload_cached:
  "pl_cached_key_pool_offset (bare_payload p) = (if pl_key_data p = None then pl_cached_key_pool_offset p else POOL_OFFSET_NONE)"
  by (simp add: bare_payload_def)

lemma bare_parts [simp]: "tr_payload (bare t) = bare_payload (tr_payload t)" "tr_children (bare t) = map bare (tr_children t)"
  by (cases t; simp)+

lemma uncached_bare [simp]: "uncached (bare t) = uncached t"
  by (induction t) simp

lemma collected_bare [simp]: "collected (bare t) = collected t"
  by (induction t) (simp add: comp_def cong: map_cong)

lemma bare_bare_payload [simp]: "bare_payload (bare_payload p) = bare_payload p"
  by (simp add: bare_payload_def)

lemma same_bare_uncached: "map bare ts' = map bare ts \<Longrightarrow> map uncached ts' = map uncached ts"
  by (metis (no_types, lifting) list.map_comp list.map_cong comp_def uncached_bare)

lemma same_bare_collected: "map bare ts' = map bare ts \<Longrightarrow> map collected ts' = map collected ts"
  by (metis (no_types, lifting) list.map_comp list.map_cong comp_def collected_bare)

text \<open>So the file of a forest does not depend on the caches.\<close>

lemma document_file_bare:
  assumes "map bare ts' = map bare ts"
  shows "document_file hash ts' = document_file hash ts" and "file_strings ts' = file_strings ts"
proof -
  note same = same_uncached_all [OF same_bare_uncached [OF assms]]
  show strings: "file_strings ts' = file_strings ts" by (simp add: file_strings_def same same_bare_collected [OF assms])
  have "strings_start ts' = strings_start ts"
    using assms by (metis nodes_start_def same(5) same_bare_uncached strings_start_def values_end_uncached)
  then have "file_offset ts' = file_offset ts" using strings by (simp add: file_offset_def)
  moreover have "nodes_start ts' = nodes_start ts" by (simp add: nodes_start_def same)
  ultimately show "document_file hash ts' = document_file hash ts"
    by (simp add: document_file_def root_entries_def node_bytes_def same strings)
qed

definition same_but_caches :: "node list \<Rightarrow> node list \<Rightarrow> bool" where
  "same_but_caches nodes nodes' \<longleftrightarrow> length nodes' = length nodes \<and> (\<forall>i < length nodes.
     payload.more (nodes' ! i) = payload.more (nodes ! i) \<and>
     bare_payload (payload.truncate (nodes' ! i)) = bare_payload (payload.truncate (nodes ! i)))"

lemma same_but_caches_refl [simp]: "same_but_caches nodes nodes"
  by (simp add: same_but_caches_def)

lemma same_but_caches_trans: "same_but_caches nodes nodes' \<Longrightarrow> same_but_caches nodes' nodes'' \<Longrightarrow> same_but_caches nodes nodes''"
  by (simp add: same_but_caches_def)

lemma more_links:
  fixes m n :: node
  assumes "payload.more m = payload.more n"
  shows "nd_child_count m = nd_child_count n" and "nd_parent m = nd_parent n" and "nd_first_child m = nd_first_child n"
    and "nd_last_child m = nd_last_child n" and "nd_next_sibling m = nd_next_sibling n"
  using assms by (cases m; cases n; simp)+

lemma bare_kind: "bare_payload (payload.truncate m) = bare_payload (payload.truncate n) \<Longrightarrow> pl_kind m = pl_kind n"
  by (cases m; cases n) (simp add: bare_payload_def payload.truncate_def)

lemma same_links:
  assumes "same_but_caches nodes nodes'" and "i < length nodes"
  shows "nd_child_count (nodes' ! i) = nd_child_count (nodes ! i)" and "nd_parent (nodes' ! i) = nd_parent (nodes ! i)"
    and "nd_first_child (nodes' ! i) = nd_first_child (nodes ! i)" and "nd_last_child (nodes' ! i) = nd_last_child (nodes ! i)"
    and "nd_next_sibling (nodes' ! i) = nd_next_sibling (nodes ! i)" and "pl_kind (nodes' ! i) = pl_kind (nodes ! i)"
    and "is_container (nodes' ! i) = is_container (nodes ! i)"
proof -
  have more: "payload.more (nodes' ! i) = payload.more (nodes ! i)"
    and bare: "bare_payload (payload.truncate (nodes' ! i)) = bare_payload (payload.truncate (nodes ! i))"
    using assms by (simp_all add: same_but_caches_def)
  show "nd_child_count (nodes' ! i) = nd_child_count (nodes ! i)" "nd_parent (nodes' ! i) = nd_parent (nodes ! i)"
    "nd_first_child (nodes' ! i) = nd_first_child (nodes ! i)" "nd_last_child (nodes' ! i) = nd_last_child (nodes ! i)"
    "nd_next_sibling (nodes' ! i) = nd_next_sibling (nodes ! i)"
    using more_links [OF more] by simp_all
  show kind: "pl_kind (nodes' ! i) = pl_kind (nodes ! i)" by (rule bare_kind [OF bare])
  then show "is_container (nodes' ! i) = is_container (nodes ! i)" by (simp add: is_container_def)
qed

lemma same_kids: "same_but_caches nodes nodes' \<Longrightarrow> kids nodes' p = kids nodes p"
  unfolding kids_def by (auto simp: same_links(2) same_but_caches_def [THEN iffD1, THEN conjunct1] intro!: filter_cong)

lemma same_wf_links:
  assumes "same_but_caches nodes nodes'" and "wf_links nodes"
  shows "wf_links nodes'"
proof -
  have len: "length nodes' = length nodes" using assms(1) by (simp add: same_but_caches_def)
  have "is_container (nodes' ! j) = is_container (nodes ! j)" if "j < i" "i < length nodes" for i j
    using same_links(7) [OF assms(1), of j] that by simp
  then show ?thesis
    using assms(2) unfolding wf_links_def len by (auto simp: same_links [OF assms(1)] same_kids [OF assms(1)])
qed

lemma same_forest:
  assumes "same_but_caches nodes nodes'" and "wf_links nodes"
  shows "map bare (forest_of nodes' p) = map bare (forest_of nodes p)"
  using assms
proof (induction nodes p rule: forest_of.induct)
  case (1 nodes p)
  have "Tree (bare_payload (payload.truncate (nodes' ! i))) (map bare (forest_of nodes' (Some i)))
      = Tree (bare_payload (payload.truncate (nodes ! i))) (map bare (forest_of nodes (Some i)))" if "i \<in> set (kids nodes p)" for i
    using 1 that by (simp add: filter_above same_but_caches_def in_kids)
  then show ?case
    unfolding forest_of_wf [OF 1(3), of p] forest_of_wf [OF same_wf_links [OF 1(2,3)], of p] same_kids [OF 1(2)] by simp
qed

lemma same_spine:
  assumes "same_but_caches nodes nodes'"
  shows "spine nodes p path \<Longrightarrow> spine nodes' p path"
proof (induction path arbitrary: p)
  case (Cons c path)
  then have "c < length nodes" using last_in_set [of "kids nodes p"] by (auto simp: in_kids)
  then show ?case using Cons by (auto simp: same_kids [OF assms] same_links(7) [OF assms])
qed simp

section \<open>Collecting changes nothing else\<close>

lemma truncate_extend [simp]: "payload.truncate (payload.extend p m) = p" "payload.more (payload.extend p m) = m"
  by (cases p; simp add: payload.extend_def payload.truncate_def)+

lemma collect_key_bare: "collect_key pf k pool p = Inr (p', pool', k') \<Longrightarrow> bare_payload p' = bare_payload p"
  by (auto simp: collect_key_def bare_payload_def outcome_simps split: if_splits)

lemma collect_string_bare: "collect_string hash pf k pool p = Inr (p', pool', k') \<Longrightarrow> bare_payload p' = bare_payload p"
  by (auto simp: collect_string_def bare_payload_def outcome_simps split: if_splits)

lemma store_payload_same:
  "bare_payload p = bare_payload (payload.truncate (nodes ! i)) \<Longrightarrow> same_but_caches nodes (store_payload p i nodes)"
  by (cases "i < length nodes") (auto simp: same_but_caches_def store_payload_def nth_list_update)

lemma collect_nodes_same: "same_but_caches nodes (fst (collect_nodes hash pf fuel k pool nodes s))"
proof (induction hash pf fuel k pool nodes s rule: collect_nodes.induct)
  case (3 hash pf fuel k pool nodes i)
  show ?case
  proof (cases "collect_key pf k pool (payload.truncate (nodes ! i))")
    case (Inr r)
    then obtain p1 pool1 k1 where key: "collect_key pf k pool (payload.truncate (nodes ! i)) = Inr (p1, pool1, k1)" by (cases r) auto
    note same1 = store_payload_same [OF collect_key_bare [OF key]]
    show ?thesis
    proof (cases "collect_string hash pf k1 pool1 p1")
      case (Inr r)
      then obtain p2 pool2 k2 where str: "collect_string hash pf k1 pool1 p1 = Inr (p2, pool2, k2)" by (cases r) auto
      have same2: "same_but_caches nodes (store_payload p2 i nodes)"
        by (rule store_payload_same) (simp add: collect_key_bare [OF key] collect_string_bare [OF str])
      note kids = 3(1) [OF key refl refl str refl refl]
      show ?thesis
        using same_but_caches_trans [OF same2 kids] 3(2) [OF key refl refl str refl refl _ _ refl] same_but_caches_trans
        by (fastforce simp: key str split: sum.split prod.split)
    qed (simp add: key same1)
  qed simp
qed simp_all

section \<open>Forests in the arena\<close>

text \<open>
  \<open>chain nodes s ts A\<close>: the links from \<open>s\<close> lead to the forest \<open>ts\<close>, and no node of \<open>A\<close>, the set of its nodes, is met twice.
\<close>

fun chain :: "node list \<Rightarrow> nat option \<Rightarrow> tree list \<Rightarrow> nat set \<Rightarrow> bool" where
  "chain nodes s [] A \<longleftrightarrow> s = None \<and> A = {}"
| "chain nodes s (Tree p cs # ts) A \<longleftrightarrow> (\<exists>i B C. s = Some i \<and> i < length nodes \<and> payload.truncate (nodes ! i) = p \<and>
     chain nodes (nd_first_child (nodes ! i)) cs B \<and> chain nodes (nd_next_sibling (nodes ! i)) ts C \<and>
     A = insert i (B \<union> C) \<and> i \<notin> B \<union> C \<and> B \<inter> C = {})"

lemma chain_None [simp]: "chain nodes None ts A \<longleftrightarrow> ts = [] \<and> A = {}"
  by (cases "(nodes, None :: nat option, ts, A)" rule: chain.cases) auto

lemma chain_SomeE:
  assumes "chain nodes (Some i) ts A"
  obtains cs us B C where "ts = Tree (payload.truncate (nodes ! i)) cs # us" and "i < length nodes"
    and "chain nodes (nd_first_child (nodes ! i)) cs B" and "chain nodes (nd_next_sibling (nodes ! i)) us C"
    and "A = insert i (B \<union> C)" and "i \<notin> B" and "i \<notin> C" and "B \<inter> C = {}"
  using assms by (cases "(nodes, Some i, ts, A)" rule: chain.cases) auto

lemma chain_ConsI:
  "i < length nodes \<Longrightarrow> chain nodes (nd_first_child (nodes ! i)) cs B \<Longrightarrow> chain nodes (nd_next_sibling (nodes ! i)) ts C \<Longrightarrow>
   i \<notin> B \<Longrightarrow> i \<notin> C \<Longrightarrow> B \<inter> C = {} \<Longrightarrow> chain nodes (Some i) (Tree (payload.truncate (nodes ! i)) cs # ts) (insert i (B \<union> C))"
  by fastforce

lemma chain_inside: "chain nodes s ts A \<Longrightarrow> A \<subseteq> {..<length nodes}"
  by (induction nodes s ts A rule: chain.induct) (simp, fastforce)

lemma chain_finite: "chain nodes s ts A \<Longrightarrow> finite A"
  by (rule finite_subset [OF chain_inside]) simp_all

text \<open>Nodes outside the forest do not matter.\<close>

lemma chain_frame:
  "chain nodes s ts A \<Longrightarrow> length nodes' = length nodes \<Longrightarrow> \<forall>j \<in> A. nodes' ! j = nodes ! j \<Longrightarrow> chain nodes' s ts A"
proof (induction nodes s ts A rule: chain.induct)
  case (2 nodes s p cs ts A)
  from 2(3) obtain i B C where "s = Some i" "i < length nodes" "payload.truncate (nodes ! i) = p"
    "chain nodes (nd_first_child (nodes ! i)) cs B" "chain nodes (nd_next_sibling (nodes ! i)) ts C"
    "A = insert i (B \<union> C)" "i \<notin> B \<union> C" "B \<inter> C = {}" by auto
  then show ?case using 2(1) [of i B] 2(2) [of i C] 2(4,5) by auto
qed simp

lemma chain_read: "chain nodes s ts A \<Longrightarrow> card A \<le> fuel \<Longrightarrow> read_forest fuel nodes s = Some ts"
proof (induction fuel nodes s arbitrary: ts A rule: read_forest.induct)
  case (2 nodes i)
  then show ?case using chain_finite [OF 2(1)] by (auto elim!: chain_SomeE)
next
  case (3 fuel nodes i)
  from 3(3) obtain cs us B C where chain: "ts = Tree (payload.truncate (nodes ! i)) cs # us"
    "chain nodes (nd_first_child (nodes ! i)) cs B" "chain nodes (nd_next_sibling (nodes ! i)) us C"
    "A = insert i (B \<union> C)" "i \<notin> B" "i \<notin> C" "B \<inter> C = {}" by (rule chain_SomeE)
  have "card A = Suc (card B + card C)"
    using chain chain_finite [OF chain(2)] chain_finite [OF chain(3)] by (simp add: card_Un_disjoint)
  then have "card B \<le> fuel" "card C \<le> fuel" using 3(4) by auto
  then show ?case using 3(1) [OF chain(2)] 3(2) [OF _ chain(3)] chain(1) by simp
qed simp

section \<open>Collecting in the arena is collecting in the forest\<close>

text \<open>What \<open>collect_nodes\<close> leaves, given what \<open>collect_all\<close> returns.\<close>

definition collected_as ::
    "node list \<Rightarrow> nat option \<Rightarrow> nat set \<Rightarrow> fault + tree list \<times> string_pool \<times> nat \<Rightarrow> node list \<times> (fault + string_pool \<times> nat) \<Rightarrow> bool" where
  "collected_as nodes s A result r \<longleftrightarrow> length (fst r) = length nodes \<and> (\<forall>j. j \<notin> A \<longrightarrow> fst r ! j = nodes ! j) \<and>
     (case result of Inl f \<Rightarrow> snd r = Inl f | Inr (ts, pool, k) \<Rightarrow> snd r = Inr (pool, k) \<and> chain (fst r) s ts A)"

text \<open>The children and the siblings of a node whose own offsets are stored.\<close>

lemma collect_links:
  assumes i: "i < length nodes"
    and kids: "chain nodes (nd_first_child (nodes ! i)) cs B" and rest: "chain nodes (nd_next_sibling (nodes ! i)) us C"
    and A: "A = insert i (B \<union> C)" "i \<notin> B" "i \<notin> C" "B \<inter> C = {}"
    and collects_kids: "\<And>ns. chain ns (nd_first_child (nodes ! i)) cs B \<Longrightarrow> collected_as ns (nd_first_child (nodes ! i)) B
      (collect_all hash pf k pool cs) (collect_nodes hash pf fuel k pool ns (nd_first_child (nodes ! i)))"
    and collects_rest: "\<And>ns k pool. chain ns (nd_next_sibling (nodes ! i)) us C \<Longrightarrow> collected_as ns (nd_next_sibling (nodes ! i)) C
      (collect_all hash pf k pool us) (collect_nodes hash pf fuel k pool ns (nd_next_sibling (nodes ! i)))"
  shows "collected_as nodes (Some i) A
      (bindE (collect_all hash pf k pool cs) (\<lambda>(cs, pool, k). bindE (collect_all hash pf k pool us) (\<lambda>(us, pool, k). Inr (Tree p cs # us, pool, k))))
      (case collect_nodes hash pf fuel k pool (store_payload p i nodes) (nd_first_child (nodes ! i)) of
         (nodes, Inl f) \<Rightarrow> (nodes, Inl f)
       | (nodes, Inr (pool, k)) \<Rightarrow> collect_nodes hash pf fuel k pool nodes (nd_next_sibling (nodes ! i)))"
proof -
  let ?n1 = "store_payload p i nodes"
  have n1: "length ?n1 = length nodes" "?n1 ! i = payload.extend p (payload.more (nodes ! i))" "\<forall>j. j \<noteq> i \<longrightarrow> ?n1 ! j = nodes ! j"
    using i by (simp_all add: store_payload_def)
  have apart: "\<forall>j \<in> C. j \<notin> B \<and> j \<noteq> i" "\<forall>j \<in> B. j \<notin> C \<and> j \<noteq> i" using A by auto
  have kids1: "chain ?n1 (nd_first_child (nodes ! i)) cs B" by (rule chain_frame [OF kids]) (use n1 apart in auto)
  obtain n2 r2 where run2: "collect_nodes hash pf fuel k pool ?n1 (nd_first_child (nodes ! i)) = (n2, r2)" by fastforce
  note after2 = collects_kids [OF kids1, unfolded run2]
  show ?thesis
  proof (cases "collect_all hash pf k pool cs")
    case (Inl f)
    then show ?thesis using after2 A n1 by (auto simp: run2 collected_as_def)
  next
    case (Inr r)
    then obtain cs3 pool3 k3 where all3: "collect_all hash pf k pool cs = Inr (cs3, pool3, k3)" by (cases r) auto
    then have n2: "length n2 = length nodes" "\<forall>j. j \<notin> B \<longrightarrow> n2 ! j = ?n1 ! j" "r2 = Inr (pool3, k3)"
      "chain n2 (nd_first_child (nodes ! i)) cs3 B"
      using after2 n1(1) by (auto simp: collected_as_def)
    have rest2: "chain n2 (nd_next_sibling (nodes ! i)) us C" by (rule chain_frame [OF rest]) (use n1 n2 apart in auto)
    obtain n4 r4 where run4: "collect_nodes hash pf fuel k3 pool3 n2 (nd_next_sibling (nodes ! i)) = (n4, r4)" by fastforce
    note after4 = collects_rest [OF rest2, of k3 pool3, unfolded run4]
    then have n4: "length n4 = length nodes" "\<forall>j. j \<notin> C \<longrightarrow> n4 ! j = n2 ! j" using n2(1) by (auto simp: collected_as_def)
    have i4: "n4 ! i = payload.extend p (payload.more (nodes ! i))" using n4(2) n2(2) n1(2) A by simp
    then have links: "nd_first_child (n4 ! i) = nd_first_child (nodes ! i)" "nd_next_sibling (n4 ! i) = nd_next_sibling (nodes ! i)"
      using more_links [of "n4 ! i" "nodes ! i"] by simp_all
    have kids4: "chain n4 (nd_first_child (nodes ! i)) cs3 B" by (rule chain_frame [OF n2(4)]) (use n4 n2(1) apart in auto)
    have "chain n4 (Some i) (Tree p cs3 # us4) A" if "chain n4 (nd_next_sibling (nodes ! i)) us4 C" for us4
      using chain_ConsI [of i n4 cs3 B us4 C] that kids4 A n4(1) i i4 links by simp
    moreover have "nd_next_sibling (n2 ! i) = nd_next_sibling (nodes ! i)" using n2(2) n1(2) A more_links(5) [of "n2 ! i" "nodes ! i"] by simp
    moreover have "\<forall>j. j \<notin> A \<longrightarrow> n4 ! j = nodes ! j" using A n1(3) n2(2) n4(2) by auto
    ultimately show ?thesis
      using after4 n4(1) run4
      by (cases "collect_all hash pf k3 pool3 us") (auto simp: run2 n2(3) all3 collected_as_def simp del: chain.simps)
  qed
qed

lemma collect_nodes_all:
  "chain nodes s ts A \<Longrightarrow> card A \<le> fuel \<Longrightarrow> collected_as nodes s A (collect_all hash pf k pool ts) (collect_nodes hash pf fuel k pool nodes s)"
proof (induction fuel arbitrary: nodes s ts A k pool)
  case 0
  then have "A = {}" using chain_finite by auto
  then show ?case using 0(1) by (cases s) (auto simp: collected_as_def elim!: chain_SomeE)
next
  case (Suc fuel)
  show ?case
  proof (cases s)
    case None
    then show ?thesis using Suc.prems(1) by (simp add: collected_as_def)
  next
    case (Some i)
    from Suc.prems(1) [unfolded Some] obtain cs us B C where ts: "ts = Tree (payload.truncate (nodes ! i)) cs # us" and i: "i < length nodes"
      and kids: "chain nodes (nd_first_child (nodes ! i)) cs B" and rest: "chain nodes (nd_next_sibling (nodes ! i)) us C"
      and A: "A = insert i (B \<union> C)" "i \<notin> B" "i \<notin> C" "B \<inter> C = {}" by (rule chain_SomeE)
    have "card A = Suc (card B + card C)"
      using A chain_finite [OF kids] chain_finite [OF rest] by (simp add: card_Un_disjoint)
    then have card: "card B \<le> fuel" "card C \<le> fuel" using Suc.prems(2) by auto
    note links = collect_links [where hash = hash and pf = pf and fuel = fuel, OF i kids rest A Suc.IH [OF _ card(1)] Suc.IH [OF _ card(2)]]
    show ?thesis
    proof (cases "collect_key pf k pool (payload.truncate (nodes ! i))")
      case (Inl f)
      then show ?thesis by (simp add: Some ts collected_as_def)
    next
      case (Inr r)
      then obtain p1 pool1 k1 where key: "collect_key pf k pool (payload.truncate (nodes ! i)) = Inr (p1, pool1, k1)" by (cases r) auto
      show ?thesis
      proof (cases "collect_string hash pf k1 pool1 p1")
        case (Inl f)
        then show ?thesis using A by (auto simp: Some ts key collected_as_def store_payload_def)
      next
        case (Inr r)
        then obtain p2 pool2 k2 where str: "collect_string hash pf k1 pool1 p1 = Inr (p2, pool2, k2)" by (cases r) auto
        have "collect_all hash pf k pool ts = bindE (collect_all hash pf k2 pool2 cs) (\<lambda>(cs, pool, k).
            bindE (collect_all hash pf k pool us) (\<lambda>(us, pool, k). Inr (Tree p2 cs # us, pool, k)))"
          by (cases "collect_all hash pf k2 pool2 cs") (auto simp: ts key str)
        then show ?thesis using links [of k2 pool2 p2] by (simp add: Some key str)
      qed
    qed
  qed
qed

section \<open>The nodes below a node\<close>

definition below :: "node list \<Rightarrow> (nat \<times> nat) set" where
  "below nodes = {(i, j). j < length nodes \<and> nd_parent (nodes ! j) = Some i}"

lemma below_kids: "(i, j) \<in> below nodes \<longleftrightarrow> j \<in> set (kids nodes (Some i))"
  by (simp add: below_def in_kids)

lemma below_less:
  assumes "wf_links nodes"
  shows "(i, j) \<in> (below nodes)\<^sup>* \<Longrightarrow> i \<le> j"
proof (induction rule: rtrancl_induct)
  case (step j k)
  then show ?case using wf_links_kid [OF assms, of k j] by (simp add: below_kids)
qed simp

lemma below_inside: "(i, j) \<in> (below nodes)\<^sup>* \<Longrightarrow> i < length nodes \<Longrightarrow> j < length nodes"
  by (induction rule: rtrancl_induct) (auto simp: below_def)

lemma below_unfold: "{j. (i, j) \<in> (below nodes)\<^sup>*} = insert i {j. \<exists>k \<in> set (kids nodes (Some i)). (k, j) \<in> (below nodes)\<^sup>*}"
  unfolding set_eq_iff mem_Collect_eq insert_iff below_kids [symmetric] Bex_def by (metis converse_rtranclE converse_rtrancl_into_rtrancl rtrancl.rtrancl_refl below_kids)

text \<open>A node is below one child of its parent only.\<close>

lemma below_siblings:
  assumes wf: "wf_links nodes" and kids: "i \<in> set (kids nodes p)" "k \<in> set (kids nodes p)"
    and paths: "(i, j) \<in> (below nodes)\<^sup>*" "(k, j) \<in> (below nodes)\<^sup>*"
  shows "i = k"
proof -
  have apart: "a = b" if "(a, b) \<in> (below nodes)\<^sup>*" "a \<in> set (kids nodes p)" "b \<in> set (kids nodes p)" for a b
    using that(1)
  proof (cases rule: rtranclE)
    case (step c)
    then have "p = Some c" using that(3) by (simp add: below_def in_kids)
    then have "c < a" using wf_links_kid [OF wf] that(2) by blast
    then show ?thesis using below_less [OF wf step(1)] by simp
  qed
  have "single_valued ((below nodes)\<inverse>)" by (auto simp: single_valued_def below_def)
  then have "(i, k) \<in> ((below nodes)\<inverse>)\<^sup>* \<or> (k, i) \<in> ((below nodes)\<inverse>)\<^sup>*"
    by (rule single_valued_confluent) (use paths in \<open>simp_all add: rtrancl_converse\<close>)
  then show ?thesis using apart kids by (auto simp: rtrancl_converse)
qed

abbreviation tree_at :: "node list \<Rightarrow> nat \<Rightarrow> tree" where
  "tree_at nodes i \<equiv> Tree (payload.truncate (nodes ! i)) (forest_of nodes (Some i))"

lemma chain_from:
  assumes "wf_links nodes"
  shows "i \<in> set (kids nodes p) \<Longrightarrow> chain nodes (Some i) (map (tree_at nodes) (filter (\<lambda>j. i \<le> j) (kids nodes p)))
     {j. \<exists>k \<in> set (filter (\<lambda>j. i \<le> j) (kids nodes p)). (k, j) \<in> (below nodes)\<^sup>*}"
proof (induction "length nodes - i" arbitrary: i p rule: less_induct)
  case less
  note wf = assms
  let ?B = "{j. \<exists>k \<in> set (kids nodes (Some i)). (k, j) \<in> (below nodes)\<^sup>*}"
    and ?C = "{j. \<exists>k \<in> set (filter (\<lambda>j. i < j) (kids nodes p)). (k, j) \<in> (below nodes)\<^sup>*}"
  have i: "i < length nodes" "nd_parent (nodes ! i) = p" using less.prems by (simp_all add: in_kids)
  have first: "nd_first_child (nodes ! i) = first_of (filter (\<lambda>_. True) (kids nodes (Some i)))"
    and sibling: "nd_next_sibling (nodes ! i) = first_of (filter (\<lambda>j. i < j) (kids nodes p))"
    using wf i by (simp_all add: wf_links_def)
  have B: "chain nodes (nd_first_child (nodes ! i)) (forest_of nodes (Some i)) ?B"
  proof (cases "nd_first_child (nodes ! i)")
    case None
    then show ?thesis using first by (simp add: forest_of_wf [OF wf, of "Some i"] first_of_eq_None)
  next
    case (Some k)
    note k = first_of_kids [OF wf first [symmetric, unfolded Some]]
    then have mem: "k \<in> set (kids nodes (Some i))" by (simp add: in_kids)
    then have "length nodes - k < length nodes - i" using wf_links_kid [OF wf mem] k(1) by linarith
    have all: "filter (\<lambda>j. k \<le> j) (kids nodes (Some i)) = kids nodes (Some i)" using k(4) by simp
    from less.hyps [OF \<open>length nodes - k < length nodes - i\<close> mem] show ?thesis
      unfolding all by (simp add: Some forest_of_wf [OF wf, of "Some i"])
  qed
  have C: "chain nodes (nd_next_sibling (nodes ! i)) (map (tree_at nodes) (filter (\<lambda>j. i < j) (kids nodes p))) ?C"
  proof (cases "nd_next_sibling (nodes ! i)")
    case None
    then show ?thesis using sibling by (simp add: first_of_eq_None)
  next
    case (Some k)
    note k = first_of_kids [OF wf sibling [symmetric, unfolded Some]]
    then have mem: "k \<in> set (kids nodes p)" by (simp add: in_kids)
    have "filter (\<lambda>j. k \<le> j) (kids nodes p) = filter (\<lambda>j. k \<le> j) (filter (\<lambda>j. i < j) (kids nodes p))"
      unfolding filter_filter by (rule filter_cong) (use k(3) in auto)
    then have ge: "filter (\<lambda>j. k \<le> j) (kids nodes p) = filter (\<lambda>j. i < j) (kids nodes p)" using k(4) by simp
    from less.hyps [OF _ mem] show ?thesis unfolding Some ge using k(1,3) by simp
  qed
  have split: "filter (\<lambda>j. i \<le> j) (kids nodes p) = i # filter (\<lambda>j. i < j) (kids nodes p)"
    by (intro sorted_split sorted_kids less.prems)
  have notB: "i \<notin> ?B"
  proof
    assume "i \<in> ?B"
    then obtain k where k: "k \<in> set (kids nodes (Some i))" "(k, i) \<in> (below nodes)\<^sup>*" by blast
    then show False using wf_links_kid [OF wf k(1)] below_less [OF wf k(2)] by simp
  qed
  have apart: "(i, j) \<notin> (below nodes)\<^sup>*" if C: "j \<in> ?C" for j
  proof
    assume ij: "(i, j) \<in> (below nodes)\<^sup>*"
    obtain k where k: "i < k" "k \<in> set (kids nodes p)" "(k, j) \<in> (below nodes)\<^sup>*" using C by auto
    from below_siblings [OF wf less.prems k(2) ij k(3)] k(1) show False by simp
  qed
  then have notC: "i \<notin> ?C" by blast
  have "?B \<inter> ?C = {}" using apart below_unfold [of i nodes] by blast
  moreover have "insert i (?B \<union> ?C) = {j. \<exists>k \<in> set (i # filter (\<lambda>j. i < j) (kids nodes p)). (k, j) \<in> (below nodes)\<^sup>*}"
    using below_unfold [of i nodes] by auto
  ultimately show ?case
    using chain_ConsI [OF i(1) B C notB notC] unfolding split by simp
qed

lemma chain_writer:
  assumes "wf_writer w"
  shows "\<exists>A. chain (w_nodes w) (w_root_first w) (forest_of (w_nodes w) None) A \<and> card A \<le> length (w_nodes w)"
proof -
  have wf: "wf_links (w_nodes w)" and first: "w_root_first w = first_of (filter (\<lambda>_. True) (kids (w_nodes w) None))"
    using assms by (simp_all add: wf_writer_def)
  have "\<exists>A. chain (w_nodes w) (w_root_first w) (forest_of (w_nodes w) None) A"
  proof (cases "w_root_first w")
    case None
    then show ?thesis using first by (simp add: forest_of_wf [OF wf, of None] first_of_eq_None)
  next
    case (Some k)
    note k = first_of_kids [OF wf first [symmetric, unfolded Some]]
    then have "k \<in> set (kids (w_nodes w) None)" by (simp add: in_kids)
    from chain_from [OF wf this] show ?thesis using k(4) by (auto simp: Some forest_of_wf [OF wf, of None])
  qed
  moreover have "card A \<le> length (w_nodes w)" if "chain (w_nodes w) s ts A" for s ts A
    using card_mono [OF _ chain_inside [OF that]] by simp
  ultimately show ?thesis by blast
qed

section \<open>A finalisation, seen from the writer\<close>

text \<open>\<open>recached w w'\<close>: the writers are the same but for cached offsets.\<close>

definition recached :: "writer \<Rightarrow> writer \<Rightarrow> bool" where
  "recached w w' \<longleftrightarrow> w' = w\<lparr>w_nodes := w_nodes w'\<rparr> \<and> same_but_caches (w_nodes w) (w_nodes w')"

lemma recached_nodes: "same_but_caches (w_nodes w) nodes \<Longrightarrow> recached w (w\<lparr>w_nodes := nodes\<rparr>)"
  by (simp add: recached_def)

lemma recached_refl [simp]: "recached w w"
  by (simp add: recached_def)

lemma recached_fields:
  assumes "recached w w'"
  shows "w_error_flag w' = w_error_flag w" and "w_current_scope w' = w_current_scope w" and "w_root_first w' = w_root_first w"
    and "w_root_last w' = w_root_last w" and "w_root_count w' = w_root_count w" and "w_worker_count w' = w_worker_count w"
    and "w_last_error w' = w_last_error w"
  by (subst assms [unfolded recached_def, THEN conjunct1], simp)+

lemma recached_wf:
  assumes "recached w w'" and "wf_writer w"
  shows "wf_writer w'"
proof -
  have same: "same_but_caches (w_nodes w) (w_nodes w')" using assms(1) by (simp add: recached_def)
  show ?thesis
    using assms(2) same_wf_links [OF same] same_spine [OF same]
    by (auto simp: wf_writer_def recached_fields [OF assms(1)] same_kids [OF same])
qed

lemma recached_builds:
  assumes "recached w w'" and "builds w f d"
  shows "\<exists>f'. builds w' f' d \<and> map bare f' = map bare f"
proof -
  have same: "same_but_caches (w_nodes w) (w_nodes w')" using assms(1) by (simp add: recached_def)
  have "builds w' (forest_of (w_nodes w') None) d"
    using assms(2) recached_wf [OF assms(1)] same_spine [OF same] by (auto simp: builds_def recached_fields [OF assms(1)])
  then show ?thesis using same_forest [OF same, of None] assms(2) by (auto simp: builds_def wf_writer_def)
qed

lemma serialize_recached: "recached w (snd (writer_serialize_to_buffer hash pf w))"
proof (cases "pool_init pf 0 4096")
  case (Inr r)
  then obtain pool k where init: "pool_init pf 0 4096 = Inr (pool, k)" by (cases r) auto
  obtain nodes r where run: "collect_nodes hash pf (length (w_nodes w)) k (pool\<lparr>sp_worker_count := w_worker_count w\<rparr>) (w_nodes w) (w_root_first w) = (nodes, r)"
    by fastforce
  have "recached w (w\<lparr>w_nodes := nodes\<rparr>)"
    using collect_nodes_same [of "w_nodes w" hash pf "length (w_nodes w)" k "pool\<lparr>sp_worker_count := w_worker_count w\<rparr>" "w_root_first w"]
    by (intro recached_nodes) (simp add: run)
  then show ?thesis by (auto simp: writer_serialize_to_buffer_def init run Let_def split: sum.split option.split prod.split)
qed (simp add: writer_serialize_to_buffer_def)

text \<open>Serialising a writer is serialising its forest; when that works, the nodes hold what was collected.\<close>

lemma serialize_writer:
  assumes "wf_writer w"
  shows "fst (writer_serialize_to_buffer hash pf w) = serialize hash pf (w_worker_count w) (w_root_count w) (forest_of (w_nodes w) None)"
    and "fst (writer_serialize_to_buffer hash pf w) = Inr out \<Longrightarrow> \<exists>pool k ts1 pool1 k1. pool_init pf 0 4096 = Inr (pool, k) \<and>
      collect_all hash pf k (pool\<lparr>sp_worker_count := w_worker_count w\<rparr>) (forest_of (w_nodes w) None) = Inr (ts1, pool1, k1) \<and>
      writer_forest (snd (writer_serialize_to_buffer hash pf w)) = Some ts1"
proof -
  let ?f = "forest_of (w_nodes w) None"
  obtain A where A: "chain (w_nodes w) (w_root_first w) ?f A" "card A \<le> length (w_nodes w)" using chain_writer [OF assms] by blast
  have "fst (writer_serialize_to_buffer hash pf w) = serialize hash pf (w_worker_count w) (w_root_count w) ?f \<and>
    (fst (writer_serialize_to_buffer hash pf w) = Inr out \<longrightarrow> (\<exists>pool k ts1 pool1 k1. pool_init pf 0 4096 = Inr (pool, k) \<and>
      collect_all hash pf k (pool\<lparr>sp_worker_count := w_worker_count w\<rparr>) ?f = Inr (ts1, pool1, k1) \<and>
      writer_forest (snd (writer_serialize_to_buffer hash pf w)) = Some ts1))"
  proof (cases "pool_init pf 0 4096")
    case (Inr r)
    then obtain pool k where init: "pool_init pf 0 4096 = Inr (pool, k)" by (cases r) auto
    let ?pool = "pool\<lparr>sp_worker_count := w_worker_count w\<rparr>"
    obtain nodes res where run: "collect_nodes hash pf (length (w_nodes w)) k ?pool (w_nodes w) (w_root_first w) = (nodes, res)" by fastforce
    note as = collect_nodes_all [OF A, of hash pf k ?pool, unfolded run]
    show ?thesis
    proof (cases "collect_all hash pf k ?pool ?f")
      case (Inl f)
      then show ?thesis using as by (simp add: writer_serialize_to_buffer_def serialize_def init run collected_as_def)
    next
      case (Inr r)
      then obtain ts1 pool1 k1 where all: "collect_all hash pf k ?pool ?f = Inr (ts1, pool1, k1)" by (cases r) auto
      then have "res = Inr (pool1, k1)" "chain nodes (w_root_first w) ts1 A" "length nodes = length (w_nodes w)"
        using as by (simp_all add: collected_as_def)
      moreover from this have "writer_forest (w\<lparr>w_nodes := nodes\<rparr>) = Some ts1"
        using chain_read [of nodes "w_root_first w" ts1 A "length nodes"] A(2) by (simp add: writer_forest_def)
      ultimately show ?thesis using all run by (simp add: writer_serialize_to_buffer_def serialize_def init Let_def)
    qed
  qed (simp add: writer_serialize_to_buffer_def serialize_def)
  then show "fst (writer_serialize_to_buffer hash pf w) = serialize hash pf (w_worker_count w) (w_root_count w) ?f"
    and "fst (writer_serialize_to_buffer hash pf w) = Inr out \<Longrightarrow> \<exists>pool k ts1 pool1 k1. pool_init pf 0 4096 = Inr (pool, k) \<and>
      collect_all hash pf k (pool\<lparr>sp_worker_count := w_worker_count w\<rparr>) ?f = Inr (ts1, pool1, k1) \<and>
      writer_forest (snd (writer_serialize_to_buffer hash pf w)) = Some ts1"
    by blast+
qed

end
