(* ===== verification/Finalize.thy ===== *)
theory Finalize
  imports Caching
begin

text \<open>
  The finalisation of a writer (\<open>bc_hrbl_writer_finalize_to_buffer\<close>): which of its exits it takes,
  and that every sequence of successful calls leaves a forest that the encoder can serialise.
\<close>

section \<open>Forests that calls build\<close>

fun nodes_of :: "tree \<Rightarrow> nat" where
  "nodes_of (Tree p cs) = Suc (sum_list (map nodes_of cs))"

definition nodes_in :: "tree list \<Rightarrow> nat" where
  "nodes_in ts = sum_list (map nodes_of ts)"

lemma nodes_of_Tree: "nodes_of (Tree p cs) = Suc (nodes_in cs)"
  by (simp add: nodes_in_def)

lemma nodes_in_simps [simp]: "nodes_in [] = 0" "nodes_in (t # ts) = nodes_of t + nodes_in ts" "nodes_in (ts @ us) = nodes_in ts + nodes_in us"
  by (simp_all add: nodes_in_def)

lemma nodes_of_pos: "0 < nodes_of t"
  by (cases t) simp

lemma length_nodes_in: "length ts \<le> nodes_in ts"
proof (induction ts)
  case (Cons t ts)
  then show ?case using nodes_of_pos [of t] by simp
qed simp

lemma member_nodes_in: "t \<in> set ts \<Longrightarrow> nodes_of t \<le> nodes_in ts"
  by (induction ts) auto

text \<open>Keys carry their hash, and only they are cached.\<close>

definition key_hashed :: "(bytes \<Rightarrow> u64) \<Rightarrow> payload \<Rightarrow> bool" where
  "key_hashed hash p \<longleftrightarrow>
     (if pl_key_data p = None then pl_cached_key_pool_offset p = POOL_OFFSET_NONE else pl_key_hash64 p = hash (node_key p))"

fun keys_hashed :: "(bytes \<Rightarrow> u64) \<Rightarrow> tree \<Rightarrow> bool" where
  "keys_hashed hash (Tree p cs) \<longleftrightarrow> key_hashed hash p \<and> (\<forall>t \<in> set cs. keys_hashed hash t)"

lemma keys_hashed_parts: "keys_hashed hash t \<longleftrightarrow> key_hashed hash (tr_payload t) \<and> (\<forall>u \<in> set (tr_children t). keys_hashed hash u)"
  by (cases t) simp

lemma encodable_hashed: "keys_hashed hash t \<Longrightarrow> nodes_of t < 2 ^ 32 \<Longrightarrow> encodable hash t"
proof (induction t)
  case (Tree p cs)
  have "length cs < 2 ^ 32" using length_nodes_in [of cs] Tree.prems(2) by (simp add: nodes_of_Tree del: nodes_of.simps)
  moreover have "nodes_of t < 2 ^ 32" if "t \<in> set cs" for t
    using member_nodes_in [OF that] Tree.prems(2) by (simp add: nodes_of_Tree del: nodes_of.simps)
  ultimately show ?case using Tree by (simp add: key_hashed_def)
qed

lemma sorts_finish_bounded: "\<forall>n \<le> nodes_of t. schedule_fair pf workers n \<Longrightarrow> sorts_finish pf workers t"
proof (induction t)
  case (Tree p cs)
  have "schedule_fair pf workers (length cs)"
    using length_nodes_in [of cs] Tree.prems by (simp add: nodes_of_Tree del: nodes_of.simps)
  moreover have "sorts_finish pf workers t" if "t \<in> set cs" for t
    using Tree.IH [OF that] Tree.prems member_nodes_in [OF that] by (simp add: nodes_of_Tree del: nodes_of.simps)
  ultimately show ?case by simp
qed

lemma serializable_hashed:
  assumes "\<forall>t \<in> set ts. keys_hashed hash t" and "nodes_in ts < 2 ^ 32" and "\<forall>n \<le> nodes_in ts. schedule_fair pf workers n"
  shows "serializable hash pf workers ts"
proof -
  have "nodes_of t < 2 ^ 32 \<and> (\<forall>n \<le> nodes_of t. schedule_fair pf workers n)" if "t \<in> set ts" for t
    using member_nodes_in [OF that] assms(2,3) by auto
  then show ?thesis
    using assms length_nodes_in [of ts] encodable_hashed sorts_finish_bounded by (auto simp: serializable_def)
qed

lemma plain_simps [simp]:
  "pl_kind (plain k) = k" "pl_key_data (plain k) = None" "pl_cached_key_pool_offset (plain k) = POOL_OFFSET_NONE"
  "pl_bits (plain k) = 0" "pl_string_data (plain k) = None" "pl_string_length (plain k) = 0" "pl_key_length (plain k) = 0"
  by (simp_all add: plain_def fresh_node_def payload.truncate_def)

lemma with_leaf_simps [simp]:
  "pl_kind (with_leaf l p) = pl_kind p" "pl_key_data (with_leaf l p) = pl_key_data p"
  "pl_cached_key_pool_offset (with_leaf l p) = pl_cached_key_pool_offset p"
  "pl_key_hash64 (with_leaf l p) = pl_key_hash64 p" "pl_key_length (with_leaf l p) = pl_key_length p"
  by (cases l; simp)+

lemma keyed_simps [simp]:
  "pl_kind (keyed hash key p) = pl_kind p" "pl_key_data (keyed hash key p) = stored key"
  "pl_cached_key_pool_offset (keyed hash key p) = pl_cached_key_pool_offset p"
  "pl_key_hash64 (keyed hash key p) = hash key" "pl_key_length (keyed hash key p) = of_nat (length key)"
  "pl_bits (keyed hash key p) = pl_bits p" "pl_string_data (keyed hash key p) = pl_string_data p"
  "pl_string_length (keyed hash key p) = pl_string_length p"
  by (simp_all add: keyed_def)

lemma node_view_stored: "length s < 2 ^ 32 \<Longrightarrow> node_view (stored s) (of_nat (length s)) = s"
  by (simp add: node_view_def stored_def)

lemma key_hashed_plain: "key_hashed hash (with_leaf l (plain k))" "key_hashed hash (plain k)"
  by (simp_all add: key_hashed_def)

lemma key_hashed_keyed:
  assumes "length key < 2 ^ 32"
  shows "key_hashed hash (with_leaf l (keyed hash key (plain k)))" and "key_hashed hash (keyed hash key (plain k))"
  using assms by (auto simp: key_hashed_def node_key_def node_view_stored)

lemma good_key_length: "good_key key \<Longrightarrow> length (arg_bytes key) < 2 ^ 32"
  by (cases key) (auto simp: good_key_def)

lemma insert_at_forest:
  "open_at d f \<Longrightarrow> nodes_in (insert_at d f t) = nodes_in f + nodes_of t \<and>
    ((\<forall>u \<in> set f. keys_hashed hash u) \<longrightarrow> keys_hashed hash t \<longrightarrow> (\<forall>u \<in> set (insert_at d f t). keys_hashed hash u))"
proof (induction d arbitrary: f)
  case (Suc d)
  then have "f \<noteq> []" by simp
  then obtain us u where f: "f = us @ [u]" by (metis append_butlast_last_id)
  obtain p cs where u: "u = Tree p cs" by (cases u)
  have "open_at d cs" using Suc.prems by (simp add: f u)
  note IH = Suc.IH [OF this]
  have new: "insert_at (Suc d) f t = us @ [Tree p (insert_at d cs t)]" by (simp add: f u)
  have old: "nodes_in f = nodes_in us + Suc (nodes_in cs)" by (simp add: f u nodes_of_Tree del: nodes_of.simps)
  have count: "nodes_in (us @ [Tree p (insert_at d cs t)]) = nodes_in us + Suc (nodes_in (insert_at d cs t))"
    by (simp add: nodes_of_Tree del: nodes_of.simps)
  have "(\<forall>u \<in> set f. keys_hashed hash u) \<longleftrightarrow> (\<forall>u \<in> set us. keys_hashed hash u) \<and> key_hashed hash p \<and> (\<forall>u \<in> set cs. keys_hashed hash u)"
    unfolding f u by auto
  then have hashed: "(\<forall>u \<in> set f. keys_hashed hash u) \<longrightarrow> keys_hashed hash t \<longrightarrow>
      (\<forall>u \<in> set (us @ [Tree p (insert_at d cs t)]). keys_hashed hash u)"
    using conjunct2 [OF IH] by (metis UnE empty_iff empty_set insert_iff keys_hashed.simps list.simps(15) set_append)
  show ?case unfolding new old count using conjunct1 [OF IH] hashed by (intro conjI) (linarith, assumption)
qed simp

definition built_by :: "(bytes \<Rightarrow> u64) \<Rightarrow> nat \<Rightarrow> tree list \<times> nat \<Rightarrow> bool" where
  "built_by hash n s \<longleftrightarrow> open_at (snd s) (fst s) \<and> nodes_in (fst s) \<le> n \<and> (\<forall>t \<in> set (fst s). keys_hashed hash t)"

lemma built_by_insert:
  assumes "built_by hash n (f, d)" and "key_hashed hash p"
  shows "built_by hash (Suc n) (insert_at d f (Tree p []), d)" and "built_by hash (Suc n) (insert_at d f (Tree p []), Suc d)"
  using assms insert_at_open [of d f "Tree p []"] insert_at_begin [of d f p "[]"] insert_at_forest [of d f "Tree p []" hash]
  by (simp_all add: built_by_def)

lemma open_at_pred: "open_at d f \<Longrightarrow> open_at (d - 1) f"
proof (induction d arbitrary: f)
  case (Suc d)
  then show ?case by (cases d) auto
qed simp

lemma built_by_step:
  assumes "build_step hash s c = Some s'" and "built_by hash n s"
  shows "built_by hash (Suc n) s'"
proof -
  obtain f d where s: "s = (f, d)" by (cases s)
  have close: "built_by hash (Suc n) (f, d - 1)" using assms(2) open_at_pred by (simp add: built_by_def s le_SucI)
  have begin_hashed: "key_hashed hash (begin_payload hash sc key k)" if "begin_ok sc key" for sc key k
    using that key_hashed_plain key_hashed_keyed [OF good_key_length] by (auto simp: begin_payload_def begin_ok_def)
  show ?thesis
    using assms close begin_hashed built_by_insert [of hash n f d] key_hashed_plain key_hashed_keyed [OF good_key_length]
    by (cases c) (auto simp: s split: if_splits)
qed

lemma built_by_steps: "build_steps hash s cs = Some s' \<Longrightarrow> built_by hash n s \<Longrightarrow> built_by hash (n + length cs) s'"
proof (induction cs arbitrary: s n)
  case (Cons c cs)
  then obtain s1 where "build_step hash s c = Some s1" "build_steps hash s1 cs = Some s'" by (auto split: option.splits)
  then show ?case using Cons.IH [of s1 "Suc n"] built_by_step Cons.prems(2) by simp
qed simp

lemma built_serializable:
  assumes "build_steps hash ([], 0) cs = Some (f, d)" and "length cs < 2 ^ 32" and "\<forall>n \<le> length cs. schedule_fair pf workers n"
  shows "serializable hash pf workers f"
proof -
  have "built_by hash (length cs) (f, d)" using built_by_steps [OF assms(1), of 0] by (simp add: built_by_def)
  then show ?thesis using assms(2,3) by (intro serializable_hashed) (auto simp: built_by_def)
qed

section \<open>Finalisation\<close>

lemma finalize_flagged:
  "w_error_flag w \<Longrightarrow> writer_finalize_to_buffer hash pf w = Inr (None, w\<lparr>w_last_error := W_CONSTRUCTION\<rparr>)"
  by (simp add: writer_finalize_to_buffer_def)

lemma finalize_unclosed:
  "\<not> w_error_flag w \<Longrightarrow> w_current_scope w \<noteq> None \<Longrightarrow>
     writer_finalize_to_buffer hash pf w = Inr (None, w\<lparr>w_last_error := W_UNCLOSED_SCOPE\<rparr>)"
  by (simp add: writer_finalize_to_buffer_def)

text \<open>The errors that serialisation reports, and when.\<close>

definition serialize_error :: "platform \<Rightarrow> tree list \<Rightarrow> writer_error \<Rightarrow> bool" where
  "serialize_error pf ts e \<longleftrightarrow>
     (e = W_OOM \<or> e = W_INTERNAL) \<and> \<not> generous pf \<or> e = W_STRING_POOL_OVERFLOW_4GB \<and> 2 ^ 32 \<le> length (pool_layout (file_strings ts))"

lemma serialize_cases:
  assumes "serializable hash pf workers ts"
  shows "serialize hash pf workers (of_nat (length ts)) ts = Inr (document_file hash ts) \<or>
    (\<exists>e. serialize hash pf workers (of_nat (length ts)) ts = Inl (Fails e) \<and> serialize_error pf ts e)"
proof -
  let ?F = "{Fails e | e. serialize_error pf ts e}"
  have "allows pf (file_strings ts) ?F" by (auto simp: allows_def serialize_error_def)
  from serialize_outcome [OF assms this] show ?thesis
  proof (cases rule: fails_only_cases)
    case (Result x)
    then show ?thesis using serialize_spec [OF assms] by blast
  qed (auto simp: serialize_error_def)
qed

text \<open>
  After a file was returned the nodes hold where their strings are in its pool; whatever happened, nothing
  but cached offsets and the error has changed.
\<close>

lemma finalize_cases:
  assumes "builds w f 0" and "\<not> w_error_flag w" and "serializable hash pf (w_worker_count w) f"
  shows "\<exists>w'. recached w w' \<and>
    (writer_finalize_to_buffer hash pf w = Inr (Some (document_file hash f), w') \<and>
       (\<exists>f'. writer_forest w' = Some f' \<and> (\<forall>t \<in> set f'. ready hash (file_strings f) t)) \<or>
     (\<exists>e. writer_finalize_to_buffer hash pf w = Inr (None, w'\<lparr>w_last_error := e\<rparr>) \<and> serialize_error pf f e))"
proof -
  have wf: "wf_writer w" and f: "f = forest_of (w_nodes w) None" using assms(1) by (simp_all add: builds_def)
  have scope: "w_current_scope w = None" using assms(1) by (auto simp: builds_def last_of_def)
  have "w_root_count w = of_nat (length f)"
    using assms(1) forest_of_wf [of "w_nodes w" None] by (auto simp: builds_def wf_writer_def)
  then have same: "fst (writer_serialize_to_buffer hash pf w) = serialize hash pf (w_worker_count w) (of_nat (length f)) f"
    using serialize_writer(1) [OF wf] f by simp
  obtain r w' where run: "writer_serialize_to_buffer hash pf w = (r, w')" by fastforce
  have recached: "recached w w'" using serialize_recached [of w hash pf] by (simp add: run)
  from serialize_cases [OF assms(3)] show ?thesis
  proof (elim disjE exE conjE)
    assume written: "serialize hash pf (w_worker_count w) (of_nat (length f)) f = Inr (document_file hash f)"
    with same serialize_writer(2) [OF wf, of hash pf "document_file hash f"] obtain pool k ts1 pool1 k1 where
      coll: "pool_init pf 0 4096 = Inr (pool, k)"
        "collect_all hash pf k (pool\<lparr>sp_worker_count := w_worker_count w\<rparr>) f = Inr (ts1, pool1, k1)" "writer_forest w' = Some ts1"
      unfolding run f [symmetric] by auto
    have "pool_holds hash (pool\<lparr>sp_worker_count := w_worker_count w\<rparr>) []"
      using pool_init_spec [where hash = hash, OF coll(1)] by (simp add: pool_holds_def)
    from collect_all_spec [OF coll(2) this] have "\<forall>t \<in> set ts1. ready hash (file_strings f) t"
      using assms(3) prefix_remember_all by (simp add: serializable_def file_strings_late)
    then show ?thesis
      using recached coll(3) written same run by (intro exI [of _ w']) (simp add: writer_finalize_to_buffer_def assms(2) scope)
  next
    fix e assume "serialize hash pf (w_worker_count w) (of_nat (length f)) f = Inl (Fails e)" "serialize_error pf f e"
    then show ?thesis
      using recached same run
      by (intro exI [of _ w']) (auto simp: writer_finalize_to_buffer_def assms(2) scope serialize_error_def)
  qed
qed

section \<open>Going on after a finalisation\<close>

text \<open>Cached offsets make no difference to the abstract steps.\<close>

lemma bare_bare [simp]: "bare (bare t) = bare t"
  by (induction t) simp

lemma nodes_of_bare [simp]: "nodes_of (bare t) = nodes_of t"
  by (induction t) (simp add: comp_def cong: map_cong)

lemma keys_hashed_bare [simp]: "keys_hashed hash (bare t) = keys_hashed hash t"
proof (induction t)
  case (Tree p cs)
  have "key_hashed hash (bare_payload p) = key_hashed hash p"
    by (simp add: key_hashed_def bare_payload_cached)
  then show ?case using Tree by simp
qed

lemma open_at_bare [simp]: "open_at d (map bare f) = open_at d f"
proof (induction d arbitrary: f)
  case (Suc d)
  then show ?case by (cases "f = []") (simp_all add: last_map)
qed simp

lemma scope_kind_bare: "open_at d f \<Longrightarrow> scope_kind d (map bare f) = scope_kind d f"
  by (induction d f rule: scope_kind.induct) (auto simp: last_map)

lemma insert_at_bare: "open_at d f \<Longrightarrow> map bare (insert_at d f t) = insert_at d (map bare f) (bare t)"
  by (induction d f t rule: insert_at.induct) (auto simp: last_map map_butlast)

definition alike :: "tree list \<times> nat \<Rightarrow> tree list \<times> nat \<Rightarrow> bool" where
  "alike s s' \<longleftrightarrow> snd s' = snd s \<and> map bare (fst s') = map bare (fst s) \<and> open_at (snd s) (fst s)"

lemma alike_facts:
  assumes "alike (f, d) (f', d')"
  shows "d' = d" and "open_at d f" and "open_at d f'" and "scope_kind d f' = scope_kind d f"
    and "map bare (insert_at d f' t) = map bare (insert_at d f t)"
proof -
  have same: "d' = d" "map bare f' = map bare f" "open_at d f" using assms by (simp_all add: alike_def)
  then show "d' = d" "open_at d f" "open_at d f'" by (simp, simp, metis open_at_bare)
  then show "scope_kind d f' = scope_kind d f" "map bare (insert_at d f' t) = map bare (insert_at d f t)"
    by (metis same(2) scope_kind_bare, simp add: insert_at_bare same(2))
qed

lemma alike_step:
  assumes "alike s s'" and "build_step hash s c = Some s1"
  shows "\<exists>s1'. build_step hash s' c = Some s1' \<and> alike s1 s1'"
proof -
  obtain f d f' d' where s: "s = (f, d)" "s' = (f', d')" by (cases s, cases s')
  note facts = alike_facts [OF assms(1) [unfolded s]]
  show ?thesis
    using assms facts insert_at_open [OF facts(2)] insert_at_begin [OF facts(2)] open_at_pred [OF facts(2)]
    by (cases c) (auto simp: s alike_def split: if_splits)
qed

lemma alike_steps:
  "build_steps hash s cs = Some s1 \<Longrightarrow> alike s s' \<Longrightarrow> \<exists>s1'. build_steps hash s' cs = Some s1' \<and> alike s1 s1'"
proof (induction cs arbitrary: s s')
  case (Cons c cs)
  then obtain s0 where s0: "build_step hash s c = Some s0" "build_steps hash s0 cs = Some s1" by (auto split: option.splits)
  obtain s0' where s0': "build_step hash s' c = Some s0'" "alike s0 s0'" using alike_step [OF Cons.prems(2) s0(1)] by blast
  show ?case using Cons.IH [OF s0(2) s0'(2)] s0'(1) by simp
qed simp

lemma alike_built:
  assumes "built_by hash n s" and "alike s s'"
  shows "built_by hash n s'"
proof -
  have same: "map bare (fst s') = map bare (fst s)" using assms(2) by (simp add: alike_def)
  have "nodes_in (map bare f) = nodes_in f" for f by (simp add: nodes_in_def comp_def)
  then have "nodes_in (fst s') = nodes_in (fst s)" by (metis same)
  moreover have "(\<forall>t \<in> set f. keys_hashed hash t) \<longleftrightarrow> (\<forall>t \<in> set (map bare f). keys_hashed hash t)" for f by simp
  then have "(\<forall>t \<in> set (fst s'). keys_hashed hash t) \<longleftrightarrow> (\<forall>t \<in> set (fst s). keys_hashed hash t)" by (metis same)
  moreover have "open_at (snd s') (fst s')" using assms(2) alike_facts(3) by (cases s, cases s') (auto simp: alike_def)
  ultimately show ?thesis using assms(1) by (simp add: built_by_def)
qed

text \<open>What a finalisation of any outcome leaves: the forest, whatever its caches, and the open scopes.\<close>

lemma finalize_keeps:
  assumes "builds w f d" and "\<not> w_error_flag w" and "writer_finalize_to_buffer hash pf w = Inr (r, w')"
  shows "\<exists>f'. builds w' f' d \<and> map bare f' = map bare f \<and> \<not> w_error_flag w' \<and> w_worker_count w' = w_worker_count w"
proof -
  have last_error: "builds (u\<lparr>w_last_error := e\<rparr>) g d = builds u g d" for u e g by (simp add: builds_def wf_writer_def)
  show ?thesis
  proof (cases "w_current_scope w = None")
    case True
    obtain res v where run: "writer_serialize_to_buffer hash pf w = (res, v)" by fastforce
    have recached: "recached w v" using serialize_recached [of w hash pf] by (simp add: run)
    obtain f' where f': "builds v f' d" "map bare f' = map bare f" using recached_builds [OF recached assms(1)] by blast
    have "w' = v \<or> (\<exists>e. w' = v\<lparr>w_last_error := e\<rparr>)"
      using assms(2,3) True run by (auto simp: writer_finalize_to_buffer_def split: sum.splits fault.splits)
    then show ?thesis using f' assms(2) recached_fields [OF recached] by (auto simp: last_error)
  next
    case False
    then have "w' = w\<lparr>w_last_error := W_UNCLOSED_SCOPE\<rparr>" using assms(2,3) by (auto simp: writer_finalize_to_buffer_def)
    then show ?thesis using assms(1,2) by (auto simp: last_error)
  qed
qed

text \<open>Every value takes a byte or more, so a file under 4 GiB has fewer than \<open>2 ^ 32\<close> nodes.\<close>

fun childless_leaves :: "tree \<Rightarrow> bool" where
  "childless_leaves (Tree p cs) \<longleftrightarrow> (is_container_kind (pl_kind p) \<or> cs = []) \<and> (\<forall>t \<in> set cs. childless_leaves t)"

lemma nodes_fit_values:
  "childless_leaves t \<Longrightarrow> n + nodes_of t \<le> value_end n t"
  "\<forall>t \<in> set ts. childless_leaves t \<Longrightarrow> n + nodes_in ts \<le> values_end n ts"
proof (induction n t and n ts rule: value_end_values_end.induct)
  case (1 n p cs)
  have "n < body_position n (pl_kind p)" by (rule body_position_gt)
  then show ?case using 1 by (auto simp: nodes_of_Tree children_position_def simp del: nodes_of.simps)
qed simp_all

lemma doc_childless: "childless_leaves (doc_tree hash key v)"
  by (induction hash key v rule: doc_tree.induct) (auto simp: is_container_kind_def)

lemma doc_hashed: "doc_fits key v \<Longrightarrow> keys_hashed hash (doc_tree hash key v)"
proof (induction v arbitrary: key)
  case (Leaf l)
  then show ?case using key_hashed_plain key_hashed_keyed by (cases key) (auto simp: doc_payload_def good_key_def doc_arg_def)
next
  case (Block es)
  then have "key_hashed hash (doc_payload hash key K_BLOCK)"
    using key_hashed_plain key_hashed_keyed by (cases key) (auto simp: doc_payload_def good_key_def doc_arg_def)
  then show ?case using Block by fastforce
next
  case (Array vs)
  then have "key_hashed hash (doc_payload hash key K_ARRAY)"
    using key_hashed_plain key_hashed_keyed by (cases key) (auto simp: doc_payload_def good_key_def doc_arg_def)
  then show ?case using Array by auto
qed

lemma doc_roots_serializable:
  assumes "\<forall>(k, v) \<in> set es. doc_fits (Some k) v" and "values_end 0 (doc_roots hash es) < 2 ^ 32"
    and "\<forall>n \<le> nodes_in (doc_roots hash es). schedule_fair pf workers n"
  shows "serializable hash pf workers (doc_roots hash es)"
proof (rule serializable_hashed)
  show "\<forall>t \<in> set (doc_roots hash es). keys_hashed hash t" using assms(1) doc_hashed by (fastforce simp: doc_roots_def)
  have "\<forall>t \<in> set (doc_roots hash es). childless_leaves t" using doc_childless by (auto simp: doc_roots_def)
  from nodes_fit_values(2) [OF this, of 0] assms(2) show "nodes_in (doc_roots hash es) < 2 ^ 32" by simp
qed (rule assms(3))

section \<open>The worker count of a writer\<close>

named_theorems keeps_workers \<open>operations that keep the worker count\<close>

lemma fail_flag_workers [simp]: "w_worker_count (fail_flag w) = w_worker_count w"
  by (simp add: fail_flag_def)

lemma update_node_workers [simp]: "w_worker_count (update_node i g w) = w_worker_count w"
  by (simp add: update_node_def)

lemma arena_clone_workers [keeps_workers]: "writer_arena_clone pf w data = (c, w') \<Longrightarrow> w_worker_count w' = w_worker_count w"
  by (auto simp: writer_arena_clone_def arena_request_def split: if_splits)

lemma alloc_node_workers [keeps_workers]: "writer_alloc_node pf w = (c, w') \<Longrightarrow> w_worker_count w' = w_worker_count w"
  by (auto simp: writer_alloc_node_def arena_request_def split: if_splits)

lemma update_through_workers [keeps_workers]: "update_through i g w = Some w' \<Longrightarrow> w_worker_count w' = w_worker_count w"
  by (auto simp: update_through_def split: option.splits if_splits)

lemma append_to_scope_workers [keeps_workers]: "writer_append_to_scope w node = Some w' \<Longrightarrow> w_worker_count w' = w_worker_count w"
  by (auto simp: writer_append_to_scope_def Let_def split: option.splits if_splits dest!: keeps_workers)

lemma optional_key_workers [keeps_workers]: "writer_optional_key hash pf w node key wanted = (b, w') \<Longrightarrow> w_worker_count w' = w_worker_count w"
  by (auto simp: writer_optional_key_def writer_set_key_def split: if_splits prod.splits option.splits dest!: keeps_workers)

lemma add_leaf_workers [keeps_workers]: "writer_add_leaf hash pf w key k rk = Some (b, w') \<Longrightarrow> w_worker_count w' = w_worker_count w"
  by (auto simp: writer_add_leaf_def Let_def split: if_splits prod.splits option.splits dest!: keeps_workers)

lemma then_store_workers [keeps_workers]:
  "then_store r g = Some (b, w') \<Longrightarrow> \<exists>b w. r = Some (b, w) \<and> w_worker_count w' = w_worker_count w"
  by (auto simp: then_store_def split: if_splits option.splits dest!: keeps_workers)

lemma then_store_string_workers [keeps_workers]:
  "then_store_string pf r data = Some (b, w') \<Longrightarrow> \<exists>b w. r = Some (b, w) \<and> w_worker_count w' = w_worker_count w"
  by (auto simp: then_store_string_def split: if_splits option.splits prod.splits dest!: keeps_workers)

lemma begin_container_workers [keeps_workers]:
  "writer_begin_container hash pf w key k = Some (b, w') \<Longrightarrow> w_worker_count w' = w_worker_count w"
  by (auto simp: writer_begin_container_def Let_def split: if_splits prod.splits option.splits dest!: keeps_workers)

lemma end_container_workers [simp]: "w_worker_count (snd (writer_end_container w k)) = w_worker_count w"
  by (auto simp: writer_end_container_def split: option.splits)

lemma set_workers [keeps_workers]: "writer_set hash pf w key l = Some (b, w') \<Longrightarrow> w_worker_count w' = w_worker_count w"
  by (cases l) (auto simp: writer_set_null_def writer_set_bool_def writer_set_int64_def writer_set_uint64_def
      writer_set_float64_def writer_set_string_def split: if_splits dest!: keeps_workers)

lemma append_workers [keeps_workers]: "writer_append hash pf w l = Some (b, w') \<Longrightarrow> w_worker_count w' = w_worker_count w"
  by (cases l) (auto simp: writer_append_null_def writer_append_bool_def writer_append_int64_def writer_append_uint64_def
      writer_append_float64_def writer_append_string_def split: if_splits dest!: keeps_workers)

lemma call_workers [keeps_workers]:
  assumes "writer_call hash pf w c = Some (ok, w')"
  shows "w_worker_count w' = w_worker_count w"
proof (cases c)
  case End_block
  then show ?thesis using assms end_container_workers [of w K_BLOCK] by (simp add: writer_end_block_def)
next
  case End_array
  then show ?thesis using assms end_container_workers [of w K_ARRAY] by (simp add: writer_end_array_def)
qed (use assms in \<open>auto simp: writer_begin_block_def writer_begin_array_def dest!: keeps_workers\<close>)

lemma run_calls_workers: "run_calls hash pf w cs = Some (oks, w') \<Longrightarrow> w_worker_count w' = w_worker_count w"
proof (induction cs arbitrary: w oks)
  case (Cons c cs)
  then show ?case by (auto split: option.splits prod.splits dest!: keeps_workers)
qed simp

end
