(* ===== verification/Written_File.thy ===== *)
theory Written_File
  imports Finalize Verify
begin

text \<open>
  The reading half applied to what the writing half produces: the header and the regions of
  \<open>document_file\<close>, that the reader opens it, and when the verifier accepts it. To find its strings the
  file has to be under 4 GiB, the range of the 32-bit pool offsets; the writer does not check this, and
  a larger file opens all the same (the lemmas that start with \<open>large\<close>).
\<close>

section \<open>The regions of a file\<close>

definition file_length :: "tree list \<Rightarrow> nat" where
  "file_length ts = strings_start ts + length (pool_layout (file_strings ts)) + FOOTER_SIZE"

definition file_payload :: "(bytes \<Rightarrow> u64) \<Rightarrow> tree list \<Rightarrow> bytes" where
  "file_payload hash ts = entry_table (root_entries hash ts) @ node_bytes hash ts @ pool_layout (file_strings ts)"

definition document_header :: "(bytes \<Rightarrow> u64) \<Rightarrow> tree list \<Rightarrow> header" where
  "document_header hash ts = file_header (length ts) (values_end 0 ts) (length (pool_layout (file_strings ts)))
     (length (file_strings ts)) (hash (file_payload hash ts))"

definition document_reader :: "(bytes \<Rightarrow> u64) \<Rightarrow> tree list \<Rightarrow> reader" where
  "document_reader hash ts = opened (document_file hash ts)"

lemma length_file_payload: "128 + length (file_payload hash ts) + 32 = file_length ts"
  by (simp add: file_payload_def file_length_def strings_start_def nodes_start_def)

lemma document_file_parts:
  "document_file hash ts = store_header (document_header hash ts) @ file_payload hash ts @
     store_footer (file_footer (file_length ts) (hash (file_payload hash ts)))"
  unfolding document_file_def file_of_def Let_def file_payload_def [symmetric] length_file_payload
  by (simp add: document_header_def)

lemma length_document_header [simp]: "length (store_header (document_header hash ts)) = 128"
  by (simp add: document_header_def)

lemma length_document_file [simp]: "length (document_file hash ts) = file_length ts"
  using length_file_payload [of hash ts] by (simp add: document_file_parts)

lemma file_length_ge: "160 \<le> file_length ts"
  by (simp add: file_length_def strings_start_def nodes_start_def)

lemma load_document_header: "load_header (take 128 (document_file hash ts)) = document_header hash ts"
proof -
  have "valid_header (document_header hash ts)" by (simp add: valid_header_def document_header_def file_header_def)
  then show ?thesis by (simp add: document_file_parts header_codec.dec_enc)
qed

lemma document_reader_simps [simp]:
  "rd_base (document_reader hash ts) = document_file hash ts"
  "rd_size (document_reader hash ts) = of_nat (file_length ts)"
  "rd_header (document_reader hash ts) = document_header hash ts"
  by (simp_all add: document_reader_def load_document_header)

lemma document_header_simps [simp]:
  "hdr_root_count (document_header hash ts) = of_nat (length ts)"
  "hdr_root_index_offset (document_header hash ts) = 128"
  "hdr_nodes_offset (document_header hash ts) = of_nat (nodes_start ts)"
  "hdr_nodes_size (document_header hash ts) = of_nat (values_end 0 ts)"
  "hdr_strings_offset (document_header hash ts) = of_nat (strings_start ts)"
  "hdr_strings_size (document_header hash ts) = of_nat (length (pool_layout (file_strings ts)))"
  "hdr_strings_count (document_header hash ts) = of_nat (length (file_strings ts))"
  "hdr_footer_offset (document_header hash ts) = of_nat (strings_start ts + length (pool_layout (file_strings ts)))"
  "hdr_file_size (document_header hash ts) = of_nat (file_length ts)"
  "hdr_checksum (document_header hash ts) = hash (file_payload hash ts)"
  by (simp_all add: document_header_def file_header_def file_length_def strings_start_def nodes_start_def)

lemma file_bounds:
  assumes "file_length ts < 2 ^ 32"
  shows "nodes_start ts < 2 ^ 32" and "strings_start ts < 2 ^ 32" and "length (pool_layout (file_strings ts)) < 2 ^ 32"
    and "values_end 0 ts < 2 ^ 32" and "length ts < 2 ^ 32" and "length (file_strings ts) < 2 ^ 32"
  using assms length_pool_layout_ge [of "file_strings ts"]
  by (simp_all add: file_length_def strings_start_def nodes_start_def)

lemma large_layout_valid:
  assumes "file_length ts < 2 ^ 63" and "length ts < 2 ^ 32"
  shows "reader_header_layout_valid (document_header hash ts) (of_nat (file_length ts))"
proof -
  have "of_nat (length ts) \<le> BC_HRBL_ROOT_COUNT_MAX"
    using assms(2) by (simp add: word_le_nat_alt BC_HRBL_ROOT_COUNT_MAX_def)
  moreover have "hdr_root_index_size (document_header hash ts) = of_nat (length ts) * 24"
    "hdr_magic (document_header hash ts) = BC_HRBL_MAGIC" "hdr_version_major (document_header hash ts) = BC_HRBL_VERSION_MAJOR"
    "hdr_version_minor (document_header hash ts) = BC_HRBL_VERSION_MINOR" "hdr_flags (document_header hash ts) = BC_HRBL_FLAGS_V1_REQUIRED"
    "hdr_reserved (document_header hash ts) = zeros 24"
    by (simp_all add: document_header_def file_header_def)
  ultimately show ?thesis
    by (simp add: reader_header_layout_valid_def BC_HRBL_FLAGS_V1_RESERVED_MASK_def list_all_iff zeros_def
        file_length_def strings_start_def nodes_start_def)
qed

lemma large_no_wrap:
  assumes "file_length ts < 2 ^ 63" and "length ts < 2 ^ 32"
  shows "regions_do_not_wrap (document_header hash ts)"
  using assms
  by (simp add: regions_do_not_wrap_def file_length_def strings_start_def nodes_start_def)

lemma large_footer:
  assumes "file_length ts < 2 ^ 63"
  shows "reader_footer_matches (document_file hash ts) (document_header hash ts) = Inr True"
proof -
  let ?f = "file_footer (file_length ts) (hash (file_payload hash ts))"
  have "valid_footer ?f" by (simp add: valid_footer_def file_footer_def)
  then have f: "load_footer (store_footer ?f) = ?f" "length (store_footer ?f) = 32"
    by (rule footer_codec.dec_enc, rule footer_codec.length_enc)
  have start: "128 + length (file_payload hash ts) = strings_start ts + length (pool_layout (file_strings ts))"
    using length_file_payload [of hash ts] by (simp add: file_length_def)
  have "unat (hdr_footer_offset (document_header hash ts)) = 128 + length (file_payload hash ts)"
    using unat_of_nat_u64 [of "strings_start ts + length (pool_layout (file_strings ts))"] assms
    unfolding start by (simp add: file_length_def del: of_nat_add)
  then have "fetch (document_file hash ts) (hdr_footer_offset (document_header hash ts)) 32 = Inr (store_footer ?f)"
    using f(2) by (simp add: fetch_def read_at_def document_file_parts)
  then show ?thesis by (simp add: reader_footer_matches_def f) (simp add: file_footer_def)
qed

lemma large_opens:
  assumes "file_length ts < 2 ^ 63" and "length ts < 2 ^ 32"
  shows "reader_open_buffer pf (document_file hash ts) = (if pf_grants pf 0 40 then Inr (document_reader hash ts) else Inl Rejected)"
proof -
  have "\<not> (of_nat (length (document_file hash ts)) :: u64) < of_nat (HEADER_SIZE + FOOTER_SIZE)"
    using file_length_ge [of ts] assms(1) by (simp add: word_less_nat_alt)
  moreover have "fetch (document_file hash ts) 0 HEADER_SIZE = Inr (take 128 (document_file hash ts))"
    using file_length_ge [of ts] by (intro fetch_header) simp
  ultimately show ?thesis
    using large_layout_valid [OF assms] large_footer [OF assms(1)]
    by (simp add: reader_open_buffer_def reader_attach_buffer_def Let_def load_document_header document_reader_def opened_def)
qed

lemma large_wf:
  assumes "file_length ts < 2 ^ 63" and "length ts < 2 ^ 32"
  shows "wf_reader (document_reader hash ts)"
proof -
  have "nodes_start ts < 2 ^ 64" "values_end 0 ts < 2 ^ 64" "nodes_start ts + values_end 0 ts \<le> file_length ts"
    using assms(1) by (simp_all add: file_length_def strings_start_def)
  then show ?thesis using assms by (simp add: wf_reader_def unat_of_nat_u64) (simp add: file_length_def strings_start_def nodes_start_def)
qed

lemma document_regions:
  assumes "file_length ts < 2 ^ 32"
  shows document_layout_valid: "reader_header_layout_valid (document_header hash ts) (of_nat (file_length ts))"
    and document_no_wrap: "regions_do_not_wrap (document_header hash ts)"
    and document_footer: "reader_footer_matches (document_file hash ts) (document_header hash ts) = Inr True"
    and document_opens: "reader_open_buffer pf (document_file hash ts) = (if pf_grants pf 0 40 then Inr (document_reader hash ts) else Inl Rejected)"
    and document_wf: "wf_reader (document_reader hash ts)"
  using assms file_bounds(5) [OF assms]
  by (simp_all add: large_layout_valid large_no_wrap large_footer large_opens large_wf)

section \<open>Bytes at a place of a file\<close>

definition holds_at :: "reader \<Rightarrow> nat \<Rightarrow> bytes \<Rightarrow> bool" where
  "holds_at r p bs \<longleftrightarrow> read_at (rd_base r) p (length bs) = Some bs"

lemma holds_at_append: "holds_at r p (xs @ ys) \<longleftrightarrow> holds_at r p xs \<and> holds_at r (p + length xs) ys"
  by (auto simp: holds_at_def read_at_def take_add append_eq_append_conv add.assoc ac_simps split: if_splits)

lemma holds_at_within: "holds_at r p bs \<Longrightarrow> p + length bs \<le> length (rd_base r)"
  by (simp add: holds_at_def bytes_simps)

lemma holds_at_take: "holds_at r p bs \<Longrightarrow> take (length bs) (drop p (rd_base r)) = bs"
  by (simp add: holds_at_def bytes_simps)

lemma holds_at_fetch:
  assumes "wf_reader r" and "holds_at r p bs" and "n = length bs"
  shows "fetch (rd_base r) (of_nat p) n = Inr bs"
proof -
  have "p < 2 ^ 64" using holds_at_within [OF assms(2)] wf_reader_size(2) [OF assms(1)] by simp
  then show ?thesis using assms(2,3) by (simp add: fetch_def holds_at_def)
qed

lemma holds_at_region: "rd_base r = A @ bs @ B \<Longrightarrow> p = length A \<Longrightarrow> holds_at r p bs"
  by (simp add: holds_at_def read_at_middle)

lemma document_holds:
  "holds_at (document_reader hash ts) 128 (entry_table (root_entries hash ts))"
  "holds_at (document_reader hash ts) (nodes_start ts) (node_bytes hash ts)"
  "holds_at (document_reader hash ts) (strings_start ts) (pool_layout (file_strings ts))"
proof -
  let ?r = "document_reader hash ts"
  have "holds_at ?r 128 (file_payload hash ts)"
    by (rule holds_at_region [of _ "store_header (document_header hash ts)"]) (simp_all add: document_file_parts)
  then show "holds_at ?r 128 (entry_table (root_entries hash ts))" "holds_at ?r (nodes_start ts) (node_bytes hash ts)"
    "holds_at ?r (strings_start ts) (pool_layout (file_strings ts))"
    by (simp_all add: file_payload_def holds_at_append nodes_start_def strings_start_def)
qed

text \<open>A string is where the entry tables and the string values of the file say.\<close>

definition stored_at :: "reader \<Rightarrow> (bytes \<Rightarrow> u32) \<Rightarrow> bytes \<Rightarrow> bool" where
  "stored_at r po s \<longleftrightarrow> length s < 2 ^ 32 \<and> holds_at r (unat (po s) + 4) s"

lemma document_stored:
  assumes small: "file_length ts < 2 ^ 32" and s: "s \<in> set (file_strings ts)" "length s < 2 ^ 32"
  shows "unat (file_offset ts s) = strings_start ts + string_offset (file_strings ts) s"
    and "stored_at (document_reader hash ts) (file_offset ts) s"
proof -
  have less: "string_offset (file_strings ts) s + 4 + length s \<le> length (pool_layout (file_strings ts))"
    by (rule string_offset_less [OF s(1)])
  have "file_offset ts s = of_nat (strings_start ts + string_offset (file_strings ts) s)"
    by (simp add: file_offset_def moved_offset_def intra_def add.commute)
  moreover have "strings_start ts + string_offset (file_strings ts) s < 2 ^ 32"
    using small less by (simp add: file_length_def)
  ultimately show off: "unat (file_offset ts s) = strings_start ts + string_offset (file_strings ts) s"
    using unat_of_nat_u32 [of "strings_start ts + string_offset (file_strings ts) s"] by simp
  have "take (length s) (drop (string_offset (file_strings ts) s + 4) (pool_layout (file_strings ts))) = s"
    using read_at_pool_layout [OF s(1)] by (simp add: bytes_simps)
  then have "pool_layout (file_strings ts) = take (string_offset (file_strings ts) s + 4) (pool_layout (file_strings ts)) @ s @
      drop (length s) (drop (string_offset (file_strings ts) s + 4) (pool_layout (file_strings ts)))"
    by (metis append_take_drop_id)
  then have "holds_at (document_reader hash ts) (strings_start ts)
     (take (string_offset (file_strings ts) s + 4) (pool_layout (file_strings ts)) @ s @
      drop (length s) (drop (string_offset (file_strings ts) s + 4) (pool_layout (file_strings ts))))"
    using document_holds(3) by metis
  then show "stored_at (document_reader hash ts) (file_offset ts) s"
    using less s(2) by (simp add: holds_at_append stored_at_def off add.assoc)
qed

section \<open>Tables and values of a file\<close>

lemma holds_at_split:
  assumes "holds_at r p bs"
  obtains A B where "rd_base r = A @ bs @ B" and "length A = p"
proof
  show "rd_base r = take p (rd_base r) @ bs @ drop (length bs) (drop p (rd_base r))"
    using holds_at_take [OF assms] by (metis append_take_drop_id)
  show "length (take p (rd_base r)) = p" using holds_at_within [OF assms] by simp
qed

lemma table_entries_at:
  assumes "wf_reader r" and "holds_at r p (entry_table es)"
  shows "table_entries r (of_nat p) (of_nat (length es)) = map stored_entry es"
proof -
  have "p + length es * 24 < 2 ^ 63" using holds_at_within [OF assms(2)] wf_reader_size(2) [OF assms(1)] by simp
  then have p: "unat (of_nat p :: u64) = p" "unat (of_nat (length es) :: u64) = length es" by simp_all
  obtain A B where base: "rd_base r = A @ entry_table es @ B" "length A = p" using assms(2) by (rule holds_at_split)
  have enc: "entry_table es = concat (map store_entry (map stored_entry es))" by (simp add: entry_table_def comp_def)
  show ?thesis
  proof (rule nth_equalityI)
    fix i assume "i < length (table_entries r (of_nat p) (of_nat (length es)))"
    then have i: "i < length (map stored_entry es)" using p by simp
    have "map_option load_entry (read_at (rd_base r) (p + i * 24) 24) = Some (map stored_entry es ! i)"
      using entry_codec.dec_nth [of "map stored_entry es" i A B] i unfolding base enc by simp
    then have "load_entry (take 24 (drop (p + i * 24) (rd_base r))) = map stored_entry es ! i"
      by (auto simp: bytes_simps)
    then show "table_entries r (of_nat p) (of_nat (length es)) ! i = map stored_entry es ! i"
      using i p by (simp add: table_entries_def)
  qed (simp add: p)
qed

lemma value_position_less: "value_position n t < value_end n t"
proof (cases t)
  case (Tree p cs)
  then show ?thesis
    using values_end_ge [of "children_position n (pl_kind p) (length cs)" cs]
    by (auto simp: value_position_def children_position_def body_position_def)
qed

text \<open>The values of a list and where they start.\<close>

lemma placed_values:
  "(t, v) \<in> set (zip ts (offsets base n ts)) \<Longrightarrow>
     \<exists>m. n \<le> m \<and> v = base + of_nat (value_position m t) \<and> value_end m t \<le> values_end n ts \<and>
       (holds_at r (b + n) (layout_all hash po base n ts) \<longrightarrow> holds_at r (b + m) (layout hash po base m t))"
proof (induction ts arbitrary: n)
  case (Cons u ts)
  have after: "b + n + length (layout hash po base n u) = b + value_end n u"
    using length_layout(1) [of n hash po base u] by simp
  show ?case
  proof (cases "(t, v) = (u, base + of_nat (value_position n u))")
    case True
    then show ?thesis using values_end_ge [of "value_end n u" ts] by (intro exI [of _ n]) (auto simp: holds_at_append)
  next
    case False
    then have "(t, v) \<in> set (zip ts (offsets base (value_end n u) ts))" using Cons.prems by auto
    then obtain m where "value_end n u \<le> m" "v = base + of_nat (value_position m t)" "value_end m t \<le> values_end (value_end n u) ts"
      "holds_at r (b + value_end n u) (layout_all hash po base (value_end n u) ts) \<longrightarrow> holds_at r (b + m) (layout hash po base m t)"
      using Cons.IH by blast
    then show ?thesis using value_end_gt [of n u] by (intro exI [of _ m]) (auto simp: holds_at_append after)
  qed
qed simp

lemma in_pendings: "e \<in> set (pendings hash po base n ts) \<longleftrightarrow>
   (\<exists>(t, v) \<in> set (zip ts (offsets base n ts)). e = pending_for hash (tr_payload t) (po (node_key (tr_payload t))) v)"
  by (auto simp: pendings_def)

lemma hashes_pendings: "map pe_key_hash64 (pendings hash po base n ts) = map (\<lambda>t. node_key_hash hash (tr_payload t)) ts"
proof -
  have "map (\<lambda>t. node_key_hash hash (tr_payload t)) (map fst (zip ts (offsets base n ts))) = map (\<lambda>t. node_key_hash hash (tr_payload t)) ts"
    by simp
  then show ?thesis by (simp add: pendings_def pending_for_def case_prod_beta comp_def del: map_fst_zip)
qed

lemma strict_sort_key: "sorted_wrt (<) (map f (sort_key f xs)) \<longleftrightarrow> distinct (map f xs)"
proof -
  have "mset (map f (sort_key f xs)) = mset (map f xs)" by simp
  then have "distinct (map f (sort_key f xs)) \<longleftrightarrow> distinct (map f xs)" by (rule mset_eq_imp_distinct_iff)
  then show ?thesis by (simp add: strict_sorted_iff)
qed

section \<open>The strings of a file\<close>

lemma set_file_strings: "set (file_strings ts) = set (concat (map collected ts)) \<union> set (late_children ts)"
  by (simp add: file_strings_def pool.set_remember_all)

lemma collected_short: "s \<in> set (collected t) \<Longrightarrow> length s < 2 ^ 32"
proof (induction t)
  case (Tree p cs)
  then show ?case using length_node_view
    by (auto simp: collected_payload_def node_key_def node_string_def split: if_splits)
qed

lemma late_empty: "s \<in> set (late t) \<Longrightarrow> s = []"
proof (induction t)
  case (Tree p cs)
  then show ?case by (auto simp: late.simps late_key_def split: if_splits)
qed

lemma file_strings_short: "s \<in> set (file_strings ts) \<Longrightarrow> length s < 2 ^ 32"
  using collected_short late_empty
  by (fastforce simp: set_file_strings late_children_def late_key_def split: if_splits)

lemma key_collected: "node_key (tr_payload t) \<in> set (collected t) \<union> set (late_key (tr_payload t))"
  by (cases t) (auto simp: collected_payload_def late_key_def node_key_def)

lemma root_key_stored: "t \<in> set ts \<Longrightarrow> node_key (tr_payload t) \<in> set (file_strings ts)"
  using key_collected [of t] by (auto simp: set_file_strings late_children_def)

section \<open>When the verifier accepts the file\<close>

lemma large_root_table:
  assumes "file_length ts < 2 ^ 63" and "length ts < 2 ^ 32"
  shows "root_table (document_reader hash ts) = map stored_entry (root_entries hash ts)"
  using table_entries_at [OF large_wf [OF assms] document_holds(1)] by (simp add: root_table_def)

lemma root_table_document:
  "file_length ts < 2 ^ 32 \<Longrightarrow> root_table (document_reader hash ts) = map stored_entry (root_entries hash ts)"
  using large_root_table [of ts] file_bounds(5) [of ts] by simp

lemma root_entry_ok:
  assumes small: "file_length ts < 2 ^ 32" and e: "e \<in> set (root_entries hash ts)"
  shows "entry_ok (document_header hash ts) (stored_entry e)"
proof -
  note bounds = file_bounds [OF small]
  obtain t v where t: "(t, v) \<in> set (zip ts (offsets (of_nat (nodes_start ts)) 0 ts))"
    "e = pending_for hash (tr_payload t) (file_offset ts (node_key (tr_payload t))) v"
    using e by (auto simp: root_entries_def in_pendings)
  then have mem: "t \<in> set ts" by (auto dest: set_zip_leftD)
  obtain m where m: "v = of_nat (nodes_start ts) + of_nat (value_position m t)" "value_end m t \<le> values_end 0 ts"
    using placed_values [OF t(1)] by blast
  then have pos: "value_position m t < values_end 0 ts" using value_position_less [of m t] by simp
  have v: "unat v = nodes_start ts + value_position m t"
    using unat_of_nat_u64 [of "nodes_start ts + value_position m t"] pos bounds by (simp add: m(1) strings_start_def)
  let ?k = "node_key (tr_payload t)"
  have key: "?k \<in> set (file_strings ts)" using root_key_stored [OF mem] .
  note short = file_strings_short [OF key]
  note off = document_stored(1) [OF small key short] and less = string_offset_less [OF key]
  have fin: "unat (of_nat (strings_start ts) + of_nat (length (pool_layout (file_strings ts))) :: u64)
      = strings_start ts + length (pool_layout (file_strings ts))"
    using unat_of_nat_u64 [of "strings_start ts + length (pool_layout (file_strings ts))"] bounds by simp
  have last: "unat (ucast (file_offset ts ?k) + 4 + of_nat (length ?k) :: u64)
      = strings_start ts + string_offset (file_strings ts) ?k + 4 + length ?k"
    using unat_add_nat [of "ucast (file_offset ts ?k) + 4" "length ?k"] unat_key_position [of "file_offset ts ?k"] off less bounds by simp
  have len: "unat (of_nat (length ?k) :: u32) = length ?k" using short by simp
  then have "ucast (of_nat (length ?k) :: u32) = (of_nat (length ?k) :: u64)" using short by (simp add: word_unat_eq_iff)
  moreover have "unat v < strings_start ts" "nodes_start ts \<le> unat v" using v pos by (simp_all add: strings_start_def)
  ultimately show ?thesis
    using off less fin last bounds
    by (simp add: entry_ok_def t(2) stored_entry_def pending_for_def word_le_nat_alt word_less_nat_alt)
qed

lemma roots_ok_document:
  assumes "file_length ts < 2 ^ 32"
  shows "roots_ok (document_header hash ts) None (root_table (document_reader hash ts)) \<longleftrightarrow>
    distinct (map (\<lambda>t. node_key_hash hash (tr_payload t)) ts)"
proof -
  have "ent_key_hash64 \<circ> stored_entry = pe_key_hash64" by (auto simp: stored_entry_def)
  then show ?thesis
    using root_entry_ok [OF assms] strict_sort_key [of pe_key_hash64 "pendings hash (file_offset ts) (of_nat (nodes_start ts)) 0 ts"]
    unfolding roots_ok_def root_table_document [OF assms] root_entries_def hashes_pendings by auto
qed

lemma pool_layout_inj:
  "pool_layout xs = pool_layout ys \<Longrightarrow> \<forall>s \<in> set xs \<union> set ys. length s < 2 ^ 32 \<Longrightarrow> xs = ys"
proof (induction xs arbitrary: ys)
  case Nil
  then show ?case using pool_record_not_Nil by (cases ys) auto
next
  case (Cons x xs)
  then obtain y ys' where ys: "ys = y # ys'" using pool_record_not_Nil by (cases ys) auto
  let ?R = "pool_layout (x # xs)"
  have x: "?R = pool_record x @ pool_layout xs" and y: "?R = pool_record y @ pool_layout ys'"
    using Cons.prems(1) ys by simp_all
  note px = pool_record_parts [OF x] and py = pool_record_parts [OF y]
  have "store_u32 (of_nat (length x)) = store_u32 (of_nat (length y))" using px(1) py(1) by simp
  then have "(of_nat (length x) :: u32) = of_nat (length y)" by (metis load_store_u32)
  then have len: "length x = length y" using Cons.prems(2) ys by (simp add: of_nat_u32_eq)
  then have "x = y" using px(2) py(2) by simp
  moreover have "pool_layout xs = pool_layout ys'" using px(4) py(4) len by simp
  ultimately show ?case using Cons.IH [of ys'] Cons.prems(2) ys by simp
qed

lemma pool_accepts_document:
  assumes "file_length ts < 2 ^ 32"
  shows "pool_accepts (of_nat (length (file_strings ts))) (pool_layout (file_strings ts)) 0 \<longleftrightarrow>
    (\<forall>s \<in> set (file_strings ts). well_formed_utf8 s)"
proof
  assume "pool_accepts (of_nat (length (file_strings ts))) (pool_layout (file_strings ts)) 0"
  then obtain strs where strs: "\<forall>s \<in> set strs. length s < 2 ^ 32 \<and> well_formed_utf8 s" "pool_layout (file_strings ts) = pool_layout strs"
    by (auto simp: pool_accepts_def)
  then have "file_strings ts = strs" using file_strings_short by (intro pool_layout_inj) auto
  then show "\<forall>s \<in> set (file_strings ts). well_formed_utf8 s" using strs(1) by simp
qed (use file_strings_short in \<open>auto simp: pool_accepts_def\<close>)

lemma verify_document:
  assumes small: "file_length ts < 2 ^ 32"
  shows "in_bounds (verify_buffer hash (document_file hash ts)) \<and>
    (verify_buffer hash (document_file hash ts) = Inr V_OK \<longleftrightarrow>
       (\<forall>s \<in> set (file_strings ts). well_formed_utf8 s) \<and> distinct (map (\<lambda>t. node_key_hash hash (tr_payload t)) ts))"
proof -
  note bounds = file_bounds [OF small]
  let ?h = "document_header hash ts" and ?d = "document_file hash ts"
  have wrap: "regions_do_not_wrap (load_header (take 128 ?d))"
    unfolding load_document_header by (rule document_no_wrap [OF small])
  have len: "length ?d < 2 ^ 63" using small by simp
  have "strings_start ts + length (pool_layout (file_strings ts)) = 128 + length (file_payload hash ts)"
    using length_file_payload [of hash ts] by (simp add: file_length_def)
  then have "unat (hdr_footer_offset ?h) = 128 + length (file_payload hash ts)"
    using unat_of_nat_u64 [of "strings_start ts + length (pool_layout (file_strings ts))"] small
    by (simp add: file_length_def del: of_nat_add)
  then have payload: "drop 128 (take (unat (hdr_footer_offset ?h)) ?d) = file_payload hash ts"
    by (simp add: document_file_parts)
  have "take (length (pool_layout (file_strings ts))) (drop (strings_start ts) ?d) = pool_layout (file_strings ts)"
    using holds_at_take [OF document_holds(3) [of hash ts]] by simp
  then have pool: "region ?d (hdr_strings_offset ?h) (hdr_strings_size ?h) = pool_layout (file_strings ts)"
    using bounds by (simp add: region_def)
  have "good_file hash ?d \<longleftrightarrow> (\<forall>s \<in> set (file_strings ts). well_formed_utf8 s) \<and>
      distinct (map (\<lambda>t. node_key_hash hash (tr_payload t)) ts)"
    using document_layout_valid [OF small, of hash] document_footer [OF small, of hash] file_length_ge [of ts]
      pool_accepts_document [OF small] roots_ok_document [OF small, of hash]
    unfolding good_file_def Let_def load_document_header payload pool by (simp add: document_reader_def)
  then show ?thesis using verify_buffer_iff [OF len wrap, of hash] by simp
qed

end
