(* ===== verification/Roundtrip.thy ===== *)
theory Roundtrip
  imports Written_File
begin

text \<open>
  The reader finds in a written file every value of the document: \<open>reads\<close> says what the accessors
  of the reader give at an offset, and \<open>reads_doc\<close> that they give the document whose layout is there.
\<close>

section \<open>Reading a value back\<close>

text \<open>\<open>reads\<close>: at an offset the accessors of the reader give the values of a document.\<close>

fun reads_leaf :: "reader \<Rightarrow> u64 \<Rightarrow> leaf \<Rightarrow> bool" where
  "reads_leaf r off L_null \<longleftrightarrow> reader_kind_at r off = Inr K_NULL"
| "reads_leaf r off (L_bool b) \<longleftrightarrow> reader_scalar_bool_at r off = Inr b"
| "reads_leaf r off (L_int64 v) \<longleftrightarrow> reader_scalar_int64_at r off = Inr (sint v)"
| "reads_leaf r off (L_uint64 v) \<longleftrightarrow> reader_scalar_uint64_at r off = Inr v"
| "reads_leaf r off (L_float64 v) \<longleftrightarrow> reader_scalar_float64_at r off = Inr v"
| "reads_leaf r off (L_string s) \<longleftrightarrow>
     (case reader_scalar_string_at r off of
        Inl _ \<Rightarrow> False
      | Inr (position, n) \<Rightarrow> read_at (rd_base r) (unat position) (unat n) = Some s)"

fun reads :: "(bytes \<Rightarrow> u64) \<Rightarrow> reader \<Rightarrow> u64 \<Rightarrow> doc \<Rightarrow> bool"
  and reads_entries :: "(bytes \<Rightarrow> u64) \<Rightarrow> reader \<Rightarrow> u64 \<Rightarrow> (bytes \<times> doc) list \<Rightarrow> bool"
  and reads_elements :: "(bytes \<Rightarrow> u64) \<Rightarrow> reader \<Rightarrow> u64 \<Rightarrow> u32 \<Rightarrow> doc list \<Rightarrow> bool" where
  "reads hash r off (Leaf l) \<longleftrightarrow> reads_leaf r off l"
| "reads hash r off (Block es) \<longleftrightarrow> reader_kind_at r off = Inr K_BLOCK \<and>
     reader_block_child_count_at r off = Inr (of_nat (length es)) \<and> reads_entries hash r off es"
| "reads hash r off (Array vs) \<longleftrightarrow> reader_kind_at r off = Inr K_ARRAY \<and>
     reader_array_length_at r off = Inr (of_nat (length vs)) \<and> reads_elements hash r off 0 vs"
| "reads_entries hash r off [] \<longleftrightarrow> True"
| "reads_entries hash r off ((k, v) # es) \<longleftrightarrow>
     (case reader_block_find_offset hash r off k of Inl _ \<Rightarrow> False | Inr p \<Rightarrow> reads hash r p v) \<and> reads_entries hash r off es"
| "reads_elements hash r off i [] \<longleftrightarrow> True"
| "reads_elements hash r off i (v # vs) \<longleftrightarrow>
     (case reader_array_at_offset r off i of Inl _ \<Rightarrow> False | Inr p \<Rightarrow> reads hash r p v) \<and> reads_elements hash r off (i + 1) vs"

lemma reads_entries_all:
  "(\<And>k v. (k, v) \<in> set es \<Longrightarrow> \<exists>p. reader_block_find_offset hash r off k = Inr p \<and> reads hash r p v) \<Longrightarrow> reads_entries hash r off es"
proof (induction es)
  case (Cons e es)
  obtain k v where e: "e = (k, v)" by (cases e)
  obtain p where "reader_block_find_offset hash r off k = Inr p" "reads hash r p v" using Cons.prems [of k v] e by auto
  then show ?case using Cons.IH Cons.prems by (simp add: e)
qed simp

lemma reads_elements_all:
  "(\<And>j. j < length vs \<Longrightarrow> \<exists>p. reader_array_at_offset r off (of_nat (i + j)) = Inr p \<and> reads hash r p (vs ! j)) \<Longrightarrow>
     reads_elements hash r off (of_nat i) vs"
proof (induction vs arbitrary: i)
  case (Cons v vs)
  obtain p where "reader_array_at_offset r off (of_nat i) = Inr p" "reads hash r p v" using Cons.prems [of 0] by auto
  moreover have "reads_elements hash r off (of_nat (Suc i)) vs"
    by (rule Cons.IH) (use Cons.prems [of "Suc j" for j] in simp)
  ultimately show ?case by (simp add: add.commute)
qed simp

lemma reads_entries_member: "reads_entries hash r off es \<Longrightarrow> (k, v) \<in> set es \<Longrightarrow>
   \<exists>p. reader_block_find_offset hash r off k = Inr p \<and> reads hash r p v"
  by (induction es) (auto split: sum.splits)

lemma reads_elements_nth: "reads_elements hash r off (of_nat i) vs \<Longrightarrow> j < length vs \<Longrightarrow>
   \<exists>p. reader_array_at_offset r off (of_nat (i + j)) = Inr p \<and> reads hash r p (vs ! j)"
proof (induction vs arbitrary: i j)
  case (Cons v vs)
  show ?case
  proof (cases j)
    case 0
    then show ?thesis using Cons.prems(1) by (auto split: sum.splits)
  next
    case (Suc j')
    have "reads_elements hash r off (of_nat (Suc i)) vs" using Cons.prems(1) by (simp add: add.commute)
    from Cons.IH [OF this, of j'] show ?thesis using Cons.prems(2) by (simp add: Suc)
  qed
qed simp

text \<open>A reader with the node region from \<open>b\<close> to \<open>e\<close>, of a file under 4 GiB.\<close>

definition hosts :: "reader \<Rightarrow> nat \<Rightarrow> nat \<Rightarrow> bool" where
  "hosts r b e \<longleftrightarrow> wf_reader r \<and> length (rd_base r) < 2 ^ 32 \<and> 8 dvd b \<and> hdr_nodes_offset (rd_header r) = of_nat b \<and>
     hdr_nodes_offset (rd_header r) + hdr_nodes_size (rd_header r) = of_nat e \<and> e \<le> length (rd_base r)"

lemma document_hosts:
  assumes "file_length ts < 2 ^ 32"
  shows "hosts (document_reader hash ts) (nodes_start ts) (strings_start ts)"
  using document_wf [OF assms] assms by (simp add: hosts_def) (simp add: nodes_start_def strings_start_def file_length_def)

lemma body_position_dvd: "kind_body_align kd dvd body_position n kd"
proof -
  have "body_position n kd = align_up_nat (n + 1) (kind_body_align kd)"
    using align_up_nat_ge [of "kind_body_align kd" "n + 1"] by (cases kd) (simp_all add: body_position_def kind_position_def)
  then show ?thesis using dvd_align_up_nat by metis
qed

lemma body_address:
  assumes h: "hosts r b e" and fits: "b + body_position n kd \<le> e"
  shows "align_up (of_nat (b + kind_position n kd) + 1) (of_nat (kind_body_align kd)) = of_nat (b + body_position n kd)"
proof -
  let ?a = "kind_body_align kd"
  have a: "?a dvd 8" "0 < ?a" by (cases kd; simp)+
  have small: "b + body_position n kd + 8 \<le> 2 ^ 64" using h fits by (simp add: hosts_def)
  have "?a dvd b + body_position n kd"
    using body_position_dvd [of kd n] dvd_trans [OF a(1)] h by (intro dvd_add) (simp_all add: hosts_def)
  then have id: "align_up_nat (b + body_position n kd) ?a = b + body_position n kd" by (rule align_up_nat_id [OF a(2)])
  have next_byte: "of_nat (b + kind_position n kd) + 1 = (of_nat (b + body_position n kd) :: u64)" by (simp add: body_position_def)
  have "unat (align_up (of_nat (b + body_position n kd)) (of_nat ?a)) = b + body_position n kd"
    using unat_align_up [OF kind_body_align_format small] id by simp
  then show ?thesis unfolding next_byte using small by (simp add: word_unat_eq_iff del: of_nat_add)
qed

lemma kind_at_lead:
  assumes h: "hosts r b e" and lead: "holds_at r (b + n) (lead n kd)" and fits: "b + body_position n kd \<le> e"
  shows "reader_kind_at r (of_nat (b + kind_position n kd)) = Inr kd"
    and "has_kind_byte r (of_nat (b + kind_position n kd)) kd = Inr ()"
proof -
  have pos: "b + kind_position n kd < e" using fits by (simp add: body_position_def)
  have e: "e \<le> length (rd_base r)" "length (rd_base r) < 2 ^ 32" "wf_reader r" using h by (simp_all add: hosts_def)
  have "holds_at r (b + n + (kind_position n kd - n)) [kind_code kd]" using lead by (simp add: lead_def holds_at_append)
  then have "holds_at r (b + kind_position n kd) [kind_code kd]" by simp
  then have byte: "fetch (rd_base r) (of_nat (b + kind_position n kd)) 1 = Inr [kind_code kd]"
    by (intro holds_at_fetch [OF e(3)]) simp_all
  have p: "unat (of_nat (b + kind_position n kd) :: u64) = b + kind_position n kd"
    using pos e by (intro unat_of_nat_u64) simp
  have be: "unat (of_nat b :: u64) = b" "unat (of_nat e :: u64) = e" using pos e by simp_all
  have "hdr_nodes_offset (rd_header r) = of_nat b" "hdr_nodes_offset (rd_header r) + hdr_nodes_size (rd_header r) = of_nat e"
    using h unfolding hosts_def by blast+
  then show "reader_kind_at r (of_nat (b + kind_position n kd)) = Inr kd"
    using byte p be pos by (simp add: reader_kind_at_def Let_def word_less_nat_alt word_le_nat_alt del: of_nat_add)
  have "unat (rd_size r) = length (rd_base r)" by (rule wf_reader_size [OF e(3)])
  then show "has_kind_byte r (of_nat (b + kind_position n kd)) kd = Inr ()"
    using byte p pos e by (simp add: has_kind_byte_def word_le_nat_alt del: of_nat_add)
qed

lemma size_check:
  assumes "wf_reader r" and "a + n \<le> length (rd_base r)"
  shows "\<not> of_nat a + of_nat n > rd_size r"
proof -
  have "unat (of_nat (a + n) :: u64) = a + n" using assms wf_reader_size(2) [OF assms(1)] by (intro unat_of_nat_u64) simp
  then show ?thesis using assms wf_reader_size(1) [OF assms(1)] by (simp add: word_less_nat_alt)
qed

lemma scalar_body_at:
  assumes h: "hosts r b e" and lead: "holds_at r (b + n) (lead n kd)" and fits: "b + body_position n kd + kind_body_size kd \<le> e"
  shows "reader_scalar_body r (of_nat (b + kind_position n kd)) kd = Inr (of_nat (b + body_position n kd))"
proof -
  have fits': "b + body_position n kd \<le> e" using fits by simp
  have wf: "wf_reader r" and e: "e \<le> length (rd_base r)" using h by (simp_all add: hosts_def)
  have "\<not> of_nat (b + body_position n kd) + of_nat (kind_body_size kd) > rd_size r"
    using fits e by (intro size_check [OF wf]) simp
  then show ?thesis
    using kind_at_lead(1) [OF h lead fits'] body_address [OF h fits']
    by (simp add: reader_scalar_body_def body_offset_from_kind_def Let_def del: of_nat_add)
qed

lemma scalar_word_at:
  assumes "hosts r b e" and "holds_at r (b + n) (lead n kd @ store_u64 w)" and "b + body_position n kd + 8 \<le> e"
    and "kind_body_size kd = 8"
  shows "reader_scalar_word_at kd r (of_nat (b + kind_position n kd)) = Inr w"
proof -
  have lead: "holds_at r (b + n) (lead n kd)" and word: "holds_at r (b + body_position n kd) (store_u64 w)"
    using assms(2) body_position_gt [of n kd] by (simp_all add: holds_at_append)
  have "wf_reader r" using assms(1) by (simp add: hosts_def)
  from holds_at_fetch [OF this word, of 8] have "fetch (rd_base r) (of_nat (b + body_position n kd)) 8 = Inr (store_u64 w)" by simp
  moreover have "load_u64 (store_u64 w) = w" by (rule u64_codec.dec_enc) simp
  ultimately show ?thesis
    using scalar_body_at [OF assms(1) lead] assms(3,4) by (simp add: reader_scalar_word_at_def del: of_nat_add)
qed

lemma string_at:
  assumes "hosts r b e" and "holds_at r (b + n) (lead n K_STRING @ store_string_ref \<lparr>sr_pool_offset = po s, sr_length = of_nat (length s)\<rparr>)"
    and "b + body_position n K_STRING + 8 \<le> e" and "stored_at r po s"
  shows "reader_scalar_string_at r (of_nat (b + kind_position n K_STRING)) = Inr (ucast (po s) + 4, of_nat (length s))"
    and "read_at (rd_base r) (unat (ucast (po s) + 4 :: u64)) (length s) = Some s"
proof -
  let ?ref = "\<lparr>sr_pool_offset = po s, sr_length = of_nat (length s)\<rparr>"
  have lead: "holds_at r (b + n) (lead n K_STRING)" and ref: "holds_at r (b + body_position n K_STRING) (store_string_ref ?ref)"
    using assms(2) body_position_gt [of n K_STRING] by (simp_all add: holds_at_append)
  have wf: "wf_reader r" using assms(1) by (simp add: hosts_def)
  have fetched: "fetch (rd_base r) (of_nat (b + body_position n K_STRING)) 8 = Inr (store_string_ref ?ref)"
    by (rule holds_at_fetch [OF wf ref]) simp
  have loaded: "load_string_ref (store_string_ref ?ref) = ?ref" by (rule string_ref_codec.dec_enc) simp
  have s: "length s < 2 ^ 32" "holds_at r (unat (po s) + 4) s" using assms(4) by (simp_all add: stored_at_def)
  then show "read_at (rd_base r) (unat (ucast (po s) + 4 :: u64)) (length s) = Some s"
    by (simp add: unat_key_position holds_at_def)
  have len: "ucast (of_nat (length s) :: u32) = (of_nat (length s) :: u64)" using s(1) by (simp add: word_unat_eq_iff)
  have "ucast (po s) + 4 = (of_nat (unat (po s) + 4) :: u64)" by simp
  then have "\<not> ucast (po s) + 4 + of_nat (length s) > rd_size r"
    using size_check [OF wf holds_at_within [OF s(2)]] by metis
  then show "reader_scalar_string_at r (of_nat (b + kind_position n K_STRING)) = Inr (ucast (po s) + 4, of_nat (length s))"
    using scalar_body_at [OF assms(1) lead] assms(3) fetched
    by (simp add: reader_scalar_string_at_def Let_def loaded len del: of_nat_add)
qed

section \<open>Containers\<close>

lemma container_parts:
  assumes "holds_at r (b + n) (lead n kd @ container_head kd c @ table @ rest)"
  shows "holds_at r (b + n) (lead n kd)" and "holds_at r (b + body_position n kd) (container_head kd c)"
    and "holds_at r (b + body_position n kd + 8) table" and "holds_at r (b + body_position n kd + 8 + length table) rest"
  using assms body_position_gt [of n kd] by (simp_all add: holds_at_append)

lemma block_body_at:
  assumes h: "hosts r b e" and at: "holds_at r (b + n) (lead n K_BLOCK @ container_head K_BLOCK c @ table @ rest)"
    and len: "length table = c * 24" and fits: "b + body_position n K_BLOCK + 8 + c * 24 \<le> e"
  shows "reader_block_body_offsets r (of_nat (b + kind_position n K_BLOCK)) =
    Inr (\<lparr>bh_child_count = of_nat c, bh_entries_size_bytes = of_nat c * 24\<rparr>, of_nat (b + body_position n K_BLOCK + 8))"
proof -
  note parts = container_parts [OF at]
  have wf: "wf_reader r" and e: "e \<le> length (rd_base r)" "length (rd_base r) < 2 ^ 32" using h by (simp_all add: hosts_def)
  have fits': "b + body_position n K_BLOCK \<le> e" using fits by simp
  have addr: "align_up (of_nat (b + kind_position n K_BLOCK) + 1) 8 = of_nat (b + body_position n K_BLOCK)"
    using body_address [OF h fits'] by simp
  let ?h = "\<lparr>bh_child_count = of_nat c, bh_entries_size_bytes = of_nat c * 24\<rparr>"
  have "container_head K_BLOCK c = store_block_header ?h" by (simp add: container_head_def)
  then have fetched: "fetch (rd_base r) (of_nat (b + body_position n K_BLOCK)) 8 = Inr (store_block_header ?h)"
    using holds_at_fetch [OF wf parts(2), of 8] by simp
  have loaded: "load_block_header (store_block_header ?h) = ?h" by (rule block_header_codec.dec_enc) simp
  have c: "c < 2 ^ 32" using fits e by simp
  have check1: "\<not> of_nat (b + body_position n K_BLOCK) + 8 > rd_size r"
    using size_check [OF wf, of "b + body_position n K_BLOCK" 8] fits e by simp
  have count: "ucast (of_nat c :: u32) * 24 = (of_nat (c * 24) :: u64)" using c by (simp add: word_unat_eq_iff unat_word_ariths(2))
  have check2: "\<not> of_nat (b + body_position n K_BLOCK) + 8 + ucast (of_nat c :: u32) * 24 > rd_size r"
    using size_check [OF wf, of "b + body_position n K_BLOCK + 8" "c * 24"] fits e unfolding count by simp
  show ?thesis
    using kind_at_lead(2) [OF h parts(1) fits'] check1 check2 fetched
    unfolding reader_block_body_offsets_def Let_def addr by (simp add: loaded)
qed

lemma array_body_at:
  assumes h: "hosts r b e" and at: "holds_at r (b + n) (lead n K_ARRAY @ container_head K_ARRAY c @ table @ rest)"
    and len: "length table = c * 8" and fits: "b + body_position n K_ARRAY + 8 + c * 8 \<le> e"
  shows "reader_array_body_offsets r (of_nat (b + kind_position n K_ARRAY)) =
    Inr (\<lparr>ah_element_count = of_nat c, ah_body_size_bytes = of_nat c * 8\<rparr>, of_nat (b + body_position n K_ARRAY + 8))"
proof -
  note parts = container_parts [OF at]
  have wf: "wf_reader r" and e: "e \<le> length (rd_base r)" "length (rd_base r) < 2 ^ 32" using h by (simp_all add: hosts_def)
  have fits': "b + body_position n K_ARRAY \<le> e" using fits by simp
  have addr: "align_up (of_nat (b + kind_position n K_ARRAY) + 1) 8 = of_nat (b + body_position n K_ARRAY)"
    using body_address [OF h fits'] by simp
  let ?h = "\<lparr>ah_element_count = of_nat c, ah_body_size_bytes = of_nat c * 8\<rparr>"
  have "container_head K_ARRAY c = store_array_header ?h" by (simp add: container_head_def)
  then have fetched: "fetch (rd_base r) (of_nat (b + body_position n K_ARRAY)) 8 = Inr (store_array_header ?h)"
    using holds_at_fetch [OF wf parts(2), of 8] by simp
  have loaded: "load_array_header (store_array_header ?h) = ?h" by (rule array_header_codec.dec_enc) simp
  have c: "c < 2 ^ 32" using fits e by simp
  have check1: "\<not> of_nat (b + body_position n K_ARRAY) + 8 > rd_size r"
    using size_check [OF wf, of "b + body_position n K_ARRAY" 8] fits e by simp
  have count: "ucast (of_nat c :: u32) * 8 = (of_nat (c * 8) :: u64)" using c by (simp add: word_unat_eq_iff unat_word_ariths(2))
  have check2: "\<not> of_nat (b + body_position n K_ARRAY) + 8 + ucast (of_nat c :: u32) * 8 > rd_size r"
    using size_check [OF wf, of "b + body_position n K_ARRAY + 8" "c * 8"] fits e unfolding count by simp
  show ?thesis
    using kind_at_lead(2) [OF h parts(1) fits'] check1 check2 fetched
    unfolding reader_array_body_offsets_def Let_def addr by (simp add: loaded)
qed

lemma array_element_at:
  assumes h: "hosts r b e" and at: "holds_at r (b + n) (lead n K_ARRAY @ container_head K_ARRAY (length vs) @ concat (map store_u64 vs) @ rest)"
    and fits: "b + body_position n K_ARRAY + 8 + length vs * 8 \<le> e" and i: "i < length vs"
  shows "reader_array_at_offset r (of_nat (b + kind_position n K_ARRAY)) (of_nat i) = Inr (vs ! i)"
proof -
  have wf: "wf_reader r" and e: "e \<le> length (rd_base r)" "length (rd_base r) < 2 ^ 32" using h by (simp_all add: hosts_def)
  let ?p = "b + body_position n K_ARRAY + 8"
  obtain A B where base: "rd_base r = A @ concat (map store_u64 vs) @ B" "length A = ?p"
    using container_parts(3) [OF at] by (rule holds_at_split)
  have "map_option load_u64 (read_at (rd_base r) (?p + i * 8) 8) = Some (vs ! i)"
    using u64_codec.dec_nth [of vs i A B] i unfolding base by simp
  moreover have small: "length vs < 2 ^ 32" using fits e by simp
  have addr: "of_nat ?p + ucast (of_nat i :: u32) * 8 = (of_nat (?p + i * 8) :: u64)"
  proof -
    have "ucast (of_nat i :: u32) = (of_nat i :: u64)" using i small by (simp add: word_unat_eq_iff)
    then show ?thesis by simp
  qed
  have "unat (of_nat (?p + i * 8) :: u64) = ?p + i * 8" using fits e i by (intro unat_of_nat_u64) simp
  ultimately have "bindE (fetch (rd_base r) (of_nat ?p + ucast (of_nat i :: u32) * 8) 8) (\<lambda>bs. Inr (load_u64 bs)) = Inr (vs ! i)"
    unfolding addr fetch_def by (auto simp del: of_nat_add)
  moreover have "\<not> of_nat i \<ge> (of_nat (length vs) :: u32)" using i small by (simp add: word_le_nat_alt)
  ultimately show ?thesis
    using array_body_at [OF h at _ fits] by (simp add: reader_array_at_offset_def del: of_nat_add)
qed

section \<open>Keys of a table\<close>

lemma key_equals_stored:
  assumes wf: "wf_reader r" and s: "stored_at r po s"
    and e: "ent_key_pool_offset e = po s" "ent_key_length e = of_nat (length s)"
  shows "reader_key_equals r e key = Inr (s = key)"
proof (cases "length s = length key \<and> key \<noteq> []")
  case False
  then show ?thesis using s e by (auto simp: reader_key_equals_def stored_at_def)
next
  case True
  have at: "length s < 2 ^ 32" "holds_at r (unat (po s) + 4) s" using s by (simp_all add: stored_at_def)
  have addr: "ucast (po s) + 4 = (of_nat (unat (po s) + 4) :: u64)" by simp
  have "fetch (rd_base r) (ucast (po s) + 4) (length key) = Inr s"
    unfolding addr by (rule holds_at_fetch [OF wf at(2)]) (use True in simp)
  moreover have "\<not> ucast (po s) + 4 + of_nat (length key) > rd_size r"
    using size_check [OF wf holds_at_within [OF at(2)]] True unfolding addr by metis
  ultimately show ?thesis using True at(1) e by (simp add: reader_key_equals_def Let_def)
qed

lemma pendings_nth: "i < length ts \<Longrightarrow>
  pendings hash po base n ts ! i = pending_for hash (tr_payload (ts ! i)) (po (node_key (tr_payload (ts ! i)))) (offsets base n ts ! i)"
  by (simp add: pendings_def)

text \<open>
  In the table of some values with distinct keys, each key is the key of exactly the entry of
  its value.
\<close>

definition child_table :: "(bytes \<Rightarrow> u64) \<Rightarrow> (bytes \<Rightarrow> u32) \<Rightarrow> u64 \<Rightarrow> nat \<Rightarrow> tree list \<Rightarrow> entry list" where
  "child_table hash po base n ts = map stored_entry (sort_key pe_key_hash64 (pendings hash po base n ts))"

definition keys_stored :: "(bytes \<Rightarrow> u64) \<Rightarrow> reader \<Rightarrow> (bytes \<Rightarrow> u32) \<Rightarrow> tree list \<Rightarrow> bool" where
  "keys_stored hash r po ts \<longleftrightarrow> (\<forall>t \<in> set ts. stored_at r po (node_key (tr_payload t)) \<and>
     node_key_hash hash (tr_payload t) = hash (node_key (tr_payload t)))"

lemma child_table_sorted: "hash_sorted (child_table hash po base n ts)"
proof -
  have "ent_key_hash64 \<circ> stored_entry = pe_key_hash64" by (auto simp: stored_entry_def)
  then show ?thesis by (simp add: hash_sorted_def child_table_def)
qed

lemma in_child_table:
  "e \<in> set (child_table hash po base n ts) \<longleftrightarrow> (\<exists>i < length ts. e = stored_entry (pendings hash po base n ts ! i))"
proof -
  have "set (child_table hash po base n ts) = stored_entry ` set (pendings hash po base n ts)" by (simp add: child_table_def)
  then show ?thesis unfolding set_conv_nth [of "pendings hash po base n ts"] by auto
qed

lemma hit_child:
  assumes "wf_reader r" and "keys_stored hash r po ts" and "i < length ts"
  shows "hit r (hash key) key (stored_entry (pendings hash po base n ts ! i)) \<longleftrightarrow> node_key (tr_payload (ts ! i)) = key"
proof -
  have t: "stored_at r po (node_key (tr_payload (ts ! i)))" "node_key_hash hash (tr_payload (ts ! i)) = hash (node_key (tr_payload (ts ! i)))"
    using assms(2,3) by (simp_all add: keys_stored_def)
  have "reader_key_equals r (stored_entry (pendings hash po base n ts ! i)) key = Inr (node_key (tr_payload (ts ! i)) = key)"
    by (rule key_equals_stored [OF assms(1) t(1)]) (simp_all add: pendings_nth assms(3) stored_entry_def pending_for_def)
  then show ?thesis using t(2) by (auto simp: hit_def pendings_nth assms(3) stored_entry_def pending_for_def)
qed

lemma child_hit:
  fixes base :: u64 and n :: nat
  assumes "wf_reader r" and "keys_stored hash r po ts" and "distinct (map (\<lambda>t. node_key (tr_payload t)) ts)" and "i < length ts"
  defines "e \<equiv> stored_entry (pendings hash po base n ts ! i)" and "key \<equiv> node_key (tr_payload (ts ! i))"
  shows "e \<in> set (child_table hash po base n ts)" and "hit r (hash key) key e" and "ent_value_offset e = offsets base n ts ! i"
    and "e' \<in> set (child_table hash po base n ts) \<Longrightarrow> hit r (hash key) key e' \<Longrightarrow> e' = e"
proof -
  show "e \<in> set (child_table hash po base n ts)" using assms(4) by (auto simp: in_child_table e_def)
  show "hit r (hash key) key e" unfolding e_def hit_child [OF assms(1,2,4)] key_def ..
  show "ent_value_offset e = offsets base n ts ! i" using assms(4) by (simp add: e_def pendings_nth stored_entry_def pending_for_def)
  assume "e' \<in> set (child_table hash po base n ts)" and hit: "hit r (hash key) key e'"
  then obtain j where j: "j < length ts" "e' = stored_entry (pendings hash po base n ts ! j)" by (auto simp: in_child_table)
  have "node_key (tr_payload (ts ! j)) = key" using hit unfolding j(2) hit_child [OF assms(1,2) j(1)] .
  then have "j = i" using assms(3,4) j(1) by (simp add: key_def distinct_conv_nth) (metis)
  then show "e' = e" by (simp add: j(2) e_def)
qed

lemma child_absent:
  assumes "wf_reader r" and "keys_stored hash r po ts" and "key \<notin> (\<lambda>t. node_key (tr_payload t)) ` set ts"
    and "e \<in> set (child_table hash po base n ts)"
  shows "\<not> hit r (hash key) key e"
  using assms(3,4) hit_child [OF assms(1,2)] by (auto simp: in_child_table)

lemma block_find_child:
  assumes h: "hosts r b e"
    and at: "holds_at r (b + n) (lead n K_BLOCK @ container_head K_BLOCK (length ts) @ container_table hash po base m K_BLOCK ts @ rest)"
    and fits: "b + body_position n K_BLOCK + 8 + length ts * 24 \<le> e" and keys: "keys_stored hash r po ts"
  shows "distinct (map (\<lambda>t. node_key (tr_payload t)) ts) \<Longrightarrow> i < length ts \<Longrightarrow>
      reader_block_find_offset hash r (of_nat (b + kind_position n K_BLOCK)) (node_key (tr_payload (ts ! i))) = Inr (offsets base m ts ! i)"
    and "key \<notin> (\<lambda>t. node_key (tr_payload t)) ` set ts \<Longrightarrow>
      reader_block_find_offset hash r (of_nat (b + kind_position n K_BLOCK)) key = Inl Rejected"
proof -
  have wf: "wf_reader r" and e: "e \<le> length (rd_base r)" "length (rd_base r) < 2 ^ 32" using h by (simp_all add: hosts_def)
  let ?off = "of_nat (b + kind_position n K_BLOCK) :: u64" and ?T = "child_table hash po base m ts"
  have table: "container_table hash po base m K_BLOCK ts = entry_table (sort_key pe_key_hash64 (pendings hash po base m ts))"
    by (simp add: container_table_def)
  have body: "reader_block_body_offsets r ?off = Inr (\<lparr>bh_child_count = of_nat (length ts), bh_entries_size_bytes = of_nat (length ts) * 24\<rparr>,
      of_nat (b + body_position n K_BLOCK + 8))"
    by (rule block_body_at [OF h at _ fits]) (simp add: table)
  have c: "length ts < 2 ^ 32" using fits e by simp
  have "ucast (of_nat (length ts) :: u32) = (of_nat (length ts) :: u64)" using c by (simp add: word_unat_eq_iff)
  then have "table_entries r (of_nat (b + body_position n K_BLOCK + 8)) (ucast (of_nat (length ts) :: u32)) = ?T"
    using table_entries_at [OF wf container_parts(3) [OF at, unfolded table]] by (simp add: child_table_def del: of_nat_add)
  then have holds: "block_holds (r, ?off) ?T" using wf body child_table_sorted by (simp add: block_holds_def del: of_nat_add)
  show "reader_block_find_offset hash r ?off (node_key (tr_payload (ts ! i))) = Inr (offsets base m ts ! i)"
    if "distinct (map (\<lambda>t. node_key (tr_payload t)) ts)" "i < length ts"
  proof -
    note hit = child_hit [where base = base and n = m, OF wf keys that]
    have "reader_block_find_offset hash (fst (r, ?off)) (snd (r, ?off)) (node_key (tr_payload (ts ! i)))
        = Inr (ent_value_offset (stored_entry (pendings hash po base m ts ! i)))"
      by (rule block_index.find_unique [OF holds hit(1)]) (unfold fst_conv, rule hit(2), rule hit(4))
    then show ?thesis unfolding fst_conv snd_conv hit(3) .
  qed
  show "reader_block_find_offset hash r ?off key = Inl Rejected" if "key \<notin> (\<lambda>t. node_key (tr_payload t)) ` set ts"
    using block_index.find_absent [OF holds, of hash key] child_absent [OF wf keys that] unfolding fst_conv snd_conv by blast
qed

section \<open>Reading a document back\<close>

text \<open>No key occurs twice in a block.\<close>

fun keys_distinct :: "doc \<Rightarrow> bool" where
  "keys_distinct (Leaf l) \<longleftrightarrow> True"
| "keys_distinct (Block es) \<longleftrightarrow> distinct (map fst es) \<and> (\<forall>(k, v) \<in> set es. keys_distinct v)"
| "keys_distinct (Array vs) \<longleftrightarrow> (\<forall>v \<in> set vs. keys_distinct v)"

definition strings_stored :: "reader \<Rightarrow> (bytes \<Rightarrow> u32) \<Rightarrow> tree \<Rightarrow> bool" where
  "strings_stored r po t \<longleftrightarrow> (\<forall>s \<in> set (collected t) \<union> set (late t). stored_at r po s)"

lemma doc_fits_key: "doc_fits (Some k) v \<Longrightarrow> length k < 2 ^ 32"
  by (cases v) (simp_all add: good_key_def doc_arg_def)

lemma tr_payload_doc: "\<exists>l. tr_payload (doc_tree hash key v) = with_leaf l (doc_payload hash key (pl_kind (tr_payload (doc_tree hash key v))))"
proof (cases v)
  case (Leaf l)
  then show ?thesis by (intro exI [of _ l]) simp
qed (auto intro: exI [of _ L_null])

lemma node_key_doc:
  assumes "length k < 2 ^ 32"
  shows "node_key (tr_payload (doc_tree hash (Some k) v)) = k"
    and "node_key_hash hash (tr_payload (doc_tree hash (Some k) v)) = hash k"
proof -
  obtain l where l: "tr_payload (doc_tree hash (Some k) v) =
      with_leaf l (keyed hash k (plain (pl_kind (tr_payload (doc_tree hash (Some k) v)))))"
    using tr_payload_doc [of hash "Some k" v] by (auto simp: doc_payload_def)
  show key: "node_key (tr_payload (doc_tree hash (Some k) v)) = k"
    by (subst l) (use assms in \<open>simp add: node_key_def node_view_stored\<close>)
  show "node_key_hash hash (tr_payload (doc_tree hash (Some k) v)) = hash k"
    unfolding node_key_hash_def key by (subst (2) l) simp
qed

lemma strings_stored_child:
  assumes "strings_stored r po (Tree p cs)" and "is_container_kind (pl_kind p)" and "t \<in> set cs"
  shows "strings_stored r po t" and "pl_kind p = K_BLOCK \<Longrightarrow> stored_at r po (node_key (tr_payload t))"
  using assms key_collected [of t]
  by (auto simp: strings_stored_def late_Tree late_children_def late_elements_def is_container_kind_def split: if_splits)

lemma leaf_reads:
  assumes h: "hosts r b e" and at: "holds_at r (b + n) (layout hash po (of_nat b) n (doc_tree hash key (Leaf l)))"
    and fits: "b + value_end n (doc_tree hash key (Leaf l)) \<le> e" and leaf: "good_leaf l"
    and strings: "strings_stored r po (doc_tree hash key (Leaf l))"
  shows "reads_leaf r (of_nat (b + value_position n (doc_tree hash key (Leaf l)))) l"
proof -
  let ?p = "with_leaf l (doc_payload hash key (leaf_kind l))"
  have kind: "\<not> is_container_kind (leaf_kind l)" by (cases l rule: leaf_kind.cases) (simp_all add: is_container_kind_def)
  have lead: "holds_at r (b + n) (lead n (leaf_kind l))" and all: "holds_at r (b + n) (lead n (leaf_kind l) @ scalar_bytes po ?p)"
    using at kind by (simp_all add: holds_at_append)
  have fits': "b + body_position n (leaf_kind l) + kind_body_size (leaf_kind l) \<le> e" using fits kind by simp
  have pos: "value_position n (doc_tree hash key (Leaf l)) = kind_position n (leaf_kind l)" by (simp add: value_position_def)
  note kind_at = kind_at_lead(1) [OF h lead]
  have word: "reader_scalar_word_at (leaf_kind l) r (of_nat (b + kind_position n (leaf_kind l))) = Inr (pl_bits ?p)"
    if "kind_body_size (leaf_kind l) = 8" "leaf_kind l \<noteq> K_STRING"
    using scalar_word_at [OF h _ _ that(1), of n "pl_bits ?p"] all fits' that by (simp add: scalar_bytes_def)
  have "reads_leaf r (of_nat (b + kind_position n (leaf_kind l))) l"
  proof (cases l)
    case (L_string s)
    have short: "length s < 2 ^ 32" using leaf by (simp add: L_string good_leaf_def)
    have s: "node_string ?p = s" using short by (simp add: node_string_def L_string node_view_stored)
    then have stored: "stored_at r po s" using strings by (simp add: strings_stored_def collected_payload_def L_string)
    have at': "holds_at r (b + n) (lead n K_STRING @ store_string_ref \<lparr>sr_pool_offset = po s, sr_length = of_nat (length s)\<rparr>)"
      using all s by (simp add: scalar_bytes_def L_string)
    have "unat (of_nat (length s) :: u64) = length s" using short by simp
    then show ?thesis
      using string_at [OF h at' _ stored] fits' by (simp add: L_string del: of_nat_add)
  next
    case (L_bool v)
    then show ?thesis using kind_at fits' by (cases v) (simp_all add: reader_scalar_bool_at_def del: of_nat_add)
  qed (use kind_at fits' word in \<open>simp_all add: reader_scalar_int64_at_def reader_scalar_uint64_at_def
      reader_scalar_float64_at_def scalar_bytes_def del: of_nat_add\<close>)
  then show ?thesis unfolding pos .
qed

lemma reads_doc:
  assumes h: "hosts r b e"
  shows "holds_at r (b + n) (layout hash po (of_nat b) n (doc_tree hash key v)) \<Longrightarrow> b + value_end n (doc_tree hash key v) \<le> e \<Longrightarrow>
    doc_fits key v \<Longrightarrow> keys_distinct v \<Longrightarrow> strings_stored r po (doc_tree hash key v) \<Longrightarrow>
    reads hash r (of_nat (b + value_position n (doc_tree hash key v))) v"
proof (induction v arbitrary: key n)
  case (Leaf l)
  then show ?case using leaf_reads [OF h] by simp
next
  case (Block es)
  let ?cs = "map (\<lambda>(k, v). doc_tree hash (Some k) v) es" and ?n = "children_position n K_BLOCK (length es)" and ?base = "of_nat b :: u64"
  let ?off = "of_nat (b + kind_position n K_BLOCK) :: u64"
  have wf: "wf_reader r" using h by (simp add: hosts_def)
  have at: "holds_at r (b + n) (lead n K_BLOCK @ container_head K_BLOCK (length ?cs) @ container_table hash po ?base ?n K_BLOCK ?cs @
      layout_all hash po ?base ?n ?cs)"
    using Block.prems(1) by (simp add: is_container_kind_def)
  have ends: "b + values_end ?n ?cs \<le> e" using Block.prems(2) by (simp add: is_container_kind_def)
  have fits: "b + body_position n K_BLOCK + 8 + length ?cs * 24 \<le> e"
    using ends values_end_ge [of ?n ?cs] by (simp add: children_position_def table_width_def)
  have kids: "holds_at r (b + ?n) (layout_all hash po ?base ?n ?cs)"
    using container_parts(4) [OF at] by (simp add: children_position_def table_width_def add.assoc)
  have short: "length k < 2 ^ 32" if "(k, v) \<in> set es" for k v using Block.prems(3) that doc_fits_key by fastforce
  have keys: "map (\<lambda>t. node_key (tr_payload t)) ?cs = map fst es"
    using short node_key_doc(1) by (auto simp: case_prod_beta)
  have stored: "keys_stored hash r po ?cs"
    unfolding keys_stored_def
  proof
    fix t assume t: "t \<in> set ?cs"
    then obtain k v where kv: "(k, v) \<in> set es" "t = doc_tree hash (Some k) v" by auto
    have "stored_at r po (node_key (tr_payload t))"
      using strings_stored_child(2) [OF Block.prems(5) [unfolded doc_tree.simps] _ t] by (simp add: is_container_kind_def)
    then show "stored_at r po (node_key (tr_payload t)) \<and> node_key_hash hash (tr_payload t) = hash (node_key (tr_payload t))"
      using node_key_doc [OF short [OF kv(1)]] kv(2) by simp
  qed
  have distinct: "distinct (map (\<lambda>t. node_key (tr_payload t)) ?cs)" using Block.prems(4) unfolding keys by simp
  have entries: "reads_entries hash r ?off es"
  proof (rule reads_entries_all)
    fix k v assume kv: "(k, v) \<in> set es"
    then obtain i where i: "i < length es" "es ! i = (k, v)" by (metis in_set_conv_nth)
    let ?t = "doc_tree hash (Some k) v"
    have find: "reader_block_find_offset hash r ?off k = Inr (offsets ?base ?n ?cs ! i)"
      using block_find_child(1) [OF h at fits stored distinct, of i] i node_key_doc(1) [OF short [OF kv]] by simp
    have "(?t, offsets ?base ?n ?cs ! i) \<in> set (zip ?cs (offsets ?base ?n ?cs))"
      unfolding in_set_zip by (intro exI [of _ i]) (simp add: i)
    from placed_values [OF this, of r b hash po] kids obtain m where
      m: "offsets ?base ?n ?cs ! i = ?base + of_nat (value_position m ?t)" "value_end m ?t \<le> values_end ?n ?cs"
        "holds_at r (b + m) (layout hash po ?base m ?t)" by blast
    have "reads hash r (of_nat (b + value_position m ?t)) v"
    proof (rule Block.IH [OF kv _ m(3)])
      show "v \<in> Basic_BNFs.snds (k, v)" by simp
      show "b + value_end m ?t \<le> e" using m(2) ends by simp
      show "doc_fits (Some k) v" "keys_distinct v" using Block.prems(3,4) kv by auto
      show "strings_stored r po ?t"
        using strings_stored_child(1) [OF Block.prems(5) [unfolded doc_tree.simps], of ?t] kv by (force simp: is_container_kind_def)
    qed
    then show "\<exists>p. reader_block_find_offset hash r ?off k = Inr p \<and> reads hash r p v"
      using find m(1) by simp
  qed
  have body: "reader_block_body_offsets r ?off = Inr (\<lparr>bh_child_count = of_nat (length es), bh_entries_size_bytes = of_nat (length es) * 24\<rparr>,
      of_nat (b + body_position n K_BLOCK + 8))"
    using block_body_at [OF h at _ fits] by (simp add: table_width_def)
  have "reader_kind_at r ?off = Inr K_BLOCK" using kind_at_lead(1) [OF h container_parts(1) [OF at]] fits by simp
  then show ?case using entries body
    by (simp add: value_position_def reader_block_child_count_at_def del: of_nat_add)
next
  case (Array vs)
  let ?cs = "map (doc_tree hash None) vs" and ?n = "children_position n K_ARRAY (length vs)" and ?base = "of_nat b :: u64"
  let ?off = "of_nat (b + kind_position n K_ARRAY) :: u64"
  have at: "holds_at r (b + n) (lead n K_ARRAY @ container_head K_ARRAY (length (offsets ?base ?n ?cs)) @ concat (map store_u64 (offsets ?base ?n ?cs)) @
      layout_all hash po ?base ?n ?cs)"
    using Array.prems(1) by (simp add: is_container_kind_def container_table_def)
  have ends: "b + values_end ?n ?cs \<le> e" using Array.prems(2) by (simp add: is_container_kind_def)
  have fits: "b + body_position n K_ARRAY + 8 + length (offsets ?base ?n ?cs) * 8 \<le> e"
    using ends values_end_ge [of ?n ?cs] by (simp add: children_position_def table_width_def)
  have kids: "holds_at r (b + ?n) (layout_all hash po ?base ?n ?cs)"
    using container_parts(4) [OF at] by (simp add: children_position_def table_width_def add.assoc)
  have elements: "reads_elements hash r ?off (of_nat 0) vs"
  proof (rule reads_elements_all)
    fix i assume i: "i < length vs"
    let ?t = "doc_tree hash None (vs ! i)"
    have find: "reader_array_at_offset r ?off (of_nat i) = Inr (offsets ?base ?n ?cs ! i)"
      by (rule array_element_at [OF h at fits]) (simp add: i)
    have "(?t, offsets ?base ?n ?cs ! i) \<in> set (zip ?cs (offsets ?base ?n ?cs))"
      unfolding in_set_zip by (intro exI [of _ i]) (simp add: i)
    from placed_values [OF this, of r b hash po] kids obtain m where
      m: "offsets ?base ?n ?cs ! i = ?base + of_nat (value_position m ?t)" "value_end m ?t \<le> values_end ?n ?cs"
        "holds_at r (b + m) (layout hash po ?base m ?t)" by blast
    have "reads hash r (of_nat (b + value_position m ?t)) (vs ! i)"
    proof (rule Array.IH [OF _ m(3)])
      show "vs ! i \<in> set vs" using i by simp
      show "b + value_end m ?t \<le> e" using m(2) ends by simp
      show "doc_fits None (vs ! i)" "keys_distinct (vs ! i)" using Array.prems(3,4) i by auto
      show "strings_stored r po ?t"
        using strings_stored_child(1) [OF Array.prems(5) [unfolded doc_tree.simps], of ?t] i by (force simp: is_container_kind_def)
    qed
    then show "\<exists>p. reader_array_at_offset r ?off (of_nat (0 + i)) = Inr p \<and> reads hash r p (vs ! i)"
      using find m(1) by simp
  qed
  have body: "reader_array_body_offsets r ?off = Inr (\<lparr>ah_element_count = of_nat (length vs), ah_body_size_bytes = of_nat (length vs) * 8\<rparr>,
      of_nat (b + body_position n K_ARRAY + 8))"
    using array_body_at [OF h at _ fits] by simp
  have "reader_kind_at r ?off = Inr K_ARRAY" using kind_at_lead(1) [OF h container_parts(1) [OF at]] fits by simp
  then show ?case using elements body
    by (simp add: value_position_def reader_array_length_at_def del: of_nat_add)
qed

section \<open>The roots of a file\<close>

lemma doc_roots_keys:
  assumes "\<forall>(k, v) \<in> set es. doc_fits (Some k) v"
  shows "map (\<lambda>t. node_key (tr_payload t)) (doc_roots hash es) = map fst es"
    and "map (\<lambda>t. node_key_hash hash (tr_payload t)) (doc_roots hash es) = map (\<lambda>(k, v). hash k) es"
  using assms doc_fits_key node_key_doc by (fastforce simp: doc_roots_def)+

lemma document_keys_stored:
  assumes "file_length (doc_roots hash es) < 2 ^ 32" and "\<forall>(k, v) \<in> set es. doc_fits (Some k) v"
  shows "keys_stored hash (document_reader hash (doc_roots hash es)) (file_offset (doc_roots hash es)) (doc_roots hash es)"
  unfolding keys_stored_def
proof
  fix t assume t: "t \<in> set (doc_roots hash es)"
  then obtain k v where kv: "(k, v) \<in> set es" "t = doc_tree hash (Some k) v" by (auto simp: doc_roots_def)
  have "length k < 2 ^ 32" using assms(2) kv(1) doc_fits_key by fastforce
  moreover have "stored_at (document_reader hash (doc_roots hash es)) (file_offset (doc_roots hash es)) (node_key (tr_payload t))"
    using root_key_stored [OF t] by (intro document_stored(2) [OF assms(1)] file_strings_short)
  ultimately show "stored_at (document_reader hash (doc_roots hash es)) (file_offset (doc_roots hash es)) (node_key (tr_payload t)) \<and>
      node_key_hash hash (tr_payload t) = hash (node_key (tr_payload t))"
    using node_key_doc kv(2) by simp
qed

lemma document_root_holds:
  assumes "file_length ts < 2 ^ 32"
  shows "root_holds (document_reader hash ts) (child_table hash (file_offset ts) (of_nat (nodes_start ts)) 0 ts)"
  using document_wf [OF assms, of hash] root_table_document [OF assms, of hash] child_table_sorted
  by (simp add: root_holds_def root_entries_def child_table_def)

lemma document_reads:
  fixes es :: "(bytes \<times> doc) list" and hash :: "bytes \<Rightarrow> u64"
  defines "ts \<equiv> doc_roots hash es"
  assumes small: "file_length ts < 2 ^ 32" and doc_fit: "\<forall>(k, v) \<in> set es. doc_fits (Some k) v"
    and distinct: "keys_distinct (Block es)"
  shows "(k, v) \<in> set es \<Longrightarrow> \<exists>off. reader_find_root_offset hash (document_reader hash ts) k = Inr off \<and> reads hash (document_reader hash ts) off v"
    and "k \<notin> fst ` set es \<Longrightarrow> reader_find_root_offset hash (document_reader hash ts) k = Inl Rejected"
proof -
  let ?r = "document_reader hash ts" and ?po = "file_offset ts" and ?b = "nodes_start ts"
  have wf: "wf_reader ?r" by (rule document_wf [OF small])
  have stored: "keys_stored hash ?r ?po ts" using document_keys_stored small doc_fit by (simp add: ts_def)
  have keys: "map (\<lambda>t. node_key (tr_payload t)) ts = map fst es" using doc_roots_keys(1) [OF doc_fit] by (simp add: ts_def)
  note holds = document_root_holds [OF small, of hash]
  show "reader_find_root_offset hash ?r k = Inl Rejected" if "k \<notin> fst ` set es"
  proof (rule root_index.find_absent [OF holds])
    have "(\<lambda>t. node_key (tr_payload t)) ` set ts = fst ` set es" using keys by (metis list.set_map)
    then show "\<not> hit ?r (hash k) k e" if "e \<in> set (child_table hash ?po (of_nat ?b) 0 ts)" for e
      using child_absent [OF wf stored _ that] \<open>k \<notin> fst ` set es\<close> by simp
  qed
  assume kv: "(k, v) \<in> set es"
  then obtain i where i: "i < length es" "es ! i = (k, v)" by (metis in_set_conv_nth)
  let ?t = "doc_tree hash (Some k) v"
  have len: "length ts = length es" by (simp add: ts_def doc_roots_def)
  have t: "ts ! i = ?t" using i by (simp add: ts_def doc_roots_def)
  have short: "length k < 2 ^ 32" using doc_fit kv doc_fits_key by fastforce
  have dist: "distinct (map (\<lambda>t. node_key (tr_payload t)) ts)" unfolding keys using distinct by simp
  have i': "i < length ts" using i len by simp
  note hit = child_hit [where base = "of_nat ?b" and n = 0 and po = ?po, OF wf stored dist i']
  have "reader_find_root_offset hash ?r (node_key (tr_payload (ts ! i))) = Inr (ent_value_offset (stored_entry (pendings hash ?po (of_nat ?b) 0 ts ! i)))"
    by (rule root_index.find_unique [OF holds hit(1)]) (rule hit(2), rule hit(4))
  then have find: "reader_find_root_offset hash ?r k = Inr (offsets (of_nat ?b) 0 ts ! i)"
    unfolding hit(3) t node_key_doc(1) [OF short] .
  have zip: "(?t, offsets (of_nat ?b) 0 ts ! i) \<in> set (zip ts (offsets (of_nat ?b) 0 ts))"
    unfolding in_set_zip by (intro exI [of _ i]) (simp add: i' t)
  have nodes: "holds_at ?r (?b + 0) (layout_all hash ?po (of_nat ?b) 0 ts)" using document_holds(2) [of hash ts] by (simp add: node_bytes_def)
  from placed_values [OF zip, of ?r ?b hash ?po] nodes obtain m where
    m: "offsets (of_nat ?b) 0 ts ! i = of_nat ?b + of_nat (value_position m ?t)" "value_end m ?t \<le> values_end 0 ts"
      "holds_at ?r (?b + m) (layout hash ?po (of_nat ?b) m ?t)" by blast
  have "reads hash ?r (of_nat (?b + value_position m ?t)) v"
  proof (rule reads_doc [OF document_hosts [OF small] m(3)])
    show "?b + value_end m ?t \<le> strings_start ts" using m(2) by (simp add: strings_start_def)
    show "doc_fits (Some k) v" "keys_distinct v" using doc_fit distinct kv by auto
    show "strings_stored ?r ?po ?t"
      unfolding strings_stored_def
    proof
      fix s assume s: "s \<in> set (collected ?t) \<union> set (late ?t)"
      have "?t \<in> set ts" using i' t nth_mem by metis
      then have "s \<in> set (file_strings ts)" using s by (auto simp: set_file_strings late_children_def)
      then show "stored_at ?r ?po s" by (intro document_stored(2) [OF small] file_strings_short)
    qed
  qed
  then show "\<exists>off. reader_find_root_offset hash ?r k = Inr off \<and> reads hash ?r off v" using find m(1) by simp
qed

end
