(* ===== verification/Document_Properties.thy ===== *)
theory Document_Properties
  imports Writer_Properties Roundtrip
begin

text \<open>
  What the two halves of the library promise together, and the encoder on its own: a document that
  is written is read back, when its file passes the verifier, what finalisation returns and what it
  leaves in the writer.
\<close>

section \<open>Documents and paths\<close>

text \<open>The value a path of steps leads to.\<close>

fun doc_at :: "doc \<Rightarrow> step list \<Rightarrow> doc option" where
  "doc_at v [] = Some v"
| "doc_at (Block es) (Key k # steps) = (case map_of es k of None \<Rightarrow> None | Some v \<Rightarrow> doc_at v steps)"
| "doc_at (Array vs) (Index i # steps) = (if unat i < length vs then doc_at (vs ! unat i) steps else None)"
| "doc_at _ _ = None"

lemma reads_follow:
  "reads hash r off v \<Longrightarrow> doc_at v steps = Some v' \<Longrightarrow> \<exists>p. follow hash r off steps = Inr p \<and> reads hash r p v'"
proof (induction v steps arbitrary: off rule: doc_at.induct)
  case (2 es k steps)
  then obtain u where u: "map_of es k = Some u" "doc_at u steps = Some v'" by (auto split: option.splits)
  have "reads_entries hash r off es" using "2.prems"(1) by simp
  from reads_entries_member [OF this map_of_SomeD [OF u(1)]] obtain p where
    "reader_block_find_offset hash r off k = Inr p" "reads hash r p u" by blast
  then show ?case using "2.IH" [OF u(1) _ u(2)] by simp
next
  case (3 vs i steps)
  then have i: "unat i < length vs" "doc_at (vs ! unat i) steps = Some v'" by (auto split: if_splits)
  have "reads_elements hash r off (of_nat 0) vs" using "3.prems"(1) by simp
  from reads_elements_nth [OF this i(1)] obtain p where
    "reader_array_at_offset r off i = Inr p" "reads hash r p (vs ! unat i)" by auto
  then show ?case using "3.IH" [OF i(1) _ i(2)] by simp
qed simp_all

section \<open>Writing, then reading\<close>

lemma written_forest:
  assumes create: "writer_create pf options = Some w" and memory: "generous pf"
    and doc_fit: "\<forall>(k, v) \<in> set es. doc_fits (Some k) v" and small: "file_length (doc_roots hash es) < 2 ^ 32"
    and fair: "\<forall>n \<le> nodes_in (doc_roots hash es). schedule_fair pf (w_worker_count w) n"
  shows "\<exists>w' w'' oks. run_calls hash pf w (doc_roots_calls es) = Some (oks, w') \<and> list_all id oks \<and>
    writer_finalize_to_buffer hash pf w' = Inr (Some (document_file hash (doc_roots hash es)), w'') \<and> recached w' w''"
proof -
  note new = writer_create_builds [OF create]
  have steps: "build_steps hash ([], 0) (doc_roots_calls es) = Some (doc_roots hash es, 0)"
    using doc_roots_steps [OF doc_fit, of hash "[]"] by simp
  from calls_outcome [OF conjunct1 [OF new] conjunct2 [OF new], of hash pf "doc_roots_calls es"] obtain w' where
    run: "run_calls hash pf w (doc_roots_calls es) = Some (replicate (length (doc_roots_calls es)) True, w')"
    and built: "builds w' (doc_roots hash es) 0" "\<not> w_error_flag w'"
    using steps memory by auto
  have "serializable hash pf (w_worker_count w') (doc_roots hash es)"
    using file_bounds(4) [OF small] fair run_calls_workers [OF run] by (intro doc_roots_serializable [OF doc_fit]) simp_all
  from finalize_cases [OF built this] have
    "\<exists>w''. writer_finalize_to_buffer hash pf w' = Inr (Some (document_file hash (doc_roots hash es)), w'') \<and> recached w' w''"
    using memory file_bounds(3) [OF small] by (auto simp: serialize_error_def)
  then show ?thesis using run by (auto simp: list_all_iff)
qed

text \<open>C1. Write, then read: for a document whose keys and strings fit their 32-bit lengths, without a
  repeated key and with a file under 4 GiB, the calls that write it succeed, finalisation returns a
  file and changes nothing of the writer but the offsets cached in its nodes, the reader opens that
  file, looking up each root key gives the value written under it, down to every block entry, array
  element and scalar, and looking up any other key is rejected.\<close>

theorem written_document_reads_back:
  assumes "writer_create pf options = Some w" and "generous pf" and "\<forall>(k, v) \<in> set es. doc_fits (Some k) v"
    and "keys_distinct (Block es)" and "file_length (doc_roots hash es) < 2 ^ 32"
    and "\<forall>n \<le> nodes_in (doc_roots hash es). schedule_fair pf (w_worker_count w) n"
  shows "\<exists>w' w'' oks out r. run_calls hash pf w (doc_roots_calls es) = Some (oks, w') \<and> list_all id oks \<and>
    writer_finalize_to_buffer hash pf w' = Inr (Some out, w'') \<and> recached w' w'' \<and> reader_open_buffer pf out = Inr r \<and>
    (\<forall>(k, v) \<in> set es. \<exists>off. reader_find_root_offset hash r k = Inr off \<and> reads hash r off v) \<and>
    (\<forall>k. k \<notin> fst ` set es \<longrightarrow> reader_find_root_offset hash r k = Inl Rejected)"
proof -
  let ?r = "document_reader hash (doc_roots hash es)"
  have "reader_open_buffer pf (document_file hash (doc_roots hash es)) = Inr ?r"
    using document_opens [OF assms(5)] assms(2) by (simp add: generous_def)
  moreover have "\<forall>(k, v) \<in> set es. \<exists>off. reader_find_root_offset hash ?r k = Inr off \<and> reads hash ?r off v"
    "\<forall>k. k \<notin> fst ` set es \<longrightarrow> reader_find_root_offset hash ?r k = Inl Rejected"
    using document_reads [OF assms(5,3,4)] by blast+
  ultimately show ?thesis using written_forest [OF assms(1-3,5,6)] by blast
qed

lemma sample_fits: "\<forall>(k, v) \<in> set sample_doc. doc_fits (Some k) v"
  by (simp add: sample_doc_def good_key_def doc_arg_def good_leaf_def)

lemma sample_distinct: "keys_distinct (Block sample_doc)"
  by (simp add: sample_doc_def)

lemma sample_file_length: "file_length (doc_roots (\<lambda>_. 7) sample_doc) = 296"
  by code_simp

lemma sample_written: "document_file (\<lambda>_. 7) (doc_roots (\<lambda>_. 7) sample_doc) = sample_file"
  by code_simp

theorem written_document_reads_back_witness:
  "\<exists>w w' w'' oks out r off. writer_create roomy None = Some w \<and> run_calls (\<lambda>_. 7) roomy w (doc_roots_calls sample_doc) = Some (oks, w') \<and>
     writer_finalize_to_buffer (\<lambda>_. 7) roomy w' = Inr (Some out, w'') \<and> reader_open_buffer roomy out = Inr r \<and>
     reader_find_root_offset (\<lambda>_. 7) r [0x6B] = Inr off \<and>
     reads (\<lambda>_. 7) r off (Block [([0x61], Array [Leaf (L_string [0x61]), Leaf (L_int64 42)])])"
proof -
  obtain w where w: "writer_create roomy None = Some w" "w_worker_count w = 0" using roomy_writer by blast
  from written_document_reads_back [OF w(1) generous_roomy sample_fits sample_distinct, of "\<lambda>_. 7"]
  show ?thesis using w sample_file_length by (fastforce simp: sample_doc_def schedule_fair_def)
qed


text \<open>C24. Paths into a written document: a path that parses to steps leading to a value of the document
  resolves to an offset at which the reader gives that value.\<close>

theorem paths_lead_to_written_values:
  assumes "file_length (doc_roots hash es) < 2 ^ 32" and "\<forall>(k, v) \<in> set es. doc_fits (Some k) v" and "keys_distinct (Block es)"
    and "path_steps path = Some (step # steps)" and "doc_at (Block es) (step # steps) = Some v"
  shows "\<exists>off. reader_resolve_path hash (document_reader hash (doc_roots hash es)) path = Inr off \<and>
    reads hash (document_reader hash (doc_roots hash es)) off v"
proof -
  let ?r = "document_reader hash (doc_roots hash es)"
  obtain k u where step: "step = Key k" "map_of es k = Some u" "doc_at u steps = Some v"
    using assms(5) by (cases step) (auto split: option.splits)
  from document_reads(1) [OF assms(1-3) map_of_SomeD [OF step(2)]] obtain p where
    p: "reader_find_root_offset hash ?r k = Inr p" "reads hash ?r p u" by blast
  obtain off where off: "follow hash ?r p steps = Inr off" "reads hash ?r off v" using reads_follow [OF p(2) step(3)] by blast
  have "reader_resolve_path hash ?r path = follow_root hash ?r (step # steps)"
    using resolve_path_eq [OF document_wf [OF assms(1)], of hash hash path] assms(4) by simp
  then show ?thesis using p(1) off step(1) by simp
qed

theorem paths_lead_to_written_values_witness:
  "\<exists>off. reader_resolve_path (\<lambda>_. 7) (document_reader (\<lambda>_. 7) (doc_roots (\<lambda>_. 7) sample_doc)) [0x6B, 0x2E, 0x61, 0x5B, 0x31, 0x5D] = Inr off \<and>
     reader_scalar_int64_at (document_reader (\<lambda>_. 7) (doc_roots (\<lambda>_. 7) sample_doc)) off = Inr 42"
proof -
  have "path_steps [0x6B, 0x2E, 0x61, 0x5B, 0x31, 0x5D] = Some [Key [0x6B], Key [0x61], Index 1]"
    by (simp add: path_steps.simps is_digit_def decimal_def)
  moreover have "doc_at (Block sample_doc) [Key [0x6B], Key [0x61], Index 1] = Some (Leaf (L_int64 42))"
    by (simp add: sample_doc_def)
  ultimately show ?thesis
    using paths_lead_to_written_values [OF _ sample_fits sample_distinct, of "\<lambda>_. 7"] sample_file_length by fastforce
qed

text \<open>C3. The verifier reads inside a written file under 4 GiB and accepts it exactly when every key and
  string is well-formed UTF-8 and no two root keys have the same hash. So it rejects the files of
  documents with a repeated root key, or with two root keys that collide, which the writer accepts.\<close>

theorem written_file_verifies:
  assumes "file_length (doc_roots hash es) < 2 ^ 32" and "\<forall>(k, v) \<in> set es. doc_fits (Some k) v"
  shows "in_bounds (verify_buffer hash (document_file hash (doc_roots hash es))) \<and>
    (verify_buffer hash (document_file hash (doc_roots hash es)) = Inr V_OK \<longleftrightarrow>
      (\<forall>s \<in> set (file_strings (doc_roots hash es)). well_formed_utf8 s) \<and> distinct (map (\<lambda>(k, v). hash k) es))"
  using verify_document [OF assms(1), of hash] unfolding doc_roots_keys(2) [OF assms(2)] .

definition twice_doc :: "(bytes \<times> doc) list" where
  "twice_doc = [([0x6B], Leaf L_null), ([0x6B], Leaf (L_bool True))]"

theorem written_file_verifies_witness:
  "verify_buffer (\<lambda>_. 7) (document_file (\<lambda>_. 7) (doc_roots (\<lambda>_. 7) twice_doc)) \<noteq> Inr V_OK"
proof -
  have "file_length (doc_roots (\<lambda>_. 7) twice_doc) = 218" by code_simp
  then have "file_length (doc_roots (\<lambda>_. 7) twice_doc) < 2 ^ 32" by simp
  moreover have "\<forall>(k, v) \<in> set twice_doc. doc_fits (Some k) v"
    by (simp add: twice_doc_def good_key_def doc_arg_def good_leaf_def)
  ultimately show ?thesis using written_file_verifies [of "\<lambda>_. 7" twice_doc] by (simp add: twice_doc_def)
qed

section \<open>Finalisation and the encoder\<close>

text \<open>C22. What finalisation returns after any calls on a new writer: the construction error if one of them
  failed, the unclosed-scope error if a scope is open, and otherwise the file of the forest the calls
  built, or one of three errors: out of memory and internal (a thread), on a platform that refuses
  something, and the overflow of the string pool, when the strings do not fit 4 GiB. It changes nothing of
  the writer but the error and the offsets cached in its nodes; with a file they are the places of the
  keys and strings in its string pool.\<close>

theorem finalisation_outcomes:
  assumes create: "writer_create pf options = Some w" and run: "run_calls hash pf w cs = Some (oks, w')"
    and "length cs < 2 ^ 32" and "\<forall>n \<le> length cs. schedule_fair pf (w_worker_count w) n"
  shows "if w_error_flag w' then writer_finalize_to_buffer hash pf w' = Inr (None, w'\<lparr>w_last_error := W_CONSTRUCTION\<rparr>)
    else if w_current_scope w' \<noteq> None then writer_finalize_to_buffer hash pf w' = Inr (None, w'\<lparr>w_last_error := W_UNCLOSED_SCOPE\<rparr>)
    else \<exists>f w''. writer_forest w' = Some f \<and> recached w' w'' \<and>
      (writer_finalize_to_buffer hash pf w' = Inr (Some (document_file hash f), w'') \<and>
         (\<exists>f''. writer_forest w'' = Some f'' \<and> (\<forall>t \<in> set f''. ready hash (file_strings f) t)) \<or>
       (\<exists>e. writer_finalize_to_buffer hash pf w' = Inr (None, w''\<lparr>w_last_error := e\<rparr>) \<and> serialize_error pf f e))"
proof (cases "w_error_flag w' \<or> w_current_scope w' \<noteq> None")
  case True
  then show ?thesis using finalize_flagged [of w'] finalize_unclosed [of w'] by auto
next
  case False
  note new = writer_create_builds [OF create]
  from calls_outcome [OF conjunct1 [OF new] conjunct2 [OF new], of hash pf cs] run False obtain f d where
    built: "build_steps hash ([], 0) cs = Some (f, d)" "builds w' f d" by auto
  have "d = 0" using built(2) False by (auto simp: builds_def last_of_def split: if_splits)
  moreover have "serializable hash pf (w_worker_count w') f"
    using assms(3,4) run_calls_workers [OF run] by (intro built_serializable [OF built(1)]) simp_all
  ultimately show ?thesis using finalize_cases [of w' f hash pf] builds_forest [OF built(2)] built(2) False by auto
qed

theorem finalisation_outcomes_witness:
  "\<exists>w w' oks. writer_create roomy None = Some w \<and> run_calls (\<lambda>_. 7) roomy w [Begin_block (Data [0x6B])] = Some (oks, w') \<and>
     writer_finalize_to_buffer (\<lambda>_. 7) roomy w' = Inr (None, w'\<lparr>w_last_error := W_UNCLOSED_SCOPE\<rparr>)"
proof -
  obtain w where w: "writer_create roomy None = Some w" "w_worker_count w = 0" using roomy_writer by blast
  note new = writer_create_builds [OF w(1)]
  have steps: "build_steps (\<lambda>_. 7) ([], 0) [Begin_block (Data [0x6B])] =
      Some ([Tree (begin_payload (\<lambda>_. 7) None (Data [0x6B]) K_BLOCK) []], 1)"
    by (simp add: begin_ok_def opens_keyed_def good_key_def)
  from calls_outcome [OF conjunct1 [OF new] conjunct2 [OF new], of "\<lambda>_. 7" roomy "[Begin_block (Data [0x6B])]"] obtain w' where
    w': "run_calls (\<lambda>_. 7) roomy w [Begin_block (Data [0x6B])] = Some ([True], w')" "\<not> w_error_flag w'"
      "builds w' [Tree (begin_payload (\<lambda>_. 7) None (Data [0x6B]) K_BLOCK) []] 1"
    using steps generous_roomy by auto
  have "w_current_scope w' \<noteq> None" using w'(3) by (auto simp: builds_def last_of_def)
  then show ?thesis
    using finalisation_outcomes [OF w(1) w'(1)] w'(1,2) w by (auto simp: schedule_fair_def)
qed

text \<open>C2. The encoder refines the layout: serialising a forest it can encode returns the concatenation of
  header, sorted root index, node layout, string pool and footer that \<open>document_file\<close> gives as a
  function of the forest, or fails for one of the listed reasons; with memory to spare and strings
  under 4 GiB it does return.\<close>

theorem serialize_refines_document_file:
  assumes "serializable hash pf workers ts"
  shows "(case serialize hash pf workers (of_nat (length ts)) ts of
      Inr out \<Rightarrow> out = document_file hash ts
    | Inl fault \<Rightarrow> \<exists>e. fault = Fails e \<and> serialize_error pf ts e) \<and>
    (generous pf \<and> length (pool_layout (file_strings ts)) < 2 ^ 32 \<longrightarrow>
      serialize hash pf workers (of_nat (length ts)) ts = Inr (document_file hash ts))"
  using serialize_cases [OF assms] by (auto simp: serialize_error_def)

lemma sample_nodes_in: "nodes_in (doc_roots (\<lambda>_. 7) sample_doc) = 4"
  by code_simp

lemma sample_serializable: "serializable (\<lambda>_. 7) roomy n (doc_roots (\<lambda>_. 7) sample_doc)"
  using file_bounds(4) [of "doc_roots (\<lambda>_. 7) sample_doc"] sample_file_length sample_nodes_in
  by (intro doc_roots_serializable [OF sample_fits]) (simp_all add: schedule_fair_def)

lemma sample_pool: "length (pool_layout (file_strings (doc_roots (\<lambda>_. 7) sample_doc))) < 2 ^ 32"
  using file_bounds(3) [of "doc_roots (\<lambda>_. 7) sample_doc"] sample_file_length by simp

theorem serialize_refines_document_file_witness:
  "serialize (\<lambda>_. 7) roomy 0 1 (doc_roots (\<lambda>_. 7) sample_doc) = Inr sample_file"
  using serialize_refines_document_file [OF sample_serializable, of 0] sample_written sample_pool
  by (simp add: sample_doc_def doc_roots_def)

text \<open>C23. Finalising in between makes no difference. Whatever a finalisation returns after some successful calls, with
  scopes open or closed and on any platform, so also when it stops half-way for lack of memory: the calls that would have
  completed the document still complete it, and the next finalisation returns the same file as if the
  first had not been.\<close>

theorem finalising_in_between_changes_no_file:
  assumes create: "writer_create pf options = Some w" and run: "run_calls hash pf w cs = Some (oks, w1)" and "list_all id oks"
    and between: "writer_finalize_to_buffer hash pf' w1 = Inr (r, w2)"
    and steps: "build_steps hash ([], 0) (cs @ ds) = Some (f, 0)" and memory: "generous pf''"
    and "length (cs @ ds) < 2 ^ 32" and "\<forall>n \<le> length (cs @ ds). schedule_fair pf'' (w_worker_count w) n"
    and small: "length (pool_layout (file_strings f)) < 2 ^ 32"
  shows "\<exists>w3 w4. run_calls hash pf'' w2 ds = Some (replicate (length ds) True, w3) \<and>
    writer_finalize_to_buffer hash pf'' w3 = Inr (Some (document_file hash f), w4)"
proof -
  note new = writer_create_builds [OF create]
  have partial: "\<not> list_all id (replicate m True @ replicate (length cs - m) False)" if "m < length cs" for m
    using that by (cases "length cs - m") simp_all
  from calls_outcome [OF conjunct1 [OF new] conjunct2 [OF new], of hash pf cs]
  obtain f1 d1 where built1: "build_steps hash ([], 0) cs = Some (f1, d1)" "builds w1 f1 d1" "\<not> w_error_flag w1"
  proof (elim disjE exE conjE)
    fix w' m assume "m < length cs" "run_calls hash pf w cs = Some (replicate m True @ replicate (length cs - m) False, w')"
    then show ?thesis using partial [of m] run assms(3) by simp
  qed (use run that in simp)
  obtain f2 where w2: "builds w2 f2 d1" "map bare f2 = map bare f1" "\<not> w_error_flag w2" "w_worker_count w2 = w_worker_count w"
    using finalize_keeps [OF built1(2,3) between] run_calls_workers [OF run] by auto
  have by1: "built_by hash (length cs) (f1, d1)" using built_by_steps [OF built1(1), of 0] by (simp add: built_by_def)
  have alike2: "alike (f1, d1) (f2, d1)" using w2(2) by1 by (simp add: alike_def built_by_def)
  have "build_steps hash (f1, d1) ds = Some (f, 0)" using steps built1(1) by (simp add: build_steps_append)
  then obtain s3 where s3: "build_steps hash (f2, d1) ds = Some s3" "alike (f, 0) s3" using alike_steps [OF _ alike2] by blast
  then obtain f3 where f3: "build_steps hash (f2, d1) ds = Some (f3, 0)" "map bare f3 = map bare f"
    by (cases s3) (auto simp: alike_def)
  obtain w3 where w3: "run_calls hash pf'' w2 ds = Some (replicate (length ds) True, w3)" "builds w3 f3 0" "\<not> w_error_flag w3"
    using calls_outcome [OF w2(1,3), of hash pf'' ds] f3(1) memory by auto
  have "built_by hash (length cs + length ds) (f3, 0)"
    using built_by_steps [OF f3(1) alike_built [OF by1 alike2]] .
  then have "serializable hash pf'' (w_worker_count w3) f3"
    using assms(7,8) run_calls_workers [OF w3(1)] w2(4) by (intro serializable_hashed) (auto simp: built_by_def)
  from finalize_cases [OF w3(2,3) this] have "\<exists>w4. writer_finalize_to_buffer hash pf'' w3 = Inr (Some (document_file hash f3), w4)"
    using memory small document_file_bare(2) [OF f3(2)] by (auto simp: serialize_error_def)
  then show ?thesis using w3(1) document_file_bare(1) [OF f3(2)] by auto
qed

definition longer_doc :: "(bytes \<times> doc) list" where
  "longer_doc = sample_doc @ [([0x7A], Leaf (L_bool True))]"

theorem finalising_in_between_changes_no_file_witness:
  "\<exists>w w1 w2 w3 w4 oks. writer_create roomy None = Some w \<and> run_calls (\<lambda>_. 7) roomy w (doc_roots_calls sample_doc) = Some (oks, w1) \<and>
     writer_finalize_to_buffer (\<lambda>_. 7) roomy w1 = Inr (Some sample_file, w2) \<and>
     run_calls (\<lambda>_. 7) roomy w2 [Set (Data [0x7A]) (L_bool True)] = Some ([True], w3) \<and>
     writer_finalize_to_buffer (\<lambda>_. 7) roomy w3 = Inr (Some (document_file (\<lambda>_. 7) (doc_roots (\<lambda>_. 7) longer_doc)), w4)"
proof -
  obtain w where w: "writer_create roomy None = Some w" "w_worker_count w = 0" using roomy_writer by blast
  have small: "file_length (doc_roots (\<lambda>_. 7) sample_doc) < 2 ^ 32" using sample_file_length by simp
  obtain w1 w2 oks where run: "run_calls (\<lambda>_. 7) roomy w (doc_roots_calls sample_doc) = Some (oks, w1)" "list_all id oks"
    "writer_finalize_to_buffer (\<lambda>_. 7) roomy w1 = Inr (Some sample_file, w2)"
    using written_forest [OF w(1) generous_roomy sample_fits small] w(2) by (auto simp: schedule_fair_def sample_written)
  have "\<forall>(k, v) \<in> set longer_doc. doc_fits (Some k) v"
    using sample_fits by (simp add: longer_doc_def good_key_def doc_arg_def good_leaf_def)
  from doc_roots_steps [OF this, of "\<lambda>_. 7" "[]"] have
    steps: "build_steps (\<lambda>_. 7) ([], 0) (doc_roots_calls sample_doc @ [Set (Data [0x7A]) (L_bool True)]) = Some (doc_roots (\<lambda>_. 7) longer_doc, 0)"
    by (simp add: longer_doc_def doc_roots_calls_def)
  have "length (doc_roots_calls sample_doc) = 6" "length (pool_layout (file_strings (doc_roots (\<lambda>_. 7) longer_doc))) = 24" by code_simp+
  then show ?thesis
    using finalising_in_between_changes_no_file [OF w(1) run steps generous_roomy] w run by (fastforce simp: schedule_fair_def)
qed

end
