(* ===== verification/Large_Files.thy ===== *)
theory Large_Files
  imports Document_Properties
begin

text \<open>
  What happens over 4 GiB, the range of the 32-bit pool offsets: a document of two entries whose file the
  writer returns and the reader opens, but in which one of the keys is not found.
\<close>

text \<open>A string of \<open>2 ^ 32 - 100\<close> zero bytes under the key k, and null under the key z.\<close>

definition large_size :: nat where
  "large_size = 4294967196"

definition large_string :: bytes where
  "large_string = replicate large_size 0"

definition large_doc :: "(bytes \<times> doc) list" where
  "large_doc = [([0x6B], Leaf (L_string large_string)), ([0x7A], Leaf L_null)]"

lemma large_sizes: "large_size < 2 ^ 32" "align_up_nat large_size 4 = large_size" "length large_string = large_size"
  by (simp_all add: large_size_def align_up_nat_def large_string_def)

lemma large_string_other [simp]: "large_string \<noteq> [x]" "[x] \<noteq> large_string" "large_string \<noteq> []"
proof -
  have "length large_string \<noteq> 1" "length large_string \<noteq> 0" by (simp_all only: large_sizes) (simp_all add: large_size_def)
  then show "large_string \<noteq> [x]" "[x] \<noteq> large_string" "large_string \<noteq> []" by (metis One_nat_def length_Cons list.size(3))+
qed

lemma large_fits: "\<forall>(k, v) \<in> set large_doc. doc_fits (Some k) v"
  using large_sizes by (simp add: large_doc_def good_key_def doc_arg_def good_leaf_def)

abbreviation large_roots :: "(bytes \<Rightarrow> u64) \<Rightarrow> tree list" where
  "large_roots hash \<equiv> doc_roots hash large_doc"

lemma large_roots_eq:
  "large_roots hash = [Tree (with_leaf (L_string large_string) (keyed hash [0x6B] (plain K_STRING))) [], Tree (keyed hash [0x7A] (plain K_NULL)) []]"
  by (simp add: doc_roots_def large_doc_def doc_payload_def)

lemma large_payloads:
  "node_key (q\<lparr>pl_string_data := d, pl_string_length := n\<rparr>) = node_key q" "node_key (keyed hash [x] p) = [x]"
  "node_string (q\<lparr>pl_string_data := Some large_string, pl_string_length := of_nat (length large_string)\<rparr>) = large_string"
  using large_sizes by (simp_all add: node_key_def node_string_def node_view_def stored_def)

lemma large_strings: "file_strings (large_roots hash) = [[0x6B], large_string, [0x7A]]"
  by (simp add: large_roots_eq file_strings_def collected_payload_def large_payloads late_key_def late.simps stored_def remember_def)

lemma large_layout:
  "values_end 0 (large_roots hash) = 13" "nodes_start (large_roots hash) = 176" "strings_start (large_roots hash) = 189"
  "length (pool_layout (file_strings (large_roots hash))) = large_size + 20"
proof -
  show ends: "values_end 0 (large_roots hash) = 13"
    by (simp add: large_roots_eq is_container_kind_def body_position_def kind_position_def align_up_nat_def)
  show "nodes_start (large_roots hash) = 176" by (simp add: nodes_start_def large_roots_eq)
  then show "strings_start (large_roots hash) = 189" by (simp add: strings_start_def ends)
  have "align_up_nat (Suc 0) 4 = 4" by (simp add: align_up_nat_def)
  then show "length (pool_layout (file_strings (large_roots hash))) = large_size + 20" by (simp add: large_strings large_sizes)
qed

lemma large_file_length: "file_length (large_roots hash) = large_size + 241"
  by (simp add: file_length_def large_layout)

section \<open>The file\<close>

lemma large_bounds: "file_length (large_roots hash) < 2 ^ 63" "length (large_roots hash) < 2 ^ 32" "2 ^ 32 < file_length (large_roots hash)"
proof -
  show "file_length (large_roots hash) < 2 ^ 63" "2 ^ 32 < file_length (large_roots hash)" by (simp_all add: large_file_length large_size_def)
  show "length (large_roots hash) < 2 ^ 32" by (simp add: large_roots_eq)
qed

lemma large_reader: "wf_reader (document_reader hash (large_roots hash))"
  by (rule large_wf [OF large_bounds(1,2)])

text \<open>The offset of the first key is right; that of the second has lost \<open>2 ^ 32\<close> and points into the header.\<close>

lemma large_offsets: "file_offset (large_roots hash) [0x6B] = 189" "file_offset (large_roots hash) [0x7A] = 101"
proof -
  have "align_up_nat (Suc 0) 4 = 4" by (simp add: align_up_nat_def)
  then have "string_offset (file_strings (large_roots hash)) [0x6B] = 0"
    "string_offset (file_strings (large_roots hash)) [0x7A] = large_size + 12"
    by (simp_all add: large_strings string_offset_def large_sizes)
  then show "file_offset (large_roots hash) [0x6B] = 189" "file_offset (large_roots hash) [0x7A] = 101"
    by (simp_all add: file_offset_def moved_offset_def intra_def large_layout) (simp add: large_size_def)
qed

lemma large_reads:
  "fetch (document_file hash (large_roots hash)) 193 1 = Inr [0x6B]" "fetch (document_file hash (large_roots hash)) 105 1 = Inr [0]"
proof -
  let ?r = "document_reader hash (large_roots hash)"
  have "holds_at ?r 189 (pool_record [0x6B] @ pool_layout [large_string, [0x7A]])"
    using document_holds(3) [of hash "large_roots hash"] by (simp add: large_strings large_layout)
  then have "holds_at ?r 189 (store_u32 1 @ [0x6B] @ (zeros (align_up_nat 1 4 - 1) @ pool_layout [large_string, [0x7A]]))"
    by (simp add: pool_record_def)
  then have "holds_at ?r (189 + length (store_u32 1)) [0x6B]" unfolding holds_at_append by blast
  then have "holds_at ?r 193 [0x6B]" by simp
  from holds_at_fetch [OF large_reader this, of 1] show "fetch (document_file hash (large_roots hash)) 193 1 = Inr [0x6B]" by simp
  let ?h = "document_header hash (large_roots hash)"
  have "store_header ?h = take 104 (store_header ?h) @ zeros 24"
    by (simp add: store_header_def) (simp add: document_header_def file_header_def)
  then have "document_file hash (large_roots hash) = take 104 (store_header ?h) @ zeros 24 @ file_payload hash (large_roots hash) @
      store_footer (file_footer (file_length (large_roots hash)) (hash (file_payload hash (large_roots hash))))"
    unfolding document_file_parts by (metis append_assoc)
  moreover have "length (take 104 (store_header ?h)) = 104" by (simp del: length_take add: length_take [of 104])
  ultimately have "holds_at ?r 104 (zeros 24)" by (metis document_reader_simps(1) holds_at_region)
  moreover have "zeros 24 = [0] @ [0] @ zeros 22" by (simp add: zeros_def numeral_eq_Suc)
  ultimately have "holds_at ?r 104 ([0] @ [0] @ zeros 22)" by (simp only:)
  then have "holds_at ?r (104 + length [0 :: byte]) [0]" unfolding holds_at_append by blast
  then have "holds_at ?r 105 [0]" by simp
  from holds_at_fetch [OF large_reader this, of 1] show "fetch (document_file hash (large_roots hash)) 105 1 = Inr [0]" by simp
qed

lemma large_key_lost: "reader_find_root_offset hash (document_reader hash (large_roots hash)) [0x7A] = Inl Rejected"
proof (rule root_index.find_absent)
  let ?r = "document_reader hash (large_roots hash)"
  note table = large_root_table [OF large_bounds(1,2), of hash hash]
  have "ent_key_hash64 \<circ> stored_entry = pe_key_hash64" by (auto simp: stored_entry_def)
  then show "root_holds ?r (root_table ?r)" using large_reader by (simp add: root_holds_def table hash_sorted_def root_entries_def)
  fix e assume "e \<in> set (root_table ?r)"
  then have "\<exists>t \<in> set (large_roots hash). ent_key_pool_offset e = file_offset (large_roots hash) (node_key (tr_payload t)) \<and>
      ent_key_length e = of_nat (length (node_key (tr_payload t)))"
    unfolding table root_entries_def by (fastforce simp: in_pendings stored_entry_def pending_for_def dest: set_zip_leftD)
  moreover have "node_key (tr_payload t) = [0x6B] \<or> node_key (tr_payload t) = [0x7A]" if "t \<in> set (large_roots hash)" for t
    using that by (auto simp: large_roots_eq large_payloads)
  ultimately obtain x where x: "x = 0x6B \<or> x = 0x7A" "ent_key_pool_offset e = file_offset (large_roots hash) [x]" "ent_key_length e = 1"
    by fastforce
  have "unat (of_nat (file_length (large_roots hash)) :: u64) = large_size + 241" by (simp add: large_file_length large_size_def)
  then have "reader_key_equals ?r e [0x7A] = Inr False"
    using x by (auto simp: reader_key_equals_def large_offsets large_reads [simplified] word_less_nat_alt large_size_def)
  then show "\<not> hit ?r (hash [0x7A]) [0x7A] e" by (simp add: hit_def)
qed

text \<open>C25. The size of a file is not checked. Over 4 GiB the offset of a key wraps: the calls for a document of two entries, a
  string of almost 4 GiB and null, succeed, finalisation returns a file without an error, the reader opens it, and the second
  key is not found in it, whatever the hash function.\<close>

theorem large_file_loses_a_key:
  assumes "writer_create pf options = Some w" and "generous pf"
  shows "\<exists>w' w'' oks out r. run_calls hash pf w (doc_roots_calls large_doc) = Some (oks, w') \<and> list_all id oks \<and>
    writer_finalize_to_buffer hash pf w' = Inr (Some out, w'') \<and> 2 ^ 32 < length out \<and> reader_open_buffer pf out = Inr r \<and>
    reader_find_root_offset hash r [0x7A] = Inl Rejected"
proof -
  note new = writer_create_builds [OF assms(1)]
  have steps: "build_steps hash ([], 0) (doc_roots_calls large_doc) = Some (large_roots hash, 0)"
    using doc_roots_steps [OF large_fits, of hash "[]"] by simp
  from calls_outcome [OF conjunct1 [OF new] conjunct2 [OF new], of hash pf "doc_roots_calls large_doc"] obtain w' where
    run: "run_calls hash pf w (doc_roots_calls large_doc) = Some (replicate (length (doc_roots_calls large_doc)) True, w')"
    and built: "builds w' (large_roots hash) 0" "\<not> w_error_flag w'"
    using steps assms(2) by auto
  have "nodes_in (large_roots hash) = 2" by (simp add: large_roots_eq)
  then have "serializable hash pf (w_worker_count w') (large_roots hash)"
    by (intro doc_roots_serializable [OF large_fits]) (simp_all add: large_layout schedule_fair_def)
  from finalize_cases [OF built this] obtain w'' where
    "writer_finalize_to_buffer hash pf w' = Inr (Some (document_file hash (large_roots hash)), w'')"
    using assms(2) by (auto simp: serialize_error_def large_layout large_size_def)
  moreover have "reader_open_buffer pf (document_file hash (large_roots hash)) = Inr (document_reader hash (large_roots hash))"
    using large_opens [OF large_bounds(1,2)] assms(2) by (simp add: generous_def)
  ultimately show ?thesis using run large_key_lost large_bounds(3) [of hash]
    by (intro exI [of _ w'] exI [of _ w''] exI [of _ "replicate (length (doc_roots_calls large_doc)) True"]
        exI [of _ "document_file hash (large_roots hash)"] exI [of _ "document_reader hash (large_roots hash)"]) (simp add: list_all_iff)
qed

theorem large_file_loses_a_key_witness:
  "\<exists>w w' w'' oks out r. writer_create roomy None = Some w \<and> run_calls (\<lambda>_. 7) roomy w (doc_roots_calls large_doc) = Some (oks, w') \<and>
    writer_finalize_to_buffer (\<lambda>_. 7) roomy w' = Inr (Some out, w'') \<and> reader_open_buffer roomy out = Inr r \<and>
    reader_find_root_offset (\<lambda>_. 7) r [0x7A] = Inl Rejected"
proof -
  obtain w where w: "writer_create roomy None = Some w" using roomy_writer by blast
  from large_file_loses_a_key [OF w generous_roomy, of "\<lambda>_. 7"] w show ?thesis by blast
qed

end
