(* ===== verification/Convert.thy ===== *)
theory Convert
  imports Finalize
begin

text \<open>
  The conversion of JSON text (\<open>src/convert/bc_hrbl_convert_json.c\<close>). The parser and the value
  tree are json-c's, which is not part of the repository: \<open>json\<close> records what json-c's accessors
  answer about a value, and the tokener is an argument of the definitions. The lemmas show
  that the walk over the tree makes the calls of the document the tree stands for, up to the
  first one that fails.
\<close>

section \<open>What the code sees of json-c\<close>

text \<open>
  A value by its type and the answers of the accessors the code calls on that type:
  \<open>json_object_get_boolean\<close>; \<open>json_object_get_int64\<close> and \<open>json_object_get_uint64\<close>;
  \<open>json_object_get_double\<close>, by its IEEE bits; the characters and the length of a string, a C
  \<open>int\<close>; the elements of an array; the names and values of an object in the order of the
  iterator. A null pointer is \<open>None\<close>; a name is the memory it points to, which ends at
  the first zero byte or at the end of the list. \<open>J_other\<close> is a type outside the enumeration.
\<close>

datatype json =
    J_null
  | J_boolean bool
  | J_int u64 u64
  | J_double u64
  | J_string bytes u32
  | J_array "json option list"
  | J_object "(bytes option \<times> json option) list"
  | J_other

text \<open>The answer of the tokener: the value, the description of an error, where it stopped.\<close>

record parsed =
  ps_root :: "json option"
  ps_error :: "string option"
  ps_end :: nat

record convert_error =
  ce_message :: "string option"
  ce_byte_offset :: nat
  ce_line :: nat
  ce_column :: nat

text \<open>The client's error record; \<open>None\<close> when it passes a null pointer.\<close>

type_synonym sink = "convert_error option"

definition convert_error_set :: "sink \<Rightarrow> string \<Rightarrow> nat \<Rightarrow> sink" where
  "convert_error_set sink message byte_offset =
     (case sink of
        None \<Rightarrow> None
      | Some _ \<Rightarrow> Some \<lparr>ce_message = Some message, ce_byte_offset = byte_offset, ce_line = 0, ce_column = 0\<rparr>)"

section \<open>The walk\<close>

text \<open>
  The result of the writer calls, passed on with the sink; a call whose failure is reported;
  and the sequence of two steps, the second only after a success. The outer \<open>None\<close> is a
  store through a null pointer inside the writer.
\<close>

type_synonym walk = "(bool \<times> writer \<times> sink) option"

definition passes_on :: "(bool \<times> writer) option \<Rightarrow> sink \<Rightarrow> walk" where
  "passes_on r sink = map_option (\<lambda>(ok, w). (ok, w, sink)) r"

definition reports :: "(bool \<times> writer) option \<Rightarrow> sink \<Rightarrow> string \<Rightarrow> walk" where
  "reports r sink message =
     map_option (\<lambda>(ok, w). (ok, w, if ok then sink else convert_error_set sink message 0)) r"

definition on_success :: "walk \<Rightarrow> (writer \<Rightarrow> sink \<Rightarrow> walk) \<Rightarrow> walk" where
  "on_success r f =
     (case r of None \<Rightarrow> None | Some (ok, w, sink) \<Rightarrow> if ok then f w sink else Some (False, w, sink))"

lemma on_success_cong [fundef_cong]:
  "r = r' \<Longrightarrow> (\<And>w sink. f w sink = f' w sink) \<Longrightarrow> on_success r f = on_success r' f'"
  by (simp add: on_success_def split: option.splits)

definition INT64_MAX :: u64 where
  "INT64_MAX = 0x7FFFFFFFFFFFFFFF"

definition emit_number_keyed :: "(bytes \<Rightarrow> u64) \<Rightarrow> platform \<Rightarrow> writer \<Rightarrow> arg \<Rightarrow> json \<Rightarrow> sink \<Rightarrow> walk" where
  "emit_number_keyed hash pf w key v sink =
     (case v of
        J_int signed_value unsigned_value \<Rightarrow>
          if signed_value = INT64_MAX \<and> unsigned_value > INT64_MAX
          then passes_on (writer_set_uint64 hash pf w key unsigned_value) sink
          else passes_on (writer_set_int64 hash pf w key signed_value) sink
      | J_double d \<Rightarrow> passes_on (writer_set_float64 hash pf w key d) sink
      | _ \<Rightarrow> Some (False, w, convert_error_set sink ''unsupported numeric type'' 0))"

definition emit_number_indexed :: "(bytes \<Rightarrow> u64) \<Rightarrow> platform \<Rightarrow> writer \<Rightarrow> json \<Rightarrow> sink \<Rightarrow> walk" where
  "emit_number_indexed hash pf w v sink =
     (case v of
        J_int signed_value unsigned_value \<Rightarrow>
          if signed_value = INT64_MAX \<and> unsigned_value > INT64_MAX
          then passes_on (writer_append_uint64 hash pf w unsigned_value) sink
          else passes_on (writer_append_int64 hash pf w signed_value) sink
      | J_double d \<Rightarrow> passes_on (writer_append_float64 hash pf w d) sink
      | _ \<Rightarrow> Some (False, w, convert_error_set sink ''unsupported numeric type'' 0))"

text \<open>The key of a member: the null pointer with length 0, or the bytes up to \<open>strlen\<close>.\<close>

definition member_key :: "bytes option \<Rightarrow> arg" where
  "member_key name = (case name of None \<Rightarrow> Null 0 | Some k \<Rightarrow> Data (takeWhile (\<lambda>c. c \<noteq> 0) k))"

fun emit_value_keyed :: "(bytes \<Rightarrow> u64) \<Rightarrow> platform \<Rightarrow> writer \<Rightarrow> arg \<Rightarrow> json option \<Rightarrow> sink \<Rightarrow> walk"
  and emit_value_indexed :: "(bytes \<Rightarrow> u64) \<Rightarrow> platform \<Rightarrow> writer \<Rightarrow> json option \<Rightarrow> sink \<Rightarrow> walk"
  and emit_object_body :: "(bytes \<Rightarrow> u64) \<Rightarrow> platform \<Rightarrow> writer \<Rightarrow> (bytes option \<times> json option) list \<Rightarrow> sink \<Rightarrow> walk"
  and emit_array_body :: "(bytes \<Rightarrow> u64) \<Rightarrow> platform \<Rightarrow> writer \<Rightarrow> json option list \<Rightarrow> sink \<Rightarrow> walk" where
  "emit_value_keyed hash pf w key None sink = passes_on (writer_set_null hash pf w key) sink"
| "emit_value_keyed hash pf w key (Some v) sink =
     (case v of
        J_null \<Rightarrow> passes_on (writer_set_null hash pf w key) sink
      | J_boolean b \<Rightarrow> passes_on (writer_set_bool hash pf w key b) sink
      | J_int _ _ \<Rightarrow> emit_number_keyed hash pf w key v sink
      | J_double _ \<Rightarrow> emit_number_keyed hash pf w key v sink
      | J_string data len \<Rightarrow>
          if sint len < 0 then Some (False, w, convert_error_set sink ''invalid string length'' 0)
          else passes_on (writer_set_string hash pf w key (take (unat len) data)) sink
      | J_array vs \<Rightarrow>
          on_success (reports (writer_begin_array hash pf w key) sink ''writer begin_array failed'') (\<lambda>w sink.
          on_success (emit_array_body hash pf w vs sink) (\<lambda>w sink.
            reports (Some (writer_end_array w)) sink ''writer end_array failed''))
      | J_object ms \<Rightarrow>
          on_success (reports (writer_begin_block hash pf w key) sink ''writer begin_block failed'') (\<lambda>w sink.
          on_success (emit_object_body hash pf w ms sink) (\<lambda>w sink.
            reports (Some (writer_end_block w)) sink ''writer end_block failed''))
      | J_other \<Rightarrow> Some (False, w, convert_error_set sink ''unknown JSON type'' 0))"
| "emit_value_indexed hash pf w None sink = passes_on (writer_append_null hash pf w) sink"
| "emit_value_indexed hash pf w (Some v) sink =
     (case v of
        J_null \<Rightarrow> passes_on (writer_append_null hash pf w) sink
      | J_boolean b \<Rightarrow> passes_on (writer_append_bool hash pf w b) sink
      | J_int _ _ \<Rightarrow> emit_number_indexed hash pf w v sink
      | J_double _ \<Rightarrow> emit_number_indexed hash pf w v sink
      | J_string data len \<Rightarrow>
          if sint len < 0 then Some (False, w, convert_error_set sink ''invalid string length'' 0)
          else passes_on (writer_append_string hash pf w (take (unat len) data)) sink
      | J_array vs \<Rightarrow>
          on_success (reports (writer_begin_array hash pf w (Null 0)) sink ''writer begin_array failed'') (\<lambda>w sink.
          on_success (emit_array_body hash pf w vs sink) (\<lambda>w sink.
            reports (Some (writer_end_array w)) sink ''writer end_array failed''))
      | J_object ms \<Rightarrow>
          on_success (reports (writer_begin_block hash pf w (Null 0)) sink ''writer begin_block failed'') (\<lambda>w sink.
          on_success (emit_object_body hash pf w ms sink) (\<lambda>w sink.
            reports (Some (writer_end_block w)) sink ''writer end_block failed''))
      | J_other \<Rightarrow> Some (False, w, convert_error_set sink ''unknown JSON type'' 0))"
| "emit_object_body hash pf w [] sink = Some (True, w, sink)"
| "emit_object_body hash pf w ((name, v) # ms) sink =
     on_success (emit_value_keyed hash pf w (member_key name) v sink) (\<lambda>w sink. emit_object_body hash pf w ms sink)"
| "emit_array_body hash pf w [] sink = Some (True, w, sink)"
| "emit_array_body hash pf w (v # vs) sink =
     on_success (emit_value_indexed hash pf w v sink) (\<lambda>w sink. emit_array_body hash pf w vs sink)"

section \<open>The entry points\<close>

definition is_json_space :: "byte \<Rightarrow> bool" where
  "is_json_space c \<longleftrightarrow> c = 0x20 \<or> c = 0x09 \<or> c = 0x0A \<or> c = 0x0D"

text \<open>The scan of the text after the root value: the offset of the first byte that is not a space.\<close>

fun trailing_content :: "nat \<Rightarrow> bytes \<Rightarrow> nat option" where
  "trailing_content off [] = None"
| "trailing_content off (c # cs) = (if is_json_space c then trailing_content (off + 1) cs else Some off)"

text \<open>
  The tokener, for a text: \<open>None\<close> when \<open>json_tokener_new\<close> returns a null pointer. The writer and
  the text are \<open>None\<close> for a null pointer.
\<close>

definition convert_json_to_writer ::
    "(bytes \<Rightarrow> parsed option) \<Rightarrow> (bytes \<Rightarrow> u64) \<Rightarrow> platform \<Rightarrow> writer option \<Rightarrow> bytes option \<Rightarrow> sink \<Rightarrow>
       (bool \<times> writer option \<times> sink) option" where
  "convert_json_to_writer tokener hash pf writer json_text out_error =
     (let out_error = map_option (\<lambda>_. \<lparr>ce_message = None, ce_byte_offset = 0, ce_line = 0, ce_column = 0\<rparr>) out_error
      in case (writer, json_text) of
        (Some w, Some text) \<Rightarrow>
          if length text > 2147483647
          then Some (False, writer, convert_error_set out_error ''input larger than json-c INT32_MAX limit'' (length text))
          else (case tokener text of
            None \<Rightarrow> Some (False, writer, convert_error_set out_error ''json_tokener_new failed'' 0)
          | Some p \<Rightarrow> (case ps_error p of
              Some description \<Rightarrow> Some (False, writer, convert_error_set out_error description (ps_end p))
            | None \<Rightarrow> (case ps_root p of
                None \<Rightarrow> Some (False, writer, convert_error_set out_error ''empty JSON input'' 0)
              | Some root \<Rightarrow> (case trailing_content (ps_end p) (drop (ps_end p) text) of
                  Some off \<Rightarrow> Some (False, writer, convert_error_set out_error ''trailing content after root value'' off)
                | None \<Rightarrow> (case root of
                    J_object ms \<Rightarrow> map_option (\<lambda>(ok, w, sink). (ok, Some w, sink)) (emit_object_body hash pf w ms out_error)
                  | _ \<Rightarrow> Some (False, writer, convert_error_set out_error ''root value must be an object'' 0))))))
      | _ \<Rightarrow> Some (False, writer, out_error))"

text \<open>
  Text to buffer. The first three flags say that the pointers to the memory context and to the
  two results are not null. The result is the bytes and the client's error record; the fault
  \<open>Out_of_bounds\<close> is a store through a null pointer in the writer.
\<close>

definition convert_json_buffer_to_hrbl ::
    "(bytes \<Rightarrow> parsed option) \<Rightarrow> (bytes \<Rightarrow> u64) \<Rightarrow> platform \<Rightarrow> bool \<Rightarrow> bool \<Rightarrow> bool \<Rightarrow> bytes option \<Rightarrow> sink \<Rightarrow>
       fault + bytes option \<times> sink" where
  "convert_json_buffer_to_hrbl tokener hash pf memory_context out_hrbl_buffer out_hrbl_size json_text out_error =
     (if \<not> memory_context \<or> json_text = None \<or> \<not> out_hrbl_buffer \<or> \<not> out_hrbl_size then Inr (None, out_error)
      else case writer_create pf None of
        None \<Rightarrow> Inr (None, out_error)
      | Some w \<Rightarrow>
          (case convert_json_to_writer tokener hash pf (Some w) json_text out_error of
            None \<Rightarrow> Inl Out_of_bounds
          | Some (ok, writer, sink) \<Rightarrow>
              if \<not> ok then Inr (None, sink)
              else bindE (writer_finalize_to_buffer hash pf (the writer)) (\<lambda>(out, _). Inr (out, sink))))"

section \<open>The document of a value\<close>

text \<open>The document that a value stands for, and the values that json-c documents: every member has
  a name, a string is as long as its length says, and the type is one of the enumeration.\<close>

fun json_doc :: "json option \<Rightarrow> doc" where
  "json_doc None = Leaf L_null"
| "json_doc (Some J_null) = Leaf L_null"
| "json_doc (Some (J_boolean b)) = Leaf (L_bool b)"
| "json_doc (Some (J_int s u)) = Leaf (if s = INT64_MAX \<and> u > INT64_MAX then L_uint64 u else L_int64 s)"
| "json_doc (Some (J_double d)) = Leaf (L_float64 d)"
| "json_doc (Some (J_string data len)) = Leaf (L_string data)"
| "json_doc (Some (J_array vs)) = Array (map json_doc vs)"
| "json_doc (Some (J_object ms)) = Block (map (\<lambda>(name, v). (takeWhile (\<lambda>c. c \<noteq> 0) (the name), json_doc v)) ms)"
| "json_doc (Some J_other) = Leaf L_null"

definition json_members :: "(bytes option \<times> json option) list \<Rightarrow> (bytes \<times> doc) list" where
  "json_members ms = map (\<lambda>(name, v). (takeWhile (\<lambda>c. c \<noteq> 0) (the name), json_doc v)) ms"

fun documented :: "json option \<Rightarrow> bool" where
  "documented (Some (J_string data len)) \<longleftrightarrow> 0 \<le> sint len \<and> unat len = length data"
| "documented (Some (J_array vs)) \<longleftrightarrow> (\<forall>v \<in> set vs. documented v)"
| "documented (Some (J_object ms)) \<longleftrightarrow> (\<forall>(name, v) \<in> set ms. name \<noteq> None \<and> documented v)"
| "documented (Some J_other) \<longleftrightarrow> False"
| "documented _ \<longleftrightarrow> True"

section \<open>The walk makes the calls of the document\<close>

text \<open>A sequence of calls that ends with the first failure.\<close>

fun run_until :: "(bytes \<Rightarrow> u64) \<Rightarrow> platform \<Rightarrow> writer \<Rightarrow> call list \<Rightarrow> (bool \<times> writer) option" where
  "run_until hash pf w [] = Some (True, w)"
| "run_until hash pf w (c # cs) =
     (case writer_call hash pf w c of
        None \<Rightarrow> None
      | Some (ok, w) \<Rightarrow> if ok then run_until hash pf w cs else Some (False, w))"

lemma run_until_append:
  "run_until hash pf w (cs @ ds) =
     (case run_until hash pf w cs of None \<Rightarrow> None | Some (ok, w) \<Rightarrow> if ok then run_until hash pf w ds else Some (False, w))"
  by (induction cs arbitrary: w) (auto split: option.splits)

text \<open>The walk does what the calls do, and leaves the sink alone when they succeed.\<close>

definition walks :: "walk \<Rightarrow> (bool \<times> writer) option \<Rightarrow> sink \<Rightarrow> bool" where
  "walks r calls sink \<longleftrightarrow>
     (case r of None \<Rightarrow> calls = None | Some (ok, w, sink') \<Rightarrow> calls = Some (ok, w) \<and> (ok \<longrightarrow> sink' = sink))"

lemma walks_passes_on: "walks (passes_on r sink) r sink"
  by (cases r) (auto simp: walks_def passes_on_def)

lemma walks_reports: "walks (reports r sink message) r sink"
  by (cases r) (auto simp: walks_def reports_def)

lemma walks_sequence:
  assumes "walks r (run_until hash pf w cs) sink" and "\<And>w. walks (f w sink) (run_until hash pf w ds) sink"
  shows "walks (on_success r f) (run_until hash pf w (cs @ ds)) sink"
proof (cases r)
  case None
  then show ?thesis using assms(1) by (simp add: walks_def on_success_def run_until_append)
next
  case (Some x)
  obtain ok w' sink' where x: "x = (ok, w', sink')" by (cases x)
  have "run_until hash pf w cs = Some (ok, w')" "ok \<longrightarrow> sink' = sink"
    using assms(1) by (simp_all add: walks_def Some x)
  then show ?thesis
    using assms(2) [of w'] by (cases ok) (simp_all add: Some x on_success_def run_until_append, simp add: walks_def)
qed

lemma run_until_one: "run_until hash pf w [c] = writer_call hash pf w c"
  by (auto split: option.splits)

lemma walks_Cons:
  assumes "walks r (writer_call hash pf w c) sink" and "\<And>w. walks (f w sink) (run_until hash pf w ds) sink"
  shows "walks (on_success r f) (run_until hash pf w (c # ds)) sink"
  using walks_sequence [of r hash pf w "[c]" sink f ds] assms by (simp only: run_until_one append.simps)

lemma walks_container:
  assumes "opening = writer_call hash pf w c"
    and "\<And>w. Some (closing w) = writer_call hash pf w c'"
    and "\<And>w. walks (body w sink) (run_until hash pf w cs) sink"
  shows "walks (on_success (reports opening sink m) (\<lambda>w sink. on_success (body w sink) (\<lambda>w sink. reports (Some (closing w)) sink m')))
    (run_until hash pf w (c # cs @ [c'])) sink"
proof (rule walks_Cons)
  show "walks (reports opening sink m) (writer_call hash pf w c) sink" by (simp add: assms(1) walks_reports)
  show "walks (on_success (body w sink) (\<lambda>w sink. reports (Some (closing w)) sink m')) (run_until hash pf w (cs @ [c'])) sink" for w
    by (rule walks_sequence [OF assms(3)]) (simp only: run_until_one assms(2) walks_reports)
qed

lemma walk_number:
  "walks (emit_number_keyed hash pf w key (J_int s u) sink)
     (writer_set hash pf w key (if s = INT64_MAX \<and> u > INT64_MAX then L_uint64 u else L_int64 s)) sink"
  "walks (emit_number_keyed hash pf w key (J_double d) sink) (writer_set hash pf w key (L_float64 d)) sink"
  "walks (emit_number_indexed hash pf w (J_int s u) sink)
     (writer_append hash pf w (if s = INT64_MAX \<and> u > INT64_MAX then L_uint64 u else L_int64 s)) sink"
  "walks (emit_number_indexed hash pf w (J_double d) sink) (writer_append hash pf w (L_float64 d)) sink"
  by (auto simp: emit_number_keyed_def emit_number_indexed_def intro: walks_passes_on)

lemma walk_is_calls:
  shows "documented v \<Longrightarrow> key = Data k \<Longrightarrow>
      walks (emit_value_keyed hash pf w key v sink) (run_until hash pf w (doc_calls (Some k) (json_doc v))) sink"
    and "documented v \<Longrightarrow>
      walks (emit_value_indexed hash pf w v sink) (run_until hash pf w (doc_calls None (json_doc v))) sink"
    and "documented (Some (J_object ms)) \<Longrightarrow>
      walks (emit_object_body hash pf w ms sink) (run_until hash pf w (doc_roots_calls (json_members ms))) sink"
    and "documented (Some (J_array vs)) \<Longrightarrow>
      walks (emit_array_body hash pf w vs sink) (run_until hash pf w (concat (map (doc_calls None) (map json_doc vs)))) sink"
proof (induction hash pf w key v sink and hash pf w v sink and hash pf w ms sink and hash pf w vs sink
    arbitrary: k rule: emit_value_keyed_emit_value_indexed_emit_object_body_emit_array_body.induct)
  case (1 hash pf w key sink)
  then show ?case by (simp add: run_until_one walks_passes_on del: run_until.simps)
next
  case (2 hash pf w key v sink)
  show ?case
  proof (cases v)
    case (J_array vs)
    have "walks (emit_array_body hash pf w' vs sink) (run_until hash pf w' (concat (map (doc_calls None) (map json_doc vs)))) sink" for w'
      using 2 J_array by simp
    then show ?thesis using walks_container [of _ hash pf w "Begin_array key" writer_end_array End_array] 2(4)
      by (simp add: J_array doc_arg_def del: run_until.simps)
  next
    case (J_object ms)
    have "walks (emit_object_body hash pf w' ms sink) (run_until hash pf w' (doc_roots_calls (json_members ms))) sink" for w'
      using 2 J_object by simp
    then show ?thesis using walks_container [of _ hash pf w "Begin_block key" writer_end_block End_block] 2(4)
      by (simp add: J_object doc_arg_def doc_roots_calls_def json_members_def del: run_until.simps)
  qed (use 2 in \<open>simp_all add: run_until_one walks_passes_on walk_number walk_number [simplified] del: run_until.simps\<close>)
next
  case (3 hash pf w sink)
  then show ?case by (simp add: run_until_one walks_passes_on del: run_until.simps)
next
  case (4 hash pf w v sink)
  show ?case
  proof (cases v)
    case (J_array vs)
    have "walks (emit_array_body hash pf w' vs sink) (run_until hash pf w' (concat (map (doc_calls None) (map json_doc vs)))) sink" for w'
      using 4 J_array by simp
    then show ?thesis using walks_container [of _ hash pf w "Begin_array (Null 0)" writer_end_array End_array]
      by (simp add: J_array doc_arg_def del: run_until.simps)
  next
    case (J_object ms)
    have "walks (emit_object_body hash pf w' ms sink) (run_until hash pf w' (doc_roots_calls (json_members ms))) sink" for w'
      using 4 J_object by simp
    then show ?thesis using walks_container [of _ hash pf w "Begin_block (Null 0)" writer_end_block End_block]
      by (simp add: J_object doc_arg_def doc_roots_calls_def json_members_def del: run_until.simps)
  qed (use 4 in \<open>simp_all add: run_until_one walks_passes_on walk_number walk_number [simplified] del: run_until.simps\<close>)
next
  case (5 hash pf w sink)
  then show ?case by (simp add: walks_def doc_roots_calls_def json_members_def)
next
  case (6 hash pf w name v ms sink)
  have "walks (emit_value_keyed hash pf w (member_key name) v sink)
      (run_until hash pf w (doc_calls (Some (takeWhile (\<lambda>c. c \<noteq> 0) (the name))) (json_doc v))) sink"
    using 6 by (auto simp: member_key_def)
  moreover have "walks (emit_object_body hash pf w' ms sink) (run_until hash pf w' (doc_roots_calls (json_members ms))) sink" for w'
    using 6 by simp
  ultimately show ?case
    using walks_sequence by (simp add: doc_roots_calls_def json_members_def del: run_until.simps)
next
  case (7 hash pf w sink)
  then show ?case by (simp add: walks_def)
next
  case (8 hash pf w v vs sink)
  have "walks (emit_value_indexed hash pf w v sink) (run_until hash pf w (doc_calls None (json_doc v))) sink"
    using 8 by simp
  moreover have "walks (emit_array_body hash pf w' vs sink) (run_until hash pf w' (concat (map (doc_calls None) (map json_doc vs)))) sink" for w'
    using 8 by simp
  ultimately show ?case using walks_sequence by (simp del: run_until.simps)
qed

text \<open>Up to the first failure the calls have their abstract effect; a failure leaves the error flag.\<close>

lemma run_until_outcome:
  assumes "builds w f d" and "\<not> w_error_flag w"
  shows "(\<exists>w' f' d'. run_until hash pf w cs = Some (True, w') \<and> run_calls hash pf w cs = Some (replicate (length cs) True, w') \<and>
        build_steps hash (f, d) cs = Some (f', d') \<and> builds w' f' d' \<and> \<not> w_error_flag w') \<or>
      (\<exists>w'. run_until hash pf w cs = Some (False, w') \<and> w_error_flag w' \<and> (generous pf \<longrightarrow> build_steps hash (f, d) cs = None))"
  using assms
proof (induction cs arbitrary: w f d)
  case (Cons c cs)
  obtain ok w1 where call: "writer_call hash pf w c = Some (ok, w1)"
    and out: "if ok then \<exists>f' d'. build_step hash (f, d) c = Some (f', d') \<and> builds w1 f' d' \<and> \<not> w_error_flag w1
              else w_error_flag w1 \<and> (generous pf \<longrightarrow> build_step hash (f, d) c = None)"
    using writer_call_outcome [OF Cons.prems, of pf hash c] unfolding call_outcome_def by blast
  show ?case
  proof (cases ok)
    case True
    then obtain f1 d1 where "build_step hash (f, d) c = Some (f1, d1)" "builds w1 f1 d1" "\<not> w_error_flag w1" using out by auto
    then show ?thesis using Cons.IH [of w1 f1 d1] call True by auto
  qed (use call out in auto)
qed simp

section \<open>The text around the value\<close>

lemma trailing_content_eq:
  "trailing_content off cs =
     (let n = length (takeWhile is_json_space cs) in if n < length cs then Some (off + n) else None)"
  by (induction cs arbitrary: off) (simp_all add: Let_def)

lemma trailing_content_None: "trailing_content off cs = None \<longleftrightarrow> (\<forall>c \<in> set cs. is_json_space c)"
  by (induction cs arbitrary: off) auto

lemma trailing_content_Some:
  assumes "trailing_content off cs = Some p"
  shows "off \<le> p" and "p - off < length cs" and "\<not> is_json_space (cs ! (p - off))"
    and "i < p - off \<Longrightarrow> is_json_space (cs ! i)"
proof -
  let ?n = "length (takeWhile is_json_space cs)"
  have n: "?n < length cs" "p = off + ?n" using assms by (auto simp: trailing_content_eq Let_def split: if_splits)
  then show "off \<le> p" "p - off < length cs" "\<not> is_json_space (cs ! (p - off))" by (simp_all add: nth_length_takeWhile)
  assume "i < p - off"
  then have "i < ?n" using n by simp
  then show "is_json_space (cs ! i)" using nth_mem [of i "takeWhile is_json_space cs"] takeWhile_nth [of i is_json_space cs]
    by (metis set_takeWhileD)
qed

text \<open>A text the tokener reads as an object, with nothing but space after it.\<close>

definition reads_object :: "(bytes \<Rightarrow> parsed option) \<Rightarrow> bytes \<Rightarrow> (bytes option \<times> json option) list \<Rightarrow> bool" where
  "reads_object tokener text ms \<longleftrightarrow> length text \<le> 2147483647 \<and>
     (case tokener text of
        None \<Rightarrow> False
      | Some p \<Rightarrow> ps_error p = None \<and> ps_root p = Some (J_object ms) \<and> (\<forall>c \<in> set (drop (ps_end p) text). is_json_space c))"

text \<open>A text with a value that something other than space follows.\<close>

definition has_trailing :: "(bytes \<Rightarrow> parsed option) \<Rightarrow> bytes \<Rightarrow> nat \<Rightarrow> bool" where
  "has_trailing tokener text n \<longleftrightarrow> length text \<le> 2147483647 \<and>
     (case tokener text of
        None \<Rightarrow> False
      | Some p \<Rightarrow> ps_error p = None \<and> ps_root p \<noteq> None \<and> n = ps_end p \<and> (\<exists>c \<in> set (drop n text). \<not> is_json_space c))"

definition no_error :: convert_error where
  "no_error = \<lparr>ce_message = None, ce_byte_offset = 0, ce_line = 0, ce_column = 0\<rparr>"

lemma convert_object:
  assumes "reads_object tokener text ms"
  shows "convert_json_to_writer tokener hash pf (Some w) (Some text) sink =
     map_option (\<lambda>(ok, w, sink). (ok, Some w, sink)) (emit_object_body hash pf w ms (map_option (\<lambda>_. no_error) sink))"
proof -
  obtain p where p: "length text \<le> 2147483647" "tokener text = Some p" "ps_error p = None" "ps_root p = Some (J_object ms)"
    "trailing_content (ps_end p) (drop (ps_end p) text) = None"
    using assms by (auto simp: reads_object_def trailing_content_None split: option.splits)
  then show ?thesis by (simp add: convert_json_to_writer_def no_error_def)
qed

lemma convert_trailing:
  assumes "has_trailing tokener text n"
  shows "\<exists>off. trailing_content n (drop n text) = Some off \<and>
    convert_json_to_writer tokener hash pf (Some w) (Some text) sink =
      Some (False, Some w, convert_error_set sink ''trailing content after root value'' off)"
proof -
  obtain p where p: "length text \<le> 2147483647" "tokener text = Some p" "ps_error p = None" "ps_root p \<noteq> None" "n = ps_end p"
    "\<exists>c \<in> set (drop n text). \<not> is_json_space c"
    using assms by (auto simp: has_trailing_def split: option.splits)
  obtain off where "trailing_content n (drop n text) = Some off"
    using p(6) trailing_content_None by (metis not_None_eq)
  then show ?thesis using p by (auto simp: convert_json_to_writer_def convert_error_set_def split: option.splits)
qed

lemma convert_rejected:
  assumes "\<forall>ms. \<not> reads_object tokener text ms"
  shows "\<exists>message off. convert_json_to_writer tokener hash pf (Some w) (Some text) sink =
    Some (False, Some w, convert_error_set sink message off)"
proof -
  consider "length text > 2147483647" | "length text \<le> 2147483647" "tokener text = None"
    | (parsed) p where "length text \<le> 2147483647" "tokener text = Some p" by fastforce
  then show ?thesis
  proof cases
    case (parsed p)
    show ?thesis
    proof (cases "ps_error p = None \<and> ps_root p \<noteq> None \<and> (\<forall>c \<in> set (drop (ps_end p) text). is_json_space c)")
      case True
      then obtain v where v: "ps_root p = Some v" "\<forall>ms. v \<noteq> J_object ms" using assms parsed by (auto simp: reads_object_def)
      moreover have "trailing_content (ps_end p) (drop (ps_end p) text) = None" using True trailing_content_None by blast
      ultimately show ?thesis using parsed True
        by (cases sink; cases v) (auto simp: convert_json_to_writer_def convert_error_set_def)
    next
      case False
      then show ?thesis using parsed convert_trailing [of tokener "text" "ps_end p" hash pf w sink]
        by (cases sink; cases "ps_error p"; cases "ps_root p")
          (auto simp: has_trailing_def convert_json_to_writer_def convert_error_set_def)
    qed
  qed (cases sink; auto simp: convert_json_to_writer_def convert_error_set_def)+
qed

end
