(* ===== verification/Convert_Properties.thy ===== *)
theory Convert_Properties
  imports Document_Properties Convert
begin

text \<open>
  What the conversion of JSON promises: it makes the calls of the document, text it cannot
  convert is reported, integers keep their value, and converted text is read back.
\<close>

text \<open>C26. Converting an object makes the writer calls of the document it stands for, in order, up to the
  first one that fails: the result and the writer are those of the calls, and the client's error
  record is touched only on failure.\<close>

theorem conversion_makes_the_calls:
  assumes "documented (Some (J_object ms))"
  shows "\<exists>sink'. emit_object_body hash pf w ms sink =
    map_option (\<lambda>(ok, w'). (ok, w', if ok then sink else sink')) (run_until hash pf w (doc_roots_calls (json_members ms)))"
  using walk_is_calls(3) [OF assms, of hash pf w sink] unfolding walks_def
  by (cases "emit_object_body hash pf w ms sink") (auto split: if_splits)

text \<open>The object \<open>{"a": [true]}\<close>.\<close>

definition sample_object :: "(bytes option \<times> json option) list" where
  "sample_object = [(Some [0x61, 0], Some (J_array [Some (J_boolean True)]))]"

lemma sample_object_facts:
  "documented (Some (J_object sample_object))"
  "json_members sample_object = [([0x61], Array [Leaf (L_bool True)])]"
  by (simp_all add: sample_object_def json_members_def)

theorem conversion_makes_the_calls_witness:
  "\<exists>w sink'. writer_create roomy None = Some w \<and> emit_object_body (\<lambda>_. 7) roomy w sample_object None =
    map_option (\<lambda>(ok, w'). (ok, w', if ok then None else sink'))
      (run_until (\<lambda>_. 7) roomy w [Begin_array (Data [0x61]), Append (L_bool True), End_array])"
proof -
  obtain w where w: "writer_create roomy None = Some w" using roomy_writer by blast
  have calls: "doc_roots_calls (json_members sample_object) = [Begin_array (Data [0x61]), Append (L_bool True), End_array]"
    by (simp add: sample_object_facts(2) doc_roots_calls_def doc_arg_def)
  show ?thesis using conversion_makes_the_calls [OF sample_object_facts(1), of "\<lambda>_. 7" roomy w None] w
    unfolding calls by blast
qed

text \<open>C27. Text that is not an object followed by space alone (too long for json-c, refused by it, empty,
  followed by more content, or another type) leaves the writer as it was, and the client's record
  gets a message; for trailing content the offset is that of the first byte after the value that is
  not space.\<close>

theorem rejected_text_is_reported:
  assumes "\<forall>ms. \<not> reads_object tokener json_text ms"
  shows "\<exists>e. convert_json_to_writer tokener hash pf (Some w) (Some json_text) sink = Some (False, Some w, map_option (\<lambda>_. e) sink) \<and>
    ce_message e \<noteq> None \<and> ce_line e = 0 \<and> ce_column e = 0 \<and>
    (\<forall>n. has_trailing tokener json_text n \<longrightarrow>
       n \<le> ce_byte_offset e \<and> ce_byte_offset e < length json_text \<and> \<not> is_json_space (json_text ! ce_byte_offset e) \<and>
       (\<forall>i. n \<le> i \<and> i < ce_byte_offset e \<longrightarrow> is_json_space (json_text ! i)))"
proof (cases "\<exists>n. has_trailing tokener json_text n")
  case True
  then obtain n where n: "has_trailing tokener json_text n" by blast
  obtain off where off: "trailing_content n (drop n json_text) = Some off"
    "convert_json_to_writer tokener hash pf (Some w) (Some json_text) sink =
      Some (False, Some w, convert_error_set sink ''trailing content after root value'' off)"
    using convert_trailing [OF n] by blast
  note at = trailing_content_Some [OF off(1)]
  have spaces: "is_json_space (json_text ! i)" if "n \<le> i" "i < off" for i
    using at(4) [of "i - n"] at(2) that by simp
  have "m = n" if "has_trailing tokener json_text m" for m using that n by (auto simp: has_trailing_def split: option.splits)
  then show ?thesis using off(2) at spaces
    by (intro exI [of _ "\<lparr>ce_message = Some ''trailing content after root value'', ce_byte_offset = off, ce_line = 0, ce_column = 0\<rparr>"])
      (auto simp: convert_error_set_def split: option.splits)
next
  case False
  obtain message off where "convert_json_to_writer tokener hash pf (Some w) (Some json_text) sink =
      Some (False, Some w, convert_error_set sink message off)"
    using convert_rejected [OF assms] by blast
  then show ?thesis using False
    by (intro exI [of _ "\<lparr>ce_message = Some message, ce_byte_offset = off, ce_line = 0, ce_column = 0\<rparr>"])
      (auto simp: convert_error_set_def split: option.splits)
qed

text \<open>A tokener that reads two bytes as the empty object.\<close>

definition brace_tokener :: "bytes \<Rightarrow> parsed option" where
  "brace_tokener json_text =
     (if take 2 json_text = [0x7B, 0x7D] then Some \<lparr>ps_root = Some (J_object []), ps_error = None, ps_end = 2\<rparr>
      else Some \<lparr>ps_root = None, ps_error = Some ''unexpected character'', ps_end = 0\<rparr>)"

theorem rejected_text_is_reported_witness:
  "\<exists>w e. writer_create roomy None = Some w \<and>
     convert_json_to_writer brace_tokener (\<lambda>_. 7) roomy (Some w) (Some [0x7B, 0x7D, 0x20, 0x7D]) (Some no_error) = Some (False, Some w, Some e) \<and>
     ce_byte_offset e = 3"
proof -
  let ?t = "[0x7B, 0x7D, 0x20, 0x7D] :: bytes"
  obtain w where w: "writer_create roomy None = Some w" using roomy_writer by blast
  have not_object: "\<forall>ms. \<not> reads_object brace_tokener ?t ms" by (simp add: reads_object_def brace_tokener_def is_json_space_def)
  have trailing: "has_trailing brace_tokener ?t 2" by (simp add: has_trailing_def brace_tokener_def is_json_space_def)
  from rejected_text_is_reported [OF not_object, of "\<lambda>_. 7" roomy w "Some no_error"] obtain e where
    e: "convert_json_to_writer brace_tokener (\<lambda>_. 7) roomy (Some w) (Some ?t) (Some no_error) = Some (False, Some w, Some e)"
    "2 \<le> ce_byte_offset e" "ce_byte_offset e < 4" "\<not> is_json_space (?t ! ce_byte_offset e)"
    using trailing by auto
  have "ce_byte_offset e = 2 \<or> ce_byte_offset e = 3" using e(2,3) by linarith
  then show ?thesis using w e(1,4) by (auto simp: is_json_space_def)
qed

text \<open>C28. Integers keep their value. For an integer from \<open>-2^63\<close> to below \<open>2^64\<close>, which json-c gives to
  a reader of signed and of unsigned 64-bit integers clipped to their ranges, the conversion stores
  an int64 below \<open>2^63\<close> and a uint64 from there on, and the stored bits have the value of the integer.\<close>

theorem integers_keep_their_value:
  assumes "- (2 ^ 63) \<le> n" and "n < 2 ^ 64"
  shows "let v = J_int (of_int (min n (2 ^ 63 - 1))) (of_int (max n 0)) in
    emit_number_keyed hash pf w key v sink =
      passes_on (if n < 2 ^ 63 then writer_set_int64 hash pf w key (of_int n) else writer_set_uint64 hash pf w key (of_int n)) sink \<and>
    emit_number_indexed hash pf w v sink =
      passes_on (if n < 2 ^ 63 then writer_append_int64 hash pf w (of_int n) else writer_append_uint64 hash pf w (of_int n)) sink \<and>
    (if n < 2 ^ 63 then sint (of_int n :: u64) = n else uint (of_int n :: u64) = n)"
proof (cases "n < 2 ^ 63")
  case True
  then have "min n (2 ^ 63 - 1) = n" by simp
  moreover have "\<not> (of_int n = INT64_MAX \<and> (of_int (max n 0) :: u64) > INT64_MAX)"
  proof
    assume *: "of_int n = INT64_MAX \<and> (of_int (max n 0) :: u64) > INT64_MAX"
    have "max n 0 \<le> 2 ^ 63 - 1" "0 \<le> max n 0" using True by simp_all
    then have "uint (of_int (max n 0) :: u64) \<le> 2 ^ 63 - 1" by (simp add: word_of_int_inverse)
    then show False using * by (simp add: INT64_MAX_def word_less_def)
  qed
  moreover have "sint (of_int n :: u64) = n" using True assms(1) by (simp add: sint_sbintrunc' signed_take_bit_int_eq_self)
  ultimately show ?thesis using True by (auto simp: emit_number_keyed_def emit_number_indexed_def Let_def)
next
  case False
  then have "min n (2 ^ 63 - 1) = 2 ^ 63 - 1" "max n 0 = n" by simp_all
  moreover have reads_as: "uint (of_int n :: u64) = n" using assms False by (simp add: word_of_int_inverse)
  moreover have "(of_int n :: u64) > INT64_MAX" using reads_as False by (simp add: INT64_MAX_def word_less_def)
  ultimately show ?thesis using False by (simp add: emit_number_keyed_def emit_number_indexed_def Let_def INT64_MAX_def)
qed

theorem integers_keep_their_value_witness:
  "\<exists>w. writer_create roomy None = Some w \<and>
    emit_number_indexed (\<lambda>_. 7) roomy w (J_int 0x7FFFFFFFFFFFFFFF 0x8000000000000000) None =
      passes_on (writer_append_uint64 (\<lambda>_. 7) roomy w 0x8000000000000000) None"
  using integers_keep_their_value [of "2 ^ 63" "\<lambda>_. 7" roomy _ _ None] roomy_writer by (auto simp: Let_def)

lemma converted_document:
  assumes "generous pf" and "reads_object tokener json_text ms" and "documented (Some (J_object ms))"
    and "\<forall>(k, v) \<in> set (json_members ms). doc_fits (Some k) v"
    and "file_length (doc_roots hash (json_members ms)) < 2 ^ 32"
  shows "convert_json_buffer_to_hrbl tokener hash pf True True True (Some json_text) sink =
      Inr (Some (document_file hash (doc_roots hash (json_members ms))), map_option (\<lambda>_. no_error) sink)"
    and "reader_open_buffer pf (document_file hash (doc_roots hash (json_members ms))) = Inr (document_reader hash (doc_roots hash (json_members ms)))"
proof -
  let ?es = "json_members ms"
  obtain w where w: "writer_create pf None = Some w" "w_worker_count w = 0"
    using assms(1) by (simp add: writer_create_def generous_def)
  have fair: "\<forall>n \<le> nodes_in (doc_roots hash ?es). schedule_fair pf (w_worker_count w) n"
    by (simp add: schedule_fair_def w(2))
  obtain w' where run: "run_until hash pf w (doc_roots_calls ?es) = Some (True, w')"
    "run_calls hash pf w (doc_roots_calls ?es) = Some (replicate (length (doc_roots_calls ?es)) True, w')"
    using run_until_outcome [of w "[]" 0 hash pf "doc_roots_calls ?es"] writer_create_builds [OF w(1)] assms(1)
      doc_roots_steps [OF assms(4), of hash "[]"] by auto
  from written_forest [OF w(1) assms(1,4,5) fair] run(2) obtain w'' where
    out: "writer_finalize_to_buffer hash pf w' = Inr (Some (document_file hash (doc_roots hash ?es)), w'')" by auto
  have "emit_object_body hash pf w ms (map_option (\<lambda>_. no_error) sink) = Some (True, w', map_option (\<lambda>_. no_error) sink)"
    using walk_is_calls(3) [OF assms(3), of hash pf w "map_option (\<lambda>_. no_error) sink"] run(1)
    by (auto simp: walks_def split: option.splits)
  then show "convert_json_buffer_to_hrbl tokener hash pf True True True (Some json_text) sink =
      Inr (Some (document_file hash (doc_roots hash ?es)), map_option (\<lambda>_. no_error) sink)"
    by (simp add: convert_json_buffer_to_hrbl_def w(1) convert_object [OF assms(2)] out)
  show "reader_open_buffer pf (document_file hash (doc_roots hash ?es)) = Inr (document_reader hash (doc_roots hash ?es))"
    using document_opens [OF assms(5)] assms(1) by (simp add: generous_def)
qed

text \<open>C29. Convert, then read: text that json-c reads as an object with distinct names, whose keys and strings
  fit their 32-bit lengths and whose file stays under 4 GiB, is converted to a file that the reader
  opens; looking up each name gives the value of the member, and any other name is rejected.\<close>

theorem converted_text_reads_back:
  assumes "generous pf" and "reads_object tokener json_text ms" and "documented (Some (J_object ms))"
    and "\<forall>(k, v) \<in> set (json_members ms). doc_fits (Some k) v" and "keys_distinct (Block (json_members ms))"
    and "file_length (doc_roots hash (json_members ms)) < 2 ^ 32"
  shows "\<exists>out r. convert_json_buffer_to_hrbl tokener hash pf True True True (Some json_text) sink = Inr (Some out, map_option (\<lambda>_. no_error) sink) \<and>
    reader_open_buffer pf out = Inr r \<and>
    (\<forall>(k, v) \<in> set (json_members ms). \<exists>off. reader_find_root_offset hash r k = Inr off \<and> reads hash r off v) \<and>
    (\<forall>k. k \<notin> fst ` set (json_members ms) \<longrightarrow> reader_find_root_offset hash r k = Inl Rejected)"
  using converted_document [OF assms(1-4,6)] document_reads [OF assms(6,4,5)] by blast

text \<open>A tokener that reads any text as the sample object.\<close>

definition sample_tokener :: "bytes \<Rightarrow> parsed option" where
  "sample_tokener json_text = Some \<lparr>ps_root = Some (J_object sample_object), ps_error = None, ps_end = length json_text\<rparr>"

theorem converted_text_reads_back_witness:
  "\<exists>out r off. convert_json_buffer_to_hrbl sample_tokener (\<lambda>_. 7) roomy True True True (Some [0x7B]) None = Inr (Some out, None) \<and>
     reader_open_buffer roomy out = Inr r \<and> reader_find_root_offset (\<lambda>_. 7) r [0x61] = Inr off \<and>
     reads (\<lambda>_. 7) r off (Array [Leaf (L_bool True)])"
proof -
  have text_object: "reads_object sample_tokener [0x7B] sample_object"
    by (simp add: reads_object_def sample_tokener_def)
  have "file_length (doc_roots (\<lambda>_. 7) (json_members sample_object)) = 217"
    unfolding sample_object_facts(2) by code_simp
  then have small: "file_length (doc_roots (\<lambda>_. 7) (json_members sample_object)) < 2 ^ 32" by simp
  have doc_fit: "\<forall>(k, v) \<in> set (json_members sample_object). doc_fits (Some k) v"
    by (simp add: sample_object_facts(2) good_key_def doc_arg_def good_leaf_def)
  have distinct: "keys_distinct (Block (json_members sample_object))" by (simp add: sample_object_facts(2))
  from converted_text_reads_back [OF generous_roomy text_object sample_object_facts(1) doc_fit distinct small, of None]
  show ?thesis by (fastforce simp: sample_object_facts(2))
qed

end
