(* ===== verification/Export_Output.thy ===== *)
theory Export_Output
  imports Paths
begin

text \<open>
  What the three exporters (\<open>src/export\<close>) share: the services of bc_core they call, their options
  and state, the way their functions return, and the sorting of block entries by key.
\<close>

section \<open>The services of bc_core\<close>

text \<open>
  bc_core is not part of the repository: its answers are the fields of \<open>services\<close>, and every
  theorem says what it needs of them. \<open>sv_accepts k bs\<close>: does the \<open>k\<close>-th
  \<open>bc_core_writer_write_bytes\<close> of the export take the bytes? \<open>sv_grants k n\<close>: is the \<open>k\<close>-th scratch
  allocation, of \<open>n\<close> bytes, granted? \<open>sv_hex v n\<close>, \<open>sv_int64\<close>, \<open>sv_uint64\<close>, \<open>sv_double\<close>: the characters
  of a number, \<open>None\<close> for a failure. \<open>sv_memcmp\<close>: the sign of \<open>bc_core_memcmp\<close> on two ranges of
  one length. \<open>sv_sort before n\<close>: the order in which \<open>bc_core_sort_with_compare\<close> leaves \<open>n\<close>
  elements, as the list of their former indices, when \<open>before i j\<close> compares the elements \<open>i\<close> and \<open>j\<close>.
\<close>

record services =
  sv_accepts :: "nat \<Rightarrow> bytes \<Rightarrow> bool"
  sv_grants :: "nat \<Rightarrow> nat \<Rightarrow> bool"
  sv_hex :: "u64 \<Rightarrow> nat \<Rightarrow> bytes option"
  sv_int64 :: "int \<Rightarrow> bytes option"
  sv_uint64 :: "u64 \<Rightarrow> bytes option"
  sv_double :: "u64 \<Rightarrow> bytes option"
  sv_memcmp :: "bytes \<Rightarrow> bytes \<Rightarrow> int"
  sv_sort :: "(nat \<Rightarrow> nat \<Rightarrow> bool) \<Rightarrow> nat \<Rightarrow> nat list"

record options =
  op_indent_spaces :: u32
  op_sort_keys :: bool
  op_ascii_only :: bool

text \<open>The options the client passes, \<open>None\<close> for a null pointer, and the default of each.\<close>

definition indent_spaces :: "options option \<Rightarrow> u32" where
  "indent_spaces opts = (case opts of None \<Rightarrow> 2 | Some x \<Rightarrow> op_indent_spaces x)"

definition sort_keys :: "options option \<Rightarrow> bool" where
  "sort_keys opts = (case opts of None \<Rightarrow> True | Some x \<Rightarrow> op_sort_keys x)"

definition ascii_only :: "options option \<Rightarrow> bool" where
  "ascii_only opts = (case opts of None \<Rightarrow> False | Some x \<Rightarrow> op_ascii_only x)"

section \<open>Actions\<close>

text \<open>
  The state of an export: the bytes of the accepted writes, the requests so far, the failure
  flag of the C state and, of the YAML exporter alone, the events passed to the emitter of libyaml with what it
  answered. A scalar event has the implicit flag of plain scalars, the style, the text and the length passed as an \<open>int\<close>. A function of the exporters is an action: it returns a boolean and a new
  state, or it does not return: it reads outside the buffer, it passes an event that was never
  initialised, or it exhausts the stack.
\<close>

datatype yaml_style = Plain | Double_quoted

datatype yaml_event = Stream_start | Document_start | Document_end | Stream_end
  | Mapping_start | Mapping_end | Sequence_start | Sequence_end | Scalar bool yaml_style bytes int

record export_state =
  es_output :: bytes
  es_writes :: nat
  es_requests :: nat
  es_failed :: bool
  es_events :: "(yaml_event \<times> bool) list"

definition start_state :: export_state where
  "start_state = \<lparr>es_output = [], es_writes = 0, es_requests = 0, es_failed = False, es_events = []\<rparr>"

datatype trap = Bad_memory | Uninitialised_event | Stack_overflow

type_synonym act = "export_state \<Rightarrow> trap + bool \<times> export_state"

text \<open>\<open>if (!a) return false; if (!b) return false; return c;\<close> is \<open>steps [a, b, c]\<close>.\<close>

fun steps :: "act list \<Rightarrow> act" where
  "steps [] s = Inr (True, s)"
| "steps (a # as) s = bindE (a s) (\<lambda>(ok, s). if ok then steps as s else Inr (False, s))"

definition return_false :: act where
  "return_false s = Inr (False, s)"

definition fail_export :: act where
  "fail_export s = Inr (False, s\<lparr>es_failed := True\<rparr>)"

text \<open>An accessor of the reader: a rejection is recorded as a failure.\<close>

definition with_read :: "stop + 'a \<Rightarrow> ('a \<Rightarrow> act) \<Rightarrow> act" where
  "with_read m f s =
     (case m of Inr x \<Rightarrow> f x s | Inl Rejected \<Rightarrow> fail_export s | Inl Bad_read \<Rightarrow> Inl Bad_memory)"

text \<open>A direct read of the buffer, which the code does not check.\<close>

definition with_memory :: "stop + 'a \<Rightarrow> ('a \<Rightarrow> act) \<Rightarrow> act" where
  "with_memory m f s = (case m of Inr x \<Rightarrow> f x s | Inl _ \<Rightarrow> Inl Bad_memory)"

definition scratch_alloc :: "services \<Rightarrow> nat \<Rightarrow> act \<Rightarrow> act \<Rightarrow> act" where
  "scratch_alloc sv n refused granted s =
     (if sv_grants sv (es_requests s) n then granted (s\<lparr>es_requests := es_requests s + 1\<rparr>)
      else refused (s\<lparr>es_requests := es_requests s + 1\<rparr>))"

definition ascii :: "string \<Rightarrow> bytes" where
  "ascii s = map (\<lambda>c. of_nat (of_char c)) s"

section \<open>Keys\<close>

text \<open>A range of bytes used in place; of an empty range no byte is read.\<close>

definition view :: "bytes \<Rightarrow> u64 \<Rightarrow> nat \<Rightarrow> stop + bytes" where
  "view base off n = (if n = 0 then Inr [] else fetch base off n)"

record sort_entry =
  se_entry_offset :: u64
  se_key_pool_offset :: u64
  se_key_length :: u32
  se_value_offset :: u64

definition sort_entry_of :: "u64 \<Rightarrow> entry \<Rightarrow> sort_entry" where
  "sort_entry_of off raw = \<lparr>se_entry_offset = off, se_key_pool_offset = ucast (ent_key_pool_offset raw),
     se_key_length = ent_key_length raw, se_value_offset = ent_value_offset raw\<rparr>"

text \<open>The copies of the entries of a table of \<open>n\<close> entries.\<close>

fun load_sort_entries :: "bytes \<Rightarrow> u64 \<Rightarrow> nat \<Rightarrow> stop + sort_entry list" where
  "load_sort_entries base off 0 = Inr []"
| "load_sort_entries base off (Suc n) =
     bindE (fetch base off ENTRY_SIZE) (\<lambda>bs.
     bindE (load_sort_entries base (off + of_nat ENTRY_SIZE) n) (\<lambda>es. Inr (sort_entry_of off (load_entry bs) # es)))"

definition key_view :: "reader \<Rightarrow> sort_entry \<Rightarrow> nat \<Rightarrow> stop + bytes" where
  "key_view r e n = view (rd_base r) (se_key_pool_offset e + 4) n"

definition sort_less_by_offset :: "sort_entry \<Rightarrow> sort_entry \<Rightarrow> stop + bool" where
  "sort_less_by_offset a b = Inr (se_entry_offset a < se_entry_offset b)"

definition sort_less_by_key :: "services \<Rightarrow> reader \<Rightarrow> sort_entry \<Rightarrow> sort_entry \<Rightarrow> stop + bool" where
  "sort_less_by_key sv r a b =
     (let a_length = unat (se_key_length a); b_length = unat (se_key_length b);
          min_length = if a_length < b_length then a_length else b_length
      in bindE (key_view r a min_length) (\<lambda>a_data.
         bindE (key_view r b min_length) (\<lambda>b_data.
           Inr (let cmp = sv_memcmp sv a_data b_data
                in if cmp \<noteq> 0 then cmp < 0 else a_length < b_length))))"

text \<open>
  A sort may compare any two of its elements; a comparison that reads outside the buffer is not
  a result.
\<close>

definition sort_with_compare ::
    "services \<Rightarrow> (sort_entry \<Rightarrow> sort_entry \<Rightarrow> stop + bool) \<Rightarrow> sort_entry list \<Rightarrow> stop + sort_entry list" where
  "sort_with_compare sv before es =
     (if \<exists>i \<in> set [0..<length es]. \<exists>j \<in> set [0..<length es]. i \<noteq> j \<and> \<not> is_ok (before (es ! i) (es ! j))
      then Inl Bad_read
      else Inr (map (\<lambda>i. es ! i) (sv_sort sv (\<lambda>i j. before (es ! i) (es ! j) = Inr True) (length es))))"

end
