(* ===== verification/Export_Rules.thy ===== *)
theory Export_Rules
  imports Export_Output "HOL-Library.List_Lexorder" "HOL-Library.Sublist"
begin

text \<open>
  Rules for actions that follow their structure: what an action that succeeds appends to a log of
  the state, that an action stops at the first refused write, that an action never returns; and
  the comparison and sorting of keys when the services are obliging.
\<close>

section \<open>Actions that append to a log\<close>

text \<open>
  \<open>log\<close> is a field of the state that only grows, such as the output; \<open>fine\<close> says which logs nothing goes
  wrong for, and \<open>good\<close> is an invariant of the state. An action adds \<open>xs\<close> if, from a state with the invariant and as long as the
  log stays fine, it succeeds, appends exactly \<open>xs\<close> and keeps the invariant.
\<close>

definition adds :: "(export_state \<Rightarrow> bool) \<Rightarrow> ('x list \<Rightarrow> bool) \<Rightarrow> (export_state \<Rightarrow> 'x list) \<Rightarrow> act \<Rightarrow> 'x list \<Rightarrow> bool" where
  "adds good fine log a xs \<longleftrightarrow> (\<forall>s. good s \<longrightarrow> fine (log s @ xs) \<longrightarrow>
     (\<exists>s'. a s = Inr (True, s') \<and> log s' = log s @ xs \<and> good s'))"

declare steps.simps [simp del]

lemma addsE:
  assumes "adds good fine log a xs" and "good s" and "fine (log s @ xs)"
  obtains s' where "a s = Inr (True, s')" and "log s' = log s @ xs" and "good s'"
  using assms unfolding adds_def by blast

locale logging =
  fixes good :: "export_state \<Rightarrow> bool" and fine :: "'x list \<Rightarrow> bool" and log :: "export_state \<Rightarrow> 'x list"
  assumes fine_prefix: "fine (xs @ ys) \<Longrightarrow> fine xs"
    and log_requests: "log (s\<lparr>es_requests := k\<rparr>) = log s"
    and good_requests: "good (s\<lparr>es_requests := k\<rparr>) = good s"
begin

lemma adds_Nil: "adds good fine log (steps []) []"
  by (simp add: adds_def steps.simps)

lemma adds_Cons:
  assumes "adds good fine log a xs" and "adds good fine log (steps as) ys"
  shows "adds good fine log (steps (a # as)) (xs @ ys)"
  unfolding adds_def
proof (intro allI impI)
  fix s
  assume s: "good s" "fine (log s @ xs @ ys)"
  then have "fine (log s @ xs)" using fine_prefix [of "log s @ xs" ys] by simp
  then obtain s1 where s1: "a s = Inr (True, s1)" "log s1 = log s @ xs" "good s1"
    using addsE [OF assms(1) s(1)] by blast
  then obtain s2 where "steps as s1 = Inr (True, s2)" "log s2 = log s1 @ ys" "good s2"
    using addsE [OF assms(2) s1(3)] s(2) by auto
  then show "\<exists>s'. steps (a # as) s = Inr (True, s') \<and> log s' = log s @ xs @ ys \<and> good s'"
    using s1 by (simp add: steps.simps)
qed

lemma adds_one: "adds good fine log a xs \<Longrightarrow> adds good fine log (steps [a]) xs"
  using adds_Cons [OF _ adds_Nil, of a xs] by simp

lemma adds_steps: "list_all2 (adds good fine log) as xss \<Longrightarrow> adds good fine log (steps as) (concat xss)"
  by (induction rule: list_all2_induct) (auto intro: adds_Nil adds_Cons)

lemma adds_map: "(\<And>x. x \<in> set xs \<Longrightarrow> adds good fine log (f x) (g x)) \<Longrightarrow> adds good fine log (steps (map f xs)) (concat (map g xs))"
  by (intro adds_steps) (simp add: list_all2_map1 list_all2_map2 list_all2_same)

lemma adds_with_read: "m = Inr x \<Longrightarrow> adds good fine log (f x) xs \<Longrightarrow> adds good fine log (with_read m f) xs"
  by (simp add: adds_def with_read_def)

lemma adds_with_memory: "m = Inr x \<Longrightarrow> adds good fine log (f x) xs \<Longrightarrow> adds good fine log (with_memory m f) xs"
  by (simp add: adds_def with_memory_def)

lemma adds_scratch:
  assumes "\<And>k. sv_grants sv k n" and "adds good fine log granted xs"
  shows "adds good fine log (scratch_alloc sv n refused granted) xs"
  unfolding adds_def
proof (intro allI impI)
  fix s
  assume s: "good s" "fine (log s @ xs)"
  let ?s = "s\<lparr>es_requests := es_requests s + 1\<rparr>"
  have "good ?s" "fine (log ?s @ xs)" using s by (simp_all add: log_requests good_requests)
  then obtain s' where "granted ?s = Inr (True, s')" "log s' = log ?s @ xs" "good s'" by (rule addsE [OF assms(2)])
  then show "\<exists>s'. scratch_alloc sv n refused granted s = Inr (True, s') \<and> log s' = log s @ xs \<and> good s'"
    using assms(1) by (simp add: scratch_alloc_def log_requests)
qed

end

text \<open>Printing appends to the output, with nothing that goes wrong.\<close>

abbreviation prints :: "act \<Rightarrow> bytes \<Rightarrow> bool" where
  "prints \<equiv> adds (\<lambda>s. \<not> es_failed s) (\<lambda>_. True) es_output"

interpretation printing: logging "\<lambda>s. \<not> es_failed s" "\<lambda>_. True" es_output
  by unfold_locales simp_all

lemmas prints_Nil = printing.adds_Nil and prints_Cons = printing.adds_Cons and prints_one = printing.adds_one
  and prints_map = printing.adds_map and prints_steps = printing.adds_steps and prints_with_read = printing.adds_with_read
  and prints_with_memory = printing.adds_with_memory and prints_scratch = printing.adds_scratch

lemma prints_start:
  assumes "prints a t"
  shows "\<exists>s. a start_state = Inr (True, s) \<and> es_output s = t \<and> \<not> es_failed s"
  using addsE [OF assms, of start_state] by (auto simp: start_state_def)

section \<open>Obliging services\<close>

text \<open>
  What is documented of bc_core, on an export that nothing goes wrong for: writes and allocations
  succeed, comparison of ranges of one length is by unsigned bytes, hexadecimal is in lower case
  padded to the width, integers and finite doubles are formatted, and sorting under a
  strict linear order leaves the indices in that order.
\<close>

definition hex_digit :: "nat \<Rightarrow> byte" where
  "hex_digit d = (if d < 10 then 0x30 + of_nat d else 0x57 + of_nat d)"

definition lower_hex4 :: "nat \<Rightarrow> bytes" where
  "lower_hex4 n = [hex_digit (n div 4096), hex_digit (n div 256 mod 16), hex_digit (n div 16 mod 16), hex_digit (n mod 16)]"

definition lower_hex2 :: "nat \<Rightarrow> bytes" where
  "lower_hex2 n = [hex_digit (n div 16), hex_digit (n mod 16)]"

definition linear_on :: "nat \<Rightarrow> (nat \<Rightarrow> nat \<Rightarrow> bool) \<Rightarrow> bool" where
  "linear_on n before \<longleftrightarrow> (\<forall>i < n. \<not> before i i) \<and> (\<forall>i < n. \<forall>j < n. i \<noteq> j \<longrightarrow> before i j \<noteq> before j i) \<and>
     (\<forall>i < n. \<forall>j < n. \<forall>k < n. before i j \<longrightarrow> before j k \<longrightarrow> before i k)"

definition obliging :: "services \<Rightarrow> bool" where
  "obliging sv \<longleftrightarrow> (\<forall>k t. sv_accepts sv k t) \<and> (\<forall>k n. sv_grants sv k n) \<and>
     (\<forall>n < 0x10000. sv_hex sv (of_nat n) 4 = Some (lower_hex4 n)) \<and>
     (\<forall>n < 0x100. sv_hex sv (of_nat n) 2 = Some (lower_hex2 n)) \<and>
     (\<forall>v. sv_int64 sv v \<noteq> None) \<and> (\<forall>v. sv_uint64 sv v \<noteq> None) \<and> (\<forall>v. sv_double sv v \<noteq> None) \<and>
     (\<forall>x y. length x = length y \<longrightarrow> (sv_memcmp sv x y < 0 \<longleftrightarrow> x < y) \<and> (sv_memcmp sv x y = 0 \<longleftrightarrow> x = y)) \<and>
     (\<forall>n before. linear_on n before \<longrightarrow>
        mset (sv_sort sv before n) = mset [0..<n] \<and> sorted_wrt before (sv_sort sv before n))"

lemma obliging_grants: "obliging sv \<Longrightarrow> sv_grants sv k n"
  by (simp add: obliging_def)

lemma obliging_accepts: "obliging sv \<Longrightarrow> sv_accepts sv k t"
  by (simp add: obliging_def)

section \<open>Comparing keys\<close>

lemma less_take:
  fixes a b :: "'a::linorder list"
  defines "m \<equiv> min (length a) (length b)"
  shows "a < b \<longleftrightarrow> (if take m a = take m b then length a < length b else take m a < take m b)"
  unfolding m_def
proof (induction a arbitrary: b)
  case Nil
  then show ?case by (cases b) auto
next
  case (Cons x a)
  then show ?case by (cases b) (auto simp: Cons_less_Cons)
qed

text \<open>The key of a table entry: the bytes the entry points to, whose number is its length.\<close>

definition key_is :: "reader \<Rightarrow> sort_entry \<Rightarrow> bytes \<Rightarrow> bool" where
  "key_is r e k \<longleftrightarrow> unat (se_key_length e) = length k \<and> key_view r e (length k) = Inr k"

lemma key_view_take:
  assumes "key_view r e (length k) = Inr k" and "n \<le> length k"
  shows "key_view r e n = Inr (take n k)"
proof (cases "n = 0")
  case False
  then have "length k \<noteq> 0" using assms(2) by linarith
  then have "fetch (rd_base r) (se_key_pool_offset e + 4) (length k) = Inr k" using assms(1) by (simp add: key_view_def view_def)
  then have k: "unat (se_key_pool_offset e + 4) + length k \<le> length (rd_base r)"
    "k = take (length k) (drop (unat (se_key_pool_offset e + 4)) (rd_base r))"
    by (simp_all add: fetch_eq_Inr)
  have "take n k = take n (drop (unat (se_key_pool_offset e + 4)) (rd_base r))"
    by (subst k(2)) (use assms(2) in \<open>simp add: min_absorb1\<close>)
  then show ?thesis using k(1) assms(2) False by (simp add: key_view_def view_def fetch_eq_Inr)
qed (simp add: key_view_def view_def)

lemma sort_less_by_key_eq:
  assumes "obliging sv" and "key_is r a k" and "key_is r b l"
  shows "sort_less_by_key sv r a b = Inr (k < l)"
proof -
  let ?m = "min (length k) (length l)"
  have views: "key_view r a ?m = Inr (take ?m k)" "key_view r b ?m = Inr (take ?m l)"
    using assms(2,3) key_view_take by (auto simp: key_is_def)
  have "(if length k < length l then length k else length l) = ?m" by auto
  moreover have "(sv_memcmp sv (take ?m k) (take ?m l) < 0 \<longleftrightarrow> take ?m k < take ?m l) \<and>
      (sv_memcmp sv (take ?m k) (take ?m l) = 0 \<longleftrightarrow> take ?m k = take ?m l)"
    using assms(1) by (simp add: obliging_def min_def)
  ultimately show ?thesis using views assms(2,3) less_take [of k l]
    by (simp add: sort_less_by_key_def key_is_def Let_def)
qed

section \<open>Writing stops at the first refusal\<close>

text \<open>
  Whatever the services do: the output of an action is the concatenation of chunks that were accepted,
  one after the other; if it succeeds, no write was refused; and if one was, it was the last request,
  and the action fails.
\<close>

definition writes_until_refusal :: "services \<Rightarrow> export_state \<Rightarrow> bool \<Rightarrow> export_state \<Rightarrow> bool" where
  "writes_until_refusal sv s ok s' \<longleftrightarrow>
     (\<exists>ts. (\<forall>i < length ts. sv_accepts sv (es_writes s + i) (ts ! i)) \<and> es_output s' = es_output s @ concat ts \<and>
       (if es_writes s' = es_writes s + length ts then ok \<longrightarrow> \<not> es_failed s'
        else es_writes s' = Suc (es_writes s + length ts) \<and> (\<exists>t. \<not> sv_accepts sv (es_writes s + length ts) t) \<and> \<not> ok \<and> es_failed s'))"

definition careful :: "services \<Rightarrow> act \<Rightarrow> bool" where
  "careful sv a \<longleftrightarrow> (\<forall>s ok s'. \<not> es_failed s \<longrightarrow> a s = Inr (ok, s') \<longrightarrow> writes_until_refusal sv s ok s')"

lemma writes_nothing: "es_output s' = es_output s \<Longrightarrow> es_writes s' = es_writes s \<Longrightarrow> ok \<longrightarrow> \<not> es_failed s' \<Longrightarrow> writes_until_refusal sv s ok s'"
  unfolding writes_until_refusal_def by (intro exI [of _ "[]"]) simp

lemma writes_then:
  assumes "writes_until_refusal sv s True s1" and "writes_until_refusal sv s1 ok s2"
  shows "writes_until_refusal sv s ok s2"
proof -
  obtain ts where ts: "\<forall>i < length ts. sv_accepts sv (es_writes s + i) (ts ! i)" "es_output s1 = es_output s @ concat ts"
    "es_writes s1 = es_writes s + length ts"
    using assms(1) by (auto simp: writes_until_refusal_def split: if_splits)
  obtain us where us: "\<forall>i < length us. sv_accepts sv (es_writes s1 + i) (us ! i)" "es_output s2 = es_output s1 @ concat us"
    "if es_writes s2 = es_writes s1 + length us then ok \<longrightarrow> \<not> es_failed s2
     else es_writes s2 = Suc (es_writes s1 + length us) \<and> (\<exists>t. \<not> sv_accepts sv (es_writes s1 + length us) t) \<and> \<not> ok \<and> es_failed s2"
    using assms(2) by (auto simp: writes_until_refusal_def)
  have "sv_accepts sv (es_writes s + i) ((ts @ us) ! i)" if "i < length (ts @ us)" for i
    using ts(1) us(1) [rule_format, of "i - length ts"] that ts(3) by (auto simp: nth_append)
  then show ?thesis unfolding writes_until_refusal_def
    using ts(2) us(2,3) unfolding ts(3) by (intro exI [of _ "ts @ us"]) (auto simp: add.assoc split: if_splits)
qed

named_theorems careful \<open>actions that stop at the first refused write\<close>

lemma careful_Nil [careful]: "careful sv (steps [])"
  by (simp add: careful_def steps.simps writes_nothing)

lemma careful_Cons [careful]:
  assumes "careful sv a" and "careful sv (steps as)"
  shows "careful sv (steps (a # as))"
  unfolding careful_def
proof (intro allI impI)
  fix s ok s'
  assume s: "\<not> es_failed s" "steps (a # as) s = Inr (ok, s')"
  obtain ok1 s1 where a: "a s = Inr (ok1, s1)" using s(2) by (auto simp: steps.simps bindE_eq_Inr)
  then have first: "writes_until_refusal sv s ok1 s1" using assms(1) s(1) by (auto simp: careful_def)
  show "writes_until_refusal sv s ok s'"
  proof (cases ok1)
    case True
    then have "\<not> es_failed s1" using first by (auto simp: writes_until_refusal_def split: if_splits)
    then have "writes_until_refusal sv s1 ok s'" using assms(2) s(2) a True by (auto simp: careful_def steps.simps)
    moreover have "writes_until_refusal sv s True s1" using first True by simp
    ultimately show ?thesis using writes_then by blast
  next
    case False
    then show ?thesis using s(2) a first by (auto simp: steps.simps)
  qed
qed

lemma careful_map [careful]: "(\<And>x. careful sv (f x)) \<Longrightarrow> careful sv (steps (map f xs))"
  by (induction xs) (auto intro: careful)

lemma careful_return_false [careful]: "careful sv return_false"
  by (simp add: careful_def return_false_def writes_nothing)

lemma careful_fail [careful]: "careful sv fail_export"
  by (auto simp: careful_def fail_export_def intro!: writes_nothing)

lemma careful_with_read [careful]: "(\<And>x. careful sv (f x)) \<Longrightarrow> careful sv (with_read m f)"
  using careful_fail by (auto simp: careful_def with_read_def split: sum.splits stop.splits)

lemma careful_with_memory [careful]: "(\<And>x. careful sv (f x)) \<Longrightarrow> careful sv (with_memory m f)"
  by (auto simp: careful_def with_memory_def split: sum.splits)

lemma careful_scratch [careful]:
  assumes "careful sv refused" and "careful sv granted"
  shows "careful sv (scratch_alloc sv n refused granted)"
proof -
  have same: "writes_until_refusal sv (s\<lparr>es_requests := k\<rparr>) = writes_until_refusal sv s" for s k
    by (simp add: writes_until_refusal_def fun_eq_iff)
  have counted: "writes_until_refusal sv s ok s'"
    if "careful sv a" and "\<not> es_failed s" and "a (s\<lparr>es_requests := k\<rparr>) = Inr (ok, s')" for a s ok s' k
  proof -
    have "\<not> es_failed (s\<lparr>es_requests := k\<rparr>)" using that(2) by simp
    from that(1) [unfolded careful_def, rule_format, OF this that(3)] show ?thesis by (simp only: same)
  qed
  show ?thesis unfolding careful_def [of sv "scratch_alloc sv n refused granted"] scratch_alloc_def
    using counted [OF assms(1)] counted [OF assms(2)] by (auto split: if_splits)
qed

lemma careful_finish [careful]: "careful sv (\<lambda>s. Inr (\<not> es_failed s, s))"
  by (auto simp: careful_def intro!: writes_nothing)

lemma careful_trap [careful]: "careful sv (\<lambda>s. Inl t)"
  by (simp add: careful_def)

lemma careful_if [careful]: "careful sv a \<Longrightarrow> careful sv b \<Longrightarrow> careful sv (if c then a else b)"
  by simp

lemma careful_option [careful]: "careful sv a \<Longrightarrow> (\<And>x. careful sv (f x)) \<Longrightarrow> careful sv (case m of None \<Rightarrow> a | Some x \<Rightarrow> f x)"
  by (simp split: option.splits)

lemma careful_pair [careful]: "(\<And>x y. careful sv (f x y)) \<Longrightarrow> careful sv (case p of (x, y) \<Rightarrow> f x y)"
  by (simp split: prod.splits)

section \<open>Actions that do not return\<close>

text \<open>An action that never returns, however it is started.\<close>

definition traps :: "act \<Rightarrow> trap \<Rightarrow> bool" where
  "traps a t \<longleftrightarrow> (\<forall>s. \<not> es_failed s \<longrightarrow> a s = Inl t)"

lemma traps_here: "traps a t \<Longrightarrow> traps (steps (a # as)) t"
  by (simp add: traps_def steps.simps)

lemma traps_later:
  assumes "prints a u" and "traps (steps as) t"
  shows "traps (steps (a # as)) t"
  unfolding traps_def
proof (intro allI impI)
  fix s :: export_state
  assume "\<not> es_failed s"
  then obtain s' where "a s = Inr (True, s')" "\<not> es_failed s'" using addsE [OF assms(1)] by blast
  then show "steps (a # as) s = Inl t" using assms(2) by (simp add: traps_def steps.simps)
qed

lemma traps_with_read: "m = Inr x \<Longrightarrow> traps (f x) t \<Longrightarrow> traps (with_read m f) t"
  by (simp add: traps_def with_read_def)

lemma traps_with_memory: "m = Inr x \<Longrightarrow> traps (f x) t \<Longrightarrow> traps (with_memory m f) t"
  by (simp add: traps_def with_memory_def)

lemma traps_bad_memory: "m = Inl e \<Longrightarrow> traps (with_memory m f) Bad_memory"
  by (simp add: traps_def with_memory_def)

lemma traps_scratch: "obliging sv \<Longrightarrow> traps granted t \<Longrightarrow> traps (scratch_alloc sv n refused granted) t"
  by (simp add: traps_def scratch_alloc_def obliging_grants)

text \<open>A table of one entry is sorted without a comparison.\<close>

lemma sort_one:
  assumes sv: "obliging sv"
  shows "sort_with_compare sv (if sort_keys opts then sort_less_by_key sv r else sort_less_by_offset) [e] = Inr [e]"
proof -
  let ?lt = "if sort_keys opts then sort_less_by_key sv r else sort_less_by_offset"
  have "(sv_memcmp sv x x = 0)" for x using sv by (simp add: obliging_def)
  then have "?lt e e \<noteq> Inr True"
    by (auto simp: sort_less_by_offset_def sort_less_by_key_def Let_def bindE_eq_Inr)
  then have "linear_on 1 (\<lambda>i j. ?lt ([e] ! i) ([e] ! j) = Inr True)" by (simp add: linear_on_def)
  then have "mset (sv_sort sv (\<lambda>i j. ?lt ([e] ! i) ([e] ! j) = Inr True) 1) = {#0#}"
    using sv unfolding obliging_def by fastforce
  then have "sv_sort sv (\<lambda>i j. ?lt ([e] ! i) ([e] ! j) = Inr True) 1 = [0]" by (simp add: mset_single_iff_right)
  then show ?thesis by (simp add: sort_with_compare_def)
qed

end
