(* ===== verification/Export_Json.thy ===== *)
theory Export_Json
  imports Export_Rules Utf8
begin

text \<open>
  The JSON exporter (\<open>src/export/bc_hrbl_export.c\<close>). The recursion over value offsets is bounded by
  the frames the stack has room for; offsets in a file can form a cycle, so no number of
  frames is enough for every file.
\<close>

section \<open>Writing\<close>

definition write_all :: "services \<Rightarrow> bytes \<Rightarrow> act" where
  "write_all sv data s =
     (if es_failed s then Inr (False, s)
      else if length data = 0 then Inr (True, s)
      else if \<not> sv_accepts sv (es_writes s) data
      then Inr (False, s\<lparr>es_writes := es_writes s + 1, es_failed := True\<rparr>)
      else Inr (True, s\<lparr>es_writes := es_writes s + 1, es_output := es_output s @ data\<rparr>))"

definition write_literal :: "services \<Rightarrow> string \<Rightarrow> act" where
  "write_literal sv literal = write_all sv (ascii literal)"

text \<open>The loop writes the spaces in chunks of the 64-byte buffer.\<close>

function write_spaces :: "services \<Rightarrow> nat \<Rightarrow> act" where
  "write_spaces sv n =
     (if n > 0 then steps [write_all sv (replicate (min n 64) 0x20), write_spaces sv (n - min n 64)]
      else steps [])"
  by auto
termination by (relation "measure snd") auto

declare write_spaces.simps [simp del]

definition write_indent :: "services \<Rightarrow> options option \<Rightarrow> u32 \<Rightarrow> act" where
  "write_indent sv opts depth =
     (if indent_spaces opts = 0 then steps [] else write_spaces sv (unat (indent_spaces opts) * unat depth))"

definition write_newline :: "services \<Rightarrow> options option \<Rightarrow> act" where
  "write_newline sv opts = (if indent_spaces opts = 0 then steps [] else write_all sv [0x0A])"

definition upper_hex :: "byte \<Rightarrow> byte" where
  "upper_hex c = (if 0x61 \<le> c \<and> c \<le> 0x66 then c - 0x20 else c)"

text \<open>The six-byte buffer is the reason a formatter may refuse a longer number.\<close>

definition hex_escape :: "services \<Rightarrow> u32 \<Rightarrow> act" where
  "hex_escape sv codepoint =
     (case sv_hex sv (ucast codepoint) 4 of
        None \<Rightarrow> fail_export
      | Some hex \<Rightarrow> steps [write_all sv [0x5C, 0x75], write_all sv (map upper_hex hex)])"

section \<open>Strings\<close>

text \<open>The sequence at the start of the bytes: its code point and length; nothing else is checked.\<close>

definition utf8_sequence :: "byte \<Rightarrow> (nat \<times> u32) option" where
  "utf8_sequence b =
     (if b AND 0xE0 = 0xC0 then Some (2, ucast (b AND 0x1F))
      else if b AND 0xF0 = 0xE0 then Some (3, ucast (b AND 0x0F))
      else if b AND 0xF8 = 0xF0 then Some (4, ucast (b AND 0x07))
      else None)"

fun utf8_continue :: "u32 \<Rightarrow> bytes \<Rightarrow> u32 option" where
  "utf8_continue codepoint [] = Some codepoint"
| "utf8_continue codepoint (c # cs) =
     (if c AND 0xC0 \<noteq> 0x80 then None else utf8_continue (push_bit 6 codepoint OR ucast (c AND 0x3F)) cs)"

definition utf8_decode :: "bytes \<Rightarrow> (u32 \<times> nat) option" where
  "utf8_decode bs =
     (let b = hd bs
      in if b < 0x80 then Some (ucast b, 1)
         else case utf8_sequence b of
           None \<Rightarrow> None
         | Some (n, codepoint) \<Rightarrow>
             if n > length bs then None
             else map_option (\<lambda>cp. (cp, n)) (utf8_continue codepoint (take (n - 1) (tl bs))))"

lemma utf8_decode_consumes: "utf8_decode bs = Some (cp, n) \<Longrightarrow> 0 < n"
  by (auto simp: utf8_decode_def utf8_sequence_def Let_def split: if_splits option.splits)

definition replacement :: "byte \<Rightarrow> string option" where
  "replacement b =
     (if b = 0x22 then Some [CHR 0x5C, CHR 0x22]
      else if b = 0x5C then Some [CHR 0x5C, CHR 0x5C]
      else if b = 0x08 then Some [CHR 0x5C, CHR ''b'']
      else if b = 0x0C then Some [CHR 0x5C, CHR ''f'']
      else if b = 0x0A then Some [CHR 0x5C, CHR ''n'']
      else if b = 0x0D then Some [CHR 0x5C, CHR ''r'']
      else if b = 0x09 then Some [CHR 0x5C, CHR ''t'']
      else None)"

definition escape_codepoint :: "services \<Rightarrow> u32 \<Rightarrow> act" where
  "escape_codepoint sv codepoint =
     (if codepoint \<le> 0xFFFF then hex_escape sv codepoint
      else let adjusted = codepoint - 0x10000; high = 0xD800 + drop_bit 10 adjusted; low = 0xDC00 + (adjusted AND 0x3FF)
           in steps [hex_escape sv high, hex_escape sv low])"

function write_json_chars :: "services \<Rightarrow> bool \<Rightarrow> bytes \<Rightarrow> act" where
  "write_json_chars sv plain_ascii [] = steps []"
| "write_json_chars sv plain_ascii (b # bs) =
     (case replacement b of
        Some r \<Rightarrow> steps [write_literal sv r, write_json_chars sv plain_ascii bs]
      | None \<Rightarrow>
          if b < 0x20 then steps [hex_escape sv (ucast b), write_json_chars sv plain_ascii bs]
          else if b < 0x80 then steps [write_all sv [b], write_json_chars sv plain_ascii bs]
          else (case utf8_decode (b # bs) of
              None \<Rightarrow> fail_export
            | Some (codepoint, consumed) \<Rightarrow>
                steps [if \<not> plain_ascii then write_all sv (take consumed (b # bs)) else escape_codepoint sv codepoint,
                       write_json_chars sv plain_ascii (drop consumed (b # bs))]))"
  by pat_completeness auto
termination by (relation "measure (\<lambda>(sv, plain_ascii, bs). length bs)") (auto dest: utf8_decode_consumes)

definition write_json_string :: "services \<Rightarrow> options option \<Rightarrow> bytes \<Rightarrow> act" where
  "write_json_string sv opts data =
     steps [write_all sv [0x22], write_json_chars sv (ascii_only opts) data, write_all sv [0x22]]"

section \<open>Numbers\<close>

definition write_formatted :: "services \<Rightarrow> bytes option \<Rightarrow> act" where
  "write_formatted sv text_of = (case text_of of None \<Rightarrow> fail_export | Some t \<Rightarrow> write_all sv t)"

definition write_number_int64 :: "services \<Rightarrow> int \<Rightarrow> act" where
  "write_number_int64 sv v = write_formatted sv (sv_int64 sv v)"

definition write_number_uint64 :: "services \<Rightarrow> u64 \<Rightarrow> act" where
  "write_number_uint64 sv v = write_formatted sv (sv_uint64 sv v)"

text \<open>\<open>isnan\<close> and \<open>isinf\<close> on the bits of a double: all exponent bits are set.\<close>

definition is_nan :: "u64 \<Rightarrow> bool" where
  "is_nan v \<longleftrightarrow> drop_bit 52 v AND 0x7FF = 0x7FF \<and> v AND 0xFFFFFFFFFFFFF \<noteq> 0"

definition is_inf :: "u64 \<Rightarrow> bool" where
  "is_inf v \<longleftrightarrow> drop_bit 52 v AND 0x7FF = 0x7FF \<and> v AND 0xFFFFFFFFFFFFF = 0"

definition has_dot_or_exp :: "bytes \<Rightarrow> bool" where
  "has_dot_or_exp t \<longleftrightarrow> list_ex (\<lambda>c. c = 0x2E \<or> c = 0x65 \<or> c = 0x45) t"

definition write_number_float64 :: "services \<Rightarrow> u64 \<Rightarrow> act" where
  "write_number_float64 sv v =
     (if is_nan v \<or> is_inf v then write_literal sv ''null''
      else case sv_double sv v of
        None \<Rightarrow> fail_export
      | Some t \<Rightarrow> steps [write_all sv t, if \<not> has_dot_or_exp t then write_all sv [0x2E, 0x30] else steps []])"

section \<open>Values\<close>

text \<open>The separator before all but the first item of a container.\<close>

definition write_separator :: "services \<Rightarrow> options option \<Rightarrow> nat \<Rightarrow> act" where
  "write_separator sv opts i =
     (if i \<noteq> 0 then steps [write_all sv [0x2C], write_newline sv opts] else steps [])"

definition write_entry :: "services \<Rightarrow> reader \<Rightarrow> options option \<Rightarrow> (u64 \<Rightarrow> u32 \<Rightarrow> act) \<Rightarrow> u32 \<Rightarrow> nat \<times> sort_entry \<Rightarrow> act" where
  "write_entry sv r opts write_value depth = (\<lambda>(i, e).
     steps [write_separator sv opts i, write_indent sv opts (depth + 1),
       with_memory (key_view r e (unat (se_key_length e))) (write_json_string sv opts),
       write_all sv (if indent_spaces opts = 0 then [0x3A] else [0x3A, 0x20]),
       write_value (se_value_offset e) (depth + 1)])"

text \<open>The entries of a table, copied, sorted and written; 32 is the size of a sort entry.\<close>

definition write_entries ::
    "services \<Rightarrow> reader \<Rightarrow> options option \<Rightarrow> (u64 \<Rightarrow> u32 \<Rightarrow> act) \<Rightarrow> act \<Rightarrow> u64 \<Rightarrow> u64 \<Rightarrow> u32 \<Rightarrow> act" where
  "write_entries sv r opts write_value refused off n depth =
     scratch_alloc sv (unat (n * 32)) refused
       (with_memory (load_sort_entries (rd_base r) off (unat n)) (\<lambda>es.
        with_memory (sort_with_compare sv (if sort_keys opts then sort_less_by_key sv r else sort_less_by_offset) es) (\<lambda>es.
        steps (map (write_entry sv r opts write_value depth) (enumerate 0 es)))))"

definition export_block :: "services \<Rightarrow> reader \<Rightarrow> options option \<Rightarrow> (u64 \<Rightarrow> u32 \<Rightarrow> act) \<Rightarrow> u64 \<Rightarrow> u32 \<Rightarrow> act" where
  "export_block sv r opts write_value block_offset depth =
     with_read (reader_block_body_offsets r block_offset) (\<lambda>(header, entries_offset).
       if bh_child_count header = 0 then write_literal sv ''{}''
       else steps [write_literal sv ''{'', write_newline sv opts,
         write_entries sv r opts write_value fail_export entries_offset (ucast (bh_child_count header)) depth,
         write_newline sv opts, write_indent sv opts depth, write_all sv [0x7D]])"

definition write_element :: "services \<Rightarrow> reader \<Rightarrow> options option \<Rightarrow> (u64 \<Rightarrow> u32 \<Rightarrow> act) \<Rightarrow> u64 \<Rightarrow> u32 \<Rightarrow> nat \<Rightarrow> act" where
  "write_element sv r opts write_value elements_offset depth i =
     steps [write_separator sv opts i, write_indent sv opts (depth + 1),
       with_memory (fetch (rd_base r) (elements_offset + of_nat i * of_nat ARRAY_ELEMENT_SIZE) 8)
         (\<lambda>bs. write_value (load_u64 bs) (depth + 1))]"

definition export_array :: "services \<Rightarrow> reader \<Rightarrow> options option \<Rightarrow> (u64 \<Rightarrow> u32 \<Rightarrow> act) \<Rightarrow> u64 \<Rightarrow> u32 \<Rightarrow> act" where
  "export_array sv r opts write_value array_offset depth =
     with_read (reader_array_body_offsets r array_offset) (\<lambda>(header, elements_offset).
       if ah_element_count header = 0 then write_literal sv ''[]''
       else steps [write_literal sv ''['', write_newline sv opts,
         steps (map (write_element sv r opts write_value elements_offset depth) [0..<unat (ah_element_count header)]),
         write_newline sv opts, write_indent sv opts depth, write_all sv [0x5D]])"

fun export_value :: "services \<Rightarrow> reader \<Rightarrow> options option \<Rightarrow> nat \<Rightarrow> u64 \<Rightarrow> u32 \<Rightarrow> act" where
  "export_value sv r opts 0 value_offset depth = (\<lambda>s. Inl Stack_overflow)"
| "export_value sv r opts (Suc frames) value_offset depth =
     with_read (reader_kind_at r value_offset) (\<lambda>k. case k of
         K_NULL \<Rightarrow> write_literal sv ''null''
       | K_FALSE \<Rightarrow> write_literal sv ''false''
       | K_TRUE \<Rightarrow> write_literal sv ''true''
       | K_INT64 \<Rightarrow> with_read (reader_scalar_int64_at r value_offset) (write_number_int64 sv)
       | K_UINT64 \<Rightarrow> with_read (reader_scalar_uint64_at r value_offset) (write_number_uint64 sv)
       | K_FLOAT64 \<Rightarrow> with_read (reader_scalar_float64_at r value_offset) (write_number_float64 sv)
       | K_STRING \<Rightarrow> with_read (reader_scalar_string_at r value_offset) (\<lambda>(data, n).
           with_memory (view (rd_base r) data (unat n)) (write_json_string sv opts))
       | K_BLOCK \<Rightarrow> export_block sv r opts (export_value sv r opts frames) value_offset depth
       | K_ARRAY \<Rightarrow> export_array sv r opts (export_value sv r opts frames) value_offset depth)"

definition export_json_ex :: "services \<Rightarrow> reader \<Rightarrow> options option \<Rightarrow> nat \<Rightarrow> act" where
  "export_json_ex sv r opts frames =
     (let root_count = hdr_root_count (rd_header r)
      in if root_count = 0 then steps [write_literal sv ''{}'', write_newline sv opts]
         else steps [write_literal sv ''{'', write_newline sv opts,
           write_entries sv r opts (export_value sv r opts frames) return_false (hdr_root_index_offset (rd_header r)) root_count 0,
           write_newline sv opts, write_all sv [0x7D], write_newline sv opts, \<lambda>s. Inr (\<not> es_failed s, s)])"

definition export_json :: "services \<Rightarrow> reader \<Rightarrow> nat \<Rightarrow> act" where
  "export_json sv r frames =
     export_json_ex sv r (Some \<lparr>op_indent_spaces = 2, op_sort_keys = True, op_ascii_only = False\<rparr>) frames"

section \<open>The writes print\<close>

lemma prints_write_all: "obliging sv \<Longrightarrow> prints (write_all sv t) t"
  by (simp add: adds_def write_all_def obliging_accepts)

lemma prints_write_literal: "obliging sv \<Longrightarrow> prints (write_literal sv t) (ascii t)"
  by (simp add: write_literal_def prints_write_all)

lemma prints_write_spaces:
  assumes "obliging sv"
  shows "prints (write_spaces sv n) (replicate n 0x20)"
proof (induction n rule: less_induct)
  case (less n)
  show ?case
  proof (cases "n > 0")
    case True
    let ?m = "min n 64"
    have "prints (steps [write_all sv (replicate ?m 0x20), write_spaces sv (n - ?m)]) (replicate ?m 0x20 @ replicate (n - ?m) 0x20)"
      using True less by (intro prints_Cons prints_one prints_write_all [OF assms]) simp
    moreover have "replicate ?m (0x20 :: byte) @ replicate (n - ?m) 0x20 = replicate n 0x20" by (simp add: replicate_add [symmetric])
    ultimately show ?thesis using True by (subst write_spaces.simps) simp
  qed (simp add: write_spaces.simps prints_Nil)
qed

text \<open>The layout: line breaks and indentation, unless the indentation is zero.\<close>

definition line_break :: "options option \<Rightarrow> bytes" where
  "line_break opts = (if indent_spaces opts = 0 then [] else [0x0A])"

definition margin :: "options option \<Rightarrow> u32 \<Rightarrow> bytes" where
  "margin opts depth = replicate (unat (indent_spaces opts) * unat depth) 0x20"

lemma prints_newline: "obliging sv \<Longrightarrow> prints (write_newline sv opts) (line_break opts)"
  by (simp add: write_newline_def line_break_def prints_write_all prints_Nil)

lemma prints_indent: "obliging sv \<Longrightarrow> prints (write_indent sv opts depth) (margin opts depth)"
  by (simp add: write_indent_def margin_def prints_write_spaces prints_Nil)

section \<open>The text of a character\<close>

definition upper_digit :: "nat \<Rightarrow> byte" where
  "upper_digit d = (if d < 10 then 0x30 + of_nat d else 0x37 + of_nat d)"

definition hex4 :: "nat \<Rightarrow> bytes" where
  "hex4 n = [upper_digit (n div 4096), upper_digit (n div 256 mod 16), upper_digit (n div 16 mod 16), upper_digit (n mod 16)]"

definition unicode_escape :: "nat \<Rightarrow> bytes" where
  "unicode_escape n = [0x5C, 0x75] @ hex4 n"

text \<open>
  RFC 8259: the quote, the backslash and the control characters are escaped; with \<open>ascii_only\<close>
  everything outside ASCII is too, beyond the basic plane as a surrogate pair.
\<close>

definition short_escape :: "nat \<Rightarrow> byte option" where
  "short_escape cp =
     (if cp = 0x22 then Some 0x22 else if cp = 0x5C then Some 0x5C else if cp = 0x08 then Some 0x62
      else if cp = 0x0C then Some 0x66 else if cp = 0x0A then Some 0x6E else if cp = 0x0D then Some 0x72
      else if cp = 0x09 then Some 0x74 else None)"

definition json_char :: "bool \<Rightarrow> nat \<Rightarrow> bytes" where
  "json_char plain_ascii cp =
     (case short_escape cp of
        Some c \<Rightarrow> [0x5C, c]
      | None \<Rightarrow>
          if cp < 0x20 then unicode_escape cp
          else if cp < 0x80 then [of_nat cp]
          else if \<not> plain_ascii then utf8_encode cp
          else if cp < 0x10000 then unicode_escape cp
          else unicode_escape (0xD800 + (cp - 0x10000) div 1024) @ unicode_escape (0xDC00 + (cp - 0x10000) mod 1024))"

definition json_quote :: "bool \<Rightarrow> nat list \<Rightarrow> bytes" where
  "json_quote plain_ascii cps = [0x22] @ concat (map (json_char plain_ascii) cps) @ [0x22]"

lemma upper_hex_digit: "d < 16 \<Longrightarrow> upper_hex (hex_digit d) = upper_digit d"
proof -
  assume "d < 16"
  then have "d \<in> {0..<16}" by simp
  then have "d \<in> set [0..<16]" by simp
  moreover have "\<forall>d \<in> set [0..<16]. upper_hex (hex_digit d) = upper_digit d" by code_simp
  ultimately show ?thesis by blast
qed

lemma prints_hex_escape:
  assumes "obliging sv" and "n < 0x10000" and "unat cp = n"
  shows "prints (hex_escape sv cp) (unicode_escape n)"
proof -
  have "(ucast cp :: u64) = of_nat n" using assms(2,3) by (simp add: word_unat_eq_iff)
  then have "sv_hex sv (ucast cp) 4 = Some (lower_hex4 n)" using assms(1,2) by (simp add: obliging_def)
  moreover have "map upper_hex (lower_hex4 n) = hex4 n" using assms(2) by (simp add: lower_hex4_def hex4_def upper_hex_digit div_less_iff_less_mult)
  ultimately show ?thesis unfolding hex_escape_def unicode_escape_def
    by (simp add: prints_Cons prints_one prints_write_all [OF assms(1)] del: append.simps)
qed

lemma prints_escape_codepoint:
  assumes sv: "obliging sv" and cp: "unat codepoint = cp" "cp \<le> 0x10FFFF"
  shows "prints (escape_codepoint sv codepoint) (if cp < 0x10000 then unicode_escape cp
    else unicode_escape (0xD800 + (cp - 0x10000) div 1024) @ unicode_escape (0xDC00 + (cp - 0x10000) mod 1024))"
proof (cases "cp < 0x10000")
  case True
  then have "codepoint \<le> 0xFFFF" using cp by (simp add: word_le_nat_alt)
  then show ?thesis using True prints_hex_escape [OF sv True cp(1)] by (simp add: escape_codepoint_def)
next
  case False
  then have large: "\<not> codepoint \<le> 0xFFFF" using cp by (simp add: word_le_nat_alt)
  have a: "unat (codepoint - 0x10000) = cp - 0x10000" using False cp by (subst unat_sub) (simp_all add: word_le_nat_alt)
  have div: "(cp - 0x10000) div 1024 < 1024" using cp(2) by (simp add: div_less_iff_less_mult)
  have high: "unat (0xD800 + drop_bit 10 (codepoint - 0x10000)) = 0xD800 + (cp - 0x10000) div 1024"
    using div a by (simp add: unat_word_ariths(1) unat_drop_bit_eq drop_bit_eq_div unat_div)
  have "(codepoint - 0x10000) AND 0x3FF = take_bit 10 (codepoint - 0x10000)" by (simp add: take_bit_eq_mask mask_eq_exp_minus_1)
  then have "unat ((codepoint - 0x10000) AND 0x3FF) = (cp - 0x10000) mod 1024"
    using a by (simp only: unsigned_take_bit_eq) (simp add: take_bit_eq_mod)
  then have low: "unat (0xDC00 + ((codepoint - 0x10000) AND 0x3FF)) = 0xDC00 + (cp - 0x10000) mod 1024"
    by (simp add: unat_word_ariths(1))
  show ?thesis
    using False large prints_Cons [OF prints_hex_escape [OF sv _ high] prints_one [OF prints_hex_escape [OF sv _ low]]] div
    by (simp add: escape_codepoint_def Let_def)
qed


section \<open>Strings\<close>

lemma utf8_continue_bits:
  "continuation_bits (length bs) (bs @ rest) l = Some cp \<Longrightarrow> unat w = l \<Longrightarrow> l < 32 * 64 ^ m \<Longrightarrow> m + length bs \<le> 3 \<Longrightarrow>
     \<exists>v. utf8_continue w bs = Some v \<and> unat v = cp"
proof (induction bs arbitrary: l w m)
  case (Cons b bs)
  have b: "unat b div 64 = 2" "continuation_bits (length bs) (bs @ rest) (l * 64 + unat b mod 64) = Some cp"
    using Cons.prems(1) by (auto split: if_splits)
  have "(64 :: nat) ^ m \<le> 64 ^ 2" using Cons.prems(4) by (intro power_increasing) simp_all
  then have "unat w < 2 ^ 26" using Cons.prems(2,3) by simp
  then have w: "unat (push_bit 6 w OR ucast (b AND 0x3F)) = l * 64 + unat b mod 64"
    using shift_in [of w "ucast (b AND 0x3F)"] Cons.prems(2) by (simp add: byte_values)
  have "unat b mod 64 < 64" by simp
  then have "l * 64 + unat b mod 64 < 32 * 64 ^ Suc m" using Cons.prems(3) by simp
  then show ?case using Cons.IH [OF b(2) w, of "Suc m"] Cons.prems(4) b(1) byte_tests(1) [of b] by simp
qed simp

lemma utf8_sequence_bits:
  assumes "lead_bits (unat b) = Some (n, l)"
  shows "\<exists>w. utf8_sequence b = Some (n, w) \<and> unat w = l"
  using assms unfolding utf8_sequence_def byte_tests lead_bits_def
  by (auto simp: byte_values split: if_splits)

lemma utf8_decode_encode:
  assumes "is_scalar cp" and "0x80 \<le> cp"
  shows "\<exists>v. utf8_decode (utf8_encode cp @ rest) = Some (v, length (utf8_encode cp)) \<and> unat v = cp"
proof -
  obtain b bs l where seq: "utf8_encode cp = b # bs" "128 \<le> unat b" "lead_bits (unat b) = Some (Suc (length bs), l)"
    "continuation_bits (length bs) (bs @ rest) l = Some cp"
    using encode_sequence [OF assms, of rest] by blast
  obtain w where w: "utf8_sequence b = Some (Suc (length bs), w)" "unat w = l" using utf8_sequence_bits [OF seq(3)] by blast
  have "l < 32" "length bs \<le> 3" using lead_bits_bound [OF seq(3)] by auto
  then obtain v where v: "utf8_continue w bs = Some v" "unat v = cp"
    using utf8_continue_bits [OF seq(4) w(2), of 0] by auto
  have "\<not> b < 0x80" using seq(2) by (simp add: word_less_nat_alt)
  then show ?thesis using v by (simp add: utf8_decode_def seq(1) w(1))
qed

lemma escape_letters:
  "char_of (0x22 :: nat) = CHR 0x22" "char_of (0x5C :: nat) = CHR 0x5C" "char_of (0x62 :: nat) = CHR ''b''"
  "char_of (0x66 :: nat) = CHR ''f''" "char_of (0x6E :: nat) = CHR ''n''" "char_of (0x72 :: nat) = CHR ''r''"
  "char_of (0x74 :: nat) = CHR ''t''"
  by code_simp+

lemma replacement_byte:
  "replacement b = (case short_escape (unat b) of None \<Rightarrow> None | Some c \<Rightarrow> Some [CHR 0x5C, char_of (unat c)])"
  by (simp add: replacement_def short_escape_def word_unat_eq_iff escape_letters)

lemma prints_json_chars:
  assumes sv: "obliging sv"
  shows "\<forall>cp \<in> set cps. is_scalar cp \<Longrightarrow>
    prints (write_json_chars sv plain_ascii (concat (map utf8_encode cps))) (concat (map (json_char plain_ascii) cps))"
proof (induction cps)
  case Nil
  then show ?case by (simp add: prints_Nil)
next
  case (Cons cp cps)
  let ?rest = "concat (map utf8_encode cps)"
  have scalar: "is_scalar cp" and rest: "prints (write_json_chars sv plain_ascii ?rest) (concat (map (json_char plain_ascii) cps))"
    using Cons by simp_all
  have step: "prints (steps [a, write_json_chars sv plain_ascii ?rest]) (t @ concat (map (json_char plain_ascii) cps))" if "prints a t" for a t
    by (intro prints_Cons prints_one that rest)
  show ?case
  proof (cases "cp < 0x80")
    case True
    let ?b = "of_nat cp :: byte"
    have b: "utf8_encode cp = [?b]" "unat ?b = cp" using True by (simp_all add: utf8_encode_def unat_of_nat)
    have "write_json_chars sv plain_ascii (?b # ?rest) = steps [(case short_escape cp of Some c \<Rightarrow> write_all sv [0x5C, c]
        | None \<Rightarrow> if cp < 0x20 then hex_escape sv (ucast ?b) else write_all sv [?b]), write_json_chars sv plain_ascii ?rest]"
      using True b(2) by (simp add: replacement_byte word_less_nat_alt write_literal_def ascii_def unat_byte_less split: option.splits)
    moreover have "prints (case short_escape cp of Some c \<Rightarrow> write_all sv [0x5C, c]
        | None \<Rightarrow> if cp < 0x20 then hex_escape sv (ucast ?b) else write_all sv [?b]) (json_char plain_ascii cp)"
      using True b(2) prints_hex_escape [OF sv, of cp "ucast ?b"]
      by (simp add: json_char_def prints_write_all [OF sv] split: option.splits)
    ultimately show ?thesis using step by (simp add: b(1))
  next
    case False
    obtain b bs l where seq: "utf8_encode cp = b # bs" "128 \<le> unat b"
      using encode_sequence [OF scalar, of ?rest] False by auto
    obtain v where v: "utf8_decode (b # bs @ ?rest) = Some (v, Suc (length bs))" "unat v = cp"
      using utf8_decode_encode [OF scalar, of ?rest] False seq by auto
    have none: "replacement b = None" "short_escape cp = None" using seq(2) False by (simp_all add: replacement_byte short_escape_def)
    have high: "\<not> b < 0x20" "\<not> b < 0x80" using seq(2) by (simp_all add: word_less_nat_alt)
    have max: "cp \<le> 0x10FFFF" using scalar by (auto simp: is_scalar_def)
    have "write_json_chars sv plain_ascii (b # bs @ ?rest) =
        steps [if \<not> plain_ascii then write_all sv (b # bs) else escape_codepoint sv v, write_json_chars sv plain_ascii ?rest]"
      by (simp add: none high v(1))
    moreover have "prints (if \<not> plain_ascii then write_all sv (b # bs) else escape_codepoint sv v) (json_char plain_ascii cp)"
      using prints_escape_codepoint [OF sv v(2) max] prints_write_all [OF sv, of "b # bs"] False none(2)
      by (auto simp: json_char_def seq(1))
    ultimately show ?thesis using step by (simp add: seq(1))
  qed
qed

lemma prints_json_string:
  assumes "obliging sv" and "\<forall>cp \<in> set cps. is_scalar cp"
  shows "prints (write_json_string sv opts (concat (map utf8_encode cps))) (json_quote (ascii_only opts) cps)"
  unfolding write_json_string_def json_quote_def
  by (intro prints_Cons prints_one prints_write_all prints_json_chars assms)

end
