(* ===== verification/Export_Ini.thy ===== *)
theory Export_Ini
  imports Export_Json
begin

text \<open>
  The INI exporter (\<open>src/export/bc_hrbl_export_ini.c\<close>). Its sort entries are those of
  \<open>Export_Output\<close>, of which it does not use the entry offset; without \<open>sort_keys\<close> the entries stay in
  table order. A key is read from the buffer when it is written or copied.
\<close>

section \<open>Writing\<close>

definition ini_write :: "services \<Rightarrow> bytes \<Rightarrow> act" where
  "ini_write sv data s =
     (if es_failed s then Inr (False, s)
      else if length data = 0 then Inr (True, s)
      else if \<not> sv_accepts sv (es_writes s) data
      then Inr (False, s\<lparr>es_writes := es_writes s + 1, es_failed := True\<rparr>)
      else Inr (True, s\<lparr>es_writes := es_writes s + 1, es_output := es_output s @ data\<rparr>))"

definition ini_write_literal :: "services \<Rightarrow> string \<Rightarrow> act" where
  "ini_write_literal sv literal = ini_write sv (ascii literal)"

definition ini_replacement :: "byte \<Rightarrow> string option" where
  "ini_replacement c =
     (if c = 0x5C then Some [CHR 0x5C, CHR 0x5C]
      else if c = 0x22 then Some [CHR 0x5C, CHR 0x22]
      else if c = 0x0A then Some [CHR 0x5C, CHR ''n'']
      else if c = 0x0D then Some [CHR 0x5C, CHR ''r'']
      else if c = 0x09 then Some [CHR 0x5C, CHR ''t'']
      else None)"

definition ini_write_byte :: "services \<Rightarrow> byte \<Rightarrow> act" where
  "ini_write_byte sv c =
     (case ini_replacement c of
        Some chunk \<Rightarrow> ini_write_literal sv chunk
      | None \<Rightarrow>
          if c < 0x20 then
            (case sv_hex sv (ucast c) 2 of
               None \<Rightarrow> fail_export
             | Some hex \<Rightarrow> steps [ini_write_literal sv [CHR 0x5C, CHR ''x''], ini_write sv (map upper_hex hex)])
          else ini_write sv [c])"

definition ini_write_escaped :: "services \<Rightarrow> bytes \<Rightarrow> act" where
  "ini_write_escaped sv data =
     steps [ini_write_literal sv [CHR 0x22], steps (map (ini_write_byte sv) data), ini_write_literal sv [CHR 0x22]]"

definition ini_write_formatted :: "services \<Rightarrow> bytes option \<Rightarrow> act" where
  "ini_write_formatted sv formatted = (case formatted of None \<Rightarrow> fail_export | Some t \<Rightarrow> ini_write sv t)"

text \<open>A double that cannot be formatted is not recorded as a failure.\<close>

definition ini_write_float64 :: "services \<Rightarrow> u64 \<Rightarrow> act" where
  "ini_write_float64 sv v =
     (if is_nan v \<or> is_inf v then ini_write_literal sv ''''
      else case sv_double sv v of None \<Rightarrow> return_false | Some t \<Rightarrow> ini_write sv t)"

definition ini_write_scalar_value :: "services \<Rightarrow> reader \<Rightarrow> u64 \<Rightarrow> act" where
  "ini_write_scalar_value sv r value_offset =
     with_read (reader_kind_at r value_offset) (\<lambda>k. case k of
         K_NULL \<Rightarrow> ini_write_literal sv ''''
       | K_FALSE \<Rightarrow> ini_write_literal sv ''false''
       | K_TRUE \<Rightarrow> ini_write_literal sv ''true''
       | K_INT64 \<Rightarrow> with_read (reader_scalar_int64_at r value_offset) (\<lambda>v. ini_write_formatted sv (sv_int64 sv v))
       | K_UINT64 \<Rightarrow> with_read (reader_scalar_uint64_at r value_offset) (\<lambda>v. ini_write_formatted sv (sv_uint64 sv v))
       | K_FLOAT64 \<Rightarrow> with_read (reader_scalar_float64_at r value_offset) (ini_write_float64 sv)
       | K_STRING \<Rightarrow> with_read (reader_scalar_string_at r value_offset) (\<lambda>(data, n).
           with_memory (view (rd_base r) data (unat n)) (ini_write_escaped sv))
       | K_BLOCK \<Rightarrow> return_false
       | K_ARRAY \<Rightarrow> return_false)"

section \<open>Entries\<close>

definition ini_sort_less_by_key :: "services \<Rightarrow> reader \<Rightarrow> sort_entry \<Rightarrow> sort_entry \<Rightarrow> stop + bool" where
  "ini_sort_less_by_key sv r a b =
     (let a_length = unat (se_key_length a); b_length = unat (se_key_length b);
          min_length = if a_length < b_length then a_length else b_length
      in bindE (key_view r a min_length) (\<lambda>a_data.
         bindE (key_view r b min_length) (\<lambda>b_data.
           Inr (let cmp = sv_memcmp sv a_data b_data
                in if cmp \<noteq> 0 then cmp < 0 else a_length < b_length))))"

text \<open>The copies of the entries of a table, sorted when the options say so; 24 is the size of a copy.\<close>

definition ini_entries ::
    "services \<Rightarrow> reader \<Rightarrow> options option \<Rightarrow> act \<Rightarrow> u64 \<Rightarrow> u64 \<Rightarrow> (sort_entry list \<Rightarrow> act) \<Rightarrow> act" where
  "ini_entries sv r opts refused off n emit =
     scratch_alloc sv (unat (n * 24)) refused
       (with_memory (load_sort_entries (rd_base r) off (unat n)) (\<lambda>es.
        if sort_keys opts then with_memory (sort_with_compare sv (ini_sort_less_by_key sv r) es) emit else emit es))"

definition ini_key :: "reader \<Rightarrow> sort_entry \<Rightarrow> (bytes \<Rightarrow> act) \<Rightarrow> act" where
  "ini_key r e f = with_memory (key_view r e (unat (se_key_length e))) f"

definition ini_emit_element :: "services \<Rightarrow> reader \<Rightarrow> sort_entry \<Rightarrow> u64 \<Rightarrow> nat \<Rightarrow> act" where
  "ini_emit_element sv r e elements_offset i =
     with_memory (fetch (rd_base r) (elements_offset + of_nat i * of_nat ARRAY_ELEMENT_SIZE) 8) (\<lambda>bs.
     with_read (reader_kind_at r (load_u64 bs)) (\<lambda>kind.
       if kind = K_BLOCK \<or> kind = K_ARRAY then fail_export
       else steps [ini_key r e (ini_write sv), ini_write_literal sv ''[]='', ini_write_scalar_value sv r (load_u64 bs),
         ini_write_literal sv [CHR 0x0A]]))"

definition section_name :: "bytes \<Rightarrow> bytes \<Rightarrow> bytes" where
  "section_name outer key = (if outer \<noteq> [] then outer @ [0x2E] @ key else key)"

definition section_name_length :: "bytes \<Rightarrow> sort_entry \<Rightarrow> nat" where
  "section_name_length outer e = length outer + unat (se_key_length e) + (if outer \<noteq> [] then 1 else 0)"

definition ini_emit_entry ::
    "services \<Rightarrow> reader \<Rightarrow> (bytes \<Rightarrow> u64 \<Rightarrow> act) \<Rightarrow> bytes \<Rightarrow> sort_entry \<Rightarrow> act" where
  "ini_emit_entry sv r emit_block outer e =
     with_read (reader_kind_at r (se_value_offset e)) (\<lambda>kind.
       if kind = K_BLOCK then
         scratch_alloc sv (section_name_length outer e + 1) fail_export
           (ini_key r e (\<lambda>key. emit_block (section_name outer key) (se_value_offset e)))
       else if kind = K_ARRAY then
         with_read (reader_array_body_offsets r (se_value_offset e)) (\<lambda>(header, elements_offset).
           steps (map (ini_emit_element sv r e elements_offset) [0..<unat (ah_element_count header)]))
       else steps [ini_key r e (ini_write sv), ini_write_literal sv '' = '', ini_write_scalar_value sv r (se_value_offset e),
         ini_write_literal sv [CHR 0x0A]])"

section \<open>Blocks\<close>

text \<open>
  The first pass emits all but the blocks and collects the blocks, in a buffer that is allocated for
  the first one; the second pass emits them.
\<close>

definition ini_emit_blocks :: "services \<Rightarrow> (sort_entry \<Rightarrow> act) \<Rightarrow> sort_entry list \<Rightarrow> act" where
  "ini_emit_blocks sv emit blocks =
     (if blocks \<noteq> [] then steps [ini_write_literal sv [CHR 0x0A], steps (map emit blocks)] else steps [])"

fun ini_emit_entries :: "services \<Rightarrow> reader \<Rightarrow> nat \<Rightarrow> (sort_entry \<Rightarrow> act) \<Rightarrow> sort_entry list \<Rightarrow> sort_entry list \<Rightarrow> act" where
  "ini_emit_entries sv r n emit blocks [] = ini_emit_blocks sv emit blocks"
| "ini_emit_entries sv r n emit blocks (e # es) =
     with_read (reader_kind_at r (se_value_offset e)) (\<lambda>kind.
       if kind = K_BLOCK then
         (if blocks = [] then scratch_alloc sv n fail_export (ini_emit_entries sv r n emit [e] es)
          else ini_emit_entries sv r n emit (blocks @ [e]) es)
       else steps [emit e, ini_emit_entries sv r n emit blocks es])"

definition ini_write_section :: "services \<Rightarrow> bytes \<Rightarrow> bool \<Rightarrow> act" where
  "ini_write_section sv name is_root =
     (if \<not> is_root \<and> length name \<noteq> 0
      then steps [ini_write_literal sv ''['', ini_write sv name, ini_write_literal sv ('']'' @ [CHR 0x0A])] else steps [])"

fun ini_emit_block :: "services \<Rightarrow> reader \<Rightarrow> options option \<Rightarrow> nat \<Rightarrow> bool \<Rightarrow> bytes \<Rightarrow> u64 \<Rightarrow> act" where
  "ini_emit_block sv r opts 0 is_root name block_offset = (\<lambda>s. Inl Stack_overflow)"
| "ini_emit_block sv r opts (Suc frames) is_root name block_offset =
     with_read (reader_block_body_offsets r block_offset) (\<lambda>(header, entries_offset).
       let n = ucast (bh_child_count header) :: u64;
           emit = (\<lambda>es. steps [ini_write_section sv name is_root,
             ini_emit_entries sv r (unat (n * 24)) (ini_emit_entry sv r (ini_emit_block sv r opts frames False) name) [] es])
       in if bh_child_count header \<noteq> 0 then ini_entries sv r opts fail_export entries_offset n emit else emit [])"

section \<open>A file\<close>

text \<open>
  At the root the loops are left at the first entry that fails, but the blocks are emitted all the same
  unless a failure was recorded, and the result is whether one was.
\<close>

fun ini_root_blocks :: "(sort_entry \<Rightarrow> act) \<Rightarrow> sort_entry list \<Rightarrow> act" where
  "ini_root_blocks emit [] s = Inr (\<not> es_failed s, s)"
| "ini_root_blocks emit (e # es) s =
     (if es_failed s then Inr (\<not> es_failed s, s)
      else bindE (emit e s) (\<lambda>(ok, s). if ok then ini_root_blocks emit es s else Inr (\<not> es_failed s, s)))"

fun ini_root_entries :: "services \<Rightarrow> reader \<Rightarrow> nat \<Rightarrow> (sort_entry \<Rightarrow> act) \<Rightarrow> sort_entry list \<Rightarrow> sort_entry list \<Rightarrow> act" where
  "ini_root_entries sv r n emit blocks [] s = ini_root_blocks emit blocks s"
| "ini_root_entries sv r n emit blocks (e # es) s =
     (if es_failed s then ini_root_blocks emit blocks s
      else case reader_kind_at r (se_value_offset e) of
        Inl Bad_read \<Rightarrow> Inl Bad_memory
      | Inl Rejected \<Rightarrow> ini_root_blocks emit blocks (s\<lparr>es_failed := True\<rparr>)
      | Inr kind \<Rightarrow>
          if kind = K_BLOCK then
            (if blocks = [] then
               scratch_alloc sv n (\<lambda>s. ini_root_blocks emit blocks (s\<lparr>es_failed := True\<rparr>)) (ini_root_entries sv r n emit [e] es) s
             else ini_root_entries sv r n emit (blocks @ [e]) es s)
          else bindE (emit e s) (\<lambda>(ok, s). if ok then ini_root_entries sv r n emit blocks es s else ini_root_blocks emit blocks s))"

definition export_ini_ex :: "services \<Rightarrow> reader \<Rightarrow> options option \<Rightarrow> nat \<Rightarrow> act" where
  "export_ini_ex sv r opts frames =
     (let root_count = hdr_root_count (rd_header r)
      in if root_count = 0 then steps []
         else ini_entries sv r opts return_false (hdr_root_index_offset (rd_header r)) root_count
           (ini_root_entries sv r (unat (root_count * 24)) (ini_emit_entry sv r (ini_emit_block sv r opts frames False) []) []))"

definition export_ini :: "services \<Rightarrow> reader \<Rightarrow> nat \<Rightarrow> act" where
  "export_ini sv r frames = export_ini_ex sv r None frames"

end
