(* ===== verification/Tables.thy ===== *)
theory Tables
  imports Roundtrip Export_Rules
begin

text \<open>
  The entry tables of a file whose reader gives a document. A lookup that succeeds has found an
  entry of the table with the key, in any table, sorted or not; so a table with as many
  entries as the document has distinct keys holds exactly those keys, in some order, and a copy
  of it sorted by key is the list of the document's entries in the order of their keys.
\<close>

section \<open>A lookup that succeeds\<close>

lemma linear_probe_sound:
  assumes wf: "wf_reader r" and fits: "table_fits r start n" and i: "i < n"
    and found: "reader_linear_probe_range r start n i h key = Inr e"
  shows "e \<in> set (table_entries r start n) \<and> hit r h key e"
proof -
  have left: "sint i = int (Suc (unat i)) - 1" using table_index(1) [OF wf fits i] by simp
  have right: "i + 1 = of_nat (Suc (unat i))" by simp
  have suc: "Suc (unat i) \<le> unat n" using i by (simp add: word_less_nat_alt)
  show ?thesis
    using found probe_left_spec [OF wf fits suc, of h key] probe_right_spec [OF wf fits suc, of h key]
    unfolding reader_linear_probe_range_def left right by auto
qed

lemma binary_search_sound:
  "wf_reader r \<Longrightarrow> table_fits r start n \<Longrightarrow> high \<le> n \<Longrightarrow> binary_search_loop r start n h key low high = Inr e \<Longrightarrow>
     e \<in> set (table_entries r start n) \<and> hit r h key e"
proof (induction r start n h key low high rule: binary_search_loop.induct)
  case (1 r start n h key low high)
  show ?case
  proof (cases "low < high")
    case False
    then show ?thesis using 1(6) by (simp add: binary_search_loop.simps)
  next
    case True
    let ?mid = "low + (high - low) div 2"
    have mid: "unat ?mid < unat high" using unat_midpoint [OF True] True by (auto simp: word_less_nat_alt)
    then have lt: "?mid < n" "?mid \<le> n" using 1(5) by (auto simp: word_less_nat_alt word_le_nat_alt)
    have len: "unat ?mid < unat n" using lt(1) by (simp add: word_less_nat_alt)
    let ?c = "table_entries r start n ! unat ?mid"
    have read: "reader_read_entry r (start + ?mid * of_nat ENTRY_SIZE) = Inr ?c"
      using read_table_entry [OF 1(3,4) len] by simp
    have mem: "?c \<in> set (table_entries r start n)" using len by (intro nth_mem) simp
    note found = 1(6) [unfolded binary_search_loop.simps [of r start n h key low high], simplified True read Let_def if_True bindE_Inr]
    consider "ent_key_hash64 ?c < h" | "h < ent_key_hash64 ?c" | "ent_key_hash64 ?c = h" by (rule linorder_cases)
    then show ?thesis
    proof cases
      case 1
      then show ?thesis using "1.IH"(1) [OF True refl read] "1.prems" found by simp
    next
      case 2
      then have "\<not> ent_key_hash64 ?c < h" by (rule less_not_sym)
      then show ?thesis using "1.IH"(2) [OF True refl read _ 2 "1.prems"(1,2)] lt(2) found 2 by simp
    next
      case 3
      then have f: "bindE (reader_key_equals r ?c key) (\<lambda>equal. if equal then Inr ?c
          else reader_linear_probe_range r start n ?mid h key) = Inr e" using found by simp
      show ?thesis
      proof (cases rule: key_equals_cases [OF "1.prems"(1) 3, of key])
        case 1
        then show ?thesis using f mem by simp
      next
        case 2
        then show ?thesis using f linear_probe_sound [OF "1.prems"(1,2) lt(1), of h key e] by simp
      qed
    qed
  qed
qed


lemma find_value_sound:
  assumes "wf_reader r" and "table_fits r start n" and "find_value hash r start n key = Inr v"
  shows "\<exists>e \<in> set (table_entries r start n). hit r (hash key) key e \<and> ent_value_offset e = v"
  using assms(3) binary_search_sound [OF assms(1,2), of n "hash key" key 0]
  by (auto simp: find_value_def reader_binary_search_entries_def bindE_eq_Inr split: if_splits)

section \<open>A table is a list of the document's entries\<close>

lemma key_equals_unique:
  "reader_key_equals r e k = Inr True \<Longrightarrow> reader_key_equals r e l = Inr True \<Longrightarrow> k = l"
  by (auto simp: reader_key_equals_def Let_def bindE_eq_Inr split: if_splits)

lemma mset_map_permute:
  assumes "inj_on g {..<n}" and "g ` {..<n} = {..<n}"
  shows "mset (map (\<lambda>j. f (inv_into {..<n} g j)) [0..<n]) = mset (map f [0..<n])"
proof -
  have "inj_on (inv_into {..<n} g) {..<n}" "inv_into {..<n} g ` {..<n} = {..<n}"
    using assms inj_on_inv_into [of "{..<n}" g "{..<n}"] inv_into_image_cancel [OF assms(1), of "{..<n}"] by auto
  then have "distinct (map (inv_into {..<n} g) [0..<n])" "set (map (inv_into {..<n} g) [0..<n]) = {..<n}"
    by (simp_all add: distinct_map atLeast0LessThan)
  then have "mset (map (inv_into {..<n} g) [0..<n]) = mset [0..<n]"
    by (intro set_eq_iff_mset_eq_distinct [THEN iffD1]) auto
  then have "mset (map f (map (inv_into {..<n} g) [0..<n])) = mset (map f [0..<n])" unfolding mset_map by simp
  then show ?thesis by (simp add: comp_def)
qed

lemma table_lists:
  fixes es :: "(bytes \<times> 'v) list"
  assumes wf: "wf_reader r" and fits: "table_fits r start n" and distinct: "distinct (map fst es)"
    and len: "unat n \<le> length es"
    and found: "\<And>k v. (k, v) \<in> set es \<Longrightarrow> \<exists>p. find_value hash r start n k = Inr p \<and> Q p v"
  shows "\<exists>es'. mset es' = mset es \<and>
    list_all2 (\<lambda>e (k, v). reader_key_equals r e k = Inr True \<and> Q (ent_value_offset e) v) (table_entries r start n) es'"
proof -
  let ?T = "table_entries r start n" and ?N = "length es"
  have "\<exists>j < unat n. reader_key_equals r (?T ! j) (fst (es ! i)) = Inr True \<and> Q (ent_value_offset (?T ! j)) (snd (es ! i))"
    if i: "i < ?N" for i
  proof -
    have "(fst (es ! i), snd (es ! i)) \<in> set es" using i by simp
    from found [OF this] obtain p where p: "find_value hash r start n (fst (es ! i)) = Inr p" "Q p (snd (es ! i))" by blast
    from find_value_sound [OF wf fits p(1)] p(2) show ?thesis by (auto simp: hit_def in_set_conv_nth)
  qed
  then obtain g where g: "\<And>i. i < ?N \<Longrightarrow> g i < unat n \<and> reader_key_equals r (?T ! g i) (fst (es ! i)) = Inr True \<and>
      Q (ent_value_offset (?T ! g i)) (snd (es ! i))" by metis
  have inj: "inj_on g {..<?N}"
  proof (rule inj_onI)
    fix i j assume ij: "i \<in> {..<?N}" "j \<in> {..<?N}" "g i = g j"
    then have "fst (es ! i) = fst (es ! j)" using g [of i] g [of j] key_equals_unique by (metis lessThan_iff)
    then show "i = j" using distinct ij by (simp add: distinct_conv_nth) (metis)
  qed
  have "card (g ` {..<?N}) \<le> card {..<unat n}" using g by (intro card_mono) auto
  then have N: "unat n = ?N" using inj len by (simp add: card_image)
  then have img: "g ` {..<?N} = {..<?N}" using inj g by (intro inj_on_lessThan_surj) auto
  let ?es = "map (\<lambda>j. es ! inv_into {..<?N} g j) [0..<?N]"
  have "mset ?es = mset es" using mset_map_permute [OF inj img, of "\<lambda>i. es ! i"] by (simp add: map_nth)
  moreover have "list_all2 (\<lambda>e (k, v). reader_key_equals r e k = Inr True \<and> Q (ent_value_offset e) v) ?T ?es"
  proof (rule list_all2_all_nthI)
    fix j assume "j < length ?T"
    then have j: "j < ?N" using N by simp
    then have i: "inv_into {..<?N} g j < ?N" "g (inv_into {..<?N} g j) = j"
      using img inv_into_into [of j g "{..<?N}"] f_inv_into_f [of j g "{..<?N}"] by auto
    then show "case ?es ! j of (k, v) \<Rightarrow> reader_key_equals r (?T ! j) k = Inr True \<and> Q (ent_value_offset (?T ! j)) v"
      using g [OF i(1)] j by (simp add: case_prod_beta)
  qed (simp add: N)
  ultimately show ?thesis by blast
qed

section \<open>The copies of the entries\<close>

lemma load_sort_entries_eq:
  "unat start + m * 24 \<le> length base \<Longrightarrow> length base < 2 ^ 63 \<Longrightarrow> load_sort_entries base start m =
     Inr (map (\<lambda>i. sort_entry_of (start + of_nat (i * 24)) (load_entry (take 24 (drop (unat start + i * 24) base)))) [0..<m])"
proof (induction m arbitrary: start)
  case (Suc m)
  have start: "unat (start + 24) = unat start + 24"
    using Suc.prems unat_add_nat [of start 24] by simp
  have shift: "map (\<lambda>i. f (i + 1)) [0..<m] = map f [1..<Suc m]" for f :: "nat \<Rightarrow> sort_entry"
  proof -
    have "map (\<lambda>i. f (i + 1)) [0..<m] = map f (map Suc [0..<m])" by simp
    then show ?thesis unfolding map_Suc_upt by (simp del: upt_Suc)
  qed
  have "load_sort_entries base (start + 24) m =
      Inr (map (\<lambda>i. sort_entry_of (start + of_nat ((i + 1) * 24)) (load_entry (take 24 (drop (unat start + (i + 1) * 24) base)))) [0..<m])"
    using Suc.IH [of "start + 24"] Suc.prems start by (simp add: algebra_simps)
  moreover have "fetch base start 24 = Inr (take 24 (drop (unat start) base))"
    using Suc.prems by (simp add: fetch_eq_Inr)
  ultimately show ?case
    unfolding shift [of "\<lambda>i. sort_entry_of (start + of_nat (i * 24)) (load_entry (take 24 (drop (unat start + i * 24) base)))"]
    by (simp add: upt_conv_Cons del: upt_Suc)
qed simp

lemma load_table:
  assumes "wf_reader r" and "table_fits r start n"
  shows "\<exists>ses. load_sort_entries (rd_base r) start (unat n) = Inr ses \<and>
    list_all2 (\<lambda>se e. \<exists>off. se = sort_entry_of off e) ses (table_entries r start n)"
  using assms load_sort_entries_eq [of start "unat n" "rd_base r"] wf_reader_size [OF assms(1)]
  by (auto simp: table_fits_def table_entries_def list_all2_map1 list_all2_map2 list_all2_same)

lemma key_is_entry:
  assumes "reader_key_equals r e k = Inr True"
  shows "key_is r (sort_entry_of off e) k"
  using assms by (auto simp: reader_key_equals_def key_is_def key_view_def view_def sort_entry_of_def Let_def bindE_eq_Inr split: if_splits)

section \<open>Sorting by key\<close>

definition lists :: "reader \<Rightarrow> (u64 \<Rightarrow> 'v \<Rightarrow> bool) \<Rightarrow> sort_entry list \<Rightarrow> (bytes \<times> 'v) list \<Rightarrow> bool" where
  "lists r Q ses es \<longleftrightarrow> list_all2 (\<lambda>se (k, v). key_is r se k \<and> Q (se_value_offset se) v) ses es"

lemma linear_on_keys:
  assumes "distinct (map fst es)" and "\<And>i j. i < length es \<Longrightarrow> j < length es \<Longrightarrow> lt i j \<longleftrightarrow> (fst (es ! i) :: bytes) < fst (es ! j)"
  shows "linear_on (length es) lt"
proof -
  have "fst (es ! i) \<noteq> fst (es ! j)" if "i < length es" "j < length es" "i \<noteq> j" for i j
    using assms(1) that by (simp add: distinct_conv_nth)
  then show ?thesis using assms(2) unfolding linear_on_def by (auto dest: less_trans less_asym simp: neq_iff) 
qed

lemma sort_table:
  assumes sv: "obliging sv" and table: "lists r Q ses es" and distinct: "distinct (map fst es)"
  shows "\<exists>ses'. sort_with_compare sv (sort_less_by_key sv r) ses = Inr ses' \<and> lists r Q ses' (sort_key fst es)"
proof -
  have len: "length ses = length es" using table by (simp add: lists_def list_all2_lengthD)
  have at: "key_is r (ses ! i) (fst (es ! i)) \<and> Q (se_value_offset (ses ! i)) (snd (es ! i))" if "i < length es" for i
    using table that len by (simp add: lists_def list_all2_conv_all_nth case_prod_beta)
  define lt where "lt = (\<lambda>i j. sort_less_by_key sv r (ses ! i) (ses ! j) = Inr True)"
  have cmp: "sort_less_by_key sv r (ses ! i) (ses ! j) = Inr (fst (es ! i) < fst (es ! j))" if "i < length es" "j < length es" for i j
    using sort_less_by_key_eq [OF sv] at that by blast
  then have lt_iff: "lt i j \<longleftrightarrow> fst (es ! i) < fst (es ! j)" if "i < length es" "j < length es" for i j
    using that by (simp add: lt_def)
  let ?p = "sv_sort sv lt (length es)"
  have p: "mset ?p = mset [0..<length es]" "sorted_wrt lt ?p"
    using linear_on_keys [OF distinct lt_iff] sv by (simp_all add: obliging_def)
  have mem: "set ?p = {0..<length es}" using mset_eq_setD [OF p(1)] by simp
  have "sorted_wrt (\<lambda>i j. fst (es ! i) \<le> fst (es ! j)) ?p"
    by (rule sorted_wrt_mono_rel [OF _ p(2)]) (use mem lt_iff in \<open>auto simp: less_imp_le\<close>)
  then have sorted: "sorted (map fst (map (\<lambda>i. es ! i) ?p))" by (simp add: sorted_wrt_map)
  have "mset (map (\<lambda>i. es ! i) ?p) = image_mset (\<lambda>i. es ! i) (mset [0..<length es])" by (simp only: mset_map p(1))
  also have "\<dots> = mset (map (\<lambda>i. es ! i) [0..<length es])" by simp
  also have "\<dots> = mset es" by (simp only: map_nth)
  finally have same: "mset es = mset (map (\<lambda>i. es ! i) ?p)" by simp
  have "sort_key fst es = map (\<lambda>i. es ! i) ?p"
    by (rule sort_key_inj_key_eq [OF same _ sorted]) (use distinct in \<open>simp add: distinct_map\<close>)
  moreover have "lists r Q (map (\<lambda>i. ses ! i) ?p) (map (\<lambda>i. es ! i) ?p)"
    using at mem by (simp add: lists_def list_all2_map1 list_all2_map2 list_all2_same case_prod_beta)
  moreover have "sort_with_compare sv (sort_less_by_key sv r) ses = Inr (map (\<lambda>i. ses ! i) ?p)"
    using cmp len by (auto simp: sort_with_compare_def lt_def)
  ultimately show ?thesis by auto
qed

text \<open>Loading and sorting a table of a file that holds the entries of a document.\<close>

lemma sorted_table:
  fixes es :: "(bytes \<times> 'v) list"
  assumes "wf_reader r" and "table_fits r start n" and "distinct (map fst es)" and "unat n \<le> length es"
    and "\<And>k v. (k, v) \<in> set es \<Longrightarrow> \<exists>p. find_value hash r start n k = Inr p \<and> Q p v" and "obliging sv"
  shows "\<exists>ses ses'. load_sort_entries (rd_base r) start (unat n) = Inr ses \<and>
    sort_with_compare sv (sort_less_by_key sv r) ses = Inr ses' \<and> lists r Q ses' (sort_key fst es)"
proof -
  from table_lists [where Q = Q, OF assms(1-5)] obtain es' where es': "mset es' = mset es"
    "list_all2 (\<lambda>e (k, v). reader_key_equals r e k = Inr True \<and> Q (ent_value_offset e) v) (table_entries r start n) es'" by blast
  obtain ses where ses: "load_sort_entries (rd_base r) start (unat n) = Inr ses"
    "list_all2 (\<lambda>se e. \<exists>off. se = sort_entry_of off e) ses (table_entries r start n)"
    using load_table [OF assms(1,2)] by blast
  have "list_all2 (\<lambda>se (k, v). key_is r se k \<and> Q (se_value_offset se) v) ses es'"
    by (rule list_all2_trans [OF _ ses(2) es'(2)]) (auto simp: key_is_entry, auto simp: sort_entry_of_def)
  then have "lists r Q ses es'" by (simp add: lists_def)
  moreover have "distinct (map fst es')" using assms(3) es'(1) by (metis mset_map mset_eq_imp_distinct_iff)
  moreover have "sort_key fst es' = sort_key fst es"
  proof (rule sort_key_inj_key_eq)
    show "inj_on fst (set es')" using \<open>distinct (map fst es')\<close> by (simp add: distinct_map)
  qed (simp_all add: es'(1))
  ultimately show ?thesis using sort_table [OF assms(6)] ses(1) by metis
qed

lemma lists_mono: "lists r Q ses es \<Longrightarrow> (\<And>p k v. (k, v) \<in> set es \<Longrightarrow> Q p v \<Longrightarrow> Q' p v) \<Longrightarrow> lists r Q' ses es"
  unfolding lists_def list_all2_conv_all_nth case_prod_beta by (metis nth_mem prod.collapse)

lemma table_size:
  assumes "wf_reader r" and "table_fits r start n" and "distinct (map fst es)" and "unat n \<le> length es"
    and "\<And>k v. (k, v) \<in> set es \<Longrightarrow> \<exists>p. find_value hash r start n k = Inr p \<and> Q p v"
  shows "unat n = length es"
proof -
  from table_lists [where Q = Q, OF assms] obtain es' where es': "mset es' = mset es"
    "list_all2 (\<lambda>e (k, v). reader_key_equals r e k = Inr True \<and> Q (ent_value_offset e) v) (table_entries r start n) es'" by blast
  then show ?thesis using list_all2_lengthD [OF es'(2)] mset_eq_length [OF es'(1)] by simp
qed

section \<open>Documents in key order\<close>

text \<open>A document with the entries of every block in the order of their keys.\<close>

fun key_sorted :: "doc \<Rightarrow> doc" where
  "key_sorted (Leaf l) = Leaf l"
| "key_sorted (Block es) = Block (sort_key fst (map (\<lambda>(k, v). (k, key_sorted v)) es))"
| "key_sorted (Array vs) = Array (map key_sorted vs)"

lemma sort_key_sorted:
  assumes "distinct (map fst es)"
  shows "sort_key fst (map (\<lambda>(k, v). (k, f v)) es) = map (\<lambda>(k, v). (k, f v)) (sort_key fst es)"
proof (rule sort_key_inj_key_eq)
  have fst: "map fst (map (\<lambda>(k, v). (k, f v)) xs) = map fst xs" for xs by (induction xs) auto
  show "inj_on fst (set (map (\<lambda>(k, v). (k, f v)) es))"
    using assms fst [of es] by (metis distinct_map)
  show "sorted (map fst (map (\<lambda>(k, v). (k, f v)) (sort_key fst es)))" unfolding fst by simp
qed simp

text \<open>The nesting is less deep than the stack.\<close>

fun fits_stack :: "nat \<Rightarrow> doc \<Rightarrow> bool" where
  "fits_stack 0 v \<longleftrightarrow> False"
| "fits_stack (Suc n) (Leaf l) \<longleftrightarrow> True"
| "fits_stack (Suc n) (Block es) \<longleftrightarrow> (\<forall>(k, v) \<in> set es. fits_stack n v)"
| "fits_stack (Suc n) (Array vs) \<longleftrightarrow> (\<forall>v \<in> set vs. fits_stack n v)"

text \<open>The root index gives the members of a document.\<close>

definition reads_roots :: "(bytes \<Rightarrow> u64) \<Rightarrow> reader \<Rightarrow> (bytes \<times> doc) list \<Rightarrow> bool" where
  "reads_roots hash r es \<longleftrightarrow> reader_root_count r = of_nat (length es) \<and>
     (\<forall>(k, v) \<in> set es. \<exists>off. reader_find_root_offset hash r k = Inr off \<and> reads hash r off v)"

section \<open>The tables and elements of a document\<close>

lemma document_block:
  fixes es :: "(bytes \<times> doc) list"
  assumes wf: "wf_reader r" and reads: "reads hash r off (Block es)" and distinct: "distinct (map fst es)" and sv: "obliging sv"
  shows "\<exists>header entries ses ses'. reader_block_body_offsets r off = Inr (header, entries) \<and> (bh_child_count header = 0 \<longleftrightarrow> es = []) \<and>
    load_sort_entries (rd_base r) entries (unat (ucast (bh_child_count header) :: u64)) = Inr ses \<and>
    sort_with_compare sv (sort_less_by_key sv r) ses = Inr ses' \<and> lists r (reads hash r) ses' (sort_key fst es)"
proof -
  obtain header entries where body: "reader_block_body_offsets r off = Inr (header, entries)"
    and count: "bh_child_count header = of_nat (length es)"
    using reads by (auto simp: reader_block_child_count_at_def bindE_eq_Inr)
  let ?n = "ucast (bh_child_count header) :: u64"
  have fits: "table_fits r entries ?n" by (rule block_body_fits [OF wf body])
  have size: "unat ?n \<le> length es" by (simp add: count unat_of_nat)
  have stored: "reads_entries hash r off es" using reads by simp
  have found: "\<exists>p. find_value hash r entries ?n k = Inr p \<and> reads hash r p v" if "(k, v) \<in> set es" for k v
    using reads_entries_member [OF stored that] unfolding find_offset_value(2) [OF body] by blast
  have "unat ?n = length es" by (rule table_size [where Q = "reads hash r", OF wf fits distinct size found])
  then have "bh_child_count header = 0 \<longleftrightarrow> es = []" by (auto simp: count)
  then show ?thesis using body sorted_table [where Q = "reads hash r", OF wf fits distinct size found sv] by blast
qed

lemma document_roots:
  fixes es :: "(bytes \<times> doc) list"
  assumes wf: "wf_reader r" and reads: "reads_roots hash r es" and distinct: "distinct (map fst es)" and sv: "obliging sv"
  shows "(hdr_root_count (rd_header r) = 0 \<longleftrightarrow> es = []) \<and>
    (\<exists>ses ses'. load_sort_entries (rd_base r) (hdr_root_index_offset (rd_header r)) (unat (hdr_root_count (rd_header r))) = Inr ses \<and>
      sort_with_compare sv (sort_less_by_key sv r) ses = Inr ses' \<and> lists r (reads hash r) ses' (sort_key fst es))"
proof -
  let ?n = "hdr_root_count (rd_header r)" and ?start = "hdr_root_index_offset (rd_header r)"
  have fits: "table_fits r ?start ?n" by (rule table_fits_root [OF wf])
  have count: "?n = of_nat (length es)" using reads by (simp add: reads_roots_def reader_root_count_def)
  have size: "unat ?n \<le> length es" by (simp add: count unat_of_nat)
  have found: "\<exists>p. find_value hash r ?start ?n k = Inr p \<and> reads hash r p v" if "(k, v) \<in> set es" for k v
    using reads that unfolding reads_roots_def find_offset_value(1) by blast
  have "unat ?n = length es" by (rule table_size [where Q = "reads hash r", OF wf fits distinct size found])
  then have "?n = 0 \<longleftrightarrow> es = []" by (auto simp: count)
  then show ?thesis using sorted_table [where Q = "reads hash r", OF wf fits distinct size found sv] by blast
qed

lemma document_array:
  assumes reads: "reads hash r off (Array vs)" and small: "length vs < 2 ^ 32"
  shows "\<exists>header elements. reader_array_body_offsets r off = Inr (header, elements) \<and> unat (ah_element_count header) = length vs \<and>
    (\<forall>i < length vs. \<exists>bs. fetch (rd_base r) (elements + of_nat i * of_nat ARRAY_ELEMENT_SIZE) 8 = Inr bs \<and> reads hash r (load_u64 bs) (vs ! i))"
proof -
  obtain header elements where body: "reader_array_body_offsets r off = Inr (header, elements)"
    and count: "ah_element_count header = of_nat (length vs)"
    using reads by (auto simp: reader_array_length_at_def bindE_eq_Inr)
  have "unat (ah_element_count header) = length vs" using small by (simp add: count)
  moreover have "\<exists>bs. fetch (rd_base r) (elements + of_nat i * of_nat ARRAY_ELEMENT_SIZE) 8 = Inr bs \<and> reads hash r (load_u64 bs) (vs ! i)"
    if i: "i < length vs" for i
  proof -
    have "reads_elements hash r off (of_nat 0) vs" using reads by simp
    from reads_elements_nth [OF this i] obtain p where p: "reader_array_at_offset r off (of_nat i) = Inr p" "reads hash r p (vs ! i)" by auto
    have "(ucast (of_nat i :: u32) :: u64) = of_nat i" using i small by (simp add: word_unat_eq_iff)
    then show ?thesis using p by (auto simp: reader_array_at_offset_def body bindE_eq_Inr split: if_splits)
  qed
  ultimately show ?thesis using body by blast
qed

section \<open>The kind of a scalar that was read\<close>

lemma scalar_kind:
  "reader_scalar_word_at k r off = Inr v \<Longrightarrow> reader_kind_at r off = Inr k"
  by (auto simp: reader_scalar_word_at_def reader_scalar_body_def bindE_eq_Inr split: if_splits)

lemma string_kind: "reader_scalar_string_at r off = Inr x \<Longrightarrow> reader_kind_at r off = Inr K_STRING"
  by (auto simp: reader_scalar_string_at_def reader_scalar_body_def bindE_eq_Inr split: if_splits)

lemma bool_kind: "reader_scalar_bool_at r off = Inr b \<Longrightarrow> reader_kind_at r off = Inr (if b then K_TRUE else K_FALSE)"
  by (auto simp: reader_scalar_bool_at_def bindE_eq_Inr split: if_splits)

end
