(* ===== verification/Json_Text.thy ===== *)
theory Json_Text
  imports Export_Json Tables
begin

text \<open>
  JSON text on its own: strings as code points, a decoder of string literals after RFC 8259, and
  the text of a document. The exporter is proved to print the text of the document that the
  reader gives, with the entries of every block in the order of their keys.
\<close>

section \<open>Code points\<close>

definition code_point :: "bytes \<Rightarrow> nat" where
  "code_point s =
     (if unat (hd s) < 128 then unat (hd s)
      else case lead_bits (unat (hd s)) of None \<Rightarrow> 0 | Some (n, l) \<Rightarrow> the (continuation_bits (n - 1) (tl s) l))"

lemma code_point_encode:
  assumes "is_scalar cp"
  shows "code_point (utf8_encode cp @ rest) = cp"
proof (cases "cp < 0x80")
  case True
  then show ?thesis by (simp add: code_point_def utf8_encode_def unat_of_nat)
next
  case False
  then obtain b bs l where "utf8_encode cp = b # bs" "128 \<le> unat b" "lead_bits (unat b) = Some (Suc (length bs), l)"
    "continuation_bits (length bs) (bs @ rest) l = Some cp"
    using encode_sequence [OF assms, of rest] by auto
  then show ?thesis by (simp add: code_point_def)
qed

function code_points :: "bytes \<Rightarrow> nat list option" where
  "code_points s =
     (if s = [] then Some []
      else case sequence_length s of
        None \<Rightarrow> None
      | Some n \<Rightarrow> map_option (\<lambda>cps. code_point s # cps) (code_points (drop n s)))"
  by pat_completeness auto
termination by (relation "measure length") (auto dest: sequence_length_bounds)

declare code_points.simps [simp del]

lemma code_points_encode: "\<forall>cp \<in> set cps. is_scalar cp \<Longrightarrow> code_points (concat (map utf8_encode cps)) = Some cps"
proof (induction cps)
  case Nil
  then show ?case by (simp add: code_points.simps)
next
  case (Cons cp cps)
  have "utf8_encode cp \<noteq> []" by (simp add: utf8_encode_def)
  then show ?case
    using Cons sequence_length_encode [of cp "concat (map utf8_encode cps)"] code_point_encode [of cp "concat (map utf8_encode cps)"]
    by (subst code_points.simps) simp
qed

text \<open>The code points of a well-formed string.\<close>

lemma code_points_utf8:
  assumes "utf8_ok s"
  shows "\<exists>cps. code_points s = Some cps \<and> (\<forall>cp \<in> set cps. is_scalar cp) \<and> s = concat (map utf8_encode cps)"
  using assms code_points_encode by (auto simp: utf8_ok_iff well_formed_utf8_def)

section \<open>Decoding a string literal\<close>

definition hex_value :: "byte \<Rightarrow> nat option" where
  "hex_value b =
     (if 0x30 \<le> b \<and> b \<le> 0x39 then Some (unat b - 0x30)
      else if 0x41 \<le> b \<and> b \<le> 0x46 then Some (unat b - 0x37)
      else if 0x61 \<le> b \<and> b \<le> 0x66 then Some (unat b - 0x57) else None)"

definition hex_word :: "bytes \<Rightarrow> (nat \<times> bytes) option" where
  "hex_word s =
     (case s of
        a # b # c # d # t \<Rightarrow>
          (case (hex_value a, hex_value b, hex_value c, hex_value d) of
             (Some a, Some b, Some c, Some d) \<Rightarrow> Some (((a * 16 + b) * 16 + c) * 16 + d, t)
           | _ \<Rightarrow> None)
      | _ \<Rightarrow> None)"

lemma hex_word_shorter: "hex_word s = Some (n, t) \<Longrightarrow> length t < length s"
  by (auto simp: hex_word_def split: list.splits option.splits)

text \<open>One character of a literal: its code point and what follows it.\<close>

definition json_unescape :: "byte \<Rightarrow> nat option" where
  "json_unescape c =
     (if c = 0x22 then Some 0x22 else if c = 0x5C then Some 0x5C else if c = 0x2F then Some 0x2F
      else if c = 0x62 then Some 0x08 else if c = 0x66 then Some 0x0C else if c = 0x6E then Some 0x0A
      else if c = 0x72 then Some 0x0D else if c = 0x74 then Some 0x09 else None)"

definition json_next :: "bytes \<Rightarrow> (nat \<times> bytes) option" where
  "json_next s =
     (case s of
        [] \<Rightarrow> None
      | b # t \<Rightarrow>
          if b = 0x5C then
            (case t of
               [] \<Rightarrow> None
             | c # t \<Rightarrow>
                 if c \<noteq> 0x75 then map_option (\<lambda>n. (n, t)) (json_unescape c)
                 else case hex_word t of
                   None \<Rightarrow> None
                 | Some (high, t) \<Rightarrow>
                     if high < 0xD800 \<or> 0xE000 \<le> high then Some (high, t)
                     else if 0xDC00 \<le> high \<or> take 2 t \<noteq> [0x5C, 0x75] then None
                     else (case hex_word (drop 2 t) of
                         None \<Rightarrow> None
                       | Some (low, t) \<Rightarrow>
                           if low < 0xDC00 \<or> 0xE000 \<le> low then None
                           else Some (0x10000 + (high - 0xD800) * 1024 + (low - 0xDC00), t)))
          else if b < 0x20 \<or> b = 0x22 then None
          else map_option (\<lambda>n. (code_point s, drop n s)) (sequence_length s))"

lemma json_next_shorter: "json_next s = Some (n, t) \<Longrightarrow> length t < length s"
  by (auto simp: json_next_def dest!: hex_word_shorter sequence_length_bounds split: list.splits if_splits option.splits)

function json_chars :: "bytes \<Rightarrow> nat list option" where
  "json_chars s =
     (if s = [] then Some []
      else case json_next s of None \<Rightarrow> None | Some (n, t) \<Rightarrow> map_option (\<lambda>ns. n # ns) (json_chars t))"
  by pat_completeness auto
termination by (relation "measure length") (auto dest: json_next_shorter)

declare json_chars.simps [simp del]

text \<open>A literal is quoted.\<close>

definition json_unquote :: "bytes \<Rightarrow> nat list option" where
  "json_unquote s =
     (if length s < 2 \<or> hd s \<noteq> 0x22 \<or> last s \<noteq> 0x22 then None else json_chars (butlast (tl s)))"

lemma hex_value_digit: "d < 16 \<Longrightarrow> hex_value (upper_digit d) = Some d"
proof -
  assume "d < 16"
  then have "d \<in> set [0..<16]" by simp
  moreover have "\<forall>d \<in> set [0..<16]. hex_value (upper_digit d) = Some d" by code_simp
  ultimately show ?thesis by blast
qed

lemma div_16: "(n :: nat) div 256 = n div 16 div 16" "(n :: nat) div 4096 = n div 16 div 16 div 16"
  by (simp_all add: div_mult2_eq [symmetric])

lemma hex_word_hex4:
  assumes "n < 0x10000"
  shows "hex_word (hex4 n @ t) = Some (n, t)"
proof -
  have "n div 4096 < 16" using assms by (simp add: div_less_iff_less_mult)
  moreover have "((n div 4096 * 16 + n div 256 mod 16) * 16 + n div 16 mod 16) * 16 + n mod 16 = n"
    unfolding div_16 by (simp only: div_mult_mod_eq)
  ultimately show ?thesis by (simp add: hex_word_def hex4_def hex_value_digit)
qed

lemma json_unescape_short: "short_escape cp = Some c \<Longrightarrow> json_unescape c = Some cp \<and> c \<noteq> 0x75"
  by (auto simp: short_escape_def json_unescape_def split: if_splits)

lemma json_next_char:
  assumes "is_scalar cp"
  shows "json_next (json_char plain_ascii cp @ t) = Some (cp, t)"
proof -
  have scalar: "cp < 0xD800 \<or> 0xE000 \<le> cp" "cp \<le> 0x10FFFF" using assms by (auto simp: is_scalar_def)
  have escape: "json_next (unicode_escape cp @ t) = Some (cp, t)" if "cp < 0x10000"
    using hex_word_hex4 [OF that, of t] scalar by (simp add: json_next_def unicode_escape_def)
  have literal: "json_next (utf8_encode cp @ t) = Some (cp, t)" if "0x20 \<le> cp" "cp \<noteq> 0x22" "cp \<noteq> 0x5C"
  proof -
    obtain b bs where b: "utf8_encode cp = b # bs" by (cases "utf8_encode cp") (auto simp: utf8_encode_def split: if_splits)
    have "unat b \<ge> 0x20 \<and> unat b \<noteq> 0x22 \<and> unat b \<noteq> 0x5C"
    proof (cases "cp < 0x80")
      case True
      then show ?thesis using b that by (auto simp: utf8_encode_def unat_of_nat)
    next
      case False
      then show ?thesis using encode_sequence [OF assms, of t] b by auto
    qed
    then have "\<not> b < 0x20" "b \<noteq> 0x22" "b \<noteq> 0x5C" by (auto simp: word_less_nat_alt)
    then show ?thesis
      using sequence_length_encode [OF assms, of t] code_point_encode [OF assms, of t] by (simp add: json_next_def b)
  qed
  have pair: "json_next ((unicode_escape (0xD800 + (cp - 0x10000) div 1024) @ unicode_escape (0xDC00 + (cp - 0x10000) mod 1024)) @ t) = Some (cp, t)"
    if "0x10000 \<le> cp"
  proof -
    let ?h = "0xD800 + (cp - 0x10000) div 1024" and ?l = "0xDC00 + (cp - 0x10000) mod 1024"
    have div: "(cp - 0x10000) div 1024 < 1024" using scalar(2) by (simp add: div_less_iff_less_mult)
    have mod: "(cp - 0x10000) mod 1024 < 1024" by simp
    have "hex_word (hex4 ?h @ unicode_escape ?l @ t) = Some (?h, unicode_escape ?l @ t)" "hex_word (hex4 ?l @ t) = Some (?l, t)"
      using div mod by (intro hex_word_hex4; simp)+
    moreover have "(cp - 0x10000) div 1024 * 1024 + (cp - 0x10000) mod 1024 = cp - 0x10000" by (rule div_mult_mod_eq)
    ultimately show ?thesis using div mod that by (simp add: json_next_def unicode_escape_def)
  qed
  show ?thesis
  proof (cases "short_escape cp")
    case (Some c)
    then show ?thesis using json_unescape_short [OF Some] by (simp add: json_char_def json_next_def)
  next
    case None
    then have special: "cp \<noteq> 0x22" "cp \<noteq> 0x5C" by (auto simp: short_escape_def)
    consider "cp < 0x20" | "0x20 \<le> cp" "cp < 0x80 \<or> \<not> plain_ascii" | "0x80 \<le> cp" "plain_ascii" "cp < 0x10000"
      | "plain_ascii" "0x10000 \<le> cp" by linarith
    then show ?thesis
    proof cases
      case 1
      then show ?thesis using None escape by (simp add: json_char_def)
    next
      case 2
      then have "json_char plain_ascii cp = utf8_encode cp" using None by (auto simp: json_char_def utf8_encode_def)
      then show ?thesis using literal [OF 2(1) special] by simp
    next
      case 3
      then show ?thesis using None escape by (simp add: json_char_def)
    next
      case 4
      then show ?thesis using None pair [OF 4(2)] by (simp add: json_char_def)
    qed
  qed
qed

lemma json_chars_step:
  assumes "json_next s = Some (n, t)"
  shows "json_chars s = map_option (\<lambda>ns. n # ns) (json_chars t)"
proof -
  have "s \<noteq> []" using assms by (cases s) (simp_all add: json_next_def)
  then show ?thesis using assms by (simp add: json_chars.simps [of s])
qed

lemma json_chars_text:
  "\<forall>cp \<in> set cps. is_scalar cp \<Longrightarrow> json_chars (concat (map (json_char plain_ascii) cps)) = Some cps"
proof (induction cps)
  case Nil
  then show ?case by (simp add: json_chars.simps)
next
  case (Cons cp cps)
  have "json_next (json_char plain_ascii cp @ concat (map (json_char plain_ascii) cps)) = Some (cp, concat (map (json_char plain_ascii) cps))"
    using Cons.prems by (intro json_next_char) simp
  from json_chars_step [OF this] show ?case using Cons by simp
qed

lemma json_unquote_quote:
  assumes "\<forall>cp \<in> set cps. is_scalar cp"
  shows "json_unquote (json_quote plain_ascii cps) = Some cps"
proof -
  have "json_unquote ([0x22] @ b @ [0x22]) = json_chars b" for b by (simp add: json_unquote_def)
  then show ?thesis by (simp only: json_quote_def json_chars_text [OF assms])
qed

section \<open>The text of a document\<close>

fun joined :: "bytes \<Rightarrow> bytes list \<Rightarrow> bytes" where
  "joined sep [] = []"
| "joined sep (x # xs) = x @ concat (map (\<lambda>y. sep @ y) xs)"

definition json_string :: "options option \<Rightarrow> bytes \<Rightarrow> bytes" where
  "json_string opts s = json_quote (ascii_only opts) (the (code_points s))"

text \<open>
  The fields of an IEEE 754 double, by division: its sign, the 11 bits of its exponent and the 52 of its
  fraction. A number that JSON can write has an exponent that is not all ones.
\<close>

definition double_negative :: "u64 \<Rightarrow> bool" where
  "double_negative v \<longleftrightarrow> 2 ^ 63 \<le> unat v"

definition double_exponent :: "u64 \<Rightarrow> nat" where
  "double_exponent v = unat v div 2 ^ 52 mod 2 ^ 11"

definition double_fraction :: "u64 \<Rightarrow> nat" where
  "double_fraction v = unat v mod 2 ^ 52"

lemma double_fields:
  "drop_bit 52 v AND 0x7FF = 0x7FF \<longleftrightarrow> double_exponent v = 2047" "v AND 0xFFFFFFFFFFFFF = 0 \<longleftrightarrow> double_fraction v = 0" for v :: u64
proof -
  have "drop_bit 52 v AND 0x7FF = take_bit 11 (drop_bit 52 v)" by (simp add: take_bit_eq_mask mask_eq_exp_minus_1)
  moreover have "unat (take_bit 11 (drop_bit 52 v)) = double_exponent v"
    by (simp add: double_exponent_def take_bit_eq_mod drop_bit_eq_div unat_div unat_mod)
  ultimately show "drop_bit 52 v AND 0x7FF = 0x7FF \<longleftrightarrow> double_exponent v = 2047" by (simp add: word_unat_eq_iff)
  have "v AND 0xFFFFFFFFFFFFF = take_bit 52 v" by (simp add: take_bit_eq_mask mask_eq_exp_minus_1)
  moreover have "unat (take_bit 52 v) = double_fraction v" by (simp add: double_fraction_def take_bit_eq_mod unat_mod)
  ultimately show "v AND 0xFFFFFFFFFFFFF = 0 \<longleftrightarrow> double_fraction v = 0" by (simp add: word_unat_eq_iff)
qed

lemma double_classes:
  "is_nan v \<longleftrightarrow> double_exponent v = 2047 \<and> double_fraction v \<noteq> 0" "is_inf v \<longleftrightarrow> double_exponent v = 2047 \<and> double_fraction v = 0"
  "bit v 63 \<longleftrightarrow> double_negative v"
proof -
  show "is_nan v \<longleftrightarrow> double_exponent v = 2047 \<and> double_fraction v \<noteq> 0" "is_inf v \<longleftrightarrow> double_exponent v = 2047 \<and> double_fraction v = 0"
    by (simp_all only: is_nan_def is_inf_def double_fields)
  have "unat v < 2 ^ 64" using unsigned_less [of v] by simp
  then have "unat v div 2 ^ 63 = (if 2 ^ 63 \<le> unat v then 1 else 0)" by (auto intro: div_nat_eqI)
  then have "odd (unat v div 2 ^ 63) \<longleftrightarrow> 2 ^ 63 \<le> unat v" by simp
  moreover have "bit v 63 \<longleftrightarrow> bit (unat v) 63" by (simp add: bit_unsigned_iff)
  ultimately show "bit v 63 \<longleftrightarrow> double_negative v" by (simp add: double_negative_def bit_iff_odd [of "unat v"])
qed

text \<open>A number without a fraction or an exponent is given a fraction.\<close>

definition float_text :: "bytes \<Rightarrow> bytes" where
  "float_text t = (if set t \<inter> set (ascii ''.eE'') = {} then t @ ascii ''.0'' else t)"

lemma float_text_eq: "t @ (if has_dot_or_exp t then [] else [0x2E, 0x30]) = float_text t"
proof -
  have "ascii ''.eE'' = [0x2E, 0x65, 0x45]" "ascii ''.0'' = [0x2E, 0x30]" by code_simp+
  moreover have "has_dot_or_exp t \<longleftrightarrow> set t \<inter> {0x2E, 0x65, 0x45} \<noteq> {}" by (auto simp: has_dot_or_exp_def list_ex_iff)
  ultimately show ?thesis by (simp add: float_text_def)
qed

fun leaf_text :: "services \<Rightarrow> options option \<Rightarrow> leaf \<Rightarrow> bytes" where
  "leaf_text sv opts L_null = ascii ''null''"
| "leaf_text sv opts (L_bool b) = ascii (if b then ''true'' else ''false'')"
| "leaf_text sv opts (L_int64 v) = the (sv_int64 sv (sint v))"
| "leaf_text sv opts (L_uint64 v) = the (sv_uint64 sv v)"
| "leaf_text sv opts (L_float64 v) =
     (if double_exponent v = 2047 then ascii ''null'' else float_text (the (sv_double sv v)))"
| "leaf_text sv opts (L_string s) = json_string opts s"

definition colon :: "options option \<Rightarrow> bytes" where
  "colon opts = (if indent_spaces opts = 0 then [0x3A] else [0x3A, 0x20])"

fun json_text :: "services \<Rightarrow> options option \<Rightarrow> u32 \<Rightarrow> doc \<Rightarrow> bytes" where
  "json_text sv opts depth (Leaf l) = leaf_text sv opts l"
| "json_text sv opts depth (Block es) =
     (if es = [] then [0x7B, 0x7D]
      else [0x7B] @ line_break opts @
        joined ([0x2C] @ line_break opts)
          (map (\<lambda>(k, v). margin opts (depth + 1) @ json_string opts k @ colon opts @ json_text sv opts (depth + 1) v) es) @
        line_break opts @ margin opts depth @ [0x7D])"
| "json_text sv opts depth (Array vs) =
     (if vs = [] then [0x5B, 0x5D]
      else [0x5B] @ line_break opts @
        joined ([0x2C] @ line_break opts) (map (\<lambda>v. margin opts (depth + 1) @ json_text sv opts (depth + 1) v) vs) @
        line_break opts @ margin opts depth @ [0x5D])"

text \<open>Strings are well-formed UTF-8, and the lengths of arrays fit their 32-bit field.\<close>

fun exportable :: "doc \<Rightarrow> bool" where
  "exportable (Leaf l) \<longleftrightarrow> (case l of L_string s \<Rightarrow> utf8_ok s | _ \<Rightarrow> True)"
| "exportable (Block es) \<longleftrightarrow> (\<forall>(k, v) \<in> set es. utf8_ok k \<and> exportable v)"
| "exportable (Array vs) \<longleftrightarrow> length vs < 2 ^ 32 \<and> (\<forall>v \<in> set vs. exportable v)"

section \<open>The parts of a value print\<close>

lemma joined_indexed:
  "concat (map (\<lambda>i. (if i \<noteq> 0 then sep else []) @ xs ! i) [0..<length xs]) = joined sep xs"
proof (cases xs)
  case (Cons x ys)
  have "concat (map (\<lambda>i. (if i \<noteq> 0 then sep else []) @ xs ! i) (0 # map Suc [0..<length ys]))
      = x @ concat (map (\<lambda>i. sep @ ys ! i) [0..<length ys])" by (simp add: Cons comp_def)
  also have "map (\<lambda>i. sep @ ys ! i) [0..<length ys] = map (\<lambda>y. sep @ y) ys"
    by (rule nth_equalityI) simp_all
  finally show ?thesis unfolding Cons by (simp add: map_Suc_upt upt_conv_Cons del: upt_Suc)
qed simp

lemma prints_indexed:
  assumes "\<And>i. i < length xs \<Longrightarrow> prints (f i) ((if i \<noteq> 0 then sep else []) @ g (xs ! i))"
  shows "prints (steps (map f [0..<length xs])) (joined sep (map g xs))"
proof -
  have "prints (steps (map f [0..<length xs])) (concat (map (\<lambda>i. (if i \<noteq> 0 then sep else []) @ map g xs ! i) [0..<length xs]))"
    using assms by (intro prints_map) simp
  then show ?thesis using joined_indexed [of sep "map g xs"] by simp
qed

lemma prints_separator:
  "obliging sv \<Longrightarrow> prints (write_separator sv opts i) (if i \<noteq> 0 then [0x2C] @ line_break opts else [])"
  by (simp add: write_separator_def prints_Nil prints_Cons prints_one prints_write_all prints_newline del: append.simps)

lemma prints_string:
  assumes "obliging sv" and "utf8_ok s"
  shows "prints (write_json_string sv opts s) (json_string opts s)"
proof -
  obtain cps where "code_points s = Some cps" "\<forall>cp \<in> set cps. is_scalar cp" "s = concat (map utf8_encode cps)"
    using code_points_utf8 [OF assms(2)] by blast
  then show ?thesis using prints_json_string [OF assms(1), of cps opts] by (simp add: json_string_def)
qed

lemma prints_formatted: "obliging sv \<Longrightarrow> t \<noteq> None \<Longrightarrow> prints (write_formatted sv t) (the t)"
  by (auto simp: write_formatted_def prints_write_all)

lemma obliging_formats: "obliging sv \<Longrightarrow> sv_int64 sv i \<noteq> None \<and> sv_uint64 sv v \<noteq> None \<and> sv_double sv v \<noteq> None"
  by (simp add: obliging_def)

lemma prints_float64: "obliging sv \<Longrightarrow> prints (write_number_float64 sv v) (leaf_text sv opts (L_float64 v))"
proof -
  assume sv: "obliging sv"
  obtain t where t: "sv_double sv v = Some t" using obliging_formats [OF sv, of 0 v] by auto
  have "prints (steps [write_all sv t, if \<not> has_dot_or_exp t then write_all sv [0x2E, 0x30] else steps []])
      (t @ (if has_dot_or_exp t then [] else [0x2E, 0x30]))"
    by (intro prints_Cons prints_one) (simp_all add: prints_write_all [OF sv] prints_Nil)
  then show ?thesis unfolding float_text_eq
    by (auto simp: write_number_float64_def prints_write_literal [OF sv] t double_classes)
qed

section \<open>Values print\<close>

lemma prints_leaf:
  assumes sv: "obliging sv" and reads: "reads_leaf r off l" and ok: "exportable (Leaf l)"
  shows "prints (export_value sv r opts (Suc frames) off depth) (leaf_text sv opts l)"
proof (cases l)
  case L_null
  then show ?thesis using reads by (auto intro!: prints_with_read prints_write_literal [OF sv])
next
  case (L_bool b)
  then have "reader_kind_at r off = Inr (if b then K_TRUE else K_FALSE)" using reads bool_kind by simp
  then show ?thesis using L_bool by (auto intro!: prints_with_read prints_write_literal [OF sv])
next
  case (L_int64 v)
  then have "reader_scalar_int64_at r off = Inr (sint v)" using reads by simp
  moreover from this have "reader_kind_at r off = Inr K_INT64"
    by (auto simp: reader_scalar_int64_at_def bindE_eq_Inr intro: scalar_kind)
  ultimately show ?thesis using L_int64 prints_formatted [OF sv] obliging_formats [OF sv, of "sint v"]
    by (auto intro!: prints_with_read simp: write_number_int64_def)
next
  case (L_uint64 v)
  then have "reader_scalar_uint64_at r off = Inr v" using reads by simp
  moreover from this have "reader_kind_at r off = Inr K_UINT64" by (auto simp: reader_scalar_uint64_at_def intro: scalar_kind)
  moreover have "prints (write_number_uint64 sv v) (the (sv_uint64 sv v))"
    using prints_formatted [OF sv] obliging_formats [OF sv, of 0 v] by (simp add: write_number_uint64_def)
  ultimately show ?thesis using L_uint64 by (simp add: prints_with_read)
next
  case (L_float64 v)
  then have "reader_scalar_float64_at r off = Inr v" using reads by simp
  moreover from this have "reader_kind_at r off = Inr K_FLOAT64" by (auto simp: reader_scalar_float64_at_def intro: scalar_kind)
  ultimately show ?thesis using L_float64 prints_float64 [OF sv, of v opts]
    by (auto intro!: prints_with_read simp del: leaf_text.simps)
next
  case (L_string s)
  then obtain pos n where str: "reader_scalar_string_at r off = Inr (pos, n)" "read_at (rd_base r) (unat pos) (unat n) = Some s"
    using reads by (auto split: sum.splits)
  have "view (rd_base r) pos (unat n) = Inr s" using str(2) by (auto simp: view_def fetch_def read_at_def split: if_splits)
  then have "prints (with_memory (view (rd_base r) pos (unat n)) (write_json_string sv opts)) (json_string opts s)"
    using ok L_string prints_string [OF sv, of s opts] by (simp add: prints_with_memory)
  then show ?thesis using string_kind [OF str(1)] str(1) L_string by (auto intro!: prints_with_read)
qed

text \<open>The entries of a table print, when their values do.\<close>

lemma prints_entries:
  assumes sv: "obliging sv" and table: "lists r (\<lambda>p v. prints (write_value p (depth + 1)) (render v)) ses es"
    and keys: "\<forall>(k, v) \<in> set es. utf8_ok k"
  shows "prints (steps (map (write_entry sv r opts write_value depth) (enumerate 0 ses)))
    (joined ([0x2C] @ line_break opts) (map (\<lambda>(k, v). margin opts (depth + 1) @ json_string opts k @ colon opts @ render v) es))"
proof -
  have len: "length ses = length es" using table by (simp add: lists_def list_all2_lengthD)
  have "enumerate 0 ses = map (\<lambda>i. (i, ses ! i)) [0..<length es]" by (rule nth_equalityI) (simp_all add: len nth_enumerate_eq)
  then have map: "map (write_entry sv r opts write_value depth) (enumerate 0 ses) =
      map (\<lambda>i. write_entry sv r opts write_value depth (i, ses ! i)) [0..<length es]" by simp
  have "prints (write_entry sv r opts write_value depth (i, ses ! i)) ((if i \<noteq> 0 then [0x2C] @ line_break opts else []) @
      (case es ! i of (k, v) \<Rightarrow> margin opts (depth + 1) @ json_string opts k @ colon opts @ render v))" if i: "i < length es" for i
  proof -
    obtain k v where kv: "es ! i = (k, v)" by (cases "es ! i")
    then have "(k, v) \<in> set es" using i by (metis nth_mem)
    then have k: "utf8_ok k" using keys by auto
    have at: "key_is r (ses ! i) k" "prints (write_value (se_value_offset (ses ! i)) (depth + 1)) (render v)"
      using table i len kv by (auto simp: lists_def list_all2_conv_all_nth)
    show ?thesis unfolding write_entry_def kv prod.case
      using at by (intro prints_Cons prints_one prints_separator [OF sv] prints_indent [OF sv] prints_with_memory prints_string [OF sv k])
        (auto simp: key_is_def colon_def prints_write_all [OF sv] prints_string [OF sv k])
  qed
  then show ?thesis unfolding map by (rule prints_indexed)
qed

text \<open>A table that holds the entries of a document prints them in the order of their keys.\<close>

lemma prints_table:
  assumes sv: "obliging sv" and sorting: "sort_keys opts" and keys: "\<forall>(k, v) \<in> set es. utf8_ok k"
    and load: "load_sort_entries (rd_base r) start (unat n) = Inr ses" and sort: "sort_with_compare sv (sort_less_by_key sv r) ses = Inr ses'"
    and table: "lists r (reads hash r) ses' (sort_key fst es)"
    and vals: "\<And>p k v. (k, v) \<in> set es \<Longrightarrow> reads hash r p v \<Longrightarrow> prints (write_value p (depth + 1)) (render v)"
  shows "prints (write_entries sv r opts write_value refused start n depth)
    (joined ([0x2C] @ line_break opts) (map (\<lambda>(k, v). margin opts (depth + 1) @ json_string opts k @ colon opts @ render v) (sort_key fst es)))"
    (is "prints _ ?t")
proof -
  have "lists r (\<lambda>p v. prints (write_value p (depth + 1)) (render v)) ses' (sort_key fst es)"
    using lists_mono [OF table] vals by simp
  then have "prints (steps (map (write_entry sv r opts write_value depth) (enumerate 0 ses'))) ?t"
    by (rule prints_entries [OF sv]) (use keys in simp)
  from prints_with_memory [where f = "\<lambda>es. steps (map (write_entry sv r opts write_value depth) (enumerate 0 es))", OF sort this]
  have "prints (with_memory (load_sort_entries (rd_base r) start (unat n)) (\<lambda>es.
      with_memory (sort_with_compare sv (if sort_keys opts then sort_less_by_key sv r else sort_less_by_offset) es)
        (\<lambda>es. steps (map (write_entry sv r opts write_value depth) (enumerate 0 es))))) ?t"
    by (intro prints_with_memory [OF load]) (simp only: sorting if_True)
  then show ?thesis unfolding write_entries_def by (intro prints_scratch obliging_grants [OF sv])
qed

lemma prints_block:
  fixes es :: "(bytes \<times> doc) list"
  assumes sv: "obliging sv" and sorting: "sort_keys opts" and wf: "wf_reader r" and reads: "reads hash r off (Block es)"
    and distinct: "keys_distinct (Block es)" and ok: "exportable (Block es)"
    and vals: "\<And>k v p. (k, v) \<in> set es \<Longrightarrow> reads hash r p v \<Longrightarrow> prints (write_value p (depth + 1)) (json_text sv opts (depth + 1) (key_sorted v))"
  shows "prints (export_block sv r opts write_value off depth) (json_text sv opts depth (key_sorted (Block es)))"
proof -
  have dist: "distinct (map fst es)" and keys: "\<forall>(k, v) \<in> set es. utf8_ok k" using distinct ok by auto
  from document_block [OF wf reads dist sv] obtain header entries ses ses' where
    body: "reader_block_body_offsets r off = Inr (header, entries)" and empty: "bh_child_count header = 0 \<longleftrightarrow> es = []"
    and table: "load_sort_entries (rd_base r) entries (unat (ucast (bh_child_count header) :: u64)) = Inr ses"
      "sort_with_compare sv (sort_less_by_key sv r) ses = Inr ses'" "lists r (reads hash r) ses' (sort_key fst es)" by blast
  have sorted: "key_sorted (Block es) = Block (map (\<lambda>(k, v). (k, key_sorted v)) (sort_key fst es))"
    by (simp add: sort_key_sorted [OF dist])
  show ?thesis
  proof (cases "es = []")
    case True
    then show ?thesis using body empty by (simp add: export_block_def prints_with_read prints_write_literal [OF sv, of "''{}''", unfolded ascii_def, simplified])
  next
    case False
    note entries_print = prints_table [where write_value = write_value and depth = depth
        and render = "\<lambda>v. json_text sv opts (depth + 1) (key_sorted v)", OF sv sorting keys table]
    have "prints (write_literal sv ''{'') [0x7B]" using prints_write_literal [OF sv, of "''{''"] by (simp add: ascii_def)
    then have steps: "prints (steps [write_literal sv ''{'', write_newline sv opts,
        write_entries sv r opts write_value fail_export entries (ucast (bh_child_count header)) depth,
        write_newline sv opts, write_indent sv opts depth, write_all sv [0x7D]])
      ([0x7B] @ line_break opts @ joined ([0x2C] @ line_break opts)
        (map (\<lambda>(k, v). margin opts (depth + 1) @ json_string opts k @ colon opts @ json_text sv opts (depth + 1) (key_sorted v)) (sort_key fst es)) @
        line_break opts @ margin opts depth @ [0x7D])"
      by (intro prints_Cons prints_one prints_newline [OF sv] prints_indent [OF sv] prints_write_all [OF sv] entries_print) (assumption | rule vals)+
    have "sort_key fst es \<noteq> []" using False by (metis length_0_conv length_sort)
    then have shown: "json_text sv opts depth (key_sorted (Block es)) = [0x7B] @ line_break opts @ joined ([0x2C] @ line_break opts)
        (map (\<lambda>(k, v). margin opts (depth + 1) @ json_string opts k @ colon opts @ json_text sv opts (depth + 1) (key_sorted v)) (sort_key fst es)) @
        line_break opts @ margin opts depth @ [0x7D]"
      unfolding sorted json_text.simps by (simp add: comp_def case_prod_unfold)
    show ?thesis unfolding shown export_block_def
      by (rule prints_with_read [OF body]) (use steps empty False in simp)
  qed
qed

lemma prints_array:
  assumes sv: "obliging sv" and reads: "reads hash r off (Array vs)" and small: "length vs < 2 ^ 32"
    and vals: "\<And>v p. v \<in> set vs \<Longrightarrow> reads hash r p v \<Longrightarrow> prints (write_value p (depth + 1)) (json_text sv opts (depth + 1) (key_sorted v))"
  shows "prints (export_array sv r opts write_value off depth) (json_text sv opts depth (key_sorted (Array vs)))"
proof -
  from document_array [OF reads small] obtain header elements where
    body: "reader_array_body_offsets r off = Inr (header, elements)" and n: "unat (ah_element_count header) = length vs"
    and element: "\<forall>i < length vs. \<exists>bs. fetch (rd_base r) (elements + of_nat i * of_nat ARRAY_ELEMENT_SIZE) 8 = Inr bs \<and> reads hash r (load_u64 bs) (vs ! i)"
    by blast
  let ?render = "\<lambda>v. json_text sv opts (depth + 1) (key_sorted v)"
  have item: "prints (write_element sv r opts write_value elements depth i)
      ((if i \<noteq> 0 then [0x2C] @ line_break opts else []) @ margin opts (depth + 1) @ ?render (vs ! i))" if i: "i < length vs" for i
  proof -
    obtain bs where bs: "fetch (rd_base r) (elements + of_nat i * of_nat ARRAY_ELEMENT_SIZE) 8 = Inr bs" "reads hash r (load_u64 bs) (vs ! i)"
      using element i by blast
    have "prints (with_memory (fetch (rd_base r) (elements + of_nat i * of_nat ARRAY_ELEMENT_SIZE) 8) (\<lambda>bs. write_value (load_u64 bs) (depth + 1))) (?render (vs ! i))"
      using vals [OF _ bs(2)] i by (intro prints_with_memory [OF bs(1)]) simp
    then show ?thesis unfolding write_element_def by (intro prints_Cons prints_one prints_separator [OF sv] prints_indent [OF sv])
  qed
  show ?thesis
  proof (cases "vs = []")
    case True
    then show ?thesis using body n
      by (simp add: export_array_def unat_eq_0 prints_with_read prints_write_literal [OF sv, of "''[]''", unfolded ascii_def, simplified])
  next
    case False
    then have nonzero: "ah_element_count header \<noteq> 0" using n by auto
    have "prints (write_literal sv ''['') [0x5B]" using prints_write_literal [OF sv, of "''[''"] by (simp add: ascii_def)
    moreover have "prints (steps (map (write_element sv r opts write_value elements depth) [0..<length vs]))
        (joined ([0x2C] @ line_break opts) (map (\<lambda>v. margin opts (depth + 1) @ ?render v) vs))"
      by (rule prints_indexed) (rule item)
    ultimately have all: "prints (steps [write_literal sv ''['', write_newline sv opts,
        steps (map (write_element sv r opts write_value elements depth) [0..<length vs]),
        write_newline sv opts, write_indent sv opts depth, write_all sv [0x5D]])
      ([0x5B] @ line_break opts @ joined ([0x2C] @ line_break opts) (map (\<lambda>v. margin opts (depth + 1) @ ?render v) vs) @
        line_break opts @ margin opts depth @ [0x5D])"
      by (intro prints_Cons prints_one prints_newline [OF sv] prints_indent [OF sv] prints_write_all [OF sv])
    have shown: "json_text sv opts depth (key_sorted (Array vs)) = [0x5B] @ line_break opts @
        joined ([0x2C] @ line_break opts) (map (\<lambda>v. margin opts (depth + 1) @ ?render v) vs) @ line_break opts @ margin opts depth @ [0x5D]"
      using False by (simp add: comp_def)
    show ?thesis unfolding shown export_array_def
      by (rule prints_with_read [OF body]) (use all nonzero n in simp)
  qed
qed

lemma prints_value:
  assumes sv: "obliging sv" and sorting: "sort_keys opts" and wf: "wf_reader r"
  shows "fits_stack frames v \<Longrightarrow> reads hash r off v \<Longrightarrow> keys_distinct v \<Longrightarrow> exportable v \<Longrightarrow>
    prints (export_value sv r opts frames off depth) (json_text sv opts depth (key_sorted v))"
proof (induction frames v arbitrary: off depth rule: fits_stack.induct)
  case (1 v)
  then show ?case by simp
next
  case (2 n l)
  then show ?case using prints_leaf [OF sv] by simp
next
  case (3 n es)
  have "prints (export_block sv r opts (export_value sv r opts n) off depth) (json_text sv opts depth (key_sorted (Block es)))"
  proof (rule prints_block [OF sv sorting wf "3.prems"(2-4)])
    fix k v p assume kv: "(k, v) \<in> set es" "reads hash r p v"
    have "fits_stack n v" "keys_distinct v" "exportable v" using "3.prems" kv(1) by fastforce+
    then show "prints (export_value sv r opts n p (depth + 1)) (json_text sv opts (depth + 1) (key_sorted v))"
      using "3.IH" [OF kv(1) refl _ kv(2)] by blast
  qed
  moreover have "reader_kind_at r off = Inr K_BLOCK" using "3.prems"(2) by simp
  ultimately show ?case by (simp add: prints_with_read del: json_text.simps)
next
  case (4 n vs)
  have "prints (export_array sv r opts (export_value sv r opts n) off depth) (json_text sv opts depth (key_sorted (Array vs)))"
  proof (rule prints_array [OF sv "4.prems"(2)])
    show "length vs < 2 ^ 32" using "4.prems"(4) by simp
    fix v p assume v: "v \<in> set vs" "reads hash r p v"
    then show "prints (export_value sv r opts n p (depth + 1)) (json_text sv opts (depth + 1) (key_sorted v))"
      using "4.IH" [OF v(1) _ v(2)] "4.prems" v(1) by auto
  qed
  moreover have "reader_kind_at r off = Inr K_ARRAY" using "4.prems"(2) by simp
  ultimately show ?case by (simp add: prints_with_read del: json_text.simps)
qed

section \<open>A whole file\<close>

definition file_text :: "services \<Rightarrow> options option \<Rightarrow> (bytes \<times> doc) list \<Rightarrow> bytes" where
  "file_text sv opts es = json_text sv opts 0 (key_sorted (Block es)) @ line_break opts"

lemma margin_0: "margin opts 0 = []"
  by (simp add: margin_def)

lemma prints_export:
  assumes sv: "obliging sv" and sorting: "sort_keys opts" and wf: "wf_reader r" and reads: "reads_roots hash r es"
    and distinct: "keys_distinct (Block es)" and ok: "exportable (Block es)" and stack: "fits_stack (Suc frames) (Block es)"
  shows "prints (export_json_ex sv r opts frames) (file_text sv opts es)"
proof -
  have dist: "distinct (map fst es)" and keys: "\<forall>(k, v) \<in> set es. utf8_ok k" using distinct ok by auto
  from document_roots [OF wf reads dist sv] obtain ses ses' where empty: "hdr_root_count (rd_header r) = 0 \<longleftrightarrow> es = []"
    and table: "load_sort_entries (rd_base r) (hdr_root_index_offset (rd_header r)) (unat (hdr_root_count (rd_header r))) = Inr ses"
      "sort_with_compare sv (sort_less_by_key sv r) ses = Inr ses'" "lists r (reads hash r) ses' (sort_key fst es)" by blast
  have vals: "prints (export_value sv r opts frames p (0 + 1)) (json_text sv opts 1 (key_sorted v))"
    if kv: "(k, v) \<in> set es" and at: "reads hash r p v" for p k v
  proof -
    have "fits_stack frames v" "keys_distinct v" "exportable v" using stack distinct ok kv by fastforce+
    then show ?thesis using prints_value [OF sv sorting wf _ at] by simp
  qed
  have sorted: "key_sorted (Block es) = Block (map (\<lambda>(k, v). (k, key_sorted v)) (sort_key fst es))"
    by (simp add: sort_key_sorted [OF dist])
  show ?thesis
  proof (cases "es = []")
    case True
    have "prints (write_literal sv ''{}'') [0x7B, 0x7D]" using prints_write_literal [OF sv, of "''{}''"] by (simp add: ascii_def)
    then have "prints (steps [write_literal sv ''{}'', write_newline sv opts]) ([0x7B, 0x7D] @ line_break opts)"
      by (intro prints_Cons prints_one prints_newline [OF sv])
    then show ?thesis using True empty by (simp add: export_json_ex_def file_text_def)
  next
    case False
    note entries_print = prints_table [where write_value = "export_value sv r opts frames" and depth = 0
        and render = "\<lambda>v. json_text sv opts (1) (key_sorted v)", OF sv sorting keys table]
    have "prints (write_literal sv ''{'') [0x7B]" using prints_write_literal [OF sv, of "''{''"] by (simp add: ascii_def)
    moreover have "prints (\<lambda>s. Inr (\<not> es_failed s, s)) []" by (simp add: adds_def)
    ultimately have all: "prints (steps [write_literal sv ''{'', write_newline sv opts,
        write_entries sv r opts (export_value sv r opts frames) return_false (hdr_root_index_offset (rd_header r)) (hdr_root_count (rd_header r)) 0,
        write_newline sv opts, write_all sv [0x7D], write_newline sv opts, \<lambda>s. Inr (\<not> es_failed s, s)])
      ([0x7B] @ line_break opts @ joined ([0x2C] @ line_break opts)
        (map (\<lambda>(k, v). margin opts (0 + 1) @ json_string opts k @ colon opts @ json_text sv opts 1 (key_sorted v)) (sort_key fst es)) @
        line_break opts @ [0x7D] @ line_break opts @ [])"
      by (intro prints_Cons prints_one prints_newline [OF sv] prints_write_all [OF sv] entries_print) (assumption | rule vals)+
    have "sort_key fst es \<noteq> []" using False by (metis length_0_conv length_sort)
    then have shown: "file_text sv opts es = [0x7B] @ line_break opts @ joined ([0x2C] @ line_break opts)
        (map (\<lambda>(k, v). margin opts (0 + 1) @ json_string opts k @ colon opts @ json_text sv opts 1 (key_sorted v)) (sort_key fst es)) @
        line_break opts @ [0x7D] @ line_break opts @ []"
      unfolding file_text_def sorted json_text.simps by (simp add: comp_def case_prod_unfold margin_0)
    show ?thesis unfolding shown export_json_ex_def using all empty False by (simp add: Let_def)
  qed
qed

end
