(* ===== verification/Ini_Text.thy ===== *)
theory Ini_Text
  imports Export_Ini Json_Text
begin

text \<open>
  The INI text of a document, and that the exporter prints it: the members of a block that are not
  blocks first, a line for each scalar and for each element of an array, then its blocks as sections
  whose names are the keys on the way from the root, joined by dots.
\<close>

section \<open>The text of a document\<close>

text \<open>
  A character of a string: the backslash, the quote, the line feed, the carriage return and the tab have
  escapes of their own, other control characters are escaped by their code in hexadecimal.
\<close>

definition ini_escapes :: "(byte \<times> bytes) list" where
  "ini_escapes = [(0x5C, [0x5C, 0x5C]), (0x22, [0x5C, 0x22]), (0x0A, [0x5C, 0x6E]), (0x0D, [0x5C, 0x72]), (0x09, [0x5C, 0x74])]"

definition ini_char :: "byte \<Rightarrow> bytes" where
  "ini_char c =
     (case map_of ini_escapes c of
        Some t \<Rightarrow> t
      | None \<Rightarrow> if unat c < 32 then [0x5C, 0x78, upper_digit (unat c div 16), upper_digit (unat c mod 16)] else [c])"

lemma ini_char_eq:
  "ini_char c =
     (case ini_replacement c of
        Some t \<Rightarrow> ascii t
      | None \<Rightarrow> if c < 0x20 then [0x5C, 0x78, upper_digit (unat c div 16), upper_digit (unat c mod 16)] else [c])"
proof -
  have "ascii [CHR 0x5C, CHR 0x5C] = [0x5C, 0x5C]" "ascii [CHR 0x5C, CHR 0x22] = [0x5C, 0x22]" "ascii [CHR 0x5C, CHR ''n''] = [0x5C, 0x6E]"
    "ascii [CHR 0x5C, CHR ''r''] = [0x5C, 0x72]" "ascii [CHR 0x5C, CHR ''t''] = [0x5C, 0x74]" by code_simp+
  then show ?thesis by (simp add: ini_char_def ini_escapes_def ini_replacement_def word_less_nat_alt)
qed

text \<open>
  A reader of quoted strings that knows the escapes by their letters, on its own: a backslash before a backslash, a quote or one
  of n, r, t, or before x and two hexadecimal digits.
\<close>

definition ini_unescape :: "byte \<Rightarrow> byte option" where
  "ini_unescape c =
     (if c = 0x5C \<or> c = 0x22 then Some c else if c = 0x6E then Some 10 else if c = 0x72 then Some 13 else if c = 0x74 then Some 9 else None)"

definition ini_next :: "bytes \<Rightarrow> (byte \<times> bytes) option" where
  "ini_next s =
     (case s of
        [] \<Rightarrow> None
      | b # t \<Rightarrow>
          if b \<noteq> 0x5C then (if b < 0x20 \<or> b = 0x22 then None else Some (b, t))
          else case t of
            [] \<Rightarrow> None
          | c # t \<Rightarrow>
              if c \<noteq> 0x78 then map_option (\<lambda>b. (b, t)) (ini_unescape c)
              else case t of
                d # e # t \<Rightarrow> (case (hex_value d, hex_value e) of (Some d, Some e) \<Rightarrow> Some (of_nat (d * 16 + e), t) | _ \<Rightarrow> None)
              | _ \<Rightarrow> None)"

lemma ini_next_shorter: "ini_next s = Some (b, t) \<Longrightarrow> length t < length s"
  by (auto simp: ini_next_def split: list.splits if_splits option.splits)

function ini_chars :: "bytes \<Rightarrow> bytes option" where
  "ini_chars s =
     (if s = [] then Some []
      else case ini_next s of None \<Rightarrow> None | Some (b, t) \<Rightarrow> map_option (\<lambda>bs. b # bs) (ini_chars t))"
  by pat_completeness auto
termination by (relation "measure length") (auto dest: ini_next_shorter)

declare ini_chars.simps [simp del]

definition ini_unquote :: "bytes \<Rightarrow> bytes option" where
  "ini_unquote s = (if length s < 2 \<or> hd s \<noteq> 0x22 \<or> last s \<noteq> 0x22 then None else ini_chars (butlast (tl s)))"

lemma ini_next_char: "ini_next (ini_char c @ t) = Some (c, t)"
proof (cases "map_of ini_escapes c")
  case None
  then have plain: "c \<noteq> 0x5C" "c \<noteq> 0x22" by (auto simp: ini_escapes_def)
  show ?thesis
  proof (cases "unat c < 32")
    case True
    then have "hex_value (upper_digit (unat c div 16)) = Some (unat c div 16)" "hex_value (upper_digit (unat c mod 16)) = Some (unat c mod 16)"
      by (simp_all add: hex_value_digit div_less_iff_less_mult)
    moreover have "of_nat (unat c div 16 * 16 + unat c mod 16) = c" unfolding div_mult_mod_eq by simp
    ultimately show ?thesis using True None by (simp add: ini_char_def ini_next_def)
  next
    case False
    then show ?thesis using None plain by (simp add: ini_char_def ini_next_def word_less_nat_alt)
  qed
next
  case (Some e)
  then have "c \<in> {0x5C, 0x22, 0x0A, 0x0D, 0x09}" by (auto simp: ini_escapes_def split: if_splits)
  then show ?thesis by (auto simp: ini_char_def ini_escapes_def ini_next_def ini_unescape_def)
qed

lemma ini_chars_concat: "ini_chars (concat (map ini_char s)) = Some s"
proof (induction s)
  case Nil
  then show ?case by (simp add: ini_chars.simps)
next
  case (Cons c s)
  have "ini_next [] = None" by (simp add: ini_next_def)
  then have "ini_char c @ concat (map ini_char s) \<noteq> []" using ini_next_char [of c "concat (map ini_char s)"] by (metis option.distinct(1))
  then show ?case using Cons ini_next_char [of c] by (subst ini_chars.simps) (simp del: append_is_Nil_conv)
qed

lemma ini_unquote_string: "ini_unquote ([0x22] @ concat (map ini_char s) @ [0x22]) = Some s"
  by (simp add: ini_unquote_def ini_chars_concat butlast_append)

fun ini_leaf :: "services \<Rightarrow> leaf \<Rightarrow> bytes" where
  "ini_leaf sv L_null = []"
| "ini_leaf sv (L_bool b) = ascii (if b then ''true'' else ''false'')"
| "ini_leaf sv (L_int64 v) = the (sv_int64 sv (sint v))"
| "ini_leaf sv (L_uint64 v) = the (sv_uint64 sv v)"
| "ini_leaf sv (L_float64 v) = (if double_exponent v = 2047 then [] else the (sv_double sv v))"
| "ini_leaf sv (L_string s) = [0x22] @ concat (map ini_char s) @ [0x22]"

fun is_block :: "doc \<Rightarrow> bool" where
  "is_block (Block es) \<longleftrightarrow> True"
| "is_block v \<longleftrightarrow> False"

fun ini_item :: "services \<Rightarrow> bytes \<Rightarrow> doc \<Rightarrow> bytes" where
  "ini_item sv k (Leaf l) = k @ ascii ''[]='' @ ini_leaf sv l @ [0x0A]"
| "ini_item sv k v = []"

fun ini_lines :: "services \<Rightarrow> bytes \<Rightarrow> doc \<Rightarrow> bytes" where
  "ini_lines sv k (Leaf l) = k @ ascii '' = '' @ ini_leaf sv l @ [0x0A]"
| "ini_lines sv k (Array vs) = concat (map (ini_item sv k) vs)"
| "ini_lines sv k (Block es) = []"

text \<open>
  The name of a section is the keys on the way from the root with dots between them. Empty keys at the start
  leave no trace; a section without a name has no line.
\<close>

fun dotted :: "bytes list \<Rightarrow> bytes" where
  "dotted [] = []"
| "dotted [k] = k"
| "dotted (k # ks) = k @ [0x2E] @ dotted ks"

definition path_name :: "bytes list \<Rightarrow> bytes" where
  "path_name path = dotted (dropWhile (\<lambda>k. k = []) path)"

lemma dotted_snoc: "dotted (ks @ [k]) = (if ks = [] then k else dotted ks @ [0x2E] @ k)"
  by (induction ks rule: dotted.induct) simp_all

lemma path_name_Nil [simp]: "path_name [] = []"
  by (simp add: path_name_def)

lemma section_name_path: "section_name (path_name path) k = path_name (path @ [k])"
proof (cases "\<forall>k \<in> set path. k = []")
  case True
  then have none: "dropWhile (\<lambda>k. k = []) path = []" by simp
  have "dropWhile (\<lambda>k. k = []) (path @ [k]) = (if k = [] then [] else [k])" using True by (simp add: dropWhile_append)
  then show ?thesis unfolding section_name_def path_name_def none by simp
next
  case False
  then obtain j js where rest: "dropWhile (\<lambda>k. k = []) path = j # js" by (cases "dropWhile (\<lambda>k. k = []) path") auto
  then have "j \<noteq> []" using hd_dropWhile [of "\<lambda>k. k = []" path] by simp
  then have "dotted (j # js) \<noteq> []" by (cases js) simp_all
  moreover have "dropWhile (\<lambda>k. k = []) (path @ [k]) = (j # js) @ [k]" using False rest by (auto simp: dropWhile_append)
  ultimately show ?thesis using dotted_snoc [of "j # js" k] by (simp add: section_name_def path_name_def rest)
qed

lemma section_name_root: "section_name [] k = path_name [k]"
  using section_name_path [of "[]" k] by simp

definition section_line :: "bytes \<Rightarrow> bytes" where
  "section_line name = (if name = [] then [] else [0x5B] @ name @ [0x5D, 0x0A])"

fun ini_section :: "services \<Rightarrow> bytes list \<Rightarrow> doc \<Rightarrow> bytes" where
  "ini_section sv path (Block es) =
     section_line (path_name path) @ concat (map (\<lambda>(k, v). ini_lines sv k v) es) @
     (if \<exists>(k, v) \<in> set es. is_block v then [0x0A] else []) @ concat (map (\<lambda>(k, v). ini_section sv (path @ [k]) v) es)"
| "ini_section sv path v = []"

definition ini_file_text :: "services \<Rightarrow> (bytes \<times> doc) list \<Rightarrow> bytes" where
  "ini_file_text sv es =
     (let es = map (\<lambda>(k, v). (k, key_sorted v)) (sort_key fst es)
      in concat (map (\<lambda>(k, v). ini_lines sv k v) es) @ concat (map (\<lambda>(k, v). ini_section sv [k] v) es))"

text \<open>Arrays hold scalars only, and no more than their length field counts.\<close>

fun ini_exportable :: "doc \<Rightarrow> bool" where
  "ini_exportable (Leaf l) \<longleftrightarrow> True"
| "ini_exportable (Block es) \<longleftrightarrow> (\<forall>(k, v) \<in> set es. ini_exportable v)"
| "ini_exportable (Array vs) \<longleftrightarrow> length vs < 2 ^ 32 \<and> (\<forall>v \<in> set vs. \<exists>l. v = Leaf l)"

section \<open>The writes print\<close>

lemma ini_write_eq: "ini_write sv data = write_all sv data"
  by (simp add: fun_eq_iff ini_write_def write_all_def)

lemma prints_ini_write: "obliging sv \<Longrightarrow> prints (ini_write sv t) t"
  by (simp add: ini_write_eq prints_write_all)

lemma prints_ini_literal: "obliging sv \<Longrightarrow> prints (ini_write_literal sv t) (ascii t)"
  by (simp add: ini_write_literal_def prints_ini_write)

lemma prints_ini_byte:
  assumes sv: "obliging sv"
  shows "prints (ini_write_byte sv c) (ini_char c)"
proof (cases "c < 0x20 \<and> ini_replacement c = None")
  case True
  then have c: "unat c < 32" by (simp add: word_less_nat_alt)
  have "(ucast c :: u64) = of_nat (unat c)" by simp
  moreover have "unat c < 256" using c by simp
  then have "sv_hex sv (of_nat (unat c)) 2 = Some (lower_hex2 (unat c))" using sv unfolding obliging_def by blast
  ultimately have hex: "sv_hex sv (ucast c) 2 = Some (lower_hex2 (unat c))" by simp
  have "map upper_hex (lower_hex2 (unat c)) = [upper_digit (unat c div 16), upper_digit (unat c mod 16)]"
    using c by (simp add: lower_hex2_def upper_hex_digit div_less_iff_less_mult)
  moreover have "prints (steps [ini_write_literal sv [CHR 0x5C, CHR ''x''], ini_write sv t]) (ascii [CHR 0x5C, CHR ''x''] @ t)" for t
    by (intro prints_Cons prints_one prints_ini_literal [OF sv] prints_ini_write [OF sv])
  moreover have "ascii [CHR 0x5C, CHR ''x''] = [0x5C, 0x78]" by (simp add: ascii_def)
  ultimately show ?thesis using True hex by (simp add: ini_write_byte_def ini_char_eq)
next
  case False
  then show ?thesis using sv by (auto simp: ini_write_byte_def ini_char_eq prints_ini_literal prints_ini_write split: option.splits)
qed

lemma prints_ini_escaped: "obliging sv \<Longrightarrow> prints (ini_write_escaped sv s) (ini_leaf sv (L_string s))"
  unfolding ini_write_escaped_def ini_leaf.simps
  by (intro prints_Cons prints_one prints_map prints_ini_byte)
    (simp_all add: prints_ini_literal [of sv "[CHR 0x22]", unfolded ascii_def, simplified])

lemma prints_ini_formatted: "obliging sv \<Longrightarrow> t \<noteq> None \<Longrightarrow> prints (ini_write_formatted sv t) (the t)"
  by (auto simp: ini_write_formatted_def prints_ini_write)

lemma prints_ini_leaf:
  assumes sv: "obliging sv" and reads: "reads_leaf r off l"
  shows "prints (ini_write_scalar_value sv r off) (ini_leaf sv l)"
proof (cases l)
  case L_null
  then show ?thesis using reads prints_ini_literal [OF sv, of "''''"] by (simp add: ini_write_scalar_value_def prints_with_read ascii_def)
next
  case (L_bool b)
  then have "reader_kind_at r off = Inr (if b then K_TRUE else K_FALSE)" using reads bool_kind by simp
  then show ?thesis using L_bool prints_ini_literal [OF sv] by (cases b) (simp_all add: ini_write_scalar_value_def prints_with_read)
next
  case (L_int64 v)
  then have int: "reader_scalar_int64_at r off = Inr (sint v)" using reads by simp
  then have "reader_kind_at r off = Inr K_INT64" by (auto simp: reader_scalar_int64_at_def bindE_eq_Inr intro: scalar_kind)
  then show ?thesis using L_int64 int prints_ini_formatted [OF sv] obliging_formats [OF sv, of "sint v"]
    by (simp add: ini_write_scalar_value_def prints_with_read)
next
  case (L_uint64 v)
  then have int: "reader_scalar_uint64_at r off = Inr v" using reads by simp
  then have "reader_kind_at r off = Inr K_UINT64" by (auto simp: reader_scalar_uint64_at_def intro: scalar_kind)
  then show ?thesis using L_uint64 int prints_ini_formatted [OF sv] obliging_formats [OF sv, of 0 v]
    by (simp add: ini_write_scalar_value_def prints_with_read)
next
  case (L_float64 v)
  then have float: "reader_scalar_float64_at r off = Inr v" using reads by simp
  then have kind: "reader_kind_at r off = Inr K_FLOAT64" by (auto simp: reader_scalar_float64_at_def intro: scalar_kind)
  have "prints (ini_write_float64 sv v) (ini_leaf sv l)"
    using L_float64 prints_ini_write [OF sv] prints_ini_literal [OF sv, of "''''"] obliging_formats [OF sv, of 0 v]
    by (auto simp: ini_write_float64_def ascii_def double_classes)
  then show ?thesis using kind float by (simp add: ini_write_scalar_value_def prints_with_read)
next
  case (L_string s)
  then obtain pos n where str: "reader_scalar_string_at r off = Inr (pos, n)" "read_at (rd_base r) (unat pos) (unat n) = Some s"
    using reads by (auto split: sum.splits)
  have "view (rd_base r) pos (unat n) = Inr s" using str(2) by (auto simp: view_def fetch_def read_at_def split: if_splits)
  then have "prints (with_memory (view (rd_base r) pos (unat n)) (ini_write_escaped sv)) (ini_leaf sv l)"
    using L_string prints_ini_escaped [OF sv, of s] by (simp add: prints_with_memory)
  then show ?thesis using string_kind [OF str(1)] str(1) by (simp add: ini_write_scalar_value_def prints_with_read)
qed

section \<open>Entries print\<close>

lemma leaf_kind: "reads_leaf r off l \<Longrightarrow> \<exists>k. reader_kind_at r off = Inr k \<and> k \<noteq> K_BLOCK \<and> k \<noteq> K_ARRAY"
proof (cases l)
  case (L_bool b)
  then show "reads_leaf r off l \<Longrightarrow> ?thesis" using bool_kind by (cases b) auto
next
  case (L_string s)
  then show "reads_leaf r off l \<Longrightarrow> ?thesis" using string_kind by (auto split: sum.splits)
qed (auto simp: reader_scalar_int64_at_def reader_scalar_uint64_at_def reader_scalar_float64_at_def bindE_eq_Inr dest: scalar_kind)

lemma prints_ini_key: "key_is r e k \<Longrightarrow> prints (f k) t \<Longrightarrow> prints (ini_key r e f) t"
  unfolding ini_key_def by (rule prints_with_memory) (simp_all add: key_is_def)

lemma prints_ini_element:
  assumes sv: "obliging sv" and key: "key_is r e k" and reads: "reads hash r off (Leaf l)"
    and bytes: "fetch (rd_base r) (elements + of_nat i * of_nat ARRAY_ELEMENT_SIZE) 8 = Inr bs" "load_u64 bs = off"
  shows "prints (ini_emit_element sv r e elements i) (ini_item sv k (Leaf l))"
proof -
  have leaf: "reads_leaf r off l" using reads by simp
  obtain kind where kind: "reader_kind_at r off = Inr kind" "kind \<noteq> K_BLOCK" "kind \<noteq> K_ARRAY" using leaf_kind [OF leaf] by blast
  have "prints (steps [ini_key r e (ini_write sv), ini_write_literal sv ''[]='', ini_write_scalar_value sv r off, ini_write_literal sv [CHR 0x0A]])
      (k @ ascii ''[]='' @ ini_leaf sv l @ ascii [CHR 0x0A])"
    by (intro prints_Cons prints_one prints_ini_key [OF key] prints_ini_write [OF sv] prints_ini_literal [OF sv] prints_ini_leaf [OF sv leaf])
  then have line: "prints (steps [ini_key r e (ini_write sv), ini_write_literal sv ''[]='', ini_write_scalar_value sv r off, ini_write_literal sv [CHR 0x0A]])
      (ini_item sv k (Leaf l))" by (simp add: ascii_def)
  show ?thesis unfolding ini_emit_element_def
    by (rule prints_with_memory [OF bytes(1)], unfold bytes(2), rule prints_with_read [OF kind(1)]) (use kind line in simp)
qed

lemma prints_ini_entry:
  assumes sv: "obliging sv" and key: "key_is r e k" and reads: "reads hash r (se_value_offset e) v"
    and ok: "ini_exportable v" and kind: "\<not> is_block v"
  shows "prints (ini_emit_entry sv r f name e) (ini_lines sv k v)"
proof (cases v)
  case (Leaf l)
  then have leaf: "reads_leaf r (se_value_offset e) l" using reads by simp
  obtain kind where kind: "reader_kind_at r (se_value_offset e) = Inr kind" "kind \<noteq> K_BLOCK" "kind \<noteq> K_ARRAY" using leaf_kind [OF leaf] by blast
  have "prints (steps [ini_key r e (ini_write sv), ini_write_literal sv '' = '', ini_write_scalar_value sv r (se_value_offset e), ini_write_literal sv [CHR 0x0A]])
      (k @ ascii '' = '' @ ini_leaf sv l @ ascii [CHR 0x0A])"
    by (intro prints_Cons prints_one prints_ini_key [OF key] prints_ini_write [OF sv] prints_ini_literal [OF sv] prints_ini_leaf [OF sv leaf])
  then have "prints (steps [ini_key r e (ini_write sv), ini_write_literal sv '' = '', ini_write_scalar_value sv r (se_value_offset e), ini_write_literal sv [CHR 0x0A]])
      (ini_lines sv k v)" by (simp add: Leaf ascii_def)
  then show ?thesis unfolding ini_emit_entry_def by (intro prints_with_read [OF kind(1)]) (use kind in simp)
next
  case (Array vs)
  then obtain header elements where body: "reader_array_body_offsets r (se_value_offset e) = Inr (header, elements)"
    and n: "unat (ah_element_count header) = length vs"
    and element: "\<forall>i < length vs. \<exists>bs. fetch (rd_base r) (elements + of_nat i * of_nat ARRAY_ELEMENT_SIZE) 8 = Inr bs \<and> reads hash r (load_u64 bs) (vs ! i)"
    using document_array [of hash r "se_value_offset e" vs] reads ok by auto
  have item: "prints (ini_emit_element sv r e elements i) (ini_item sv k (vs ! i))" if i: "i < length vs" for i
  proof -
    obtain l where l: "vs ! i = Leaf l" using ok i by (auto simp: Array dest!: nth_mem)
    then show ?thesis using element i prints_ini_element [OF sv key] by (metis)
  qed
  have "prints (steps (map (ini_emit_element sv r e elements) [0..<length vs])) (concat (map (\<lambda>i. ini_item sv k (vs ! i)) [0..<length vs]))"
    by (intro prints_map item) simp
  moreover have "map (\<lambda>i. ini_item sv k (vs ! i)) [0..<length vs] = map (ini_item sv k) vs"
    by (rule nth_equalityI) simp_all
  ultimately have "prints (steps (map (ini_emit_element sv r e elements) [0..<length vs])) (ini_lines sv k v)" by (simp add: Array)
  moreover have "reader_kind_at r (se_value_offset e) = Inr K_ARRAY" using reads Array by simp
  ultimately show ?thesis using body n by (simp add: ini_emit_entry_def prints_with_read)
qed (use kind in simp)

lemma prints_ini_block_entry:
  assumes sv: "obliging sv" and key: "key_is r e k" and kind: "reader_kind_at r (se_value_offset e) = Inr K_BLOCK"
    and block: "prints (f (section_name name k) (se_value_offset e)) t"
  shows "prints (ini_emit_entry sv r f name e) t"
  unfolding ini_emit_entry_def
  by (rule prints_with_read [OF kind]) (simp add: prints_scratch obliging_grants [OF sv] prints_ini_key [OF key] block)

section \<open>Blocks print\<close>

text \<open>What the first pass needs of an entry: its kind, and that emitting it prints the text of its value.\<close>

definition ini_ready :: "reader \<Rightarrow> (sort_entry \<Rightarrow> act) \<Rightarrow> (bytes \<times> doc \<Rightarrow> bytes) \<Rightarrow> sort_entry \<Rightarrow> bytes \<times> doc \<Rightarrow> bool" where
  "ini_ready r emit render e kv \<longleftrightarrow> prints (emit e) (render kv) \<and>
     (\<exists>kind. reader_kind_at r (se_value_offset e) = Inr kind \<and> (kind = K_BLOCK \<longleftrightarrow> is_block (snd kv)))"

lemma prints_ready:
  assumes "list_all2 (ini_ready r emit render) es kvs"
  shows "prints (steps (map emit es)) (concat (map render kvs))"
  using assms by (intro printing.adds_steps) (auto simp: list_all2_conv_all_nth ini_ready_def)

lemma prints_ini_entries:
  assumes sv: "obliging sv"
  shows "list_all2 (ini_ready r emit render) es kvs \<Longrightarrow> list_all2 (ini_ready r emit render) blocks bs \<Longrightarrow>
    prints (ini_emit_entries sv r n emit blocks es)
      (concat (map render (filter (\<lambda>kv. \<not> is_block (snd kv)) kvs)) @
       (let bs = bs @ filter (\<lambda>kv. is_block (snd kv)) kvs in if bs = [] then [] else [0x0A] @ concat (map render bs)))"
proof (induction es arbitrary: kvs blocks bs)
  case Nil
  have "prints (steps [ini_write_literal sv [CHR 0x0A], steps (map emit blocks)]) (ascii [CHR 0x0A] @ concat (map render bs))"
    by (intro prints_Cons prints_one prints_ini_literal [OF sv] prints_ready [OF Nil.prems(2)])
  moreover have "blocks = [] \<longleftrightarrow> bs = []" using Nil.prems(2) by auto
  ultimately show ?case using Nil.prems(1) by (auto simp: ini_emit_blocks_def ascii_def prints_Nil Let_def)
next
  case (Cons e es)
  then obtain kv rest where kvs: "kvs = kv # rest" "ini_ready r emit render e kv" "list_all2 (ini_ready r emit render) es rest"
    by (auto simp: list_all2_Cons1)
  then obtain kind where kind: "reader_kind_at r (se_value_offset e) = Inr kind" "kind = K_BLOCK \<longleftrightarrow> is_block (snd kv)"
    "prints (emit e) (render kv)" by (auto simp: ini_ready_def)
  show ?case
  proof (cases "is_block (snd kv)")
    case True
    have "list_all2 (ini_ready r emit render) (blocks @ [e]) (bs @ [kv])" using Cons.prems(2) kvs(2) by (simp add: list_all2_appendI)
    from Cons.IH [OF kvs(3) this] show ?thesis unfolding ini_emit_entries.simps kvs(1)
      by (intro prints_with_read [OF kind(1)]) (use True kind(2) in \<open>auto simp: Let_def intro!: prints_scratch obliging_grants [OF sv]\<close>)
  next
    case False
    have "prints (steps [emit e, ini_emit_entries sv r n emit blocks es]) (render kv @ (concat (map render (filter (\<lambda>kv. \<not> is_block (snd kv)) rest)) @
       (let bs = bs @ filter (\<lambda>kv. is_block (snd kv)) rest in if bs = [] then [] else [0x0A] @ concat (map render bs))))"
      by (intro prints_Cons prints_one kind(3) Cons.IH [OF kvs(3) Cons.prems(2)])
    then show ?thesis unfolding ini_emit_entries.simps kvs(1)
      by (intro prints_with_read [OF kind(1)]) (use False kind(2) in simp)
  qed
qed

lemma prints_root_blocks:
  "list_all2 (ini_ready r emit render) blocks bs \<Longrightarrow> prints (ini_root_blocks emit blocks) (concat (map render bs))"
proof (induction blocks bs rule: list_all2_induct)
  case Nil
  then show ?case by (simp add: adds_def)
next
  case (Cons e es kv kvs)
  then have first: "prints (emit e) (render kv)" by (simp add: ini_ready_def)
  show ?case unfolding adds_def
  proof (intro allI impI)
    fix s :: export_state assume s: "\<not> es_failed s"
    obtain s1 where "emit e s = Inr (True, s1)" "es_output s1 = es_output s @ render kv" "\<not> es_failed s1"
      by (rule addsE [OF first s TrueI])
    moreover obtain s2 where "ini_root_blocks emit es s1 = Inr (True, s2)" "es_output s2 = es_output s1 @ concat (map render kvs)" "\<not> es_failed s2"
      by (rule addsE [OF Cons.IH \<open>\<not> es_failed s1\<close> TrueI])
    ultimately show "\<exists>s'. ini_root_blocks emit (e # es) s = Inr (True, s') \<and> es_output s' = es_output s @ concat (map render (kv # kvs)) \<and> \<not> es_failed s'"
      using s by simp
  qed
qed

lemma prints_root_entries:
  assumes sv: "obliging sv"
  shows "list_all2 (ini_ready r emit render) es kvs \<Longrightarrow> list_all2 (ini_ready r emit render) blocks bs \<Longrightarrow>
    prints (ini_root_entries sv r n emit blocks es)
      (concat (map render (filter (\<lambda>kv. \<not> is_block (snd kv)) kvs)) @ concat (map render (bs @ filter (\<lambda>kv. is_block (snd kv)) kvs)))"
proof (induction es arbitrary: kvs blocks bs)
  case Nil
  have "ini_root_entries sv r n emit blocks [] = ini_root_blocks emit blocks" by (simp add: fun_eq_iff)
  then show ?case using Nil prints_root_blocks by simp
next
  case (Cons e es)
  then obtain kv rest where kvs: "kvs = kv # rest" "ini_ready r emit render e kv" "list_all2 (ini_ready r emit render) es rest"
    by (auto simp: list_all2_Cons1)
  then obtain kind where kind: "reader_kind_at r (se_value_offset e) = Inr kind" "kind = K_BLOCK \<longleftrightarrow> is_block (snd kv)"
    and first: "prints (emit e) (render kv)" by (auto simp: ini_ready_def)
  show ?case
  proof (cases "is_block (snd kv)")
    case True
    have "list_all2 (ini_ready r emit render) (blocks @ [e]) (bs @ [kv])" using Cons.prems(2) kvs(2) by (simp add: list_all2_appendI)
    note more = Cons.IH [OF kvs(3) this]
    have "prints (if blocks = [] then scratch_alloc sv n (\<lambda>s. ini_root_blocks emit blocks (s\<lparr>es_failed := True\<rparr>)) (ini_root_entries sv r n emit [e] es)
        else ini_root_entries sv r n emit (blocks @ [e]) es)
      (concat (map render (filter (\<lambda>kv. \<not> is_block (snd kv)) kvs)) @ concat (map render (bs @ filter (\<lambda>kv. is_block (snd kv)) kvs)))"
      using more True by (auto simp: kvs(1) intro!: prints_scratch obliging_grants [OF sv])
    then show ?thesis using kind True by (auto simp: adds_def)
  next
    case False
    note more = Cons.IH [OF kvs(3) Cons.prems(2)]
    show ?thesis unfolding adds_def
    proof (intro allI impI)
      fix s :: export_state assume s: "\<not> es_failed s"
      obtain s1 where s1: "emit e s = Inr (True, s1)" "es_output s1 = es_output s @ render kv" "\<not> es_failed s1"
        by (rule addsE [OF first s TrueI])
      obtain s2 where "ini_root_entries sv r n emit blocks es s1 = Inr (True, s2)" "\<not> es_failed s2"
        "es_output s2 = es_output s1 @ concat (map render (filter (\<lambda>kv. \<not> is_block (snd kv)) rest)) @ concat (map render (bs @ filter (\<lambda>kv. is_block (snd kv)) rest))"
        by (rule addsE [OF more s1(3) TrueI])
      then show "\<exists>s'. ini_root_entries sv r n emit blocks (e # es) s = Inr (True, s') \<and> es_output s' = es_output s @
          concat (map render (filter (\<lambda>kv. \<not> is_block (snd kv)) kvs)) @ concat (map render (bs @ filter (\<lambda>kv. is_block (snd kv)) kvs)) \<and> \<not> es_failed s'"
        using s s1 kind False by (simp add: kvs(1))
    qed
  qed
qed

definition ini_render :: "services \<Rightarrow> bytes list \<Rightarrow> bytes \<times> doc \<Rightarrow> bytes" where
  "ini_render sv path = (\<lambda>(k, v). if is_block v then ini_section sv (path @ [k]) (key_sorted v) else ini_lines sv k v)"

lemma ini_lines_sorted: "ini_lines sv k (key_sorted v) = ini_lines sv k v"
proof (cases v)
  case (Array vs)
  have "ini_item sv k (key_sorted v) = ini_item sv k v" for v by (cases v) simp_all
  then show ?thesis by (simp add: Array comp_def)
qed simp_all

lemma ini_render_split:
  "concat (map (ini_render sv path) (filter (\<lambda>kv. \<not> is_block (snd kv)) kvs)) = concat (map (\<lambda>(k, v). ini_lines sv k (key_sorted v)) kvs)"
  "concat (map (ini_render sv path) (filter (\<lambda>kv. is_block (snd kv)) kvs)) = concat (map (\<lambda>(k, v). ini_section sv (path @ [k]) (key_sorted v)) kvs)"
proof -
  have "ini_lines sv k v = []" if "is_block v" for k v using that by (cases v) simp_all
  then show "concat (map (ini_render sv path) (filter (\<lambda>kv. \<not> is_block (snd kv)) kvs)) = concat (map (\<lambda>(k, v). ini_lines sv k (key_sorted v)) kvs)"
    by (induction kvs) (auto simp: ini_render_def ini_lines_sorted)
  have "ini_section sv m (key_sorted v) = []" if "\<not> is_block v" for m v using that by (cases v) simp_all
  then show "concat (map (ini_render sv path) (filter (\<lambda>kv. is_block (snd kv)) kvs)) = concat (map (\<lambda>(k, v). ini_section sv (path @ [k]) (key_sorted v)) kvs)"
    by (induction kvs) (auto simp: ini_render_def)
qed

lemma ini_section_render:
  "ini_section sv path (Block (map (\<lambda>(k, v). (k, key_sorted v)) kvs)) = section_line (path_name path) @
     concat (map (ini_render sv path) (filter (\<lambda>kv. \<not> is_block (snd kv)) kvs)) @
     (let bs = [] @ filter (\<lambda>kv. is_block (snd kv)) kvs in if bs = [] then [] else [0x0A] @ concat (map (ini_render sv path) bs))"
proof -
  have same: "is_block (key_sorted v) = is_block v" for v by (cases v) simp_all
  have "(\<exists>(k, v) \<in> set (map (\<lambda>(k, v). (k, key_sorted v)) kvs). is_block v) \<longleftrightarrow> filter (\<lambda>kv. is_block (snd kv)) kvs \<noteq> []"
    by (induction kvs) (auto simp: same)
  moreover have "concat (map (\<lambda>(k, v). ini_section sv (path @ [k]) (key_sorted v)) kvs) = []" if "filter (\<lambda>kv. is_block (snd kv)) kvs = []"
    using ini_render_split(2) [of sv path kvs] that by simp
  ultimately show ?thesis unfolding ini_section.simps ini_render_split(1)
    by (simp add: Let_def comp_def case_prod_unfold ini_render_split(2))
qed

lemma prints_ini_table:
  assumes sv: "obliging sv" and sorting: "sort_keys opts"
    and load: "load_sort_entries (rd_base r) start (unat n) = Inr ses" and sort: "sort_with_compare sv (sort_less_by_key sv r) ses = Inr ses'"
    and emit: "prints (emit ses') t"
  shows "prints (ini_entries sv r opts refused start n emit) t"
proof -
  have same: "ini_sort_less_by_key sv r = sort_less_by_key sv r"
    by (simp add: fun_eq_iff ini_sort_less_by_key_def sort_less_by_key_def)
  show ?thesis unfolding ini_entries_def same using sorting
    by (auto intro!: prints_scratch obliging_grants [OF sv] prints_with_memory [OF load] prints_with_memory [OF sort] emit)
qed

text \<open>The entries of a table are ready, when the blocks among them print.\<close>

lemma table_ready:
  assumes sv: "obliging sv" and table: "lists r (reads hash r) ses es" and ok: "\<forall>(k, v) \<in> set es. ini_exportable v"
    and blocks: "\<And>k v p. (k, v) \<in> set es \<Longrightarrow> is_block v \<Longrightarrow> reads hash r p v \<Longrightarrow> prints (f (path_name (path @ [k])) p) (ini_section sv (path @ [k]) (key_sorted v))"
  shows "list_all2 (ini_ready r (ini_emit_entry sv r f (path_name path)) (ini_render sv path)) ses es"
proof (rule list_all2_all_nthI)
  show "length ses = length es" using table by (simp add: lists_def list_all2_lengthD)
  fix i assume i: "i < length ses"
  obtain k v where kv: "es ! i = (k, v)" by (cases "es ! i")
  have at: "key_is r (ses ! i) k" "reads hash r (se_value_offset (ses ! i)) v"
    using list_all2_nthD [OF table [unfolded lists_def] i] by (simp_all add: kv)
  have mem: "(k, v) \<in> set es" using i kv \<open>length ses = length es\<close> by (metis nth_mem)
  then have "ini_exportable v" using ok by auto
  show "ini_ready r (ini_emit_entry sv r f (path_name path)) (ini_render sv path) (ses ! i) (es ! i)"
  proof (cases "is_block v")
    case True
    then have "reader_kind_at r (se_value_offset (ses ! i)) = Inr K_BLOCK" using at(2) by (cases v) simp_all
    then show ?thesis using prints_ini_block_entry [where f = f and name = "path_name path", OF sv at(1)] blocks [OF mem True at(2)] True section_name_path
      by (simp add: ini_ready_def kv ini_render_def)
  next
    case False
    obtain kind where "reader_kind_at r (se_value_offset (ses ! i)) = Inr kind" "kind \<noteq> K_BLOCK"
    proof (cases v)
      case (Leaf l)
      then have "reads_leaf r (se_value_offset (ses ! i)) l" using at(2) by simp
      from leaf_kind [OF this] that show ?thesis by blast
    qed (use False at(2) that in simp_all)
    then show ?thesis using prints_ini_entry [OF sv at \<open>ini_exportable v\<close> False] False
      by (auto simp: ini_ready_def kv ini_render_def)
  qed
qed

lemma prints_ini_section: "obliging sv \<Longrightarrow> prints (ini_write_section sv name False) (section_line name)"
proof -
  assume sv: "obliging sv"
  have "prints (steps [ini_write_literal sv ''['', ini_write sv name, ini_write_literal sv ('']'' @ [CHR 0x0A])]) (ascii ''['' @ name @ ascii ('']'' @ [CHR 0x0A]))"
    by (intro prints_Cons prints_one prints_ini_literal [OF sv] prints_ini_write [OF sv])
  then show ?thesis by (simp add: ini_write_section_def section_line_def ascii_def prints_Nil)
qed

lemma prints_ini_block:
  assumes sv: "obliging sv" and sorting: "sort_keys opts" and wf: "wf_reader r"
  shows "fits_stack frames v \<Longrightarrow> is_block v \<Longrightarrow> reads hash r off v \<Longrightarrow> keys_distinct v \<Longrightarrow> ini_exportable v \<Longrightarrow>
    prints (ini_emit_block sv r opts frames False (path_name path) off) (ini_section sv path (key_sorted v))"
proof (induction frames v arbitrary: off path rule: fits_stack.induct)
  case (3 n es)
  have dist: "distinct (map fst es)" using "3.prems"(4) by simp
  from document_block [OF wf "3.prems"(3) dist sv] obtain header entries ses ses' where
    body: "reader_block_body_offsets r off = Inr (header, entries)" and empty: "bh_child_count header = 0 \<longleftrightarrow> es = []"
    and table: "load_sort_entries (rd_base r) entries (unat (ucast (bh_child_count header) :: u64)) = Inr ses"
      "sort_with_compare sv (sort_less_by_key sv r) ses = Inr ses'" "lists r (reads hash r) ses' (sort_key fst es)" by blast
  let ?kvs = "sort_key fst es" and ?f = "ini_emit_block sv r opts n False"
  have blocks: "prints (?f (path_name (path @ [k])) p) (ini_section sv (path @ [k]) (key_sorted v))"
    if kv: "(k, v) \<in> set ?kvs" and v: "is_block v" "reads hash r p v" for k v p
  proof -
    have mem: "(k, v) \<in> set es" using kv by simp
    have "fits_stack n v" "keys_distinct v" "ini_exportable v" using "3.prems"(1,4,5) mem by fastforce+
    then show ?thesis using "3.IH" [OF mem refl _ v] by simp
  qed
  have ready: "list_all2 (ini_ready r (ini_emit_entry sv r ?f (path_name path)) (ini_render sv path)) ses' ?kvs"
    by (rule table_ready [OF sv table(3) _ blocks]) (use "3.prems"(5) in auto)
  have sorted: "key_sorted (Block es) = Block (map (\<lambda>(k, v). (k, key_sorted v)) ?kvs)" by (simp add: sort_key_sorted [OF dist])
  have shown: "ini_section sv path (key_sorted (Block es)) = section_line (path_name path) @
      concat (map (ini_render sv path) (filter (\<lambda>kv. \<not> is_block (snd kv)) ?kvs)) @
      (let bs = [] @ filter (\<lambda>kv. is_block (snd kv)) ?kvs in if bs = [] then [] else [0x0A] @ concat (map (ini_render sv path) bs))"
    unfolding sorted by (rule ini_section_render)
  have emit: "prints (steps [ini_write_section sv (path_name path) False, ini_emit_entries sv r m (ini_emit_entry sv r ?f (path_name path)) [] ses'])
      (ini_section sv path (key_sorted (Block es)))" for m
    unfolding shown by (intro prints_Cons prints_one prints_ini_section [OF sv] prints_ini_entries [OF sv ready]) simp
  have no_entries: "ses' = []" if "es = []" using table(3) that by (simp add: lists_def)
  show ?case unfolding ini_emit_block.simps
    by (rule prints_with_read [OF body])
      (use empty no_entries emit in \<open>auto simp: Let_def simp del: key_sorted.simps ini_section.simps intro!: prints_ini_table [OF sv sorting table(1,2)]\<close>)
qed simp_all

lemma prints_ini_export:
  assumes sv: "obliging sv" and sorting: "sort_keys opts" and wf: "wf_reader r" and reads: "reads_roots hash r es"
    and distinct: "keys_distinct (Block es)" and ok: "ini_exportable (Block es)" and stack: "fits_stack (Suc frames) (Block es)"
  shows "prints (export_ini_ex sv r opts frames) (ini_file_text sv es)"
proof -
  have dist: "distinct (map fst es)" using distinct by simp
  from document_roots [OF wf reads dist sv] obtain ses ses' where empty: "hdr_root_count (rd_header r) = 0 \<longleftrightarrow> es = []"
    and table: "load_sort_entries (rd_base r) (hdr_root_index_offset (rd_header r)) (unat (hdr_root_count (rd_header r))) = Inr ses"
      "sort_with_compare sv (sort_less_by_key sv r) ses = Inr ses'" "lists r (reads hash r) ses' (sort_key fst es)" by blast
  let ?kvs = "sort_key fst es" and ?f = "ini_emit_block sv r opts frames False"
  have blocks: "prints (?f (path_name [k]) p) (ini_section sv [k] (key_sorted v))"
    if kv: "(k, v) \<in> set ?kvs" and v: "is_block v" "reads hash r p v" for k v p
  proof -
    have "fits_stack frames v" "keys_distinct v" "ini_exportable v" using stack distinct ok kv by fastforce+
    then show ?thesis using prints_ini_block [OF sv sorting wf _ v] by simp
  qed
  have ready: "list_all2 (ini_ready r (ini_emit_entry sv r ?f (path_name [])) (ini_render sv [])) ses' ?kvs"
    by (rule table_ready [OF sv table(3)]) (use ok blocks in auto)
  have shown: "ini_file_text sv es = concat (map (ini_render sv []) (filter (\<lambda>kv. \<not> is_block (snd kv)) ?kvs)) @
      concat (map (ini_render sv []) ([] @ filter (\<lambda>kv. is_block (snd kv)) ?kvs))"
    unfolding ini_file_text_def ini_render_split(1) append_Nil ini_render_split(2)
    by (simp add: Let_def comp_def case_prod_unfold)
  show ?thesis
  proof (cases "es = []")
    case True
    then show ?thesis using empty prints_Nil by (simp add: export_ini_ex_def ini_file_text_def)
  next
    case False
    have "prints (ini_root_entries sv r m (ini_emit_entry sv r ?f []) [] ses') (ini_file_text sv es)" for m
      unfolding shown by (intro prints_root_entries [OF sv ready [unfolded path_name_Nil]]) simp
    then show ?thesis using False empty unfolding export_ini_ex_def Let_def
      by (auto intro!: prints_ini_table [OF sv sorting table(1,2)])
  qed
qed

end
