(* ===== verification/Export_Properties.thy ===== *)
theory Export_Properties
  imports Convert_Properties Ini_Text
begin

text \<open>
  What the JSON and INI exporters promise: they print the document that the reader gives, strings keep
  their characters, and writing stops at the first refusal; and, for every hash function, two verified
  files that the JSON exporter does not survive.
\<close>

section \<open>Concrete services\<close>

text \<open>Services that behave as documented: an insertion sort, decimal numbers, no failures.\<close>

fun insert_by :: "('a \<Rightarrow> 'a \<Rightarrow> bool) \<Rightarrow> 'a \<Rightarrow> 'a list \<Rightarrow> 'a list" where
  "insert_by lt x [] = [x]"
| "insert_by lt x (y # ys) = (if lt x y then x # y # ys else y # insert_by lt x ys)"

fun decimal_text :: "nat \<Rightarrow> bytes" where
  "decimal_text n = (if n < 10 then [0x30 + of_nat n] else decimal_text (n div 10) @ [0x30 + of_nat (n mod 10)])"

declare decimal_text.simps [simp del]

definition plain_services :: services where
  "plain_services = \<lparr>sv_accepts = (\<lambda>_ _. True), sv_grants = (\<lambda>_ _. True), sv_hex = (\<lambda>v n. Some (if n = 2 then lower_hex2 (unat v) else lower_hex4 (unat v))),
     sv_int64 = (\<lambda>i. Some ((if i < 0 then [0x2D] else []) @ decimal_text (nat \<bar>i\<bar>))), sv_uint64 = (\<lambda>v. Some (decimal_text (unat v))),
     sv_double = (\<lambda>v. Some [0x30]), sv_memcmp = (\<lambda>x y. if x < y then -1 else if x = y then 0 else 1),
     sv_sort = (\<lambda>lt n. foldr (insert_by lt) [0..<n] [])\<rparr>"

lemma mset_insert_by: "mset (insert_by lt x xs) = add_mset x (mset xs)"
  by (induction xs) auto

lemma linear_onD:
  assumes "linear_on n lt" and "i < n" and "j < n"
  shows "i \<noteq> j \<Longrightarrow> \<not> lt i j \<Longrightarrow> lt j i"
    and "k < n \<Longrightarrow> lt i j \<Longrightarrow> lt j k \<Longrightarrow> lt i k"
  using assms unfolding linear_on_def by blast+

lemma sorted_insert_by:
  assumes "linear_on n lt"
  shows "sorted_wrt lt xs \<Longrightarrow> set xs \<subseteq> {..<n} \<Longrightarrow> x < n \<Longrightarrow> x \<notin> set xs \<Longrightarrow> sorted_wrt lt (insert_by lt x xs)"
proof (induction xs)
  case (Cons y ys)
  have inserted: "set (insert_by lt x ys) = insert x (set ys)" using mset_insert_by [of lt x ys] by (metis set_mset_add_mset_insert set_mset_mset)
  have y: "y < n" "x \<noteq> y" "\<And>z. z \<in> set ys \<Longrightarrow> z < n \<and> lt y z" using Cons.prems by auto
  show ?case
  proof (cases "lt x y")
    case True
    have "lt x z" if "z \<in> set ys" for z
      using linear_onD(2) [OF assms Cons.prems(3) y(1) _ True] y(3) [OF that] by blast
    then show ?thesis using True Cons.prems by simp
  next
    case False
    then have "lt y x" by (rule linear_onD(1) [OF assms Cons.prems(3) y(1,2)])
    then show ?thesis using False Cons inserted y(3) by simp
  qed
qed simp

lemma insertion_sorts:
  assumes "linear_on n lt"
  shows "mset (foldr (insert_by lt) xs []) = mset xs \<and> (set xs \<subseteq> {..<n} \<longrightarrow> distinct xs \<longrightarrow> sorted_wrt lt (foldr (insert_by lt) xs []))"
proof (induction xs)
  case (Cons x xs)
  then have "set (foldr (insert_by lt) xs []) = set xs" by (metis set_mset_mset)
  then show ?case using Cons sorted_insert_by [OF assms] by (auto simp: mset_insert_by)
qed simp

lemma obliging_plain: "obliging plain_services"
proof -
  have "mset (foldr (insert_by lt) [0..<n] []) = mset [0..<n] \<and> sorted_wrt lt (foldr (insert_by lt) [0..<n] [])" if "linear_on n lt" for n lt
    using insertion_sorts [OF that, of "[0..<n]"] by auto
  then show ?thesis unfolding obliging_def by (simp add: plain_services_def)
qed

section \<open>Exporting JSON\<close>

text \<open>C30. Exporting prints the document. When the reader gives a document (distinct keys in every block, strings
  in UTF-8, nesting that the stack has room for) and bc_core does what it documents, the JSON export with
  sorted keys succeeds and writes exactly the text of the document, blocks in the order of their keys,
  laid out as the options say.\<close>

theorem export_prints_the_document:
  assumes "obliging sv" and "sort_keys opts" and "wf_reader r" and "reads_roots hash r es"
    and "keys_distinct (Block es)" and "exportable (Block es)" and "fits_stack (Suc frames) (Block es)"
  shows "\<exists>s. export_json_ex sv r opts frames start_state = Inr (True, s) \<and> es_output s = file_text sv opts es"
  using prints_start [OF prints_export [OF assms]] by blast

lemma document_reads_roots:
  assumes "file_length (doc_roots hash es) < 2 ^ 32" and "\<forall>(k, v) \<in> set es. doc_fits (Some k) v" and "keys_distinct (Block es)"
  shows "reads_roots hash (document_reader hash (doc_roots hash es)) es"
  using document_reads(1) [OF assms] by (auto simp: reads_roots_def reader_root_count_def doc_roots_def)

text \<open>The text of the sample document.\<close>

lemma sample_text:
  "file_text plain_services None sample_doc =
     ascii (''{'' @ [CHR 0x0A] @ ''  '' @ [CHR 0x22] @ ''k'' @ [CHR 0x22] @ '': {'' @ [CHR 0x0A] @ ''    '' @ [CHR 0x22] @ ''a'' @ [CHR 0x22] @ '': [''
       @ [CHR 0x0A] @ ''      '' @ [CHR 0x22] @ ''a'' @ [CHR 0x22] @ '','' @ [CHR 0x0A] @ ''      42'' @ [CHR 0x0A] @ ''    ]'' @ [CHR 0x0A] @ ''  }'' @ [CHR 0x0A] @ ''}'' @ [CHR 0x0A])"
  by code_simp


lemma sample_doc_facts:
  "exportable (Block sample_doc)" "fits_stack 4 (Block sample_doc)"
proof -
  have "utf8_ok [0x6B]" "utf8_ok [0x61]" by code_simp+
  then show "exportable (Block sample_doc)" by (simp add: sample_doc_def)
  show "fits_stack 4 (Block sample_doc)" by (simp add: sample_doc_def eval_nat_numeral)
qed

theorem export_prints_the_document_witness:
  "\<exists>s. export_json_ex plain_services (document_reader (\<lambda>_. 7) (doc_roots (\<lambda>_. 7) sample_doc)) None 3 start_state = Inr (True, s) \<and>
     es_output s = ascii (''{'' @ [CHR 0x0A] @ ''  '' @ [CHR 0x22] @ ''k'' @ [CHR 0x22] @ '': {'' @ [CHR 0x0A] @ ''    '' @ [CHR 0x22] @ ''a'' @ [CHR 0x22] @ '': [''
       @ [CHR 0x0A] @ ''      '' @ [CHR 0x22] @ ''a'' @ [CHR 0x22] @ '','' @ [CHR 0x0A] @ ''      42'' @ [CHR 0x0A] @ ''    ]'' @ [CHR 0x0A] @ ''  }'' @ [CHR 0x0A] @ ''}'' @ [CHR 0x0A])"
proof -
  let ?ts = "doc_roots (\<lambda>_. 7) sample_doc" and ?r = "document_reader (\<lambda>_. 7) (doc_roots (\<lambda>_. 7) sample_doc)"
  have small: "file_length ?ts < 2 ^ 32" using sample_file_length by simp
  have roots: "reads_roots (\<lambda>_. 7) ?r sample_doc" by (rule document_reads_roots [OF small sample_fits sample_distinct])
  have "sort_keys None" by (simp add: sort_keys_def)
  from export_prints_the_document [OF obliging_plain this document_wf [OF small] roots sample_distinct sample_doc_facts(1), of 3]
  show ?thesis using sample_doc_facts(2) by (simp only: sample_text) simp
qed

text \<open>C31. Convert, then export: text that json-c reads as an object within the limits of the format and of the
  stack is converted to a file that the reader opens, and exporting that file prints the object, blocks
  in the order of their keys.\<close>

theorem converted_text_is_exported:
  assumes "obliging sv" and "sort_keys opts" and "generous pf" and "reads_object tokener txt ms"
    and "documented (Some (J_object ms))" and "\<forall>(k, v) \<in> set (json_members ms). doc_fits (Some k) v"
    and "keys_distinct (Block (json_members ms))" and "file_length (doc_roots hash (json_members ms)) < 2 ^ 32"
    and "exportable (Block (json_members ms))" and "fits_stack (Suc frames) (Block (json_members ms))"
  shows "\<exists>out r s. convert_json_buffer_to_hrbl tokener hash pf True True True (Some txt) sink = Inr (Some out, map_option (\<lambda>_. no_error) sink) \<and>
    reader_open_buffer pf out = Inr r \<and> export_json_ex sv r opts frames start_state = Inr (True, s) \<and>
    es_output s = file_text sv opts (json_members ms)"
proof -
  have "prints (export_json_ex sv (document_reader hash (doc_roots hash (json_members ms))) opts frames) (file_text sv opts (json_members ms))"
    by (rule prints_export [OF assms(1,2) document_wf [OF assms(8)] document_reads_roots [OF assms(8,6,7)] assms(7,9,10)])
  from prints_start [OF this] show ?thesis using converted_document(1) [OF assms(3-6,8), of sink] converted_document(2) [OF assms(3-6,8)] by (auto simp: start_state_def)
qed

theorem converted_text_is_exported_witness:
  "\<exists>out r s. convert_json_buffer_to_hrbl sample_tokener (\<lambda>_. 7) roomy True True True (Some [0x7B]) None = Inr (Some out, None) \<and>
     reader_open_buffer roomy out = Inr r \<and>
     export_json_ex plain_services r (Some \<lparr>op_indent_spaces = 0, op_sort_keys = True, op_ascii_only = True\<rparr>) 2 start_state = Inr (True, s) \<and>
     es_output s = ascii (''{'' @ [CHR 0x22] @ ''a'' @ [CHR 0x22] @ '':[true]}'')"
proof -
  let ?opts = "Some \<lparr>op_indent_spaces = 0, op_sort_keys = True, op_ascii_only = True\<rparr>" and ?es = "json_members sample_object"
  have "file_length (doc_roots (\<lambda>_. 7) ?es) = 217" unfolding sample_object_facts(2) by code_simp
  then have small: "file_length (doc_roots (\<lambda>_. 7) ?es) < 2 ^ 32" by simp
  have limits: "\<forall>(k, v) \<in> set ?es. doc_fits (Some k) v" "keys_distinct (Block ?es)"
    by (simp_all add: sample_object_facts(2) good_key_def doc_arg_def good_leaf_def)
  have "utf8_ok [0x61]" by code_simp
  then have shape: "exportable (Block ?es)" "fits_stack (Suc (Suc (Suc 0))) (Block ?es)" "sort_keys ?opts"
    unfolding sample_object_facts(2) by (simp_all add: sort_keys_def)
  have printed: "file_text plain_services ?opts ?es = ascii (''{'' @ [CHR 0x22] @ ''a'' @ [CHR 0x22] @ '':[true]}'')"
    unfolding sample_object_facts(2) by code_simp
  have "reads_object sample_tokener [0x7B] sample_object" by (simp add: reads_object_def sample_tokener_def)
  from converted_text_is_exported [OF obliging_plain shape(3) generous_roomy this sample_object_facts(1) limits small shape(1,2), of None]
  show ?thesis unfolding printed by (simp add: numeral_2_eq_2)
qed

section \<open>Strings in JSON\<close>

lemma hex4_ascii: "n < 0x10000 \<Longrightarrow> list_all (\<lambda>b. b < 0x80) (hex4 n)"
proof -
  have "\<forall>d \<in> set [0..<16]. upper_digit d < 0x80" by code_simp
  then have "upper_digit d < 0x80" if "d < 16" for d using that by auto
  then show "n < 0x10000 \<Longrightarrow> ?thesis" by (simp add: hex4_def div_less_iff_less_mult)
qed

lemma json_char_ascii:
  assumes "is_scalar cp"
  shows "list_all (\<lambda>b. b < 0x80) (json_char True cp)"
proof -
  have cp: "cp \<le> 0x10FFFF" using assms by (auto simp: is_scalar_def)
  then have "(cp - 0x10000) div 1024 < 0x400" by (simp add: div_less_iff_less_mult)
  then have "list_all (\<lambda>b. b < 0x80) (unicode_escape (0xD800 + (cp - 0x10000) div 1024) @ unicode_escape (0xDC00 + (cp - 0x10000) mod 1024))"
    by (auto simp: unicode_escape_def intro!: hex4_ascii)
  moreover have "list_all (\<lambda>b. b < 0x80) (unicode_escape cp)" if "cp < 0x10000" using hex4_ascii [OF that] by (simp add: unicode_escape_def)
  moreover have "(of_nat cp :: byte) < 0x80" if "cp < 0x80" using that by (simp add: word_less_nat_alt unat_of_nat)
  ultimately show ?thesis by (auto simp: json_char_def short_escape_def)
qed

text \<open>C32. A string keeps its characters: a string in UTF-8 is written as a JSON literal that decodes, after
  RFC 8259, to the code points of the string; with \<open>ascii_only\<close> the literal is ASCII.\<close>

theorem json_strings_decode:
  assumes "obliging sv" and "utf8_ok str"
  shows "\<exists>s t. write_json_string sv opts str start_state = Inr (True, s) \<and> es_output s = t \<and>
    json_unquote t = code_points str \<and> code_points str \<noteq> None \<and> (ascii_only opts \<longrightarrow> list_all (\<lambda>b. b < 0x80) t)"
proof -
  obtain cps where cps: "code_points str = Some cps" "\<forall>cp \<in> set cps. is_scalar cp" using code_points_utf8 [OF assms(2)] by blast
  have "list_all (\<lambda>b. b < 0x80) (json_quote True cps)"
    using cps(2) json_char_ascii by (auto simp: json_quote_def list_all_iff)
  then have "ascii_only opts \<longrightarrow> list_all (\<lambda>b. b < 0x80) (json_string opts str)" by (simp add: json_string_def cps(1))
  moreover have "json_unquote (json_string opts str) = Some cps" using json_unquote_quote [OF cps(2)] by (simp add: json_string_def cps(1))
  ultimately show ?thesis
    using prints_start [OF prints_string [OF assms, of opts]] cps(1) by auto
qed

theorem json_strings_decode_witness:
  "\<exists>s. write_json_string plain_services (Some \<lparr>op_indent_spaces = 0, op_sort_keys = True, op_ascii_only = True\<rparr>) [0x22, 0xC3, 0xA9] start_state =
       Inr (True, s) \<and> json_unquote (es_output s) = Some [0x22, 0xE9] \<and> list_all (\<lambda>b. b < 0x80) (es_output s)"
proof -
  have encoded: "concat (map utf8_encode [0x22, 0xE9]) = [0x22, 0xC3, 0xA9]" and scalars: "\<forall>cp \<in> set [0x22, 0xE9]. is_scalar cp"
    by (simp_all add: utf8_encode_def is_scalar_def)
  have "utf8_ok [0x22, 0xC3, 0xA9]" "code_points [0x22, 0xC3, 0xA9] = Some [0x22, 0xE9]"
    using code_points_encode [OF scalars] scalars unfolding encoded utf8_ok_iff well_formed_utf8_def using encoded by metis+
  from json_strings_decode [OF obliging_plain this(1), of "Some \<lparr>op_indent_spaces = 0, op_sort_keys = True, op_ascii_only = True\<rparr>"] this(2)
  show ?thesis by (auto simp: ascii_only_def)
qed

section \<open>Writing stops at the first refusal\<close>

lemma careful_write_all [careful]: "careful sv (write_all sv data)"
  unfolding careful_def
proof (intro allI impI)
  fix s ok s'
  assume s: "\<not> es_failed s" "write_all sv data s = Inr (ok, s')"
  have "(data = [] \<and> ok \<and> s' = s) \<or> (sv_accepts sv (es_writes s) data \<and> ok \<and> s' = s\<lparr>es_writes := es_writes s + 1, es_output := es_output s @ data\<rparr>)
      \<or> (\<not> sv_accepts sv (es_writes s) data \<and> \<not> ok \<and> s' = s\<lparr>es_writes := es_writes s + 1, es_failed := True\<rparr>)"
    using s by (simp add: write_all_def split: if_splits)
  then show "writes_until_refusal sv s ok s'"
  proof (elim disjE)
    assume "data = [] \<and> ok \<and> s' = s"
    then show ?thesis using s(1) by (simp add: writes_nothing)
  next
    assume "sv_accepts sv (es_writes s) data \<and> ok \<and> s' = s\<lparr>es_writes := es_writes s + 1, es_output := es_output s @ data\<rparr>"
    then show ?thesis using s(1) unfolding writes_until_refusal_def by (intro exI [of _ "[data]"]) simp
  next
    assume "\<not> sv_accepts sv (es_writes s) data \<and> \<not> ok \<and> s' = s\<lparr>es_writes := es_writes s + 1, es_failed := True\<rparr>"
    then show ?thesis unfolding writes_until_refusal_def by (intro exI [of _ "[]"]) auto
  qed
qed

lemma careful_spaces [careful]: "careful sv (write_spaces sv n)"
proof (induction n rule: less_induct)
  case (less n)
  show ?case unfolding write_spaces.simps [of sv n] by (cases "n = 0") (simp_all add: careful less)
qed

lemma careful_layout [careful]:
  "careful sv (write_literal sv l)" "careful sv (write_indent sv opts depth)" "careful sv (write_newline sv opts)"
  "careful sv (hex_escape sv cp)" "careful sv (escape_codepoint sv cp)" "careful sv (write_separator sv opts i)"
  by (auto simp: write_literal_def write_indent_def write_newline_def hex_escape_def escape_codepoint_def write_separator_def Let_def intro!: careful)

lemma careful_json_chars [careful]: "careful sv (write_json_chars sv plain_ascii bs)"
  by (induction sv plain_ascii bs rule: write_json_chars.induct) (auto intro!: careful split: option.splits)

lemma careful_scalars [careful]:
  "careful sv (write_json_string sv opts data)" "careful sv (write_number_int64 sv i)" "careful sv (write_number_uint64 sv v)"
  "careful sv (write_number_float64 sv v)"
  by (auto simp: write_json_string_def write_number_int64_def write_number_uint64_def write_formatted_def write_number_float64_def intro!: careful)

lemma careful_entries [careful]:
  assumes "\<And>off d. careful sv (f off d)" and "careful sv refused"
  shows "careful sv (write_entries sv r opts f refused off n depth)"
  unfolding write_entries_def write_entry_def by (intro careful assms)

lemma careful_element [careful]: "(\<And>off d. careful sv (f off d)) \<Longrightarrow> careful sv (write_element sv r opts f off depth i)"
  unfolding write_element_def by (intro careful)

lemma careful_value [careful]: "careful sv (export_value sv r opts frames off depth)"
proof (induction frames arbitrary: off depth)
  case (Suc frames)
  show ?case unfolding export_value.simps export_block_def export_array_def
    by (rule careful_with_read) (simp split: kind.split; intro conjI impI careful Suc)
qed (simp add: careful_trap)

lemma careful_export: "careful sv (export_json_ex sv r opts frames)"
  unfolding export_json_ex_def Let_def by (intro careful)

lemma careful_case_kind [careful]:
  "careful sv a1 \<Longrightarrow> careful sv a2 \<Longrightarrow> careful sv a3 \<Longrightarrow> careful sv a4 \<Longrightarrow> careful sv a5 \<Longrightarrow> careful sv a6 \<Longrightarrow> careful sv a7 \<Longrightarrow>
    careful sv a8 \<Longrightarrow> careful sv a9 \<Longrightarrow>
    careful sv (case k of K_NULL \<Rightarrow> a1 | K_FALSE \<Rightarrow> a2 | K_TRUE \<Rightarrow> a3 | K_INT64 \<Rightarrow> a4 | K_UINT64 \<Rightarrow> a5 | K_FLOAT64 \<Rightarrow> a6 | K_STRING \<Rightarrow> a7
      | K_BLOCK \<Rightarrow> a8 | K_ARRAY \<Rightarrow> a9)"
  by (cases k) simp_all

lemma careful_ini_writes [careful]:
  "careful sv (ini_write sv t)" "careful sv (ini_write_literal sv l)" "careful sv (ini_write_byte sv c)"
  unfolding ini_write_eq ini_write_literal_def ini_write_byte_def by (intro careful)+

lemma careful_ini_scalars [careful]:
  "careful sv (ini_write_escaped sv t)" "careful sv (ini_write_scalar_value sv r off)"
  unfolding ini_write_escaped_def ini_write_scalar_value_def ini_write_formatted_def ini_write_float64_def by (intro careful)+

lemma careful_ini_entries [careful]: "(\<And>es. careful sv (emit es)) \<Longrightarrow> careful sv refused \<Longrightarrow> careful sv (ini_entries sv r opts refused off n emit)"
  unfolding ini_entries_def by (intro careful)

lemma careful_ini_entry [careful]: "(\<And>name off. careful sv (f name off)) \<Longrightarrow> careful sv (ini_emit_entry sv r f outer e)"
  unfolding ini_emit_entry_def ini_emit_element_def ini_key_def by (intro careful)

lemma careful_ini_loop [careful]: "(\<And>e. careful sv (emit e)) \<Longrightarrow> careful sv (ini_emit_entries sv r n emit blocks es)"
  by (induction es arbitrary: blocks) (auto simp: ini_emit_blocks_def intro!: careful)

lemma careful_ini_block [careful]: "careful sv (ini_emit_block sv r opts frames is_root name off)"
proof (induction frames arbitrary: is_root name off)
  case (Suc frames)
  show ?case unfolding ini_emit_block.simps ini_write_section_def Let_def by (intro careful Suc)
qed (simp add: careful_trap)

text \<open>The loops of the root go on after an action that fails without recording it.\<close>

lemma writes_recorded:
  assumes "writes_until_refusal sv s ok s'"
  shows "writes_until_refusal sv s (\<not> es_failed s') s'"
  using assms unfolding writes_until_refusal_def by (elim exE conjE, intro exI conjI) (auto split: if_splits)

lemma root_blocks_failed: "es_failed s \<Longrightarrow> ini_root_blocks emit blocks s = Inr (False, s)"
  by (cases blocks) simp_all

lemma careful_root_blocks:
  assumes emit: "\<And>e. careful sv (emit e)"
  shows "careful sv (ini_root_blocks emit blocks)"
proof (induction blocks)
  case Nil
  then show ?case using careful_finish by simp
next
  case (Cons e es)
  show ?case unfolding careful_def
  proof (intro allI impI)
    fix s ok s'
    assume s: "\<not> es_failed s" "ini_root_blocks emit (e # es) s = Inr (ok, s')"
    then obtain ok1 s1 where one: "emit e s = Inr (ok1, s1)" by (auto simp: bindE_eq_Inr)
    then have first: "writes_until_refusal sv s ok1 s1" using emit s(1) unfolding careful_def by blast
    show "writes_until_refusal sv s ok s'"
    proof (cases ok1)
      case True
      then have "\<not> es_failed s1" using first by (auto simp: writes_until_refusal_def split: if_splits)
      then have "writes_until_refusal sv s1 ok s'" using Cons.IH s one True by (auto simp: careful_def)
      then show ?thesis using first True writes_then by simp
    next
      case False
      then have "ok = (\<not> es_failed s1)" "s' = s1" using s one by auto
      then show ?thesis using writes_recorded [OF first] by simp
    qed
  qed
qed

lemma careful_root_entries:
  assumes emit: "\<And>e. careful sv (emit e)"
  shows "careful sv (ini_root_entries sv r n emit blocks es)"
proof (induction es arbitrary: blocks)
  case Nil
  have "ini_root_entries sv r n emit blocks [] = ini_root_blocks emit blocks" by (simp add: fun_eq_iff)
  then show ?case using careful_root_blocks [OF emit] by simp
next
  case (Cons e es)
  note blocks = careful_root_blocks [OF emit]
  have fails: "careful sv (\<lambda>s. ini_root_blocks emit blocks (s\<lparr>es_failed := True\<rparr>))"
    by (auto simp: careful_def root_blocks_failed intro!: writes_nothing)
  have other: "careful sv (\<lambda>s. bindE (emit e s) (\<lambda>(ok, s). if ok then ini_root_entries sv r n emit blocks es s else ini_root_blocks emit blocks s))"
    unfolding careful_def
  proof (intro allI impI)
    fix s ok s'
    assume s: "\<not> es_failed s" "bindE (emit e s) (\<lambda>(ok, s). if ok then ini_root_entries sv r n emit blocks es s else ini_root_blocks emit blocks s) = Inr (ok, s')"
    then obtain ok1 s1 where one: "emit e s = Inr (ok1, s1)" by (auto simp: bindE_eq_Inr)
    then have first: "writes_until_refusal sv s ok1 s1" using emit s(1) unfolding careful_def by blast
    show "writes_until_refusal sv s ok s'"
    proof (cases "es_failed s1")
      case True
      then have "\<not> ok1" using first by (auto simp: writes_until_refusal_def split: if_splits)
      then have "ok = (\<not> es_failed s1)" "s' = s1" using s one True root_blocks_failed by auto
      then show ?thesis using writes_recorded [OF first] by simp
    next
      case False
      then have "writes_until_refusal sv s1 ok s'"
        using s one Cons.IH [of blocks] blocks by (cases ok1) (auto simp: careful_def)
      then show ?thesis using writes_recorded [OF first] False writes_then by simp
    qed
  qed
  have "ini_root_entries sv r n emit blocks (e # es) = (\<lambda>s. if es_failed s then ini_root_blocks emit blocks s
     else case reader_kind_at r (se_value_offset e) of
        Inl Bad_read \<Rightarrow> Inl Bad_memory
      | Inl Rejected \<Rightarrow> ini_root_blocks emit blocks (s\<lparr>es_failed := True\<rparr>)
      | Inr kind \<Rightarrow>
          if kind = K_BLOCK then
            (if blocks = [] then
               scratch_alloc sv n (\<lambda>s. ini_root_blocks emit blocks (s\<lparr>es_failed := True\<rparr>)) (ini_root_entries sv r n emit [e] es) s
             else ini_root_entries sv r n emit (blocks @ [e]) es s)
          else bindE (emit e s) (\<lambda>(ok, s). if ok then ini_root_entries sv r n emit blocks es s else ini_root_blocks emit blocks s))"
    by (rule ext) (rule ini_root_entries.simps)
  moreover have "careful sv (scratch_alloc sv n (\<lambda>s. ini_root_blocks emit blocks (s\<lparr>es_failed := True\<rparr>)) (ini_root_entries sv r n emit [e] es))"
    by (intro careful_scratch fails Cons.IH)
  ultimately show ?case using other fails Cons.IH [of "blocks @ [e]"]
    by (auto simp: careful_def split: sum.splits stop.splits if_splits)
qed

lemma careful_ini_export: "careful sv (export_ini_ex sv r opts frames)"
  unfolding export_ini_ex_def Let_def by (intro careful careful_root_entries)

lemma start_fields: "\<not> es_failed start_state" "es_output start_state = []" "es_writes start_state = 0"
  by (simp_all add: start_state_def)

text \<open>C33. Export stops at the first refused write. Whatever the writer, the allocator and the formatters do
  and whatever the file holds: when the JSON or the INI export returns, its output is the concatenation of the
  writes that were accepted; if it returns true, every write was accepted, and a refused write was the
  last one, after which the export returns false.\<close>

theorem export_stops_at_a_refused_write:
  assumes "export_json_ex sv r opts frames start_state = Inr (ok, s) \<or> export_ini_ex sv r opts frames start_state = Inr (ok, s)"
  shows "\<exists>ts. (\<forall>i < length ts. sv_accepts sv i (ts ! i)) \<and> es_output s = concat ts \<and>
    (if es_writes s = length ts then ok \<longrightarrow> \<not> es_failed s
     else es_writes s = Suc (length ts) \<and> (\<exists>t. \<not> sv_accepts sv (length ts) t) \<and> \<not> ok \<and> es_failed s)"
proof -
  have "writes_until_refusal sv start_state ok s"
    using assms careful_export [of sv r opts frames] careful_ini_export [of sv r opts frames] start_fields(1) unfolding careful_def by blast
  then show ?thesis by (simp only: writes_until_refusal_def start_fields append_Nil add_0 simp_thms)
qed

text \<open>A writer that takes two writes; the third is refused.\<close>

theorem export_stops_at_a_refused_write_witness:
  "\<exists>s. export_json_ex (plain_services\<lparr>sv_accepts := \<lambda>k _. k < 2\<rparr>) sample_reader None 3 start_state = Inr (False, s) \<and>
     es_writes s = 3 \<and> es_output s = ascii (''{'' @ [CHR 0x0A])"
proof -
  have run: "export_json_ex (plain_services\<lparr>sv_accepts := \<lambda>k _. k < 2\<rparr>) sample_reader None 3 start_state =
      Inr (False, \<lparr>es_output = [0x7B, 0x0A], es_writes = 3, es_requests = 1, es_failed = True, es_events = []\<rparr>)"
    by code_simp
  from export_stops_at_a_refused_write [OF disjI1 [OF run]] show ?thesis using run by (simp add: ascii_def)
qed

section \<open>Exporting INI\<close>

text \<open>C36. The INI export prints the document. When the reader gives a document (distinct keys in every block, arrays
  of scalars only, nesting that the stack has room for) and bc_core does what it documents, the INI export with sorted
  keys succeeds and writes exactly the INI text of the document: in every block first a line for each scalar
  and each array element, then a section for each block, named by the keys from the root.\<close>

theorem ini_export_prints_the_document:
  assumes "obliging sv" and "sort_keys opts" and "wf_reader r" and "reads_roots hash r es"
    and "keys_distinct (Block es)" and "ini_exportable (Block es)" and "fits_stack (Suc frames) (Block es)"
  shows "\<exists>s. export_ini_ex sv r opts frames start_state = Inr (True, s) \<and> es_output s = ini_file_text sv es"
  using prints_start [OF prints_ini_export [OF assms]] by blast

text \<open>Nested blocks, so a section name with a dot, and a string of one quote.\<close>

definition nested_doc :: "(bytes \<times> doc) list" where
  "nested_doc = [([0x6B], Block [([0x61], Block [([0x62], Leaf (L_string [0x22]))]), ([0x63], Leaf (L_bool True))])]"

lemma nested_facts:
  "\<forall>(k, v) \<in> set nested_doc. doc_fits (Some k) v" "keys_distinct (Block nested_doc)" "ini_exportable (Block nested_doc)"
  "fits_stack (Suc (Suc (Suc (Suc 0)))) (Block nested_doc)"
  by (simp_all add: nested_doc_def good_key_def doc_arg_def good_leaf_def)

lemma nested_ini:
  "ini_file_text plain_services nested_doc =
     ascii (''[k]'' @ [CHR 0x0A] @ ''c = true'' @ [CHR 0x0A, CHR 0x0A] @ ''[k.a]'' @ [CHR 0x0A] @ ''b = '' @ [CHR 0x22, CHR 0x5C, CHR 0x22, CHR 0x22, CHR 0x0A])"
  by code_simp

theorem ini_export_prints_the_document_witness:
  "\<exists>s. export_ini_ex plain_services (document_reader (\<lambda>_. 7) (doc_roots (\<lambda>_. 7) nested_doc)) None 3 start_state = Inr (True, s) \<and>
     es_output s =
       ascii (''[k]'' @ [CHR 0x0A] @ ''c = true'' @ [CHR 0x0A, CHR 0x0A] @ ''[k.a]'' @ [CHR 0x0A] @ ''b = '' @ [CHR 0x22, CHR 0x5C, CHR 0x22, CHR 0x22, CHR 0x0A])"
proof -
  let ?ts = "doc_roots (\<lambda>_. 7) nested_doc" and ?r = "document_reader (\<lambda>_. 7) (doc_roots (\<lambda>_. 7) nested_doc)"
  have "file_length ?ts = 341" by code_simp
  then have small: "file_length ?ts < 2 ^ 32" by simp
  have roots: "reads_roots (\<lambda>_. 7) ?r nested_doc" by (rule document_reads_roots [OF small nested_facts(1,2)])
  have "sort_keys None" by (simp add: sort_keys_def)
  from ini_export_prints_the_document [OF obliging_plain this document_wf [OF small] roots nested_facts(2,3), of "Suc (Suc (Suc 0))"]
  show ?thesis using nested_facts(4) by (simp only: nested_ini numeral_3_eq_3)
qed

text \<open>C37. A string keeps its bytes in INI text: any string is written as a quoted string from which the escapes
  recover it.\<close>

theorem ini_strings_decode:
  assumes "obliging sv"
  shows "\<exists>s. ini_write_escaped sv str start_state = Inr (True, s) \<and> ini_unquote (es_output s) = Some str"
  using prints_start [OF prints_ini_escaped [OF assms, of str]] ini_unquote_string [of str] by auto

theorem ini_strings_decode_witness:
  "\<exists>s. ini_write_escaped plain_services [0x22, 0x41, 0x01, 0x0A, 0xC3] start_state = Inr (True, s) \<and>
     ini_unquote (es_output s) = Some [0x22, 0x41, 0x01, 0x0A, 0xC3]"
  using ini_strings_decode [OF obliging_plain, of "[0x22, 0x41, 0x01, 0x0A, 0xC3]"] .

text \<open>
  A double that cannot be formatted ends the INI text early, and the export returns true: the file has
  the roots \<open>a\<close>, the double 1.0, and \<open>b\<close>, null.
\<close>

definition float_doc :: "(bytes \<times> doc) list" where
  "float_doc = [([0x61], Leaf (L_float64 0x3FF0000000000000)), ([0x62], Leaf L_null)]"

lemma ini_float_failure_returns_true:
  "\<exists>s. export_ini_ex (plain_services\<lparr>sv_double := \<lambda>_. None\<rparr>) (document_reader (\<lambda>_. 7) (doc_roots (\<lambda>_. 7) float_doc)) None 3 start_state = Inr (True, s) \<and>
     es_output s = ascii ''a = ''"
proof -
  have "export_ini_ex (plain_services\<lparr>sv_double := \<lambda>_. None\<rparr>) (document_reader (\<lambda>_. 7) (doc_roots (\<lambda>_. 7) float_doc)) None 3 start_state =
      Inr (True, \<lparr>es_output = ascii ''a = '', es_writes = 2, es_requests = 1, es_failed = False, es_events = []\<rparr>)"
    by code_simp
  then show ?thesis by simp
qed

section \<open>Verified files the exporter does not survive\<close>

lemma traps_entries:
  assumes sv: "obliging sv" and load: "load_sort_entries (rd_base r) off (unat n) = Inr [e]"
    and entry: "traps (write_entry sv r opts f depth (0, e)) t"
  shows "traps (write_entries sv r opts f refused off n depth) t"
  unfolding write_entries_def
  by (intro traps_scratch [OF sv] traps_with_memory [OF load] traps_with_memory [OF sort_one [OF sv]])
    (simp add: enumerate_eq_zip traps_here [OF entry])

lemma traps_export:
  assumes sv: "obliging sv" and root: "hdr_root_count (rd_header r) \<noteq> 0"
    and load: "load_sort_entries (rd_base r) (hdr_root_index_offset (rd_header r)) (unat (hdr_root_count (rd_header r))) = Inr [e]"
    and key: "key_view r e (unat (se_key_length e)) = Inr k" "utf8_ok k"
    and val: "traps (export_value sv r opts frames (se_value_offset e) 1) t"
  shows "traps (export_json_ex sv r opts frames) t"
proof -
  note rules = prints_write_literal [OF sv] prints_newline [OF sv] prints_separator [OF sv] prints_indent [OF sv] prints_write_all [OF sv]
  have "traps (write_entry sv r opts (export_value sv r opts frames) 0 (0, e)) t"
    unfolding write_entry_def prod.case
    by (intro traps_later [OF prints_separator [OF sv]] traps_later [OF prints_indent [OF sv]]
        traps_later [OF prints_with_memory [where f = "write_json_string sv opts", OF key(1) prints_string [OF sv key(2)]]]
        traps_later [OF prints_write_all [OF sv]] traps_here) (use val in simp)
  from traps_entries [OF sv load this] have "traps (steps (write_entries sv r opts (export_value sv r opts frames) return_false
      (hdr_root_index_offset (rd_header r)) (hdr_root_count (rd_header r)) 0 # as)) t" for as by (rule traps_here)
  then show ?thesis using root unfolding export_json_ex_def Let_def
    by (simp add: traps_later [OF prints_write_literal [OF sv]] traps_later [OF prints_newline [OF sv]])
qed

text \<open>
  Files with one root, whose key is the letter k, and any nodes; the root is the value at 159, the eighth byte
  of the nodes. For every hash function they carry its checksum and its hash of the key.
\<close>

definition crafted_header :: "u64 \<Rightarrow> u64 \<Rightarrow> header" where
  "crafted_header checksum n = \<lparr>hdr_magic = BC_HRBL_MAGIC, hdr_version_major = 1, hdr_version_minor = 0, hdr_file_size = 192 + n,
     hdr_flags = BC_HRBL_FLAGS_V1_REQUIRED, hdr_root_count = 1, hdr_root_index_offset = 128,
     hdr_root_index_size = 24, hdr_nodes_offset = 152, hdr_nodes_size = n, hdr_strings_offset = 152 + n,
     hdr_strings_size = 8, hdr_strings_count = 1, hdr_footer_offset = 160 + n, hdr_checksum = checksum, hdr_reserved = zeros 24\<rparr>"

definition crafted_payload :: "u64 \<Rightarrow> bytes \<Rightarrow> bytes" where
  "crafted_payload key_hash nodes =
     store_entry \<lparr>ent_key_hash64 = key_hash, ent_key_pool_offset = of_nat (152 + length nodes), ent_key_length = 1, ent_value_offset = 159\<rparr> @
     nodes @ pool_record [0x6B]"

definition crafted_footer :: "u64 \<Rightarrow> nat \<Rightarrow> footer" where
  "crafted_footer checksum n = \<lparr>ftr_checksum = checksum, ftr_file_size = of_nat (192 + n), ftr_magic_end = BC_HRBL_MAGIC, ftr_reserved = zeros 12\<rparr>"

definition crafted_bytes :: "u64 \<Rightarrow> u64 \<Rightarrow> bytes \<Rightarrow> bytes" where
  "crafted_bytes checksum key_hash nodes = store_header (crafted_header checksum (of_nat (length nodes))) @
     crafted_payload key_hash nodes @ store_footer (crafted_footer checksum (length nodes))"

definition crafted_file :: "(bytes \<Rightarrow> u64) \<Rightarrow> bytes \<Rightarrow> bytes" where
  "crafted_file hash nodes = crafted_bytes (hash (crafted_payload (hash [0x6B]) nodes)) (hash [0x6B]) nodes"

text \<open>An array whose element is the array, and a block whose entry has its key at an offset outside the file.\<close>

definition cyclic_nodes :: bytes where
  "cyclic_nodes = zeros 7 @ [kind_code K_ARRAY] @ store_array_header \<lparr>ah_element_count = 1, ah_body_size_bytes = 8\<rparr> @ store_u64 159"

definition escaping_nodes :: bytes where
  "escaping_nodes = zeros 7 @ [kind_code K_BLOCK] @ store_block_header \<lparr>bh_child_count = 1, bh_entries_size_bytes = 24\<rparr> @
     store_entry \<lparr>ent_key_hash64 = 7, ent_key_pool_offset = 0xFFFFFFF0, ent_key_length = 1, ent_value_offset = 159\<rparr>"

definition cyclic_file :: "(bytes \<Rightarrow> u64) \<Rightarrow> bytes" where
  "cyclic_file hash = crafted_file hash cyclic_nodes"

definition escaping_file :: "(bytes \<Rightarrow> u64) \<Rightarrow> bytes" where
  "escaping_file hash = crafted_file hash escaping_nodes"

lemma crafted_codecs:
  "load_header (store_header (crafted_header c n)) = crafted_header c n" "length (store_header (crafted_header c n)) = 128"
  "load_footer (store_footer (crafted_footer c m)) = crafted_footer c m" "length (store_footer (crafted_footer c m)) = 32"
proof -
  have "valid_header (crafted_header c n)" by (simp add: valid_header_def crafted_header_def)
  then show "load_header (store_header (crafted_header c n)) = crafted_header c n" "length (store_header (crafted_header c n)) = 128"
    by (rule header_codec.dec_enc, rule header_codec.length_enc)
  have "valid_footer (crafted_footer c m)" by (simp add: valid_footer_def crafted_footer_def)
  then show "load_footer (store_footer (crafted_footer c m)) = crafted_footer c m" "length (store_footer (crafted_footer c m)) = 32"
    by (rule footer_codec.dec_enc, rule footer_codec.length_enc)
qed

lemma crafted_fields:
  "hdr_footer_offset (crafted_header c n) = 160 + n" "hdr_file_size (crafted_header c n) = 192 + n" "hdr_checksum (crafted_header c n) = c"
  "ftr_magic_end (crafted_footer c m) = BC_HRBL_MAGIC" "ftr_file_size (crafted_footer c m) = 192 + of_nat m" "ftr_checksum (crafted_footer c m) = c"
  by (simp_all add: crafted_header_def crafted_footer_def)

lemma length_crafted: "length (crafted_payload h nodes) = 32 + length nodes" "length (crafted_bytes c h nodes) = 192 + length nodes"
proof -
  have "length (pool_record [0x6B]) = 8" by code_simp
  then show "length (crafted_payload h nodes) = 32 + length nodes" by (simp add: crafted_payload_def)
  then show "length (crafted_bytes c h nodes) = 192 + length nodes" by (simp add: crafted_bytes_def crafted_codecs)
qed

text \<open>A crafted file is verified when its layout, its root index and its strings are; checksum and footer fit any nodes.\<close>

lemma crafted_file_verified:
  assumes n: "length nodes < 1000"
    and layout: "\<And>c. verify_header_layout (crafted_header c (of_nat (length nodes))) (of_nat (192 + length nodes)) = V_OK"
    and strings: "\<And>c h. verify_strings_pool (crafted_bytes c h nodes) (crafted_header c (of_nat (length nodes))) = Inr V_OK"
    and roots: "\<And>c h. verify_root_index (crafted_bytes c h nodes) (crafted_header c (of_nat (length nodes))) = Inr V_OK"
  shows "verify_buffer hash (crafted_file hash nodes) = Inr V_OK"
    and "reader_open_buffer roomy (crafted_file hash nodes) = Inr (opened (crafted_file hash nodes))"
    and "load_header (take 128 (crafted_file hash nodes)) = crafted_header (hash (crafted_payload (hash [0x6B]) nodes)) (of_nat (length nodes))"
proof -
  let ?h = "hash [0x6B]"
  let ?c = "hash (crafted_payload ?h nodes)" and ?n = "of_nat (length nodes) :: u64"
  let ?f = "crafted_bytes ?c ?h nodes"
  have header: "load_header (take 128 ?f) = crafted_header ?c ?n" by (simp add: crafted_bytes_def crafted_codecs)
  have offset: "unat (160 + ?n) = 160 + length nodes" "unat (32 + ?n) = 32 + length nodes" using n by (simp_all add: unat_word_ariths)
  have "fetch ?f (160 + ?n) 32 = Inr (store_footer (crafted_footer ?c (length nodes)))"
    using length_crafted(1) [of ?h nodes] by (simp add: fetch_def read_at_def offset crafted_bytes_def crafted_codecs)
  then have footer: "verify_footer ?f (crafted_header ?c ?n) = Inr V_OK"
    by (simp add: verify_footer_def crafted_codecs crafted_fields Let_def)
  have "fetch ?f 128 (32 + length nodes) = Inr (crafted_payload ?h nodes)"
    using length_crafted(1) [of ?h nodes] by (simp add: fetch_def read_at_def crafted_bytes_def crafted_codecs)
  then have checksum: "verify_checksum hash ?f (crafted_header ?c ?n) = Inr V_OK"
    by (simp add: verify_checksum_def crafted_header_def offset)
  have size: "\<not> (of_nat (length ?f) :: u64) < of_nat (HEADER_SIZE + FOOTER_SIZE)" "fetch ?f 0 HEADER_SIZE = Inr (take 128 ?f)"
    using n by (simp_all add: length_crafted word_less_nat_alt unat_word_ariths fetch_def read_at_def)
  show ok: "verify_buffer hash (crafted_file hash nodes) = Inr V_OK"
    unfolding crafted_file_def verify_buffer_def Let_def using size layout [of ?c] strings roots footer checksum
    by (simp add: header length_crafted)
  show loaded: "load_header (take 128 (crafted_file hash nodes)) = crafted_header ?c ?n" by (simp add: crafted_file_def header)
  have "regions_do_not_wrap (crafted_header ?c ?n)"
    using n by (simp add: regions_do_not_wrap_def crafted_header_def unat_word_ariths)
  moreover have "length (crafted_file hash nodes) < 2 ^ 63" using n by (simp add: crafted_file_def length_crafted)
  ultimately show "reader_open_buffer roomy (crafted_file hash nodes) = Inr (opened (crafted_file hash nodes))"
    by (intro verified_opens [OF _ _ ok]) (simp_all add: loaded)
qed

lemma crafted_lengths [simp]: "length cyclic_nodes = 24" "length escaping_nodes = 40"
  by code_simp+

lemma cyclic_parts:
  "verify_header_layout (crafted_header c 24) 216 = V_OK" "verify_root_index (crafted_bytes c h cyclic_nodes) (crafted_header c 24) = Inr V_OK"
  "verify_strings_pool (crafted_bytes c h cyclic_nodes) (crafted_header c 24) = Inr V_OK"
  by code_simp+

lemma escaping_parts:
  "verify_header_layout (crafted_header c 40) 232 = V_OK" "verify_root_index (crafted_bytes c h escaping_nodes) (crafted_header c 40) = Inr V_OK"
  "verify_strings_pool (crafted_bytes c h escaping_nodes) (crafted_header c 40) = Inr V_OK"
  by code_simp+

lemma cyclic_verified:
  "verify_buffer hash (cyclic_file hash) = Inr V_OK" "reader_open_buffer roomy (cyclic_file hash) = Inr (opened (cyclic_file hash))"
  "\<exists>c. load_header (take 128 (cyclic_file hash)) = crafted_header c 24"
  using crafted_file_verified [of cyclic_nodes hash] by (auto simp: cyclic_parts cyclic_file_def)

lemma escaping_verified:
  "verify_buffer hash (escaping_file hash) = Inr V_OK" "reader_open_buffer roomy (escaping_file hash) = Inr (opened (escaping_file hash))"
  "\<exists>c. load_header (take 128 (escaping_file hash)) = crafted_header c 40"
  using crafted_file_verified [of escaping_nodes hash] by (auto simp: escaping_parts escaping_file_def)

text \<open>What the exporter reads of them.\<close>

definition crafted_root :: "u64 \<Rightarrow> sort_entry" where
  "crafted_root pos = \<lparr>se_entry_offset = 128, se_key_pool_offset = pos, se_key_length = 1, se_value_offset = 159\<rparr>"

lemma cyclic_bytes:
  "load_sort_entries (crafted_bytes c h cyclic_nodes) 128 (Suc 0) = Inr [crafted_root 176]"
  "fetch (crafted_bytes c h cyclic_nodes) 180 (Suc 0) = Inr [0x6B]"
  "reader_kind_at (opened (crafted_bytes c h cyclic_nodes)) 159 = Inr K_ARRAY"
  "reader_array_body_offsets (opened (crafted_bytes c h cyclic_nodes)) 159 = Inr (\<lparr>ah_element_count = 1, ah_body_size_bytes = 8\<rparr>, 168)"
  "fetch (crafted_bytes c h cyclic_nodes) 168 8 = Inr (store_u64 159)"
  by code_simp+

lemmas cyclic_reads = cyclic_bytes [of "hash (crafted_payload (hash [0x6B]) cyclic_nodes)" "hash [0x6B]", folded crafted_file_def, folded cyclic_file_def] for hash

lemma escaping_bytes:
  "load_sort_entries (crafted_bytes c h escaping_nodes) 128 (Suc 0) = Inr [crafted_root 192]"
  "fetch (crafted_bytes c h escaping_nodes) 196 (Suc 0) = Inr [0x6B]"
  "reader_kind_at (opened (crafted_bytes c h escaping_nodes)) 159 = Inr K_BLOCK"
  "reader_block_body_offsets (opened (crafted_bytes c h escaping_nodes)) 159 = Inr (\<lparr>bh_child_count = 1, bh_entries_size_bytes = 24\<rparr>, 168)"
  "load_sort_entries (crafted_bytes c h escaping_nodes) 168 (Suc 0) =
     Inr [\<lparr>se_entry_offset = 168, se_key_pool_offset = 0xFFFFFFF0, se_key_length = 1, se_value_offset = 159\<rparr>]"
  by code_simp+

lemmas escaping_reads = escaping_bytes [of "hash (crafted_payload (hash [0x6B]) escaping_nodes)" "hash [0x6B]", folded crafted_file_def, folded escaping_file_def] for hash

lemma crafted_key: "utf8_ok [0x6B]"
  by code_simp

lemma cyclic_export:
  assumes "obliging sv" and "traps (export_value sv (opened (cyclic_file hash)) opts frames 159 1) t"
  shows "traps (export_json_ex sv (opened (cyclic_file hash)) opts frames) t"
proof -
  obtain c where header: "load_header (take 128 (cyclic_file hash)) = crafted_header c 24" using cyclic_verified(3) by blast
  show ?thesis
    by (rule traps_export [where e = "crafted_root 176" and k = "[0x6B]"])
      (use assms crafted_key in \<open>simp_all add: header crafted_header_def cyclic_reads [unfolded crafted_root_def] key_view_def view_def crafted_root_def del: load_sort_entries.simps\<close>)
qed

lemma escaping_export:
  assumes "obliging sv" and "traps (export_value sv (opened (escaping_file hash)) opts frames 159 1) t"
  shows "traps (export_json_ex sv (opened (escaping_file hash)) opts frames) t"
proof -
  obtain c where header: "load_header (take 128 (escaping_file hash)) = crafted_header c 40" using escaping_verified(3) by blast
  show ?thesis
    by (rule traps_export [where e = "crafted_root 192" and k = "[0x6B]"])
      (use assms crafted_key in \<open>simp_all add: header crafted_header_def escaping_reads [unfolded crafted_root_def] key_view_def view_def crafted_root_def del: load_sort_entries.simps\<close>)
qed

lemma cyclic_value: "obliging sv \<Longrightarrow> traps (export_value sv (opened (cyclic_file hash)) opts frames 159 depth) Stack_overflow"
proof (induction frames arbitrary: depth)
  case 0
  then show ?case by (simp add: traps_def)
next
  case (Suc frames)
  note sv = Suc.prems
  let ?r = "opened (cyclic_file hash)"
  have "traps (write_element sv ?r opts (export_value sv ?r opts frames) 168 depth 0) Stack_overflow"
    unfolding write_element_def
    by (intro traps_later [OF prints_separator [OF sv]] traps_later [OF prints_indent [OF sv]] traps_here traps_with_memory [where x = "store_u64 159"])
      (simp_all add: cyclic_reads u64_codec.dec_enc Suc)
  then have "traps (export_array sv ?r opts (export_value sv ?r opts frames) 159 depth) Stack_overflow"
    unfolding export_array_def
    by (intro traps_with_read [OF cyclic_reads(4)])
      (simp add: traps_later [OF prints_write_literal [OF sv]] traps_later [OF prints_newline [OF sv]] traps_here)
  then show ?case by (simp add: traps_with_read [OF cyclic_reads(3)])
qed

lemma escaping_value: "obliging sv \<Longrightarrow> traps (export_value sv (opened (escaping_file hash)) opts (Suc frames) 159 depth) Bad_memory"
proof -
  assume sv: "obliging sv"
  let ?r = "opened (escaping_file hash)"
  let ?e = "\<lparr>se_entry_offset = 168, se_key_pool_offset = 0xFFFFFFF0, se_key_length = 1, se_value_offset = 159\<rparr>"
  have "length (escaping_file hash) = 232" by (simp add: escaping_file_def crafted_file_def length_crafted)
  then have "key_view ?r ?e 1 = Inl Bad_read" by (simp add: key_view_def view_def fetch_def read_at_def)
  then have "traps (write_entry sv ?r opts f depth (0, ?e)) Bad_memory" for f
    unfolding write_entry_def prod.case
    by (intro traps_later [OF prints_separator [OF sv]] traps_later [OF prints_indent [OF sv]] traps_here) (simp add: traps_bad_memory)
  then have "traps (export_block sv ?r opts (export_value sv ?r opts frames) 159 depth) Bad_memory"
    unfolding export_block_def
    by (intro traps_with_read [OF escaping_reads(4)])
      (simp add: traps_later [OF prints_write_literal [OF sv]] traps_later [OF prints_newline [OF sv]] traps_here traps_entries [OF sv]
        escaping_reads del: load_sort_entries.simps)
  then show ?thesis by (simp add: traps_with_read [OF escaping_reads(3)])
qed

text \<open>C34. A verified file can exhaust the stack: whatever the hash function, the file of 216 bytes whose only value is an array that
  is its own element, with its checksum and the hash of its key, passes the verifier and is opened; no stack is deep enough
  for its JSON export, whatever the options.\<close>

theorem cyclic_file_overflows_the_stack:
  assumes "obliging sv"
  shows "verify_buffer hash (cyclic_file hash) = Inr V_OK \<and>
    reader_open_buffer roomy (cyclic_file hash) = Inr (opened (cyclic_file hash)) \<and>
    export_json_ex sv (opened (cyclic_file hash)) opts frames start_state = Inl Stack_overflow"
  using cyclic_verified(1,2) cyclic_export [OF assms cyclic_value [OF assms]] by (simp add: traps_def start_state_def)

text \<open>A hash function that is not constant: the sum of the bytes, each weighted by its place.\<close>

fun weighted_sum :: "u64 \<Rightarrow> bytes \<Rightarrow> u64" where
  "weighted_sum i [] = 0"
| "weighted_sum i (b # bs) = i * ucast b + weighted_sum (i + 1) bs"

theorem cyclic_file_overflows_the_stack_witness:
  "verify_buffer (weighted_sum 1) (cyclic_file (weighted_sum 1)) = Inr V_OK \<and>
   export_json_ex plain_services (opened (cyclic_file (weighted_sum 1))) None 1000000 start_state = Inl Stack_overflow"
  using cyclic_file_overflows_the_stack [OF obliging_plain] by blast

text \<open>C35. A verified file can make the exporter read outside the buffer: whatever the hash function, in the file of 232 bytes the
  entry of a block has its key outside the file; it passes the verifier and is opened, and its JSON export reads the key.\<close>

theorem escaping_key_is_read:
  assumes "obliging sv"
  shows "verify_buffer hash (escaping_file hash) = Inr V_OK \<and>
    reader_open_buffer roomy (escaping_file hash) = Inr (opened (escaping_file hash)) \<and>
    export_json_ex sv (opened (escaping_file hash)) opts (Suc frames) start_state = Inl Bad_memory"
  using escaping_verified(1,2) escaping_export [OF assms escaping_value [OF assms]] by (simp add: traps_def start_state_def)

theorem escaping_key_is_read_witness:
  "verify_buffer (weighted_sum 1) (escaping_file (weighted_sum 1)) = Inr V_OK \<and>
   export_json_ex plain_services (opened (escaping_file (weighted_sum 1))) None (Suc 999999) start_state = Inl Bad_memory"
  using escaping_key_is_read [OF obliging_plain] by blast

end
