(* ===== verification/Export_Yaml.thy ===== *)
theory Export_Yaml
  imports Export_Json
begin

text \<open>
  The YAML exporter (\<open>src/export/bc_hrbl_export_yaml.c\<close>). The emitter of libyaml is a parameter: it is
  given events, and offers the text it has ready to the write handler.
\<close>

section \<open>The emitter\<close>

text \<open>
  \<open>ye_starts\<close>: does \<open>yaml_emitter_initialize\<close> succeed? \<open>ye_initialises ev\<close>: does the initialisation of the
  event succeed, for a scalar with well-formed text and memory? \<open>ye_chunks unicode history ev\<close>: what the emitter, set to
  write other than ASCII unescaped or not, offers to the write handler when it is given \<open>ev\<close> after the events of \<open>history\<close>.
  An emitter whose write handler reports a failure offers nothing more and returns 0; otherwise it returns
  \<open>ye_takes unicode history ev\<close>. \<open>ye_flush\<close> is what a flush offers.
\<close>

record yaml_library =
  ye_starts :: bool
  ye_initialises :: "yaml_event \<Rightarrow> bool"
  ye_chunks :: "bool \<Rightarrow> (yaml_event \<times> bool) list \<Rightarrow> yaml_event \<Rightarrow> bytes list"
  ye_takes :: "bool \<Rightarrow> (yaml_event \<times> bool) list \<Rightarrow> yaml_event \<Rightarrow> bool"
  ye_flush :: "bool \<Rightarrow> (yaml_event \<times> bool) list \<Rightarrow> bytes list"

text \<open>What the functions of the exporter share: the services, the library and the unicode setting.\<close>

record yaml_state =
  ys_services :: services
  ys_library :: yaml_library
  ys_unicode :: bool

definition yaml_write_handler :: "services \<Rightarrow> bytes \<Rightarrow> act" where
  "yaml_write_handler sv buffer s =
     (if length buffer = 0 then Inr (True, s)
      else if \<not> sv_accepts sv (es_writes s) buffer
      then Inr (False, s\<lparr>es_writes := es_writes s + 1, es_failed := True\<rparr>)
      else Inr (True, s\<lparr>es_writes := es_writes s + 1, es_output := es_output s @ buffer\<rparr>))"

text \<open>
  An event is initialised and passed to the emitter. The result of the initialisation is ignored: if it
  failed, the emitter reads an event that was never written.
\<close>

definition yaml_emitter_emit :: "yaml_state \<Rightarrow> yaml_event \<Rightarrow> act" where
  "yaml_emitter_emit y ev s =
     (if \<not> ye_initialises (ys_library y) ev then Inl Uninitialised_event
      else bindE (steps (map (yaml_write_handler (ys_services y)) (ye_chunks (ys_library y) (ys_unicode y) (es_events s) ev)) s)
        (\<lambda>(accepted, s').
           let ok = accepted \<and> ye_takes (ys_library y) (ys_unicode y) (es_events s) ev
           in Inr (ok, s'\<lparr>es_events := es_events s @ [(ev, ok)]\<rparr>)))"

definition yaml_emitter_flush :: "yaml_state \<Rightarrow> act" where
  "yaml_emitter_flush y s =
     steps (map (yaml_write_handler (ys_services y)) (ye_flush (ys_library y) (ys_unicode y) (es_events s))) s"

text \<open>The emission of an event by the functions below; a failure is recorded.\<close>

definition yaml_emit_event :: "yaml_state \<Rightarrow> yaml_event \<Rightarrow> act" where
  "yaml_emit_event y ev s =
     bindE (yaml_emitter_emit y ev s) (\<lambda>(ok, s). if ok then Inr (True, s) else Inr (False, s\<lparr>es_failed := True\<rparr>))"

text \<open>The length of a scalar is converted to a 32-bit \<open>int\<close>.\<close>

definition int_length :: "nat \<Rightarrow> int" where
  "int_length n = sint (of_nat n :: 32 word)"

definition yaml_emit_scalar_str :: "yaml_state \<Rightarrow> bytes \<Rightarrow> act" where
  "yaml_emit_scalar_str y data = yaml_emit_event y (Scalar True Plain data (int_length (length data)))"

definition yaml_emit_scalar_double_quoted :: "yaml_state \<Rightarrow> bytes \<Rightarrow> act" where
  "yaml_emit_scalar_double_quoted y data = yaml_emit_event y (Scalar False Double_quoted data (int_length (length data)))"

definition yaml_emit_mapping_start :: "yaml_state \<Rightarrow> act" where
  "yaml_emit_mapping_start y = yaml_emit_event y Mapping_start"

definition yaml_emit_mapping_end :: "yaml_state \<Rightarrow> act" where
  "yaml_emit_mapping_end y = yaml_emit_event y Mapping_end"

definition yaml_emit_sequence_start :: "yaml_state \<Rightarrow> act" where
  "yaml_emit_sequence_start y = yaml_emit_event y Sequence_start"

definition yaml_emit_sequence_end :: "yaml_state \<Rightarrow> act" where
  "yaml_emit_sequence_end y = yaml_emit_event y Sequence_end"

section \<open>Values\<close>

definition yaml_sort_less_by_key :: "services \<Rightarrow> reader \<Rightarrow> sort_entry \<Rightarrow> sort_entry \<Rightarrow> stop + bool" where
  "yaml_sort_less_by_key sv r a b =
     (let a_length = unat (se_key_length a); b_length = unat (se_key_length b);
          min_length = if a_length < b_length then a_length else b_length
      in bindE (key_view r a min_length) (\<lambda>a_data.
         bindE (key_view r b min_length) (\<lambda>b_data.
           Inr (let cmp = sv_memcmp sv a_data b_data
                in if cmp \<noteq> 0 then cmp < 0 else a_length < b_length))))"

text \<open>The copies of the entries of a table, sorted when the options say so; 24 is the size of a copy.\<close>

definition yaml_entries ::
    "services \<Rightarrow> reader \<Rightarrow> options option \<Rightarrow> act \<Rightarrow> u64 \<Rightarrow> u64 \<Rightarrow> (sort_entry list \<Rightarrow> act) \<Rightarrow> act" where
  "yaml_entries sv r opts refused off n emit =
     scratch_alloc sv (unat (n * 24)) refused
       (with_memory (load_sort_entries (rd_base r) off (unat n)) (\<lambda>es.
        if sort_keys opts then with_memory (sort_with_compare sv (yaml_sort_less_by_key sv r) es) emit else emit es))"

definition yaml_emit_entry :: "yaml_state \<Rightarrow> reader \<Rightarrow> (u64 \<Rightarrow> act) \<Rightarrow> sort_entry \<Rightarrow> act" where
  "yaml_emit_entry y r emit_value e =
     steps [with_memory (key_view r e (unat (se_key_length e))) (yaml_emit_scalar_double_quoted y), emit_value (se_value_offset e)]"

definition yaml_emit_block :: "yaml_state \<Rightarrow> reader \<Rightarrow> options option \<Rightarrow> (u64 \<Rightarrow> act) \<Rightarrow> u64 \<Rightarrow> act" where
  "yaml_emit_block y r opts emit_value block_offset =
     with_read (reader_block_body_offsets r block_offset) (\<lambda>(header, entries_offset).
       steps [yaml_emit_mapping_start y,
         if bh_child_count header \<noteq> 0
         then yaml_entries (ys_services y) r opts fail_export entries_offset (ucast (bh_child_count header))
           (\<lambda>es. steps (map (yaml_emit_entry y r emit_value) es))
         else steps [],
         yaml_emit_mapping_end y])"

definition yaml_emit_element :: "reader \<Rightarrow> (u64 \<Rightarrow> act) \<Rightarrow> u64 \<Rightarrow> nat \<Rightarrow> act" where
  "yaml_emit_element r emit_value elements_offset i =
     with_memory (fetch (rd_base r) (elements_offset + of_nat i * of_nat ARRAY_ELEMENT_SIZE) 8) (\<lambda>bs. emit_value (load_u64 bs))"

definition yaml_emit_array :: "yaml_state \<Rightarrow> reader \<Rightarrow> (u64 \<Rightarrow> act) \<Rightarrow> u64 \<Rightarrow> act" where
  "yaml_emit_array y r emit_value array_offset =
     with_read (reader_array_body_offsets r array_offset) (\<lambda>(header, elements_offset).
       steps [yaml_emit_sequence_start y,
         steps (map (yaml_emit_element r emit_value elements_offset) [0..<unat (ah_element_count header)]),
         yaml_emit_sequence_end y])"

definition yaml_emit_formatted :: "yaml_state \<Rightarrow> bytes option \<Rightarrow> act" where
  "yaml_emit_formatted y formatted = (case formatted of None \<Rightarrow> fail_export | Some t \<Rightarrow> yaml_emit_scalar_str y t)"

text \<open>The sign of an infinity is the top bit of the double.\<close>

definition yaml_emit_float64 :: "yaml_state \<Rightarrow> u64 \<Rightarrow> act" where
  "yaml_emit_float64 y v =
     (if is_nan v then yaml_emit_scalar_str y (ascii ''.nan'')
      else if is_inf v then yaml_emit_scalar_str y (ascii (if bit v 63 then ''-.inf'' else ''.inf''))
      else yaml_emit_formatted y (sv_double (ys_services y) v))"

fun yaml_emit_value :: "yaml_state \<Rightarrow> reader \<Rightarrow> options option \<Rightarrow> nat \<Rightarrow> u64 \<Rightarrow> act" where
  "yaml_emit_value y r opts 0 value_offset = (\<lambda>s. Inl Stack_overflow)"
| "yaml_emit_value y r opts (Suc frames) value_offset =
     with_read (reader_kind_at r value_offset) (\<lambda>k. case k of
         K_NULL \<Rightarrow> yaml_emit_scalar_str y (ascii ''null'')
       | K_FALSE \<Rightarrow> yaml_emit_scalar_str y (ascii ''false'')
       | K_TRUE \<Rightarrow> yaml_emit_scalar_str y (ascii ''true'')
       | K_INT64 \<Rightarrow> with_read (reader_scalar_int64_at r value_offset) (\<lambda>v. yaml_emit_formatted y (sv_int64 (ys_services y) v))
       | K_UINT64 \<Rightarrow> with_read (reader_scalar_uint64_at r value_offset) (\<lambda>v. yaml_emit_formatted y (sv_uint64 (ys_services y) v))
       | K_FLOAT64 \<Rightarrow> with_read (reader_scalar_float64_at r value_offset) (yaml_emit_float64 y)
       | K_STRING \<Rightarrow> with_read (reader_scalar_string_at r value_offset) (\<lambda>(data, n).
           with_memory (view (rd_base r) data (unat n)) (yaml_emit_scalar_double_quoted y))
       | K_BLOCK \<Rightarrow> yaml_emit_block y r opts (yaml_emit_value y r opts frames) value_offset
       | K_ARRAY \<Rightarrow> yaml_emit_array y r (yaml_emit_value y r opts frames) value_offset)"

section \<open>A file\<close>

text \<open>The end of the document is emitted whatever \<open>ok\<close> is, and so is the end of the root mapping.\<close>

definition yaml_finish :: "yaml_state \<Rightarrow> bool \<Rightarrow> act" where
  "yaml_finish y ok s =
     bindE (yaml_emitter_emit y Document_end s) (\<lambda>(ended, s).
     bindE (yaml_emitter_emit y Stream_end s) (\<lambda>(closed, s).
     bindE (yaml_emitter_flush y s) (\<lambda>(_, s).
       Inr (ok \<and> ended \<and> closed \<and> \<not> es_failed s, s))))"

definition yaml_root_mapping :: "yaml_state \<Rightarrow> reader \<Rightarrow> options option \<Rightarrow> nat \<Rightarrow> sort_entry list \<Rightarrow> act" where
  "yaml_root_mapping y r opts frames es =
     steps [yaml_emit_mapping_start y,
       (\<lambda>s. bindE (steps (map (yaml_emit_entry y r (yaml_emit_value y r opts frames)) es) s) (\<lambda>(ok, s).
            bindE (yaml_emit_mapping_end y s) (\<lambda>(ended, s). yaml_finish y (ok \<and> ended) s)))]"

definition export_yaml_ex :: "services \<Rightarrow> yaml_library \<Rightarrow> reader \<Rightarrow> options option \<Rightarrow> nat \<Rightarrow> act" where
  "export_yaml_ex sv lib r opts frames =
     (let y = \<lparr>ys_services = sv, ys_library = lib, ys_unicode = \<not> ascii_only opts\<rparr>; root_count = hdr_root_count (rd_header r)
      in if \<not> ye_starts lib then return_false
         else steps [yaml_emitter_emit y Stream_start, yaml_emitter_emit y Document_start,
           if root_count = 0 then steps [yaml_emitter_emit y Mapping_start, yaml_emitter_emit y Mapping_end, yaml_finish y True]
           else yaml_entries sv r opts return_false (hdr_root_index_offset (rd_header r)) root_count (yaml_root_mapping y r opts frames)])"

definition export_yaml :: "services \<Rightarrow> yaml_library \<Rightarrow> reader \<Rightarrow> nat \<Rightarrow> act" where
  "export_yaml sv lib r frames = export_yaml_ex sv lib r None frames"

end
