(* ===== verification/Yaml_Text.thy ===== *)
theory Yaml_Text
  imports Export_Yaml Json_Text
begin

text \<open>
  The YAML event stream of a document, and that the exporter passes it to the emitter and what the
  emitter offers to the writer.
\<close>

section \<open>The events of a document\<close>

definition plain_event :: "bytes \<Rightarrow> yaml_event" where
  "plain_event t = Scalar True Plain t (int (length t))"

definition quoted_event :: "bytes \<Rightarrow> yaml_event" where
  "quoted_event t = Scalar False Double_quoted t (int (length t))"

fun leaf_event :: "services \<Rightarrow> leaf \<Rightarrow> yaml_event" where
  "leaf_event sv L_null = plain_event (ascii ''null'')"
| "leaf_event sv (L_bool b) = plain_event (ascii (if b then ''true'' else ''false''))"
| "leaf_event sv (L_int64 v) = plain_event (the (sv_int64 sv (sint v)))"
| "leaf_event sv (L_uint64 v) = plain_event (the (sv_uint64 sv v))"
| "leaf_event sv (L_float64 v) = plain_event
     (if double_exponent v = 2047
      then ascii (if double_fraction v \<noteq> 0 then ''.nan'' else if double_negative v then ''-.inf'' else ''.inf'') else the (sv_double sv v))"
| "leaf_event sv (L_string s) = quoted_event s"

fun yaml_events :: "services \<Rightarrow> doc \<Rightarrow> yaml_event list" where
  "yaml_events sv (Leaf l) = [leaf_event sv l]"
| "yaml_events sv (Block es) = [Mapping_start] @ concat (map (\<lambda>(k, v). [quoted_event k] @ yaml_events sv v) es) @ [Mapping_end]"
| "yaml_events sv (Array vs) = [Sequence_start] @ concat (map (yaml_events sv) vs) @ [Sequence_end]"

definition yaml_stream :: "services \<Rightarrow> (bytes \<times> doc) list \<Rightarrow> yaml_event list" where
  "yaml_stream sv es = [Stream_start, Document_start] @ yaml_events sv (key_sorted (Block es)) @ [Document_end, Stream_end]"

definition taken :: "yaml_event list \<Rightarrow> (yaml_event \<times> bool) list" where
  "taken evs = map (\<lambda>ev. (ev, True)) evs"

text \<open>What the emitter offers for a history of events, without the flush.\<close>

definition offered :: "yaml_library \<Rightarrow> bool \<Rightarrow> (yaml_event \<times> bool) list \<Rightarrow> bytes" where
  "offered lib unicode h = concat (map (\<lambda>i. concat (ye_chunks lib unicode (take i h) (fst (h ! i)))) [0..<length h])"

text \<open>
  What is documented of libyaml for a well-formed stream of events with well-formed texts and memory to spare:
  the emitter starts, the events are initialised and taken.
\<close>

definition handles :: "yaml_library \<Rightarrow> yaml_event list \<Rightarrow> bool" where
  "handles lib stream \<longleftrightarrow> ye_starts lib \<and> (\<forall>ev \<in> set stream. ye_initialises lib ev) \<and>
     (\<forall>unicode. \<forall>i < length stream. ye_takes lib unicode (taken (take i stream)) (stream ! i))"

text \<open>A text whose length is an \<open>int\<close>.\<close>

fun short_event :: "yaml_event \<Rightarrow> bool" where
  "short_event (Scalar implicit style t n) \<longleftrightarrow> length t < 2 ^ 31"
| "short_event ev \<longleftrightarrow> True"

section \<open>Emitting\<close>

text \<open>The state of an export that is going well: everything offered so far has been written.\<close>

definition in_step :: "yaml_state \<Rightarrow> export_state \<Rightarrow> bool" where
  "in_step y s \<longleftrightarrow> \<not> es_failed s \<and> es_output s = offered (ys_library y) (ys_unicode y) (es_events s)"

abbreviation emits :: "yaml_state \<Rightarrow> yaml_event list \<Rightarrow> act \<Rightarrow> yaml_event list \<Rightarrow> bool" where
  "emits y stream a evs \<equiv> adds (in_step y) (\<lambda>h. prefix h (taken stream)) es_events a (taken evs)"

interpretation emitting: logging "in_step y" "\<lambda>h. prefix h (taken stream)" es_events for y stream
  by unfold_locales (auto simp: in_step_def dest: append_prefixD)

lemma emits_Nil: "emits y stream (steps []) []"
  using emitting.adds_Nil by (simp add: taken_def)

lemma emits_Cons: "emits y stream a evs \<Longrightarrow> emits y stream (steps as) evs' \<Longrightarrow> emits y stream (steps (a # as)) (evs @ evs')"
  using emitting.adds_Cons by (simp add: taken_def)

lemma emits_one: "emits y stream a evs \<Longrightarrow> emits y stream (steps [a]) evs"
  using emits_Cons [OF _ emits_Nil, of y stream a evs] by simp

lemma emits_all: "list_all2 (\<lambda>a evs. emits y stream a evs) as evss \<Longrightarrow> emits y stream (steps as) (concat evss)"
  by (induction rule: list_all2_induct) (auto intro: emits_Nil emits_Cons)

lemma handler_writes:
  assumes sv: "obliging sv"
  shows "\<not> es_failed s \<Longrightarrow> \<exists>s'. steps (map (yaml_write_handler sv) ts) s = Inr (True, s') \<and>
    es_output s' = es_output s @ concat ts \<and> \<not> es_failed s' \<and> es_events s' = es_events s"
proof (induction ts arbitrary: s)
  case (Cons t ts)
  have "\<exists>s1. yaml_write_handler sv t s = Inr (True, s1) \<and> es_output s1 = es_output s @ t \<and> \<not> es_failed s1 \<and> es_events s1 = es_events s"
    using Cons.prems obliging_accepts [OF sv] by (simp add: yaml_write_handler_def)
  then obtain s1 where "yaml_write_handler sv t s = Inr (True, s1)" "es_output s1 = es_output s @ t" "\<not> es_failed s1" "es_events s1 = es_events s" by blast
  then show ?case using Cons.IH [of s1] by (auto simp: steps.simps)
qed (simp add: steps.simps)

lemma offered_snoc: "offered lib unicode (h @ [(ev, ok)]) = offered lib unicode h @ concat (ye_chunks lib unicode h ev)"
proof -
  have same: "concat (map (\<lambda>i. concat (ye_chunks lib unicode (take i (h @ [(ev, ok)])) (fst ((h @ [(ev, ok)]) ! i)))) [0..<length h]) =
      concat (map (\<lambda>i. concat (ye_chunks lib unicode (take i h) (fst (h ! i)))) [0..<length h])"
    by (intro arg_cong [where f = concat] map_cong) (simp_all add: nth_append)
  have split: "[0..<length (h @ [(ev, ok)])] = [0..<length h] @ [length h]" by simp
  show ?thesis unfolding offered_def split map_append concat_append same by simp
qed

lemma emits_event:
  assumes sv: "obliging (ys_services y)" and lib: "handles (ys_library y) stream"
  shows "emits y stream (yaml_emitter_emit y ev) [ev]"
  unfolding adds_def
proof (intro allI impI)
  fix s :: export_state
  assume s: "in_step y s" "prefix (es_events s @ taken [ev]) (taken stream)"
  define n where "n = length (es_events s)"
  have at: "n < length stream" "es_events s = taken (take n stream)" "stream ! n = ev"
    using s(2) by (auto simp: prefix_def taken_def n_def nth_append map_eq_append_conv)
  let ?chunks = "ye_chunks (ys_library y) (ys_unicode y) (es_events s) ev"
  obtain s' where s': "steps (map (yaml_write_handler (ys_services y)) ?chunks) s = Inr (True, s')"
    "es_output s' = es_output s @ concat ?chunks" "\<not> es_failed s'"
    using handler_writes [OF sv, of s ?chunks] s(1) by (auto simp: in_step_def)
  have "ye_initialises (ys_library y) ev" "ye_takes (ys_library y) (ys_unicode y) (es_events s) ev"
    using lib at unfolding handles_def by (metis nth_mem)+
  then have run: "yaml_emitter_emit y ev s = Inr (True, s'\<lparr>es_events := es_events s @ [(ev, True)]\<rparr>)"
    using s'(1) by (simp add: yaml_emitter_emit_def Let_def)
  have "in_step y (s'\<lparr>es_events := es_events s @ [(ev, True)]\<rparr>)"
    using s(1) s' by (simp add: in_step_def offered_snoc)
  then show "\<exists>s'. yaml_emitter_emit y ev s = Inr (True, s') \<and> es_events s' = es_events s @ taken [ev] \<and> in_step y s'"
    using run by (simp add: taken_def)
qed

lemma emits_recorded:
  assumes "emits y stream (yaml_emitter_emit y ev) [ev]"
  shows "emits y stream (yaml_emit_event y ev) [ev]"
  using assms unfolding adds_def yaml_emit_event_def by fastforce

section \<open>Values emit their events\<close>

text \<open>The setting of the lemmas below: obliging services, an emitter that handles the stream, short texts.\<close>

definition handled :: "yaml_state \<Rightarrow> yaml_event list \<Rightarrow> bool" where
  "handled y stream \<longleftrightarrow> obliging (ys_services y) \<and> handles (ys_library y) stream \<and> (\<forall>ev \<in> set stream. short_event ev)"

lemma handled_event: "handled y stream \<Longrightarrow> emits y stream (yaml_emit_event y ev) [ev]"
  using emits_recorded emits_event by (simp add: handled_def)

lemma int_length_short: "length t < 2 ^ 31 \<Longrightarrow> int_length (length t) = int (length t)"
proof -
  assume short: "length t < 2 ^ 31"
  have "int_length (length t) = sint (of_int (int (length t)) :: 32 word)" by (simp add: int_length_def)
  also have "\<dots> = int (length t)" using short by (simp only: sint_sbintrunc') (simp add: signed_take_bit_int_eq_self)
  finally show ?thesis .
qed

text \<open>A text that is too long is not in the stream.\<close>

lemma not_in_stream:
  assumes "handled y stream" and "\<not> short_event ev"
  shows "emits y stream a [ev]"
  using assms unfolding adds_def handled_def by (auto simp: prefix_def taken_def map_eq_append_conv)

lemma emits_scalar:
  assumes "handled y stream"
  shows "emits y stream (yaml_emit_scalar_str y t) [plain_event t]"
    and "emits y stream (yaml_emit_scalar_double_quoted y t) [quoted_event t]"
proof -
  have short: "length t < 2 ^ 31" if "short_event (plain_event t) \<or> short_event (quoted_event t)"
    using that by (simp add: plain_event_def quoted_event_def)
  show "emits y stream (yaml_emit_scalar_str y t) [plain_event t]"
    using handled_event [OF assms] not_in_stream [OF assms] short int_length_short [of t]
    by (cases "short_event (plain_event t)") (auto simp: yaml_emit_scalar_str_def plain_event_def)
  show "emits y stream (yaml_emit_scalar_double_quoted y t) [quoted_event t]"
    using handled_event [OF assms] not_in_stream [OF assms] short int_length_short [of t]
    by (cases "short_event (quoted_event t)") (auto simp: yaml_emit_scalar_double_quoted_def quoted_event_def)
qed

lemma emits_formatted: "handled y stream \<Longrightarrow> t \<noteq> None \<Longrightarrow> emits y stream (yaml_emit_formatted y t) [plain_event (the t)]"
  using emits_scalar(1) by (auto simp: yaml_emit_formatted_def)

lemma emits_float64:
  assumes "handled y stream"
  shows "emits y stream (yaml_emit_float64 y v) [leaf_event (ys_services y) (L_float64 v)]"
proof -
  have "sv_double (ys_services y) v \<noteq> None" using assms obliging_formats unfolding handled_def by blast
  then show ?thesis using emits_scalar(1) [OF assms] emits_formatted [OF assms] by (simp add: yaml_emit_float64_def double_classes)
qed

lemma emits_leaf:
  assumes y: "handled y stream" and reads: "reads_leaf r off l"
  shows "emits y stream (yaml_emit_value y r opts (Suc frames) off) [leaf_event (ys_services y) l]"
proof (cases l)
  case L_null
  then show ?thesis using reads emits_scalar(1) [OF y] by (simp add: emitting.adds_with_read)
next
  case (L_bool b)
  then have "reader_kind_at r off = Inr (if b then K_TRUE else K_FALSE)" using reads bool_kind by simp
  then show ?thesis using L_bool emits_scalar(1) [OF y] by (cases b) (simp_all add: emitting.adds_with_read)
next
  case (L_int64 v)
  then have int: "reader_scalar_int64_at r off = Inr (sint v)" using reads by simp
  then have "reader_kind_at r off = Inr K_INT64" by (auto simp: reader_scalar_int64_at_def bindE_eq_Inr intro: scalar_kind)
  then show ?thesis using L_int64 int emits_formatted [OF y] obliging_formats [of "ys_services y" "sint v"] y
    by (simp add: emitting.adds_with_read handled_def)
next
  case (L_uint64 v)
  then have int: "reader_scalar_uint64_at r off = Inr v" using reads by simp
  then have "reader_kind_at r off = Inr K_UINT64" by (auto simp: reader_scalar_uint64_at_def intro: scalar_kind)
  then show ?thesis using L_uint64 int emits_formatted [OF y] obliging_formats [of "ys_services y" 0 v] y
    by (simp add: emitting.adds_with_read handled_def)
next
  case (L_float64 v)
  then have float: "reader_scalar_float64_at r off = Inr v" using reads by simp
  then have "reader_kind_at r off = Inr K_FLOAT64" by (auto simp: reader_scalar_float64_at_def intro: scalar_kind)
  then show ?thesis using emits_float64 [OF y, of v] float L_float64 by (simp add: emitting.adds_with_read del: leaf_event.simps)
next
  case (L_string s)
  then obtain pos n where str: "reader_scalar_string_at r off = Inr (pos, n)" "read_at (rd_base r) (unat pos) (unat n) = Some s"
    using reads by (auto split: sum.splits)
  have "view (rd_base r) pos (unat n) = Inr s" using str(2) by (auto simp: view_def fetch_def read_at_def split: if_splits)
  then have "emits y stream (with_memory (view (rd_base r) pos (unat n)) (yaml_emit_scalar_double_quoted y)) [quoted_event s]"
    using emits_scalar(2) [OF y, of s] by (simp add: emitting.adds_with_memory)
  then show ?thesis using string_kind [OF str(1)] str(1) L_string by (simp add: emitting.adds_with_read)
qed

lemma emits_entries:
  assumes y: "handled y stream" and table: "lists r (reads hash r) ses es"
    and vals: "\<And>k v p. (k, v) \<in> set es \<Longrightarrow> reads hash r p v \<Longrightarrow> emits y stream (f p) (yaml_events (ys_services y) (key_sorted v))"
  shows "emits y stream (steps (map (yaml_emit_entry y r f) ses))
    (concat (map (\<lambda>(k, v). [quoted_event k] @ yaml_events (ys_services y) (key_sorted v)) es))"
proof (rule emits_all, unfold list_all2_map1 list_all2_map2, rule list_all2_all_nthI)
  show len: "length ses = length es" using table by (simp add: lists_def list_all2_lengthD)
  fix i assume i: "i < length ses"
  obtain k v where kv: "es ! i = (k, v)" by (cases "es ! i")
  have at: "key_is r (ses ! i) k" "reads hash r (se_value_offset (ses ! i)) v"
    using list_all2_nthD [OF table [unfolded lists_def] i] by (simp_all add: kv)
  have "(k, v) \<in> set es" using i kv len by (metis nth_mem)
  note val = vals [OF this at(2)]
  have key: "emits y stream (with_memory (key_view r (ses ! i) (unat (se_key_length (ses ! i)))) (yaml_emit_scalar_double_quoted y)) [quoted_event k]"
    by (rule emitting.adds_with_memory) (use at(1) emits_scalar(2) [OF y] in \<open>simp_all add: key_is_def\<close>)
  have "emits y stream (yaml_emit_entry y r f (ses ! i)) ([quoted_event k] @ yaml_events (ys_services y) (key_sorted v))"
    unfolding yaml_emit_entry_def by (rule emits_Cons [OF key emits_one [OF val]])
  then show "emits y stream (yaml_emit_entry y r f (ses ! i)) (case es ! i of (k, v) \<Rightarrow> [quoted_event k] @ yaml_events (ys_services y) (key_sorted v))"
    by (simp add: kv)
qed

lemma emits_table:
  assumes sv: "obliging sv" and sorting: "sort_keys opts"
    and load: "load_sort_entries (rd_base r) start (unat n) = Inr ses" and sort: "sort_with_compare sv (sort_less_by_key sv r) ses = Inr ses'"
    and emit: "emits y stream (emit ses') evs"
  shows "emits y stream (yaml_entries sv r opts refused start n emit) evs"
proof -
  have same: "yaml_sort_less_by_key sv r = sort_less_by_key sv r"
    by (simp add: fun_eq_iff yaml_sort_less_by_key_def sort_less_by_key_def)
  show ?thesis unfolding yaml_entries_def same using sorting
    by (auto intro!: emitting.adds_scratch obliging_grants [OF sv] emitting.adds_with_memory [OF load] emitting.adds_with_memory [OF sort] emit)
qed

lemma emits_block:
  fixes es :: "(bytes \<times> doc) list"
  assumes y: "handled y stream" and sorting: "sort_keys opts" and wf: "wf_reader r" and reads: "reads hash r off (Block es)"
    and distinct: "keys_distinct (Block es)"
    and vals: "\<And>k v p. (k, v) \<in> set es \<Longrightarrow> reads hash r p v \<Longrightarrow> emits y stream (f p) (yaml_events (ys_services y) (key_sorted v))"
  shows "emits y stream (yaml_emit_block y r opts f off) (yaml_events (ys_services y) (key_sorted (Block es)))"
proof -
  have sv: "obliging (ys_services y)" using y by (simp add: handled_def)
  have dist: "distinct (map fst es)" using distinct by simp
  from document_block [OF wf reads dist sv] obtain header entries ses ses' where
    body: "reader_block_body_offsets r off = Inr (header, entries)" and empty: "bh_child_count header = 0 \<longleftrightarrow> es = []"
    and table: "load_sort_entries (rd_base r) entries (unat (ucast (bh_child_count header) :: u64)) = Inr ses"
      "sort_with_compare (ys_services y) (sort_less_by_key (ys_services y) r) ses = Inr ses'" "lists r (reads hash r) ses' (sort_key fst es)" by blast
  let ?evs = "concat (map (\<lambda>(k, v). [quoted_event k] @ yaml_events (ys_services y) (key_sorted v)) (sort_key fst es))"
  have sorted: "key_sorted (Block es) = Block (map (\<lambda>(k, v). (k, key_sorted v)) (sort_key fst es))" by (simp add: sort_key_sorted [OF dist])
  have shown: "yaml_events (ys_services y) (key_sorted (Block es)) = [Mapping_start] @ ?evs @ [Mapping_end]"
    unfolding sorted by (simp add: comp_def case_prod_unfold)
  have "emits y stream (steps (map (yaml_emit_entry y r f) ses')) ?evs"
    by (rule emits_entries [OF y table(3)]) (use vals in simp)
  then have "emits y stream (if bh_child_count header \<noteq> 0
         then yaml_entries (ys_services y) r opts fail_export entries (ucast (bh_child_count header)) (\<lambda>es. steps (map (yaml_emit_entry y r f) es))
         else steps []) ?evs"
    using empty emits_Nil by (auto intro: emits_table [OF sv sorting table(1,2)])
  then have "emits y stream (steps [yaml_emit_mapping_start y, if bh_child_count header \<noteq> 0
         then yaml_entries (ys_services y) r opts fail_export entries (ucast (bh_child_count header)) (\<lambda>es. steps (map (yaml_emit_entry y r f) es))
         else steps [], yaml_emit_mapping_end y]) ([Mapping_start] @ ?evs @ [Mapping_end])"
    unfolding yaml_emit_mapping_start_def yaml_emit_mapping_end_def by (intro emits_Cons emits_one handled_event [OF y])
  then show ?thesis unfolding shown yaml_emit_block_def by (intro emitting.adds_with_read [OF body]) simp
qed

lemma emits_array:
  assumes y: "handled y stream" and reads: "reads hash r off (Array vs)" and small: "length vs < 2 ^ 32"
    and vals: "\<And>v p. v \<in> set vs \<Longrightarrow> reads hash r p v \<Longrightarrow> emits y stream (f p) (yaml_events (ys_services y) (key_sorted v))"
  shows "emits y stream (yaml_emit_array y r f off) (yaml_events (ys_services y) (key_sorted (Array vs)))"
proof -
  from document_array [OF reads small] obtain header elements where
    body: "reader_array_body_offsets r off = Inr (header, elements)" and n: "unat (ah_element_count header) = length vs"
    and element: "\<forall>i < length vs. \<exists>bs. fetch (rd_base r) (elements + of_nat i * of_nat ARRAY_ELEMENT_SIZE) 8 = Inr bs \<and> reads hash r (load_u64 bs) (vs ! i)"
    by blast
  have "emits y stream (yaml_emit_element r f elements i) (yaml_events (ys_services y) (key_sorted (vs ! i)))" if i: "i < length vs" for i
  proof -
    obtain bs where bs: "fetch (rd_base r) (elements + of_nat i * of_nat ARRAY_ELEMENT_SIZE) 8 = Inr bs" "reads hash r (load_u64 bs) (vs ! i)"
      using element i by blast
    show ?thesis unfolding yaml_emit_element_def by (rule emitting.adds_with_memory [OF bs(1)]) (use vals [OF _ bs(2)] i in simp)
  qed
  then have "list_all2 (\<lambda>a evs. emits y stream a evs) (map (yaml_emit_element r f elements) [0..<length vs])
      (map (\<lambda>v. yaml_events (ys_services y) (key_sorted v)) vs)"
    by (simp add: list_all2_conv_all_nth)
  from emits_all [OF this] have "emits y stream (steps [yaml_emit_sequence_start y,
         steps (map (yaml_emit_element r f elements) [0..<unat (ah_element_count header)]), yaml_emit_sequence_end y])
      ([Sequence_start] @ concat (map (\<lambda>v. yaml_events (ys_services y) (key_sorted v)) vs) @ [Sequence_end])"
    unfolding yaml_emit_sequence_start_def yaml_emit_sequence_end_def n by (intro emits_Cons emits_one handled_event [OF y])
  then show ?thesis unfolding yaml_emit_array_def by (intro emitting.adds_with_read [OF body]) (simp add: comp_def)
qed

text \<open>Arrays are no longer than their length field counts.\<close>

fun arrays_fit :: "doc \<Rightarrow> bool" where
  "arrays_fit (Leaf l) \<longleftrightarrow> True"
| "arrays_fit (Block es) \<longleftrightarrow> (\<forall>(k, v) \<in> set es. arrays_fit v)"
| "arrays_fit (Array vs) \<longleftrightarrow> length vs < 2 ^ 32 \<and> (\<forall>v \<in> set vs. arrays_fit v)"

lemma emits_value:
  assumes y: "handled y stream" and sorting: "sort_keys opts" and wf: "wf_reader r"
  shows "fits_stack frames v \<Longrightarrow> reads hash r off v \<Longrightarrow> keys_distinct v \<Longrightarrow> arrays_fit v \<Longrightarrow>
    emits y stream (yaml_emit_value y r opts frames off) (yaml_events (ys_services y) (key_sorted v))"
proof (induction frames v arbitrary: off rule: fits_stack.induct)
  case (2 n l)
  then show ?case using emits_leaf [OF y] by simp
next
  case (3 n es)
  have "emits y stream (yaml_emit_block y r opts (yaml_emit_value y r opts n) off) (yaml_events (ys_services y) (key_sorted (Block es)))"
  proof (rule emits_block [OF y sorting wf "3.prems"(2,3)])
    fix k v p assume kv: "(k, v) \<in> set es" "reads hash r p v"
    have "fits_stack n v" "keys_distinct v" "arrays_fit v" using "3.prems" kv(1) by fastforce+
    then show "emits y stream (yaml_emit_value y r opts n p) (yaml_events (ys_services y) (key_sorted v))"
      using "3.IH" [OF kv(1) refl _ kv(2)] by blast
  qed
  moreover have "reader_kind_at r off = Inr K_BLOCK" using "3.prems"(2) by simp
  ultimately show ?case by (simp add: emitting.adds_with_read del: yaml_events.simps key_sorted.simps)
next
  case (4 n vs)
  have "emits y stream (yaml_emit_array y r (yaml_emit_value y r opts n) off) (yaml_events (ys_services y) (key_sorted (Array vs)))"
  proof (rule emits_array [OF y "4.prems"(2)])
    show "length vs < 2 ^ 32" using "4.prems"(4) by simp
    fix v p assume v: "v \<in> set vs" "reads hash r p v"
    then show "emits y stream (yaml_emit_value y r opts n p) (yaml_events (ys_services y) (key_sorted v))"
      using "4.IH" [OF v(1) _ v(2)] "4.prems" v(1) by auto
  qed
  moreover have "reader_kind_at r off = Inr K_ARRAY" using "4.prems"(2) by simp
  ultimately show ?case by (simp add: emitting.adds_with_read del: yaml_events.simps key_sorted.simps)
qed simp

section \<open>A whole file\<close>

text \<open>The rest of an export: it emits the rest of the stream, flushes, and succeeds.\<close>

definition finishes :: "yaml_state \<Rightarrow> yaml_event list \<Rightarrow> act \<Rightarrow> yaml_event list \<Rightarrow> bool" where
  "finishes y stream a evs \<longleftrightarrow> (\<forall>s. in_step y s \<longrightarrow> es_events s @ taken evs = taken stream \<longrightarrow>
     (\<exists>s'. a s = Inr (True, s') \<and> es_events s' = taken stream \<and> \<not> es_failed s' \<and>
       es_output s' = offered (ys_library y) (ys_unicode y) (taken stream) @ concat (ye_flush (ys_library y) (ys_unicode y) (taken stream))))"

lemma taken_append: "taken (evs @ evs') = taken evs @ taken evs'"
  by (simp add: taken_def)

lemma finishes_then:
  assumes "emits y stream a evs" and "in_step y s" and "es_events s @ taken (evs @ evs') = taken stream"
  obtains s1 where "a s = Inr (True, s1)" and "in_step y s1" and "es_events s1 @ taken evs' = taken stream"
proof -
  have "prefix (es_events s @ taken evs) (taken stream)" unfolding assms(3) [symmetric] taken_append by simp
  then obtain s1 where s1: "a s = Inr (True, s1)" "es_events s1 = es_events s @ taken evs" "in_step y s1" by (rule addsE [OF assms(1,2)])
  then have "es_events s1 @ taken evs' = taken stream" using assms(3) by (simp only: taken_append append_assoc)
  then show ?thesis using that s1(1,3) by blast
qed

lemma finishes_Cons:
  assumes "emits y stream a evs" and "finishes y stream (steps as) evs'"
  shows "finishes y stream (steps (a # as)) (evs @ evs')"
  unfolding finishes_def
proof (intro allI impI)
  fix s assume "in_step y s" "es_events s @ taken (evs @ evs') = taken stream"
  from finishes_then [OF assms(1) this] obtain s1 where "a s = Inr (True, s1)" "in_step y s1" "es_events s1 @ taken evs' = taken stream" by blast
  then show "\<exists>s'. steps (a # as) s = Inr (True, s') \<and> es_events s' = taken stream \<and> \<not> es_failed s' \<and>
       es_output s' = offered (ys_library y) (ys_unicode y) (taken stream) @ concat (ye_flush (ys_library y) (ys_unicode y) (taken stream))"
    using assms(2) by (auto simp: steps.simps finishes_def)
qed

lemma finishes_one: "finishes y stream a evs \<Longrightarrow> finishes y stream (steps [a]) evs"
  by (auto simp: finishes_def steps.simps)

lemma finishes_end:
  assumes y: "handled y stream"
  shows "finishes y stream (yaml_finish y True) [Document_end, Stream_end]"
  unfolding finishes_def
proof (intro allI impI)
  fix s :: export_state
  let ?sv = "ys_services y" and ?flush = "ye_flush (ys_library y) (ys_unicode y) (taken stream)"
  have event: "emits y stream (yaml_emitter_emit y ev) [ev]" for ev using emits_event y by (simp add: handled_def)
  assume s: "in_step y s" "es_events s @ taken [Document_end, Stream_end] = taken stream"
  obtain s1 where s1: "yaml_emitter_emit y Document_end s = Inr (True, s1)" "in_step y s1" "es_events s1 @ taken ([Stream_end] @ []) = taken stream"
    using finishes_then [OF event s(1), of Document_end "[Stream_end]"] s(2) by auto
  obtain s2 where s2: "yaml_emitter_emit y Stream_end s1 = Inr (True, s2)" "in_step y s2" "es_events s2 = taken stream"
    by (rule finishes_then [OF event s1(2,3)]) (simp add: taken_def)
  obtain s3 where s3: "steps (map (yaml_write_handler ?sv) ?flush) s2 = Inr (True, s3)" "es_output s3 = es_output s2 @ concat ?flush"
    "\<not> es_failed s3" "es_events s3 = es_events s2"
    using handler_writes [of ?sv s2 ?flush] y s2(2) by (auto simp: in_step_def handled_def)
  then show "\<exists>s'. yaml_finish y True s = Inr (True, s') \<and> es_events s' = taken stream \<and> \<not> es_failed s' \<and>
       es_output s' = offered (ys_library y) (ys_unicode y) (taken stream) @ concat ?flush"
    using s1(1) s2 s3 by (simp add: yaml_finish_def yaml_emitter_flush_def in_step_def)
qed

lemma finishes_mapping:
  assumes y: "handled y stream" and entries: "emits y stream (steps (map (yaml_emit_entry y r (yaml_emit_value y r opts frames)) ses)) evs"
  shows "finishes y stream (yaml_root_mapping y r opts frames ses) ([Mapping_start] @ evs @ [Mapping_end] @ [Document_end, Stream_end])"
proof -
  have "finishes y stream (\<lambda>s. bindE (steps (map (yaml_emit_entry y r (yaml_emit_value y r opts frames)) ses) s) (\<lambda>(ok, s).
            bindE (yaml_emit_mapping_end y s) (\<lambda>(ended, s). yaml_finish y (ok \<and> ended) s))) (evs @ [Mapping_end] @ [Document_end, Stream_end])"
    unfolding finishes_def
  proof (intro allI impI)
    fix s assume "in_step y s" "es_events s @ taken (evs @ [Mapping_end] @ [Document_end, Stream_end]) = taken stream"
    from finishes_then [OF entries this] obtain s1 where s1: "steps (map (yaml_emit_entry y r (yaml_emit_value y r opts frames)) ses) s = Inr (True, s1)"
      "in_step y s1" "es_events s1 @ taken ([Mapping_end] @ [Document_end, Stream_end]) = taken stream" by blast
    from finishes_then [OF handled_event [OF y] s1(2,3)] obtain s2 where s2: "yaml_emit_event y Mapping_end s1 = Inr (True, s2)"
      "in_step y s2" "es_events s2 @ taken [Document_end, Stream_end] = taken stream" by blast
    show "\<exists>s'. bindE (steps (map (yaml_emit_entry y r (yaml_emit_value y r opts frames)) ses) s) (\<lambda>(ok, s).
            bindE (yaml_emit_mapping_end y s) (\<lambda>(ended, s). yaml_finish y (ok \<and> ended) s)) = Inr (True, s') \<and>
       es_events s' = taken stream \<and> \<not> es_failed s' \<and>
       es_output s' = offered (ys_library y) (ys_unicode y) (taken stream) @ concat (ye_flush (ys_library y) (ys_unicode y) (taken stream))"
      using finishes_end [OF y] s1(1) s2 by (simp add: finishes_def yaml_emit_mapping_end_def)
  qed
  then show ?thesis unfolding yaml_root_mapping_def yaml_emit_mapping_start_def
    by (intro finishes_Cons finishes_one handled_event [OF y])
qed

lemma finishes_table:
  assumes sv: "obliging sv" and sorting: "sort_keys opts"
    and load: "load_sort_entries (rd_base r) start (unat n) = Inr ses" and sort: "sort_with_compare sv (sort_less_by_key sv r) ses = Inr ses'"
    and emit: "finishes y stream (emit ses') evs"
  shows "finishes y stream (yaml_entries sv r opts refused start n emit) evs"
  unfolding finishes_def
proof (intro allI impI)
  have same: "yaml_sort_less_by_key sv r = sort_less_by_key sv r"
    by (simp add: fun_eq_iff yaml_sort_less_by_key_def sort_less_by_key_def)
  fix s assume s: "in_step y s" "es_events s @ taken evs = taken stream"
  let ?s = "s\<lparr>es_requests := es_requests s + 1\<rparr>"
  have "in_step y ?s" "es_events ?s @ taken evs = taken stream" using s by (simp_all add: in_step_def)
  moreover have "yaml_entries sv r opts refused start n emit s = emit ses' ?s"
    using obliging_grants [OF sv] sorting load sort by (simp add: yaml_entries_def scratch_alloc_def with_memory_def same)
  ultimately show "\<exists>s'. yaml_entries sv r opts refused start n emit s = Inr (True, s') \<and> es_events s' = taken stream \<and> \<not> es_failed s' \<and>
       es_output s' = offered (ys_library y) (ys_unicode y) (taken stream) @ concat (ye_flush (ys_library y) (ys_unicode y) (taken stream))"
    using emit unfolding finishes_def by metis
qed

lemma finishes_export:
  assumes sv: "obliging sv" and sorting: "sort_keys opts" and wf: "wf_reader r" and reads: "reads_roots hash r es"
    and distinct: "keys_distinct (Block es)" and ok: "arrays_fit (Block es)" and stack: "fits_stack (Suc frames) (Block es)"
    and lib: "handles lib (yaml_stream sv es)" and short: "\<forall>ev \<in> set (yaml_stream sv es). short_event ev"
  shows "finishes \<lparr>ys_services = sv, ys_library = lib, ys_unicode = \<not> ascii_only opts\<rparr> (yaml_stream sv es)
    (export_yaml_ex sv lib r opts frames) (yaml_stream sv es)"
proof -
  define y where "y = \<lparr>ys_services = sv, ys_library = lib, ys_unicode = \<not> ascii_only opts\<rparr>"
  let ?stream = "yaml_stream sv es"
  have y: "handled y ?stream" using sv lib short by (simp add: handled_def y_def)
  have event: "emits y ?stream (yaml_emitter_emit y ev) [ev]" for ev using emits_event y by (simp add: handled_def)
  have starts: "ye_starts lib" using lib by (simp add: handles_def)
  have dist: "distinct (map fst es)" using distinct by simp
  from document_roots [OF wf reads dist sv] obtain ses ses' where empty: "hdr_root_count (rd_header r) = 0 \<longleftrightarrow> es = []"
    and table: "load_sort_entries (rd_base r) (hdr_root_index_offset (rd_header r)) (unat (hdr_root_count (rd_header r))) = Inr ses"
      "sort_with_compare sv (sort_less_by_key sv r) ses = Inr ses'" "lists r (reads hash r) ses' (sort_key fst es)" by blast
  let ?evs = "concat (map (\<lambda>(k, v). [quoted_event k] @ yaml_events (ys_services y) (key_sorted v)) (sort_key fst es))"
  have entries: "emits y ?stream (steps (map (yaml_emit_entry y r (yaml_emit_value y r opts frames)) ses')) ?evs"
  proof (rule emits_entries [OF y table(3)])
    fix k v p assume kv: "(k, v) \<in> set (sort_key fst es)" "reads hash r p v"
    have "fits_stack frames v" "keys_distinct v" "arrays_fit v" using stack distinct ok kv(1) by fastforce+
    then show "emits y ?stream (yaml_emit_value y r opts frames p) (yaml_events (ys_services y) (key_sorted v))"
      using emits_value [OF y sorting wf _ kv(2)] by blast
  qed
  have sorted: "key_sorted (Block es) = Block (map (\<lambda>(k, v). (k, key_sorted v)) (sort_key fst es))" by (simp add: sort_key_sorted [OF dist])
  have shown: "?stream = [Stream_start] @ [Document_start] @ [Mapping_start] @ ?evs @ [Mapping_end] @ [Document_end, Stream_end]"
    unfolding yaml_stream_def sorted by (simp add: comp_def case_prod_unfold y_def)
  have body: "finishes y ?stream (if hdr_root_count (rd_header r) = 0
      then steps [yaml_emitter_emit y Mapping_start, yaml_emitter_emit y Mapping_end, yaml_finish y True]
      else yaml_entries sv r opts return_false (hdr_root_index_offset (rd_header r)) (hdr_root_count (rd_header r)) (yaml_root_mapping y r opts frames))
    ([Mapping_start] @ ?evs @ [Mapping_end] @ [Document_end, Stream_end])"
  proof (cases "es = []")
    case True
    have "finishes y ?stream (steps [yaml_emitter_emit y Mapping_start, yaml_emitter_emit y Mapping_end, yaml_finish y True])
        ([Mapping_start] @ [Mapping_end] @ [Document_end, Stream_end])"
      by (intro finishes_Cons finishes_one event finishes_end [OF y])
    then show ?thesis using True empty by simp
  next
    case False
    then show ?thesis using empty finishes_table [where emit = "yaml_root_mapping y r opts frames", OF sv sorting table(1,2) finishes_mapping [OF y entries]] by simp
  qed
  have "finishes y ?stream (steps [yaml_emitter_emit y Stream_start, yaml_emitter_emit y Document_start, if hdr_root_count (rd_header r) = 0
      then steps [yaml_emitter_emit y Mapping_start, yaml_emitter_emit y Mapping_end, yaml_finish y True]
      else yaml_entries sv r opts return_false (hdr_root_index_offset (rd_header r)) (hdr_root_count (rd_header r)) (yaml_root_mapping y r opts frames)])
    ([Stream_start] @ [Document_start] @ [Mapping_start] @ ?evs @ [Mapping_end] @ [Document_end, Stream_end])"
    by (intro finishes_Cons finishes_one event body)
  then have "finishes y ?stream (export_yaml_ex sv lib r opts frames) ?stream"
    unfolding export_yaml_ex_def Let_def shown [symmetric] y_def [symmetric] using starts by simp
  then show ?thesis by (simp only: y_def)
qed

lemma start_in_step: "in_step y start_state"
  by (simp add: in_step_def start_state_def offered_def)

lemma finishes_start:
  assumes "finishes y stream a stream"
  shows "\<exists>s. a start_state = Inr (True, s) \<and> es_events s = taken stream \<and>
    es_output s = offered (ys_library y) (ys_unicode y) (taken stream) @ concat (ye_flush (ys_library y) (ys_unicode y) (taken stream))"
proof -
  have "es_events start_state @ taken stream = taken stream" by (simp add: start_state_def)
  with assms start_in_step [of y] show ?thesis unfolding finishes_def by blast
qed

end
