(* ===== verification/Yaml_Properties.thy ===== *)
theory Yaml_Properties
  imports Export_Properties Yaml_Text
begin

text \<open>What the YAML exporter promises, and what it passes to the emitter when an event could not be initialised.\<close>

text \<open>C38. The YAML export emits the document. When the reader gives a document (distinct keys in every block, texts
  shorter than \<open>2^31\<close> bytes, nesting that the stack has room for), bc_core does what it documents and libyaml
  handles the event stream of the document, the YAML export with sorted keys succeeds; the events it
  has passed to the emitter are that stream, and its output is all that the emitter has offered.\<close>

theorem yaml_export_emits_the_document:
  assumes "obliging sv" and "sort_keys opts" and "wf_reader r" and "reads_roots hash r es"
    and "keys_distinct (Block es)" and "arrays_fit (Block es)" and "fits_stack (Suc frames) (Block es)"
    and "handles lib (yaml_stream sv es)" and "\<forall>ev \<in> set (yaml_stream sv es). short_event ev"
  shows "\<exists>s. export_yaml_ex sv lib r opts frames start_state = Inr (True, s) \<and> es_events s = taken (yaml_stream sv es) \<and>
    es_output s = offered lib (\<not> ascii_only opts) (taken (yaml_stream sv es)) @ concat (ye_flush lib (\<not> ascii_only opts) (taken (yaml_stream sv es)))"
  using finishes_start [OF finishes_export [OF assms]] by simp

text \<open>An emitter that writes every text on a line of its own.\<close>

definition line_emitter :: yaml_library where
  "line_emitter = \<lparr>ye_starts = True, ye_initialises = \<lambda>_. True,
     ye_chunks = \<lambda>_ _ ev. case ev of Scalar _ _ t _ \<Rightarrow> [t, [0x0A]] | _ \<Rightarrow> [], ye_takes = \<lambda>_ _ _. True, ye_flush = \<lambda>_ _. []\<rparr>"

lemma sample_stream:
  "yaml_stream plain_services sample_doc = [Stream_start, Document_start, Mapping_start, quoted_event [0x6B], Mapping_start, quoted_event [0x61],
     Sequence_start, quoted_event [0x61], plain_event [0x34, 0x32], Sequence_end, Mapping_end, Mapping_end, Document_end, Stream_end]"
  by code_simp

theorem yaml_export_emits_the_document_witness:
  "\<exists>s. export_yaml_ex plain_services line_emitter (document_reader (\<lambda>_. 7) (doc_roots (\<lambda>_. 7) sample_doc)) None 3 start_state = Inr (True, s) \<and>
     es_output s = [0x6B, 0x0A, 0x61, 0x0A, 0x61, 0x0A, 0x34, 0x32, 0x0A]"
proof -
  let ?ts = "doc_roots (\<lambda>_. 7) sample_doc" and ?r = "document_reader (\<lambda>_. 7) (doc_roots (\<lambda>_. 7) sample_doc)"
  have small: "file_length ?ts < 2 ^ 32" using sample_file_length by simp
  have roots: "reads_roots (\<lambda>_. 7) ?r sample_doc" by (rule document_reads_roots [OF small sample_fits sample_distinct])
  have limits: "sort_keys None" "arrays_fit (Block sample_doc)" by (simp_all add: sort_keys_def sample_doc_def)
  have lib: "handles line_emitter (yaml_stream plain_services sample_doc)" by (simp add: handles_def line_emitter_def)
  have short: "\<forall>ev \<in> set (yaml_stream plain_services sample_doc). short_event ev"
    unfolding sample_stream by (simp add: quoted_event_def plain_event_def)
  have written: "offered line_emitter True (taken (yaml_stream plain_services sample_doc)) = [0x6B, 0x0A, 0x61, 0x0A, 0x61, 0x0A, 0x34, 0x32, 0x0A]"
    "concat (ye_flush line_emitter True (taken (yaml_stream plain_services sample_doc))) = []"
    unfolding sample_stream by code_simp+
  have unicode: "(\<not> ascii_only None) = True" by (simp add: ascii_only_def)
  from yaml_export_emits_the_document [OF obliging_plain limits(1) document_wf [OF small] roots sample_distinct limits(2) _ lib short, of 3]
  show ?thesis unfolding unicode written using sample_doc_facts(2) by auto
qed

text \<open>The key \<open>k\<close> could not be initialised, for want of memory, say: the emitter is given an event that was never written.\<close>

lemma uninitialised_event_is_emitted:
  "export_yaml_ex plain_services (line_emitter\<lparr>ye_initialises := \<lambda>ev. ev \<noteq> quoted_event [0x6B]\<rparr>) sample_reader None 3 start_state = Inl Uninitialised_event"
  by code_simp

end
