(* ===== verification/Files.thy ===== *)
theory Files
  imports Document_Properties
begin

text \<open>
  The operations on files: \<open>bc_hrbl_writer_finalize_to_file\<close>, \<open>bc_hrbl_reader_open\<close> and \<open>bc_hrbl_verify_file\<close>
  around the operations on buffers. The operating system and the mapping of files by bc_io are
  parameters.
\<close>

section \<open>Writing a file\<close>

text \<open>
  \<open>fs_opens\<close> and \<open>fs_closes\<close>: do \<open>open\<close> and \<open>close\<close> succeed? \<open>fs_write k n\<close> is the answer of the \<open>k\<close>-th \<open>write\<close>, of \<open>n\<close>
  bytes: a number of bytes that were written, an interruption (\<open>EINTR\<close>) or another error.
\<close>

datatype write_result = Wrote nat | Interrupted | Write_error

record file_system =
  fs_opens :: bool
  fs_write :: "nat \<Rightarrow> nat \<Rightarrow> write_result"
  fs_closes :: bool

text \<open>
  The loop: the number of calls so far, the bytes written so far and the contents of the file. It goes on as long as calls are
  interrupted or write nothing, so it may not end.
\<close>

partial_function (option) write_loop :: "file_system \<Rightarrow> bytes \<Rightarrow> nat \<Rightarrow> nat \<Rightarrow> bytes \<Rightarrow> (bool \<times> bytes) option" where
  "write_loop fs buffer calls written_total contents =
     (if written_total < length buffer then
        (case fs_write fs calls (length buffer - written_total) of
           Write_error \<Rightarrow> Some (False, contents)
         | Interrupted \<Rightarrow> write_loop fs buffer (calls + 1) written_total contents
         | Wrote n \<Rightarrow> write_loop fs buffer (calls + 1) (written_total + n) (contents @ take n (drop written_total buffer)))
      else Some (True, contents))"

declare write_loop.simps [code]

text \<open>The result, the contents of the file unless it was not opened, and the writer; \<open>None\<close> if it never returns.\<close>

definition writer_finalize_to_file ::
    "(bytes \<Rightarrow> u64) \<Rightarrow> platform \<Rightarrow> file_system \<Rightarrow> writer \<Rightarrow> (fault + bool \<times> bytes option \<times> writer) option" where
  "writer_finalize_to_file hash pf fs w =
     (case writer_finalize_to_buffer hash pf w of
        Inl f \<Rightarrow> Some (Inl f)
      | Inr (None, w) \<Rightarrow> Some (Inr (False, None, w))
      | Inr (Some buffer, w) \<Rightarrow>
          if \<not> fs_opens fs then Some (Inr (False, None, w))
          else case write_loop fs buffer 0 0 [] of
            None \<Rightarrow> None
          | Some (ok, contents) \<Rightarrow> Some (Inr (ok \<and> fs_closes fs, Some contents, w)))"

section \<open>Reading a file\<close>

text \<open>
  Mapping a file: \<open>None\<close> if \<open>bc_io_mmap_file\<close> fails, \<open>Some None\<close> if \<open>bc_io_mmap_get_data\<close> does, and otherwise the bytes.
  The operations give the number of mappings that are left as well.
\<close>

definition reader_open :: "platform \<Rightarrow> bool \<Rightarrow> bytes option option \<Rightarrow> (stop + reader) \<times> nat" where
  "reader_open pf has_out_reader mapped =
     (if \<not> has_out_reader then (Inl Rejected, 0)
      else case mapped of
        None \<Rightarrow> (Inl Rejected, 0)
      | Some None \<Rightarrow> (Inl Rejected, 0)
      | Some (Some data) \<Rightarrow>
          (case reader_attach_buffer pf data of
             Inl Rejected \<Rightarrow> (Inl Rejected, 0)
           | Inl Bad_read \<Rightarrow> (Inl Bad_read, 1)
           | Inr reader \<Rightarrow> (Inr reader, 1)))"

definition verify_file :: "(bytes \<Rightarrow> u64) \<Rightarrow> bool \<Rightarrow> bytes option option \<Rightarrow> (stop + status) \<times> nat" where
  "verify_file hash context_created mapped =
     (if \<not> context_created then (Inr V_IO, 0)
      else case mapped of
        None \<Rightarrow> (Inr V_IO, 0)
      | Some None \<Rightarrow> (Inr V_IO, 0)
      | Some (Some data) \<Rightarrow>
          (case verify_buffer hash data of
             Inl e \<Rightarrow> (Inl e, 1)
           | Inr status \<Rightarrow> (Inr status, 0)))"

section \<open>The loop ends, and writes the buffer\<close>

definition writes_within :: "file_system \<Rightarrow> bool" where
  "writes_within fs \<longleftrightarrow> (\<forall>k m n. fs_write fs k m = Wrote n \<longrightarrow> n \<le> m)"

text \<open>No call fails, and again and again one writes something.\<close>

definition progresses :: "file_system \<Rightarrow> bool" where
  "progresses fs \<longleftrightarrow> (\<forall>k m. fs_write fs k m \<noteq> Write_error) \<and> (\<forall>k. \<exists>j \<ge> k. \<forall>m > 0. \<exists>n > 0. fs_write fs j m = Wrote n)"

lemma take_more: "take k buffer @ take n (drop k buffer) = take (k + n) buffer"
  by (simp add: take_add)

lemma write_loop_progress:
  assumes progress: "progresses fs" and within: "writes_within fs"
  shows "k \<le> length buffer \<Longrightarrow> write_loop fs buffer calls k (take k buffer) = Some (True, buffer)"
proof (induction "length buffer - k" arbitrary: k calls rule: less_induct)
  case less
  show ?case
  proof (cases "k < length buffer")
    case False
    then show ?thesis by (subst write_loop.simps) simp
  next
    case True
    obtain j where j: "j \<ge> calls" "\<And>m. 0 < m \<Longrightarrow> \<exists>n > 0. fs_write fs j m = Wrote n"
      using progress unfolding progresses_def by blast
    from j(1) show ?thesis
    proof (induction "j - calls" arbitrary: calls)
      case 0
      then have "calls = j" by simp
      obtain n where n: "0 < n" "fs_write fs j (length buffer - k) = Wrote n" using j(2) True by (metis zero_less_diff)
      then have "k + n \<le> length buffer" using within True unfolding writes_within_def by fastforce
      then have "write_loop fs buffer (calls + 1) (k + n) (take (k + n) buffer) = Some (True, buffer)"
        using n(1) True by (intro less) simp_all
      then show ?case using n(2) True \<open>calls = j\<close> by (subst write_loop.simps) (simp add: take_more)
    next
      case (Suc d)
      have next_call: "write_loop fs buffer (calls + 1) k (take k buffer) = Some (True, buffer)" using Suc by (intro Suc(1)) simp_all
      consider "fs_write fs calls (length buffer - k) = Interrupted" | "fs_write fs calls (length buffer - k) = Wrote 0"
        | n where "fs_write fs calls (length buffer - k) = Wrote n" "0 < n"
        using progress unfolding progresses_def by (metis gr0I write_result.exhaust)
      then show ?case
      proof cases
        case 3
        then have "k + n \<le> length buffer" using within True unfolding writes_within_def by fastforce
        then have "write_loop fs buffer (calls + 1) (k + n) (take (k + n) buffer) = Some (True, buffer)"
          using 3(2) True by (intro less) simp_all
        then show ?thesis using 3 True by (subst write_loop.simps) (simp add: take_more)
      qed (use next_call True in \<open>subst write_loop.simps, simp\<close>)+
    qed
  qed
qed

text \<open>Whatever happens, the file holds the beginning of the buffer, all of it if the loop succeeds.\<close>

definition begins :: "file_system \<Rightarrow> bytes \<Rightarrow> nat \<Rightarrow> bytes \<Rightarrow> bool \<times> bytes \<Rightarrow> bool" where
  "begins fs buffer k contents result \<longleftrightarrow> (writes_within fs \<longrightarrow> k \<le> length buffer \<longrightarrow> contents = take k buffer \<longrightarrow>
     (\<exists>n \<le> length buffer. snd result = take n buffer \<and> (fst result \<longrightarrow> n = length buffer)))"

lemma write_loop_contents:
  assumes "write_loop fs buffer calls k contents = Some result"
  shows "begins fs buffer k contents result"
proof (rule write_loop.raw_induct [where P = "\<lambda>fs buffer calls. begins fs buffer", OF _ assms])
  fix loop fs buffer calls k contents result
  assume loop: "\<And>fs buffer calls k contents result. loop fs buffer calls k contents = Some result \<Longrightarrow> begins fs buffer k contents result"
    and step: "(if k < length buffer then
        (case fs_write fs calls (length buffer - k) of
           Wrote n \<Rightarrow> loop fs buffer (calls + 1) (k + n) (contents @ take n (drop k buffer))
         | Interrupted \<Rightarrow> loop fs buffer (calls + 1) k contents
         | Write_error \<Rightarrow> Some (False, contents))
      else Some (True, contents)) = Some result"
  show "begins fs buffer k contents result"
    unfolding begins_def
  proof (intro impI)
    assume within: "writes_within fs" and start: "k \<le> length buffer" "contents = take k buffer"
    show "\<exists>n \<le> length buffer. snd result = take n buffer \<and> (fst result \<longrightarrow> n = length buffer)"
    proof (cases "k < length buffer")
      case True
      show ?thesis
      proof (cases "fs_write fs calls (length buffer - k)")
        case (Wrote n)
        then have "k + n \<le> length buffer" using within True unfolding writes_within_def by fastforce
        moreover have "loop fs buffer (calls + 1) (k + n) (contents @ take n (drop k buffer)) = Some result"
          using step True Wrote by simp
        from loop [OF this] have "begins fs buffer (k + n) (contents @ take n (drop k buffer)) result" .
        ultimately show ?thesis using within start by (simp add: begins_def take_more)
      next
        case Interrupted
        then have "loop fs buffer (calls + 1) k contents = Some result" using step True by simp
        from loop [OF this] show ?thesis using within start by (simp add: begins_def)
      next
        case Write_error
        then show ?thesis using step True start by (intro exI [of _ k]) auto
      qed
    qed (use step start in auto)
  qed
qed

text \<open>The mapping is kept exactly for a reader, and the operations on a mapped file are those on its bytes.\<close>

lemma reader_open_eq:
  "fst (reader_open pf True (Some (Some data))) = reader_open_buffer pf data"
  "reader_open pf has_out mapped = (Inr r, n) \<Longrightarrow> n = 1"
  "reader_open pf has_out mapped = (Inl Rejected, n) \<Longrightarrow> n = 0"
  by (auto simp: reader_open_def reader_open_buffer_def split: sum.splits stop.splits option.splits if_splits)

lemma verify_file_eq:
  "fst (verify_file hash True (Some (Some data))) = verify_buffer hash data"
  "verify_file hash created mapped = (Inr status, n) \<Longrightarrow> n = 0"
  by (auto simp: verify_file_def split: sum.splits option.splits if_splits)

text \<open>C39. Finalising to a file ends and writes the file: however often calls are interrupted or write only a part,
  as long as none fails and again and again one writes something, the whole buffer is written and the result is that
  of closing the file. Whatever happens, the file holds a beginning of the buffer, and the whole of it when the result is true.\<close>

theorem finalisation_to_file_completes:
  assumes "writer_finalize_to_buffer hash pf w = Inr (Some out, w')" and "writes_within fs"
  shows "(fs_opens fs \<and> progresses fs \<longrightarrow> writer_finalize_to_file hash pf fs w = Some (Inr (fs_closes fs, Some out, w'))) \<and>
    (\<forall>ok contents. writer_finalize_to_file hash pf fs w = Some (Inr (ok, Some contents, w')) \<longrightarrow>
      (\<exists>n. contents = take n out) \<and> (ok \<longrightarrow> contents = out))"
proof -
  have "writer_finalize_to_file hash pf fs w = Some (Inr (fs_closes fs, Some out, w'))" if "fs_opens fs" "progresses fs"
    using write_loop_progress [OF that(2) assms(2), of 0 out 0] that(1) assms(1) by (simp add: writer_finalize_to_file_def)
  moreover have "(\<exists>n. contents = take n out) \<and> (ok \<longrightarrow> contents = out)"
    if "writer_finalize_to_file hash pf fs w = Some (Inr (ok, Some contents, w'))" for ok contents
  proof -
    have "fs_opens fs" using that assms(1) by (cases "fs_opens fs") (simp_all add: writer_finalize_to_file_def)
    then have result: "(case write_loop fs out 0 0 [] of None \<Rightarrow> None | Some (ok, contents) \<Rightarrow> Some (Inr (ok \<and> fs_closes fs, Some contents, w')))
        = Some (Inr (ok, Some contents, w') :: fault + _)"
      using that assms(1) by (simp add: writer_finalize_to_file_def)
    then obtain p where p: "write_loop fs out 0 0 [] = Some p" by (cases "write_loop fs out 0 0 []") simp_all
    obtain b where b: "write_loop fs out 0 0 [] = Some (b, contents)" "ok \<longrightarrow> b"
    proof
      show "write_loop fs out 0 0 [] = Some (fst p, contents)" "ok \<longrightarrow> fst p" using result by (auto simp: p split: prod.splits)
    qed
    then show ?thesis using write_loop_contents [OF b(1)] assms(2) by (auto simp: begins_def)
  qed
  ultimately show ?thesis by blast
qed

text \<open>A file system in which every other call is interrupted and the others write seven bytes at most.\<close>

definition busy_files :: file_system where
  "busy_files = \<lparr>fs_opens = True, fs_write = \<lambda>k m. if even k then Interrupted else Wrote (min m 7), fs_closes = True\<rparr>"

theorem finalisation_to_file_completes_witness:
  "\<exists>w w' w'' oks. writer_create roomy None = Some w \<and> run_calls (\<lambda>_. 7) roomy w (doc_roots_calls sample_doc) = Some (oks, w') \<and>
     writer_finalize_to_file (\<lambda>_. 7) roomy busy_files w' = Some (Inr (True, Some sample_file, w''))"
proof -
  obtain w where w: "writer_create roomy None = Some w" "w_worker_count w = 0" using roomy_writer by blast
  have small: "file_length (doc_roots (\<lambda>_. 7) sample_doc) < 2 ^ 32" using sample_file_length by simp
  obtain w' w'' oks where run: "run_calls (\<lambda>_. 7) roomy w (doc_roots_calls sample_doc) = Some (oks, w')"
    "writer_finalize_to_buffer (\<lambda>_. 7) roomy w' = Inr (Some sample_file, w'')"
    using written_forest [OF w(1) generous_roomy sample_fits small] w(2) by (auto simp: schedule_fair_def sample_written)
  have "writes_within busy_files" by (simp add: writes_within_def busy_files_def)
  moreover have "\<exists>j \<ge> k. \<forall>m > 0. \<exists>n > 0. fs_write busy_files j m = Wrote n" for k
    by (rule exI [of _ "2 * k + 1"]) (simp add: busy_files_def)
  then have "progresses busy_files" unfolding progresses_def by (simp add: busy_files_def)
  moreover have "fs_opens busy_files" "fs_closes busy_files" by (simp_all add: busy_files_def)
  ultimately have "writer_finalize_to_file (\<lambda>_. 7) roomy busy_files w' = Some (Inr (True, Some sample_file, w''))"
    using finalisation_to_file_completes [OF run(2)] by simp
  then show ?thesis using w(1) run(1) by blast
qed

text \<open>Calls that write nothing keep the loop going for ever.\<close>

lemma write_loop_stalls:
  assumes "fs_write fs = (\<lambda>_ _. Wrote 0)" and "k < length buffer"
  shows "write_loop fs buffer calls k contents = None"
proof (rule ccontr)
  assume "\<not> ?thesis"
  then obtain result where "write_loop fs buffer calls k contents = Some result" by blast
  then have "fs_write fs = (\<lambda>_ _. Wrote 0) \<longrightarrow> \<not> k < length buffer"
    by (rule write_loop.raw_induct [where P = "\<lambda>fs buffer calls k contents result. fs_write fs = (\<lambda>_ _. Wrote 0) \<longrightarrow> \<not> k < length buffer", rotated])
      fastforce
  then show False using assms by blast
qed

end
