(* ===== verification/Spec2Isabelle.thy ===== *)
theory Spec2Isabelle
  imports Reader_Properties Writer_Properties Document_Properties Large_Files Convert_Properties Export_Properties Yaml_Properties Files
begin

text \<open>
  A verification development for bc-hrbl, a C library for a binary format of hierarchical documents:
  blocks of keyed values, arrays, and scalars.

  \<^bold>\<open>The program.\<close> The writer (\<open>src/writer/bc_hrbl_writer.c\<close>) takes a document as a sequence of calls
  and builds a tree of nodes in an arena. The encoder (\<open>src/writer/bc_hrbl_writer_encoder.c\<close>) sorts the
  entries of every block by the hash of their keys, interns all strings, lays the nodes out and assembles
  the file: header, root index, nodes, string pool, footer with checksum. The verifier
  (\<open>src/verify/bc_hrbl_verify.c\<close>) checks a file, the reader (\<open>src/reader/bc_hrbl_reader.c\<close>) navigates
  one in place by offsets. JSON text is converted to a file by calls of the writer
  (\<open>src/convert/bc_hrbl_convert_json.c\<close>), and a file is exported as JSON, INI or YAML text
  (\<open>src/export/bc_hrbl_export.c\<close>, \<open>bc_hrbl_export_ini.c\<close>, \<open>bc_hrbl_export_yaml.c\<close>) through the
  internal accessors of the reader.

  \<^bold>\<open>Theories and sources.\<close> Definitions keep the names of the C functions without the prefix \<open>bc_hrbl_\<close>.
  \<^item> \<open>Prelude\<close>: machine words, the error monad \<open>bindE\<close>, byte strings and \<open>fetch\<close>, the read of a range; the locale \<open>byte_codec\<close>.
  \<^item> \<open>Format\<close>: \<open>bc_hrbl_types.h\<close> and \<open>bc_hrbl_format_internal.h\<close>, kinds, packed structs, alignment.
  \<^item> \<open>Platform\<close>: memory requests, threads and their schedule as the parameter \<open>platform\<close>, and the error codes.
  \<^item> \<open>Writer\<close>: the writer with its arena as a list of nodes that point to each other by index;
    \<open>Pending_Sort\<close>, \<open>String_Pool\<close> and \<open>Encoder\<close>: the encoder, in the order of its file. It collects the strings in
    the arena, where their offsets stay cached in the nodes, and emits the forest that the nodes form then.
  \<^item> \<open>Reader\<close>, \<open>Key_Index\<close>, \<open>Paths\<close>: the reader, its binary search, path resolution, values and iterators;
    \<open>Utf8\<close> and \<open>Verify\<close>: the verifier.
  \<^item> \<open>Convert\<close>: the conversion of JSON, over the tree that json-c gives.
  \<^item> \<open>Export_Output\<close>, \<open>Export_Json\<close>, \<open>Export_Ini\<close>, \<open>Export_Yaml\<close>: the exporters, as actions on the output.
  \<^item> \<open>Files\<close>: finalising to a file, opening and verifying a file, around the operations on buffers.

  \<^bold>\<open>How the C is modelled.\<close> Sizes and offsets have their width as words; additions wrap as they do in C. An early
  return is a value of a sum type. A read outside the buffer is a value of its own, \<open>Bad_read\<close> in the
  reader and \<open>Bad_memory\<close> in the exporters, so theorems can rule it out or exhibit it. The writer's
  pointers are indices, and a null pointer that is followed makes the operation \<open>None\<close>. The worker
  threads of the radix sort are step sequences under a schedule that is arbitrary for every sort and pass. An exporter is a function on a
  state of the bytes written, the requests made and the failure flag; \<open>steps\<close> is the sequence of calls
  each of which returns on failure.

  \<^bold>\<open>Parameters.\<close> Code outside the repository is an argument of the definitions: the hash (\<open>bc_hrbl_hash64\<close> is
  one call of XXH3), \<open>platform\<close>, the tokener and accessors of json-c, the writer, formatters, memory comparison and sort of
  bc_core (\<open>services\<close>), the emitter of libyaml (\<open>yaml_library\<close>), and the operating system (\<open>file_system\<close>).
  What a theorem needs of them is a named hypothesis: \<open>generous\<close> (memory is granted), \<open>schedule_fair\<close> (every worker runs to
  its end), \<open>obliging\<close> (bc_core succeeds and does what it documents), \<open>documented\<close> (answers of json-c),
  \<open>handles\<close> (libyaml takes a well-formed stream), \<open>progresses\<close> and \<open>writes_within\<close> (\<open>write\<close>).

  \<^bold>\<open>What is proved.\<close>
  \<^item> \<open>Reader_Properties\<close>: no accessor of an open reader leaves the buffer; lookup, path resolution and iteration
    refine their specification; the UTF-8 check and the verifier accept exactly the specified files, and a header whose
    region offsets wrap escapes both (an exhibited bug).
  \<^item> \<open>Writer_Properties\<close>: the sorts agree with stable sorting, alone and threaded; interning shares equal
    strings and ends; the calls of the writer build the abstract forest of \<open>build_steps\<close>, and fail after a failure.
  \<^item> \<open>Layout\<close> and \<open>Serialisation\<close>: the encoder refines \<open>document_file\<close>, a function of the forest alone. \<open>Caching\<close>: collecting
    the strings in the arena does what it does to the forest, and changes the cached offsets only. \<open>Finalize\<close> puts these
    together for a writer. \<open>Written_File\<close>, \<open>Roundtrip\<close> and \<open>Document_Properties\<close>: such a file opens, verifies and is read
    back, entry by entry, and finalising in between makes no difference to it.
  \<^item> \<open>Large_Files\<close>: a document whose file is over 4 GiB is written without an error, and one of its keys is not found.
  \<^item> \<open>Convert_Properties\<close>: conversion makes the calls of the document; rejected text is reported; integers keep
    their value; converted text reads back.
  \<^item> \<open>Export_Rules\<close> holds the rules for actions, in the locale \<open>logging\<close> that is interpreted for the output and for
    the YAML events; \<open>Tables\<close> relates the tables of a file to a document in key order; \<open>Json_Text\<close>,
    \<open>Ini_Text\<close> and \<open>Yaml_Text\<close> specify the texts and events of a document. \<open>Export_Properties\<close> and \<open>Yaml_Properties\<close>:
    the exporters print the document, JSON and INI strings decode to what was written, writing stops at the first
    refusal, and, for every hash function, two verified files make the JSON exporter overflow the stack or leave the buffer.
  \<^item> \<open>Files\<close>: finalising to a file ends when the calls make progress, and the file holds the buffer.

  \<^bold>\<open>Bounds and fuel.\<close> The probes of the string pool carry the number of slots as fuel; the theorem on termination of
  interning shows that it is never used up. The walks over the arena carry the number of nodes, which bounds their depth and
  length. Path resolution, the binary search and the sorts end by their measures. The exporters
  recurse over offsets that may form a cycle: \<open>frames\<close> is the depth of the stack, a document that is less deep
  (\<open>fits_stack\<close>) is exported, and no depth is enough for a cyclic file. The recursion of the encoder (\<open>collect_nodes\<close>,
  \<open>emit_value\<close>) and of the conversion follows trees, so it ends, but no bound on its stack is modelled: a document nested
  deeply enough would overflow it in C. The write loop of \<open>Files\<close> is a partial function, as calls that
  write nothing keep it going for ever. The round-trip theorems need a file under 4 GiB, which the writer does not check.
  Sizes of memory requests and of buffers already allocated are natural numbers: those of the radix sort agree with
  \<open>size_t\<close> for fewer than \<open>2 ^ 51\<close> workers, the others because the objects they count exist.

  \<^bold>\<open>Not modelled.\<close> Releasing memory, which has no effect on the values above; json-c, libyaml, bc_core, bc_io, xxhash and
  the operating system, which are parameters; the tests, benchmarks and fuzzers. The values of doubles are their bits.
\<close>

end
